(* ===== verification/Prelude.thy ===== *)
theory Prelude
  imports Main "HOL-Library.Word"
begin

text \<open>
  Shared vocabulary of the development: the machine types of the C code (octets, and the 64-bit
  signed and unsigned integers of the amd64 build), the ASCII constants the parsers compare
  against, the return codes of \<^verbatim>\<open>src/core/ngx_core.h\<close> and
  \<^verbatim>\<open>src/http/ngx_http_request.h\<close>, the case folding macros of \<^verbatim>\<open>src/core/ngx_string.h\<close>,
  and the generic facts on lists, octets and words that several component theories use.
\<close>

section \<open>Hint collections\<close>

named_theorems byte_simps \<open>facts that decide comparisons of octets\<close>
named_theorems step_simps \<open>one-step equations of the byte machines\<close>
named_theorems frame_simps \<open>what an operation leaves unchanged\<close>

section \<open>Types\<close>

type_synonym u_char = "8 word"
type_synonym bytes = "u_char list"
type_synonym u32 = "32 word"
type_synonym u64 = "64 word"

text \<open>A C pointer into a buffer is an index; the null pointer is None.\<close>

type_synonym ptr = "nat option"

section \<open>ASCII constants\<close>

abbreviation ch_NUL :: u_char where "ch_NUL \<equiv> 0"
abbreviation ch_TAB :: u_char where "ch_TAB \<equiv> 9"
abbreviation LF :: u_char where "LF \<equiv> 10"
abbreviation CR :: u_char where "CR \<equiv> 13"
abbreviation ch_space :: u_char where "ch_space \<equiv> 32"
abbreviation ch_excl :: u_char where "ch_excl \<equiv> 33"
abbreviation ch_dquote :: u_char where "ch_dquote \<equiv> 34"
abbreviation ch_hash :: u_char where "ch_hash \<equiv> 35"
abbreviation ch_dollar :: u_char where "ch_dollar \<equiv> 36"
abbreviation ch_percent :: u_char where "ch_percent \<equiv> 37"
abbreviation ch_amp :: u_char where "ch_amp \<equiv> 38"
abbreviation ch_squote :: u_char where "ch_squote \<equiv> 39"
abbreviation ch_lparen :: u_char where "ch_lparen \<equiv> 40"
abbreviation ch_rparen :: u_char where "ch_rparen \<equiv> 41"
abbreviation ch_star :: u_char where "ch_star \<equiv> 42"
abbreviation ch_plus :: u_char where "ch_plus \<equiv> 43"
abbreviation ch_comma :: u_char where "ch_comma \<equiv> 44"
abbreviation ch_minus :: u_char where "ch_minus \<equiv> 45"
abbreviation ch_dot :: u_char where "ch_dot \<equiv> 46"
abbreviation ch_slash :: u_char where "ch_slash \<equiv> 47"
abbreviation ch_0 :: u_char where "ch_0 \<equiv> 48"
abbreviation ch_1 :: u_char where "ch_1 \<equiv> 49"
abbreviation ch_9 :: u_char where "ch_9 \<equiv> 57"
abbreviation ch_colon :: u_char where "ch_colon \<equiv> 58"
abbreviation ch_semi :: u_char where "ch_semi \<equiv> 59"
abbreviation ch_lt :: u_char where "ch_lt \<equiv> 60"
abbreviation ch_eq :: u_char where "ch_eq \<equiv> 61"
abbreviation ch_gt :: u_char where "ch_gt \<equiv> 62"
abbreviation ch_quest :: u_char where "ch_quest \<equiv> 63"
abbreviation ch_A :: u_char where "ch_A \<equiv> 65"
abbreviation ch_H :: u_char where "ch_H \<equiv> 72"
abbreviation ch_P :: u_char where "ch_P \<equiv> 80"
abbreviation ch_T :: u_char where "ch_T \<equiv> 84"
abbreviation ch_Z :: u_char where "ch_Z \<equiv> 90"
abbreviation ch_lbracket :: u_char where "ch_lbracket \<equiv> 91"
abbreviation ch_backslash :: u_char where "ch_backslash \<equiv> 92"
abbreviation ch_rbracket :: u_char where "ch_rbracket \<equiv> 93"
abbreviation ch_underscore :: u_char where "ch_underscore \<equiv> 95"
abbreviation ch_a :: u_char where "ch_a \<equiv> 97"
abbreviation ch_f :: u_char where "ch_f \<equiv> 102"
abbreviation ch_z :: u_char where "ch_z \<equiv> 122"
abbreviation ch_tilde :: u_char where "ch_tilde \<equiv> 126"
abbreviation ch_DEL :: u_char where "ch_DEL \<equiv> 127"

text \<open>The octets of a literal, as a C string literal without its terminating zero.\<close>

definition octets :: "string \<Rightarrow> bytes" where
  "octets s = map (\<lambda>c. word_of_nat (of_char c)) s"

lemma octets_Cons [simp]: "octets (c # s) = word_of_nat (of_char c) # octets s" "octets [] = []"
  by (simp_all add: octets_def)

lemma length_octets [simp]: "length (octets s) = length s"
  by (simp add: octets_def)

section \<open>Return codes and limits\<close>

datatype ngx_rc =
    NGX_OK | NGX_ERROR | NGX_AGAIN | NGX_BUSY | NGX_DONE | NGX_DECLINED
  | NGX_HTTP_PARSE_HEADER_DONE
  | NGX_HTTP_PARSE_INVALID_METHOD | NGX_HTTP_PARSE_INVALID_REQUEST
  | NGX_HTTP_PARSE_INVALID_VERSION | NGX_HTTP_PARSE_INVALID_09_METHOD
  | NGX_HTTP_PARSE_INVALID_HEADER

text \<open>Where a function returns a number or \<open>NGX_ERROR\<close> in one \<open>ngx_int_t\<close>, the error is -1.\<close>

abbreviation NGX_ERROR_INT :: int where "NGX_ERROR_INT \<equiv> -1"

abbreviation NGX_MAX_INT_T_VALUE :: int where "NGX_MAX_INT_T_VALUE \<equiv> 9223372036854775807"
abbreviation NGX_MAX_SIZE_T_VALUE :: int where "NGX_MAX_SIZE_T_VALUE \<equiv> 9223372036854775807"
abbreviation NGX_MAX_OFF_T_VALUE :: int where "NGX_MAX_OFF_T_VALUE \<equiv> 9223372036854775807"
abbreviation NGX_MAX_TIME_T_VALUE :: int where "NGX_MAX_TIME_T_VALUE \<equiv> 9223372036854775807"

section \<open>Octets\<close>

unbundle bit_operations_syntax

definition is_digit :: "u_char \<Rightarrow> bool" where
  "is_digit c \<longleftrightarrow> ch_0 \<le> c \<and> c \<le> ch_9"

definition is_lower :: "u_char \<Rightarrow> bool" where
  "is_lower c \<longleftrightarrow> ch_a \<le> c \<and> c \<le> ch_z"

definition is_upper :: "u_char \<Rightarrow> bool" where
  "is_upper c \<longleftrightarrow> ch_A \<le> c \<and> c \<le> ch_Z"

definition ngx_tolower :: "u_char \<Rightarrow> u_char" where
  "ngx_tolower c = (if ch_A \<le> c \<and> c \<le> ch_Z then c OR 0x20 else c)"

definition ngx_toupper :: "u_char \<Rightarrow> u_char" where
  "ngx_toupper c = (if ch_a \<le> c \<and> c \<le> ch_z then c AND NOT 0x20 else c)"

text \<open>A bitmap of 256 bits held in eight 32-bit words: \<open>map[ch >> 5] & (1U << (ch & 0x1f))\<close>.\<close>

definition bitmap_test :: "u32 list \<Rightarrow> u_char \<Rightarrow> bool" where
  "bitmap_test m ch \<longleftrightarrow> m ! unat (drop_bit 5 ch) AND push_bit (unat (ch AND 0x1f)) 1 \<noteq> 0"

text \<open>
  A statement about every octet is a statement about 256 numerals; a statement about a range of
  octets is one about the numerals of the range.
\<close>

definition octet_list :: bytes where
  "octet_list = map word_of_nat [0..<256]"

lemma upt_256: "[0..<256] =
    [0, 1, 2, 3, 4, 5, 6, 7, 8, 9, 10, 11, 12, 13, 14, 15, 16, 17, 18, 19, 20, 21, 22, 23, 24,
     25, 26, 27, 28, 29, 30, 31, 32, 33, 34, 35, 36, 37, 38, 39, 40, 41, 42, 43, 44, 45, 46,
     47, 48, 49, 50, 51, 52, 53, 54, 55, 56, 57, 58, 59, 60, 61, 62, 63, 64, 65, 66, 67, 68,
     69, 70, 71, 72, 73, 74, 75, 76, 77, 78, 79, 80, 81, 82, 83, 84, 85, 86, 87, 88, 89, 90,
     91, 92, 93, 94, 95, 96, 97, 98, 99, 100, 101, 102, 103, 104, 105, 106, 107, 108, 109, 110,
     111, 112, 113, 114, 115, 116, 117, 118, 119, 120, 121, 122, 123, 124, 125, 126, 127, 128,
     129, 130, 131, 132, 133, 134, 135, 136, 137, 138, 139, 140, 141, 142, 143, 144, 145, 146,
     147, 148, 149, 150, 151, 152, 153, 154, 155, 156, 157, 158, 159, 160, 161, 162, 163, 164,
     165, 166, 167, 168, 169, 170, 171, 172, 173, 174, 175, 176, 177, 178, 179, 180, 181, 182,
     183, 184, 185, 186, 187, 188, 189, 190, 191, 192, 193, 194, 195, 196, 197, 198, 199, 200,
     201, 202, 203, 204, 205, 206, 207, 208, 209, 210, 211, 212, 213, 214, 215, 216, 217, 218,
     219, 220, 221, 222, 223, 224, 225, 226, 227, 228, 229, 230, 231, 232, 233, 234, 235, 236,
     237, 238, 239, 240, 241, 242, 243, 244, 245, 246, 247, 248, 249, 250, 251, 252, 253, 254,
     255]"
  by code_simp

lemma octet_list_eq: "octet_list =
    [0, 1, 2, 3, 4, 5, 6, 7, 8, 9, 10, 11, 12, 13, 14, 15, 16, 17, 18, 19, 20, 21, 22, 23, 24,
     25, 26, 27, 28, 29, 30, 31, 32, 33, 34, 35, 36, 37, 38, 39, 40, 41, 42, 43, 44, 45, 46,
     47, 48, 49, 50, 51, 52, 53, 54, 55, 56, 57, 58, 59, 60, 61, 62, 63, 64, 65, 66, 67, 68,
     69, 70, 71, 72, 73, 74, 75, 76, 77, 78, 79, 80, 81, 82, 83, 84, 85, 86, 87, 88, 89, 90,
     91, 92, 93, 94, 95, 96, 97, 98, 99, 100, 101, 102, 103, 104, 105, 106, 107, 108, 109, 110,
     111, 112, 113, 114, 115, 116, 117, 118, 119, 120, 121, 122, 123, 124, 125, 126, 127, 128,
     129, 130, 131, 132, 133, 134, 135, 136, 137, 138, 139, 140, 141, 142, 143, 144, 145, 146,
     147, 148, 149, 150, 151, 152, 153, 154, 155, 156, 157, 158, 159, 160, 161, 162, 163, 164,
     165, 166, 167, 168, 169, 170, 171, 172, 173, 174, 175, 176, 177, 178, 179, 180, 181, 182,
     183, 184, 185, 186, 187, 188, 189, 190, 191, 192, 193, 194, 195, 196, 197, 198, 199, 200,
     201, 202, 203, 204, 205, 206, 207, 208, 209, 210, 211, 212, 213, 214, 215, 216, 217, 218,
     219, 220, 221, 222, 223, 224, 225, 226, 227, 228, 229, 230, 231, 232, 233, 234, 235, 236,
     237, 238, 239, 240, 241, 242, 243, 244, 245, 246, 247, 248, 249, 250, 251, 252, 253, 254,
     255]"
  by (simp add: octet_list_def upt_256)

lemma all_octets:
  assumes "list_all P octet_list"
  shows "P (c :: u_char)"
proof -
  have "unat c < 256" using unsigned_less[of c] by simp
  then have "c \<in> set octet_list"
    by (auto simp: octet_list_def image_iff intro!: bexI[of _ "unat c"])
  then show ?thesis using assms by (simp add: list_all_iff)
qed

lemma octet_less: "unat (c :: u_char) < 256"
  using unsigned_less[of c] by simp

text \<open>A statement about a hexadecimal digit's value is one about 16 numerals.\<close>

lemma below_16:
  assumes "n < 16" and "list_all P [0, 1, 2, 3, 4, 5, 6, 7, 8, 9, 10, 11, 12, 13, 14, 15]"
  shows "P (n :: nat)"
proof -
  have "n \<in> set [0, 1, 2, 3, 4, 5, 6, 7, 8, 9, 10, 11, 12, 13, 14, 15]"
    using assms(1) by (simp add: numeral_eq_Suc less_Suc_eq)
  then show ?thesis using assms(2) unfolding list_all_iff by (rule bspec[rotated])
qed

lemma nibbles:
  "unat (drop_bit 4 c) = unat c div 16" "unat (c AND 0xf) = unat (c :: u_char) mod 16"
proof -
  show "unat (drop_bit 4 c) = unat c div 16" by (subst unat_drop_bit_eq) (simp add: drop_bit_eq_div)
  have "c AND 0xf = take_bit 4 c" by (simp add: take_bit_eq_mask mask_numeral)
  then have "unat (c AND 0xf) = take_bit 4 (unat c)" by (simp only: unsigned_take_bit_eq)
  then show "unat (c AND 0xf) = unat c mod 16" by (simp add: take_bit_eq_mod)
qed

lemma bitmap_test_bit: "bitmap_test m c \<longleftrightarrow> bit (m ! (unat c div 32)) (unat c mod 32)"
proof -
  have "unat (drop_bit 5 c) = unat c div 32"
    by (subst unat_drop_bit_eq) (simp add: drop_bit_eq_div)
  moreover have "unat (c AND 0x1f) = unat c mod 32"
  proof -
    have "c AND 0x1f = take_bit 5 c" by (simp add: take_bit_eq_mask mask_numeral)
    then have "unat (c AND 0x1f) = take_bit 5 (unat c)" by (simp only: unsigned_take_bit_eq)
    then show ?thesis by (simp only: take_bit_eq_mod) simp
  qed
  ultimately show ?thesis
    by (simp add: bitmap_test_def and_exp_eq_0_iff_not_bit push_bit_eq_mult)
qed

lemma octet_range:
  assumes "lo \<le> c" and "c \<le> hi" and "list_all P (map word_of_nat [unat lo..<Suc (unat hi)])"
  shows "P (c :: u_char)"
proof -
  have "unat lo \<le> unat c" "unat c \<le> unat hi"
    using assms by (simp_all add: word_le_nat_alt)
  then have "unat c \<in> set [unat lo..<Suc (unat hi)]" by (simp add: less_Suc_eq_le del: upt_Suc)
  moreover have "\<forall>n \<in> set [unat lo..<Suc (unat hi)]. P (word_of_nat n)"
    using assms(3) by (simp add: list_all_iff del: upt_Suc)
  ultimately have "P (word_of_nat (unat c))" by (rule bspec[rotated])
  then show ?thesis by simp
qed

lemma fold_upper [byte_simps]: "ch_A \<le> c \<Longrightarrow> c \<le> ch_Z \<Longrightarrow> c OR 0x20 = c + 0x20"
  by (erule (1) octet_range) simp

lemma fold_lower [byte_simps]: "ch_a \<le> c \<Longrightarrow> c \<le> ch_z \<Longrightarrow> c OR 0x20 = c"
  by (erule (1) octet_range) simp

lemma ngx_tolower_upper: "ch_A \<le> c \<Longrightarrow> c \<le> ch_Z \<Longrightarrow> ngx_tolower c = c + 0x20"
  by (simp add: ngx_tolower_def fold_upper)

lemma ngx_tolower_idem [simp]: "ngx_tolower (ngx_tolower c) = ngx_tolower c"
proof (cases "ch_A \<le> c \<and> c \<le> ch_Z")
  case True
  then have "ch_A \<le> c" and "c \<le> ch_Z" by simp_all
  then show ?thesis by (rule octet_range) (simp add: ngx_tolower_def)
qed (auto simp: ngx_tolower_def)

lemma ngx_tolower_eq_0 [simp]: "ngx_tolower c = 0 \<longleftrightarrow> c = 0"
proof (cases "ch_A \<le> c \<and> c \<le> ch_Z")
  case True
  then have "ch_A \<le> c" and "c \<le> ch_Z" by simp_all
  then show ?thesis by (rule octet_range) (simp add: ngx_tolower_def)
qed (auto simp: ngx_tolower_def)

lemma digit_value:
  assumes "is_digit c"
  shows "unat (c - ch_0) = unat c - 48" and "unat (c - ch_0) \<le> 9"
proof -
  have "ch_0 \<le> c" "c \<le> ch_9" using assms by (simp_all add: is_digit_def)
  then have "unat (c - ch_0) = unat c - 48 \<and> unat (c - ch_0) \<le> 9"
    by (rule octet_range) simp
  then show "unat (c - ch_0) = unat c - 48" and "unat (c - ch_0) \<le> 9" by simp_all
qed

section \<open>Slices of a buffer\<close>

text \<open>Every octet of \<open>b\<close> from \<open>i\<close> up to but not including \<open>j\<close> satisfies \<open>P\<close>.\<close>

definition slice_all :: "(u_char \<Rightarrow> bool) \<Rightarrow> bytes \<Rightarrow> nat \<Rightarrow> nat \<Rightarrow> bool" where
  "slice_all P b i j \<longleftrightarrow> (\<forall>k. i \<le> k \<and> k < j \<longrightarrow> P (b ! k))"

lemma slice_all_Suc [simp]: "i \<le> p \<Longrightarrow> slice_all P b i (Suc p) \<longleftrightarrow> slice_all P b i p \<and> P (b ! p)"
  by (auto simp: slice_all_def less_Suc_eq)

lemma slice_all_refl [simp]: "slice_all P b i i"
  by (auto simp: slice_all_def)

text \<open>The slice itself.\<close>

definition slice :: "bytes \<Rightarrow> nat \<Rightarrow> nat \<Rightarrow> bytes" where
  "slice b i j = take (j - i) (drop i b)"

lemma slice_refl [simp]: "slice b i i = []"
  by (simp add: slice_def)

lemma slice_Suc: "i \<le> p \<Longrightarrow> p < length b \<Longrightarrow> slice b i (Suc p) = slice b i p @ [b ! p]"
  by (simp add: slice_def Suc_diff_le take_Suc_conv_app_nth)

lemma slice_middle: "i = length pre \<Longrightarrow> j = length pre + length xs \<Longrightarrow> slice (pre @ xs @ post) i j = xs"
  by (simp add: slice_def)

lemma slice_all_middle:
  "i = length pre \<Longrightarrow> j = length pre + length xs \<Longrightarrow> slice_all P (pre @ xs @ post) i j \<longleftrightarrow> list_all P xs"
proof -
  assume "i = length pre" "j = length pre + length xs"
  moreover have "(\<forall>k. length pre \<le> k \<and> k < length pre + length xs \<longrightarrow> P ((pre @ xs @ post) ! k)) \<longleftrightarrow>
      (\<forall>n < length xs. P (xs ! n))"
    by (auto simp: nth_append dest: spec[of _ "length pre + _"])
  ultimately show ?thesis by (simp add: slice_all_def list_all_length)
qed

end
