(* ===== verification/Scanner.thy ===== *)
theory Scanner
  imports Prelude
begin

text \<open>
  The common shape of the protocol parsers: \<^verbatim>\<open>for (p = b->pos; p < b->last; p++) { ch = *p;
  switch (state) ... }\<close>. One round of the loop is a step function on a state record; \<open>scan\<close> is the
  loop. A step continues, reaches \<^verbatim>\<open>goto done\<close>, or returns an error from inside the loop. The
  locale \<open>byte_machine\<close> is the contract that makes a parser resumable when its input arrives in
  pieces (the step looks at no octet after the current one); \<open>invariant_machine\<close> extends it by an
  invariant that every step keeps.
\<close>

datatype 's verdict =
    Continue 's          \<comment> \<open>\<^verbatim>\<open>break\<close> out of the switch: next octet\<close>
  | Done 's ngx_rc       \<comment> \<open>\<^verbatim>\<open>goto done\<close>: the octet is consumed\<close>
  | Fail 's ngx_rc       \<comment> \<open>\<^verbatim>\<open>return\<close> from inside the loop\<close>

type_synonym 's byte_step = "bytes \<Rightarrow> nat \<Rightarrow> u_char \<Rightarrow> 's \<Rightarrow> 's verdict"

function scan :: "'s byte_step \<Rightarrow> bytes \<Rightarrow> nat \<Rightarrow> 's \<Rightarrow> 's verdict \<times> nat" where
  "scan step buf p s =
     (if p < length buf then
        (case step buf p (buf ! p) s of
           Continue s' \<Rightarrow> scan step buf (Suc p) s'
         | Done s' rc \<Rightarrow> (Done s' rc, p)
         | Fail s' rc \<Rightarrow> (Fail s' rc, p))
      else (Continue s, p))"
  by pat_completeness auto
termination
  by (relation "measure (\<lambda>(step, buf, p, s). length buf - p)") auto

declare scan.simps [simp del]

lemma scan_end [simp]: "length buf \<le> p \<Longrightarrow> scan step buf p s = (Continue s, p)"
  by (simp add: scan.simps)

lemma scan_step [step_simps]:
  "p < length buf \<Longrightarrow> scan step buf p s =
     (case step buf p (buf ! p) s of
        Continue s' \<Rightarrow> scan step buf (Suc p) s'
      | Done s' rc \<Rightarrow> (Done s' rc, p)
      | Fail s' rc \<Rightarrow> (Fail s' rc, p))"
  by (simp add: scan.simps)

text \<open>The loop on a buffer written as what is behind, the current octet and what is ahead.\<close>

lemma scan_at:
  assumes "p = length pre"
  shows "scan step (pre @ c # post) p s =
     (case step (pre @ c # post) p c s of
        Continue s' \<Rightarrow> scan step (pre @ c # post) (Suc p) s'
      | Done s' rc \<Rightarrow> (Done s' rc, p)
      | Fail s' rc \<Rightarrow> (Fail s' rc, p))"
  unfolding assms by (simp add: scan_step)

lemma scan_one:
  "p = length pre \<Longrightarrow> step (pre @ c # post) p c s = Continue s' \<Longrightarrow>
     scan step (pre @ c # post) p s = scan step (pre @ c # post) (Suc p) s'"
  by (simp add: scan_at)

text \<open>A run of octets on which every step continues.\<close>

lemma scan_run:
  assumes "p = length pre"
    and "\<And>us c vs s. xs = us @ c # vs \<Longrightarrow> I (length pre + length us) s \<Longrightarrow>
           step (pre @ xs @ post) (length pre + length us) c s = Continue (f (length pre + length us) c s) \<and>
           I (Suc (length pre + length us)) (f (length pre + length us) c s)"
    and "I p s"
  shows "\<exists>s'. scan step (pre @ xs @ post) p s = scan step (pre @ xs @ post) (p + length xs) s' \<and>
           I (p + length xs) s'"
  using assms
proof (induction xs arbitrary: p pre s)
  case Nil
  then show ?case by auto
next
  case (Cons x xs)
  let ?s = "f p x s"
  have one: "step (pre @ (x # xs) @ post) p x s = Continue ?s \<and> I (Suc p) ?s"
    using Cons.prems(2)[of "[]" x xs s] Cons.prems(1,3) by simp
  have "scan step (pre @ (x # xs) @ post) p s = scan step ((pre @ [x]) @ xs @ post) (Suc p) ?s"
    using one Cons.prems(1) scan_at[of p pre step x "xs @ post" s] by simp
  moreover have "\<exists>s'. scan step ((pre @ [x]) @ xs @ post) (Suc p) ?s =
      scan step ((pre @ [x]) @ xs @ post) (Suc p + length xs) s' \<and> I (Suc p + length xs) s'"
  proof (rule Cons.IH)
    show "Suc p = length (pre @ [x])" using Cons.prems(1) by simp
    show "I (Suc p) ?s" using one by simp
    fix us c vs s
    assume "xs = us @ c # vs" and "I (length (pre @ [x]) + length us) s"
    then show "step ((pre @ [x]) @ xs @ post) (length (pre @ [x]) + length us) c s =
        Continue (f (length (pre @ [x]) + length us) c s) \<and>
        I (Suc (length (pre @ [x]) + length us)) (f (length (pre @ [x]) + length us) c s)"
      using Cons.prems(2)[of "x # us" c vs s] by simp
  qed
  ultimately show ?case by simp
qed

lemma scan_pos_le: "p \<le> length buf \<Longrightarrow> snd (scan step buf p s) \<le> length buf"
proof (induction step buf p s rule: scan.induct)
  case (1 step buf p s)
  then show ?case
    by (cases "p < length buf"; cases "step buf p (buf ! p) s") (auto simp: scan.simps[of step buf p s])
qed

lemma scan_Continue_end:
  "p \<le> length buf \<Longrightarrow> scan step buf p s = (Continue s', q) \<Longrightarrow> q = length buf"
proof (induction step buf p s rule: scan.induct)
  case (1 step buf p s)
  then show ?case
    by (cases "p < length buf"; cases "step buf p (buf ! p) s") (auto simp: scan.simps[of step buf p s])
qed

lemma scan_Done_step:
  "scan step b p s = (Done s' rc, q) \<Longrightarrow> \<exists>p' s0. step b p' (b ! p') s0 = Done s' rc \<and> q = p'"
proof (induction step b p s rule: scan.induct)
  case (1 step buf p s)
  then show ?case
    by (cases "p < length buf"; cases "step buf p (buf ! p) s") (auto simp: scan.simps[of step buf p s])
qed

lemma scan_Done_less: "scan step b p s = (Done s' rc, q) \<Longrightarrow> q < length b"
proof (induction step b p s rule: scan.induct)
  case (1 step buf p s)
  then show ?case
    by (cases "p < length buf"; cases "step buf p (buf ! p) s") (auto simp: scan.simps[of step buf p s])
qed

lemma scan_Fail_step:
  "scan step b p s = (Fail s' rc, q) \<Longrightarrow> \<exists>p' s0. step b p' (b ! p') s0 = Fail s' rc \<and> q = p'"
proof (induction step b p s rule: scan.induct)
  case (1 step buf p s)
  then show ?case
    by (cases "p < length buf"; cases "step buf p (buf ! p) s") (auto simp: scan.simps[of step buf p s])
qed

lemma scan_skip:
  assumes "\<And>p c. c \<in> set xs \<Longrightarrow> step (pre @ xs @ post) p c s = Continue s"
  shows "scan step (pre @ xs @ post) (length pre) s = scan step (pre @ xs @ post) (length pre + length xs) s"
  using scan_run[of "length pre" pre xs "\<lambda>_ s'. s' = s" step post "\<lambda>_ _ s. s" s] assms by fastforce


text \<open>What every step keeps, in whatever way it ends, the loop keeps.\<close>

fun verdict_state :: "'s verdict \<Rightarrow> 's" where
  "verdict_state (Continue s) = s"
| "verdict_state (Done s rc) = s"
| "verdict_state (Fail s rc) = s"

lemma scan_keeps:
  assumes "\<And>b p c s. Q s \<Longrightarrow> Q (verdict_state (step b p c s))"
  shows "Q s \<Longrightarrow> Q (verdict_state (fst (scan step b p s)))"
proof (induction "length b - p" arbitrary: p s)
  case (Suc n)
  then have "p < length b" by simp
  then show ?case
    using Suc.hyps(1)[of "Suc p"] Suc.hyps(2) Suc.prems assms[of s b p "b ! p"]
    by (cases "step b p (b ! p) s") (auto simp: scan_step)
qed simp

section \<open>Resumable machines\<close>

text \<open>
  \<open>causal\<close>: a step depends on the buffer only up to and including the octet it is given, so more
  input arriving later cannot change it.
\<close>

locale byte_machine =
  fixes step :: "'s byte_step"
  assumes causal: "p < length b \<Longrightarrow> step (b @ more) p ((b @ more) ! p) s = step b p (b ! p) s"
begin

lemma scan_append:
  "p \<le> length b \<Longrightarrow> scan step (b @ more) p s =
     (case scan step b p s of
        (Continue s', q) \<Rightarrow> scan step (b @ more) q s'
      | (v, q) \<Rightarrow> (v, q))"
proof (induction "length b - p" arbitrary: p s)
  case 0
  then show ?case by simp
next
  case (Suc n)
  then have p: "p < length b" by simp
  show ?case
  proof (cases "step b p (b ! p) s")
    case (Continue s')
    with Suc.hyps(1)[of "Suc p" s'] Suc.hyps(2) p show ?thesis
      by (simp add: scan_step causal)
  qed (use p in \<open>simp_all add: scan_step causal\<close>)
qed

lemma scan_stable:
  assumes "p \<le> length b" and "scan step b p s = (v, q)" and "\<And>s'. v \<noteq> Continue s'"
  shows "scan step (b @ more) p s = (v, q)"
  using assms by (cases v) (auto simp: scan_append)

end

locale invariant_machine = byte_machine step for step :: "'s byte_step" +
  fixes inv :: "bytes \<Rightarrow> nat \<Rightarrow> 's \<Rightarrow> bool"
    and post :: "bytes \<Rightarrow> nat \<Rightarrow> 's \<Rightarrow> ngx_rc \<Rightarrow> bool"
  assumes inv_step: "p < length b \<Longrightarrow> inv b p s \<Longrightarrow> step b p (b ! p) s = Continue s' \<Longrightarrow> inv b (Suc p) s'"
    and inv_done: "p < length b \<Longrightarrow> inv b p s \<Longrightarrow> step b p (b ! p) s = Done s' rc \<Longrightarrow> post b p s' rc"
begin

lemma scan_inv:
  "p \<le> length b \<Longrightarrow> inv b p s \<Longrightarrow> scan step b p s = (Continue s', q) \<Longrightarrow> inv b q s'"
proof (induction "length b - p" arbitrary: p s)
  case 0
  then show ?case by simp
next
  case (Suc n)
  then have p: "p < length b" by simp
  show ?case
  proof (cases "step b p (b ! p) s")
    case (Continue s1)
    with Suc.prems p have "inv b (Suc p) s1" and "scan step b (Suc p) s1 = (Continue s', q)"
      by (auto simp: scan_step intro: inv_step)
    then show ?thesis using Suc.hyps(1)[of "Suc p" s1] Suc.hyps(2) p by simp
  qed (use Suc.prems p in \<open>simp_all add: scan_step\<close>)
qed

lemma scan_done:
  "p \<le> length b \<Longrightarrow> inv b p s \<Longrightarrow> scan step b p s = (Done s' rc, q) \<Longrightarrow> q < length b \<and> post b q s' rc"
proof (induction "length b - p" arbitrary: p s)
  case 0
  then show ?case by simp
next
  case (Suc n)
  then have p: "p < length b" by simp
  show ?case
  proof (cases "step b p (b ! p) s")
    case (Continue s1)
    with Suc.prems p have "inv b (Suc p) s1" and "scan step b (Suc p) s1 = (Done s' rc, q)"
      by (auto simp: scan_step intro: inv_step)
    then show ?thesis using Suc.hyps(1)[of "Suc p" s1] Suc.hyps(2) p by simp
  qed (use Suc.prems p in \<open>auto simp: scan_step intro: inv_done\<close>)
qed

end

end
