(* ===== verification/HttpRequestLine.thy ===== *)
theory HttpRequestLine
  imports Scanner
begin

text \<open>
  The request line parser \<^verbatim>\<open>ngx_http_parse_request_line\<close> of \<^verbatim>\<open>src/http/ngx_http_parse.c\<close>.
  The switch over its 25 states is split into one definition per group of cases
  (\<open>rl_start\<close>, \<open>rl_method\<close>, ..., \<open>rl_almost_done\<close>); \<open>request_line_step\<close> is the switch,
  \<open>ngx_http_parse_request_line\<close> the loop with what follows it. The fields of \<^verbatim>\<open>ngx_http_request_t\<close>
  the parser writes are the record \<open>http_request\<close>, an extension of \<open>http_uri\<close> (the fields it shares
  with \<^verbatim>\<open>ngx_http_parse_uri\<close> and \<^verbatim>\<open>ngx_http_parse_complex_uri\<close>). Pointers are indices into the
  header buffer. The build is not Windows, so the \<^verbatim>\<open>NGX_WIN32\<close> branches are absent, as they are
  from the compiled code.
\<close>

section \<open>State\<close>

text \<open>The bitmap \<^verbatim>\<open>usual\<close>: octets that need no attention inside a URI.\<close>

definition usual :: "u32 list" where
  "usual = [0x00000000, 0x7fff37d6, 0xffffffff, 0x7fffffff,
            0xffffffff, 0xffffffff, 0xffffffff, 0xffffffff]"

record http_uri =
  uri_start :: ptr
  uri_end :: ptr
  uri_ext :: ptr
  args_start :: ptr
  complex_uri :: bool
  quoted_uri :: bool
  plus_in_uri :: bool
  empty_path_in_uri :: bool

datatype rl_state =
    sw_start | sw_method | sw_spaces_before_uri | sw_schema | sw_schema_slash
  | sw_schema_slash_slash | sw_host_start | sw_host | sw_host_end | sw_host_ip_literal
  | sw_port | sw_after_slash_in_uri | sw_check_uri | sw_uri | sw_http_09 | sw_http_H
  | sw_http_HT | sw_http_HTT | sw_http_HTTP | sw_first_major_digit | sw_major_digit
  | sw_first_minor_digit | sw_minor_digit | sw_spaces_after_digit | sw_almost_done

datatype http_method =
    NGX_HTTP_UNKNOWN | NGX_HTTP_GET | NGX_HTTP_HEAD | NGX_HTTP_POST | NGX_HTTP_PUT
  | NGX_HTTP_DELETE | NGX_HTTP_MKCOL | NGX_HTTP_COPY | NGX_HTTP_MOVE | NGX_HTTP_OPTIONS
  | NGX_HTTP_PROPFIND | NGX_HTTP_PROPPATCH | NGX_HTTP_LOCK | NGX_HTTP_UNLOCK
  | NGX_HTTP_PATCH | NGX_HTTP_TRACE | NGX_HTTP_CONNECT

record http_request = http_uri +
  r_state :: rl_state
  r_method :: http_method
  request_start :: ptr
  request_end :: ptr
  method_end :: ptr
  schema_start :: ptr
  schema_end :: ptr
  host_start :: ptr
  host_end :: ptr
  http_protocol_data :: ptr
  http_minor :: nat
  http_major :: nat
  http_version :: nat

text \<open>The request as \<^verbatim>\<open>ngx_http_create_request\<close> leaves it: zeroed, the method unknown.\<close>

definition new_request :: http_request where
  "new_request = \<lparr> uri_start = None, uri_end = None, uri_ext = None, args_start = None,
     complex_uri = False, quoted_uri = False, plus_in_uri = False, empty_path_in_uri = False,
     r_state = sw_start, r_method = NGX_HTTP_UNKNOWN, request_start = None, request_end = None,
     method_end = None, schema_start = None, schema_end = None, host_start = None,
     host_end = None, http_protocol_data = None, http_minor = 0, http_major = 0,
     http_version = 0 \<rparr>"

section \<open>The cases of the switch\<close>

text \<open>\<^verbatim>\<open>(ch < 'A' || ch > 'Z') && ch != '_' && ch != '-'\<close> refuses an octet of a method.\<close>

definition method_char :: "u_char \<Rightarrow> bool" where
  "method_char ch \<longleftrightarrow> (ch_A \<le> ch \<and> ch \<le> ch_Z) \<or> ch = ch_underscore \<or> ch = ch_minus"

definition rl_start :: "nat \<Rightarrow> u_char \<Rightarrow> http_request \<Rightarrow> http_request verdict" where
  "rl_start p ch r =
     (let r = r\<lparr>request_start := Some p\<rparr> in
      if ch = CR \<or> ch = LF then Continue r
      else if \<not> method_char ch then Fail r NGX_HTTP_PARSE_INVALID_METHOD
      else Continue (r\<lparr>r_state := sw_method\<rparr>))"

text \<open>
  The method table: \<open>m\<close> is the text from \<^verbatim>\<open>r->request_start\<close> up to and including the space at
  \<open>p\<close>, \<open>n\<close> is \<^verbatim>\<open>p - m\<close>. An unknown method leaves \<^verbatim>\<open>r->method\<close> as it was.
\<close>

definition method_of :: "bytes \<Rightarrow> nat \<Rightarrow> http_method \<Rightarrow> http_method" where
  "method_of m n old =
    (if n = 3 then
       (if take 4 m = octets ''GET '' then NGX_HTTP_GET
        else if take 4 m = octets ''PUT '' then NGX_HTTP_PUT
        else old)
     else if n = 4 then
       (if m ! 1 = 0x4F then
          (if take 4 m = octets ''POST'' then NGX_HTTP_POST
           else if take 4 m = octets ''COPY'' then NGX_HTTP_COPY
           else if take 4 m = octets ''MOVE'' then NGX_HTTP_MOVE
           else if take 4 m = octets ''LOCK'' then NGX_HTTP_LOCK
           else old)
        else if take 4 m = octets ''HEAD'' then NGX_HTTP_HEAD
        else old)
     else if n = 5 then
       (if take 5 m = octets ''MKCOL'' then NGX_HTTP_MKCOL
        else if take 5 m = octets ''PATCH'' then NGX_HTTP_PATCH
        else if take 5 m = octets ''TRACE'' then NGX_HTTP_TRACE
        else old)
     else if n = 6 then
       (if take 6 m = octets ''DELETE'' then NGX_HTTP_DELETE
        else if take 6 m = octets ''UNLOCK'' then NGX_HTTP_UNLOCK
        else old)
     else if n = 7 then
       (if take 8 m = octets ''CONNECT '' then NGX_HTTP_CONNECT
        else if take 8 m = octets ''OPTIONS '' then NGX_HTTP_OPTIONS
        else old)
     else if n = 8 then
       (if take 8 m = octets ''PROPFIND'' then NGX_HTTP_PROPFIND else old)
     else if n = 9 then
       (if take 9 m = octets ''PROPPATCH'' then NGX_HTTP_PROPPATCH else old)
     else old)"

definition rl_method :: "bytes \<Rightarrow> nat \<Rightarrow> u_char \<Rightarrow> http_request \<Rightarrow> http_request verdict" where
  "rl_method buf p ch r =
    (if ch = ch_space then
       (case request_start r of
          Some m \<Rightarrow>
            Continue (r\<lparr>method_end := Some (p - 1),
                        r_method := method_of (take (Suc p - m) (drop m buf)) (p - m) (r_method r),
                        r_state := sw_spaces_before_uri\<rparr>)
        | None \<Rightarrow> Fail r NGX_ERROR)
     else if \<not> method_char ch then Fail r NGX_HTTP_PARSE_INVALID_METHOD
     else Continue r)"

definition alpha_fold :: "u_char \<Rightarrow> bool" where
  "alpha_fold ch \<longleftrightarrow> (let c = ch OR 0x20 in ch_a \<le> c \<and> c \<le> ch_z)"

definition rl_spaces_before_uri :: "nat \<Rightarrow> u_char \<Rightarrow> http_request \<Rightarrow> http_request verdict" where
  "rl_spaces_before_uri p ch r =
    (if ch = ch_slash then Continue (r\<lparr>uri_start := Some p, r_state := sw_after_slash_in_uri\<rparr>)
     else if alpha_fold ch then Continue (r\<lparr>schema_start := Some p, r_state := sw_schema\<rparr>)
     else if ch = ch_space then Continue r
     else Fail r NGX_HTTP_PARSE_INVALID_REQUEST)"

definition rl_schema :: "nat \<Rightarrow> u_char \<Rightarrow> http_request \<Rightarrow> http_request verdict" where
  "rl_schema p ch r =
    (if alpha_fold ch then Continue r
     else if is_digit ch \<or> ch = ch_plus \<or> ch = ch_minus \<or> ch = ch_dot then Continue r
     else if ch = ch_colon then Continue (r\<lparr>schema_end := Some p, r_state := sw_schema_slash\<rparr>)
     else Fail r NGX_HTTP_PARSE_INVALID_REQUEST)"

text \<open>A state that accepts exactly one octet.\<close>

definition rl_expect :: "u_char \<Rightarrow> rl_state \<Rightarrow> u_char \<Rightarrow> http_request \<Rightarrow> http_request verdict" where
  "rl_expect c next ch r =
    (if ch = c then Continue (r\<lparr>r_state := next\<rparr>) else Fail r NGX_HTTP_PARSE_INVALID_REQUEST)"

text \<open>
  What follows the host or the port. For an absolute URI with no path the single slash of the
  scheme's \<^verbatim>\<open>://\<close> stands for the path.
\<close>

definition rl_after_authority :: "nat \<Rightarrow> u_char \<Rightarrow> http_request \<Rightarrow> http_request verdict" where
  "rl_after_authority p ch r =
    (if ch = ch_slash then Continue (r\<lparr>uri_start := Some p, r_state := sw_after_slash_in_uri\<rparr>)
     else if ch = ch_quest then
       Continue (r\<lparr>uri_start := Some p, args_start := Some (p + 1), empty_path_in_uri := True,
                   r_state := sw_uri\<rparr>)
     else if ch = ch_space then
       Continue (r\<lparr>uri_start := map_option (\<lambda>e. e + 1) (schema_end r),
                   uri_end := map_option (\<lambda>e. e + 2) (schema_end r), r_state := sw_http_09\<rparr>)
     else Fail r NGX_HTTP_PARSE_INVALID_REQUEST)"

definition rl_host_end :: "nat \<Rightarrow> u_char \<Rightarrow> http_request \<Rightarrow> http_request verdict" where
  "rl_host_end p ch r =
    (let r = r\<lparr>host_end := Some p\<rparr> in
     if ch = ch_colon then Continue (r\<lparr>r_state := sw_port\<rparr>)
     else rl_after_authority p ch r)"

definition rl_host :: "nat \<Rightarrow> u_char \<Rightarrow> http_request \<Rightarrow> http_request verdict" where
  "rl_host p ch r =
    (if alpha_fold ch then Continue r
     else if is_digit ch \<or> ch = ch_dot \<or> ch = ch_minus then Continue r
     else rl_host_end p ch r)"

definition rl_host_start :: "nat \<Rightarrow> u_char \<Rightarrow> http_request \<Rightarrow> http_request verdict" where
  "rl_host_start p ch r =
    (let r = r\<lparr>host_start := Some p\<rparr> in
     if ch = ch_lbracket then Continue (r\<lparr>r_state := sw_host_ip_literal\<rparr>)
     else rl_host p ch (r\<lparr>r_state := sw_host\<rparr>))"

definition ip_literal_char :: "u_char \<Rightarrow> bool" where
  "ip_literal_char ch \<longleftrightarrow>
     is_digit ch \<or> alpha_fold ch \<or> ch = ch_colon
     \<or> ch \<in> {ch_minus, ch_dot, ch_underscore, ch_tilde}
     \<or> ch \<in> {ch_excl, ch_dollar, ch_amp, ch_squote, ch_lparen, ch_rparen, ch_star, ch_plus,
             ch_comma, ch_semi, ch_eq}"

definition rl_host_ip_literal :: "u_char \<Rightarrow> http_request \<Rightarrow> http_request verdict" where
  "rl_host_ip_literal ch r =
    (if ip_literal_char ch then Continue r
     else if ch = ch_rbracket then Continue (r\<lparr>r_state := sw_host_end\<rparr>)
     else Fail r NGX_HTTP_PARSE_INVALID_REQUEST)"

definition rl_port :: "nat \<Rightarrow> u_char \<Rightarrow> http_request \<Rightarrow> http_request verdict" where
  "rl_port p ch r = (if is_digit ch then Continue r else rl_after_authority p ch r)"

text \<open>\<^verbatim>\<open>goto done\<close>: what follows the label, up to the final return.\<close>

definition rl_finish :: "nat \<Rightarrow> http_request \<Rightarrow> http_request verdict" where
  "rl_finish p r =
    (let r = (if request_end r = None then r\<lparr>request_end := Some p\<rparr> else r);
         r = r\<lparr>http_version := http_major r * 1000 + http_minor r, r_state := sw_start\<rparr>
     in if http_version r = 9 \<and> r_method r \<noteq> NGX_HTTP_GET
        then Done r NGX_HTTP_PARSE_INVALID_09_METHOD
        else Done r NGX_OK)"

text \<open>The end of a URI: a space, or the end of an HTTP/0.9 line.\<close>

definition rl_uri_end :: "nat \<Rightarrow> u_char \<Rightarrow> http_request \<Rightarrow> http_request verdict" where
  "rl_uri_end p ch r =
    (let r = r\<lparr>uri_end := Some p\<rparr> in
     if ch = ch_space then Continue (r\<lparr>r_state := sw_http_09\<rparr>)
     else if ch = CR then Continue (r\<lparr>http_minor := 9, r_state := sw_almost_done\<rparr>)
     else rl_finish p (r\<lparr>http_minor := 9\<rparr>))"

definition uri_terminator :: "u_char \<Rightarrow> bool" where
  "uri_terminator ch \<longleftrightarrow> ch = ch_space \<or> ch = CR \<or> ch = LF"

definition rl_after_slash_in_uri :: "nat \<Rightarrow> u_char \<Rightarrow> http_request \<Rightarrow> http_request verdict" where
  "rl_after_slash_in_uri p ch r =
    (if bitmap_test usual ch then Continue (r\<lparr>r_state := sw_check_uri\<rparr>)
     else if uri_terminator ch then rl_uri_end p ch r
     else if ch = ch_dot then Continue (r\<lparr>complex_uri := True, r_state := sw_uri\<rparr>)
     else if ch = ch_percent then Continue (r\<lparr>quoted_uri := True, r_state := sw_uri\<rparr>)
     else if ch = ch_slash then Continue (r\<lparr>complex_uri := True, r_state := sw_uri\<rparr>)
     else if ch = ch_quest then Continue (r\<lparr>args_start := Some (p + 1), r_state := sw_uri\<rparr>)
     else if ch = ch_hash then Continue (r\<lparr>complex_uri := True, r_state := sw_uri\<rparr>)
     else if ch = ch_plus then Continue (r\<lparr>plus_in_uri := True\<rparr>)
     else if ch < 0x20 \<or> ch = ch_DEL then Fail r NGX_HTTP_PARSE_INVALID_REQUEST
     else Continue (r\<lparr>r_state := sw_check_uri\<rparr>))"

definition rl_check_uri :: "nat \<Rightarrow> u_char \<Rightarrow> http_request \<Rightarrow> http_request verdict" where
  "rl_check_uri p ch r =
    (if bitmap_test usual ch then Continue r
     else if ch = ch_slash then Continue (r\<lparr>uri_ext := None, r_state := sw_after_slash_in_uri\<rparr>)
     else if ch = ch_dot then Continue (r\<lparr>uri_ext := Some (p + 1)\<rparr>)
     else if uri_terminator ch then rl_uri_end p ch r
     else if ch = ch_percent then Continue (r\<lparr>quoted_uri := True, r_state := sw_uri\<rparr>)
     else if ch = ch_quest then Continue (r\<lparr>args_start := Some (p + 1), r_state := sw_uri\<rparr>)
     else if ch = ch_hash then Continue (r\<lparr>complex_uri := True, r_state := sw_uri\<rparr>)
     else if ch = ch_plus then Continue (r\<lparr>plus_in_uri := True\<rparr>)
     else if ch < 0x20 \<or> ch = ch_DEL then Fail r NGX_HTTP_PARSE_INVALID_REQUEST
     else Continue r)"

definition rl_uri :: "nat \<Rightarrow> u_char \<Rightarrow> http_request \<Rightarrow> http_request verdict" where
  "rl_uri p ch r =
    (if bitmap_test usual ch then Continue r
     else if uri_terminator ch then rl_uri_end p ch r
     else if ch = ch_hash then Continue (r\<lparr>complex_uri := True\<rparr>)
     else if ch < 0x20 \<or> ch = ch_DEL then Fail r NGX_HTTP_PARSE_INVALID_REQUEST
     else Continue r)"

definition rl_http_09 :: "nat \<Rightarrow> u_char \<Rightarrow> http_request \<Rightarrow> http_request verdict" where
  "rl_http_09 p ch r =
    (if ch = ch_space then Continue r
     else if ch = CR then Continue (r\<lparr>http_minor := 9, r_state := sw_almost_done\<rparr>)
     else if ch = LF then rl_finish p (r\<lparr>http_minor := 9\<rparr>)
     else if ch = ch_H then Continue (r\<lparr>http_protocol_data := Some p, r_state := sw_http_H\<rparr>)
     else Fail r NGX_HTTP_PARSE_INVALID_REQUEST)"

definition rl_major :: "u_char \<Rightarrow> http_request \<Rightarrow> http_request verdict" where
  "rl_major ch r =
    (if ch < ch_1 \<or> ch > ch_9 then Fail r NGX_HTTP_PARSE_INVALID_REQUEST
     else let r = r\<lparr>http_major := unat (ch - ch_0)\<rparr> in
          if http_major r > 1 then Fail r NGX_HTTP_PARSE_INVALID_VERSION
          else Continue (r\<lparr>r_state := sw_major_digit\<rparr>))"

definition rl_major_digit :: "u_char \<Rightarrow> http_request \<Rightarrow> http_request verdict" where
  "rl_major_digit ch r =
    (if ch = ch_dot then Continue (r\<lparr>r_state := sw_first_minor_digit\<rparr>)
     else if \<not> is_digit ch then Fail r NGX_HTTP_PARSE_INVALID_REQUEST
     else let r = r\<lparr>http_major := http_major r * 10 + unat (ch - ch_0)\<rparr> in
          if http_major r > 1 then Fail r NGX_HTTP_PARSE_INVALID_VERSION
          else Continue r)"

definition rl_first_minor_digit :: "u_char \<Rightarrow> http_request \<Rightarrow> http_request verdict" where
  "rl_first_minor_digit ch r =
    (if \<not> is_digit ch then Fail r NGX_HTTP_PARSE_INVALID_REQUEST
     else Continue (r\<lparr>http_minor := unat (ch - ch_0), r_state := sw_minor_digit\<rparr>))"

definition rl_minor_digit :: "nat \<Rightarrow> u_char \<Rightarrow> http_request \<Rightarrow> http_request verdict" where
  "rl_minor_digit p ch r =
    (if ch = CR then Continue (r\<lparr>r_state := sw_almost_done\<rparr>)
     else if ch = LF then rl_finish p r
     else if ch = ch_space then Continue (r\<lparr>r_state := sw_spaces_after_digit\<rparr>)
     else if \<not> is_digit ch then Fail r NGX_HTTP_PARSE_INVALID_REQUEST
     else if http_minor r > 99 then Fail r NGX_HTTP_PARSE_INVALID_REQUEST
     else Continue (r\<lparr>http_minor := http_minor r * 10 + unat (ch - ch_0)\<rparr>))"

definition rl_spaces_after_digit :: "nat \<Rightarrow> u_char \<Rightarrow> http_request \<Rightarrow> http_request verdict" where
  "rl_spaces_after_digit p ch r =
    (if ch = ch_space then Continue r
     else if ch = CR then Continue (r\<lparr>r_state := sw_almost_done\<rparr>)
     else if ch = LF then rl_finish p r
     else Fail r NGX_HTTP_PARSE_INVALID_REQUEST)"

definition rl_almost_done :: "nat \<Rightarrow> u_char \<Rightarrow> http_request \<Rightarrow> http_request verdict" where
  "rl_almost_done p ch r =
    (let r = r\<lparr>request_end := Some (p - 1)\<rparr> in
     if ch = LF then rl_finish p r else Fail r NGX_HTTP_PARSE_INVALID_REQUEST)"

section \<open>The switch and the loop\<close>

definition request_line_step :: "http_request byte_step" where
  "request_line_step buf p ch r =
    (case r_state r of
       sw_start \<Rightarrow> rl_start p ch r
     | sw_method \<Rightarrow> rl_method buf p ch r
     | sw_spaces_before_uri \<Rightarrow> rl_spaces_before_uri p ch r
     | sw_schema \<Rightarrow> rl_schema p ch r
     | sw_schema_slash \<Rightarrow> rl_expect ch_slash sw_schema_slash_slash ch r
     | sw_schema_slash_slash \<Rightarrow> rl_expect ch_slash sw_host_start ch r
     | sw_host_start \<Rightarrow> rl_host_start p ch r
     | sw_host \<Rightarrow> rl_host p ch r
     | sw_host_end \<Rightarrow> rl_host_end p ch r
     | sw_host_ip_literal \<Rightarrow> rl_host_ip_literal ch r
     | sw_port \<Rightarrow> rl_port p ch r
     | sw_after_slash_in_uri \<Rightarrow> rl_after_slash_in_uri p ch r
     | sw_check_uri \<Rightarrow> rl_check_uri p ch r
     | sw_uri \<Rightarrow> rl_uri p ch r
     | sw_http_09 \<Rightarrow> rl_http_09 p ch r
     | sw_http_H \<Rightarrow> rl_expect ch_T sw_http_HT ch r
     | sw_http_HT \<Rightarrow> rl_expect ch_T sw_http_HTT ch r
     | sw_http_HTT \<Rightarrow> rl_expect ch_P sw_http_HTTP ch r
     | sw_http_HTTP \<Rightarrow> rl_expect ch_slash sw_first_major_digit ch r
     | sw_first_major_digit \<Rightarrow> rl_major ch r
     | sw_major_digit \<Rightarrow> rl_major_digit ch r
     | sw_first_minor_digit \<Rightarrow> rl_first_minor_digit ch r
     | sw_minor_digit \<Rightarrow> rl_minor_digit p ch r
     | sw_spaces_after_digit \<Rightarrow> rl_spaces_after_digit p ch r
     | sw_almost_done \<Rightarrow> rl_almost_done p ch r)"

text \<open>
  The result is the return code, the request and \<^verbatim>\<open>b->pos\<close>. An error inside the loop leaves
  \<^verbatim>\<open>b->pos\<close> and \<^verbatim>\<open>r->state\<close> as they were at the call; the other fields keep what was written.
\<close>

definition ngx_http_parse_request_line ::
    "bytes \<Rightarrow> nat \<Rightarrow> http_request \<Rightarrow> ngx_rc \<times> http_request \<times> nat" where
  "ngx_http_parse_request_line buf pos r =
    (case scan request_line_step buf pos r of
       (Continue r', p) \<Rightarrow> (NGX_AGAIN, r', p)
     | (Done r' rc, p) \<Rightarrow> (rc, r', p + 1)
     | (Fail r' rc, p) \<Rightarrow> (rc, r'\<lparr>r_state := r_state r\<rparr>, pos))"

section \<open>Facts on the octet classes\<close>

lemma usual_iff: "bitmap_test usual c \<longleftrightarrow> 0x20 \<le> c \<and> c \<noteq> ch_space \<and> c \<noteq> ch_hash \<and> c \<noteq> ch_percent \<and>
    c \<noteq> ch_plus \<and> c \<noteq> ch_dot \<and> c \<noteq> ch_slash \<and> c \<noteq> ch_quest \<and> c \<noteq> ch_DEL"
  by (induction c rule: all_octets)
    (simp add: octet_list_eq bitmap_test_bit usual_def word_le_nat_alt)

lemmas rl_defs = rl_start_def rl_method_def rl_spaces_before_uri_def rl_schema_def rl_expect_def
  rl_after_authority_def rl_host_end_def rl_host_def rl_host_start_def rl_host_ip_literal_def
  rl_port_def rl_after_slash_in_uri_def rl_check_uri_def rl_uri_def rl_http_09_def rl_major_def
  rl_major_digit_def rl_first_minor_digit_def rl_minor_digit_def rl_spaces_after_digit_def
  rl_almost_done_def

section \<open>Resumption and the invariant of the loop\<close>

lemma method_slice_causal:
  "p < length b \<Longrightarrow> take (Suc p - m) (drop m (b @ ext)) = take (Suc p - m) (drop m b)"
  by (cases "m \<le> length b") auto

interpretation rl: byte_machine request_line_step
  by unfold_locales
    (simp add: request_line_step_def rl_method_def method_slice_causal nth_append
       split: rl_state.split option.split)

definition uri_char :: "u_char \<Rightarrow> bool" where
  "uri_char c \<longleftrightarrow> 0x20 < c \<and> c \<noteq> ch_DEL"

text \<open>The phases of the line: which fields are known in a state.\<close>

datatype rl_phase = Ph_start | Ph_method | Ph_target | Ph_colon | Ph_slashes | Ph_authority | Ph_uri | Ph_rest

fun phase_of :: "rl_state \<Rightarrow> rl_phase" where
  "phase_of sw_start = Ph_start"
| "phase_of sw_method = Ph_method"
| "phase_of sw_spaces_before_uri = Ph_target"
| "phase_of sw_schema = Ph_target"
| "phase_of sw_schema_slash = Ph_colon"
| "phase_of sw_schema_slash_slash = Ph_slashes"
| "phase_of sw_host_start = Ph_authority"
| "phase_of sw_host = Ph_authority"
| "phase_of sw_host_end = Ph_authority"
| "phase_of sw_host_ip_literal = Ph_authority"
| "phase_of sw_port = Ph_authority"
| "phase_of sw_after_slash_in_uri = Ph_uri"
| "phase_of sw_check_uri = Ph_uri"
| "phase_of sw_uri = Ph_uri"
| "phase_of _ = Ph_rest"

definition rl_tail_inv :: "bytes \<Rightarrow> nat \<Rightarrow> nat \<Rightarrow> http_request \<Rightarrow> bool" where
  "rl_tail_inv b p e r \<longleftrightarrow>
    (case phase_of (r_state r) of
       Ph_colon \<Rightarrow> \<exists>k. schema_end r = Some k \<and> e + 1 < k \<and> p = k + 1
     | Ph_slashes \<Rightarrow> \<exists>k. schema_end r = Some k \<and> e + 1 < k \<and> k + 2 \<le> p \<and> b ! (k + 1) = ch_slash
     | Ph_authority \<Rightarrow> \<exists>k. schema_end r = Some k \<and> e + 1 < k \<and> k + 3 \<le> p \<and> b ! (k + 1) = ch_slash
     | Ph_uri \<Rightarrow> \<exists>u. uri_start r = Some u \<and> e + 1 < u \<and> u < p \<and> slice_all uri_char b u p
     | Ph_rest \<Rightarrow> \<exists>u v. uri_start r = Some u \<and> uri_end r = Some v \<and> e + 1 < u \<and> u < v \<and> v < p \<and>
            slice_all uri_char b u v
     | _ \<Rightarrow> True)"

definition rl_inv :: "bytes \<Rightarrow> nat \<Rightarrow> http_request \<Rightarrow> bool" where
  "rl_inv b p r \<longleftrightarrow>
     request_end r = None \<and> http_major r \<le> 1 \<and> http_minor r \<le> 999 \<and>
     (case phase_of (r_state r) of
        Ph_start \<Rightarrow> True
      | Ph_method \<Rightarrow> \<exists>s. request_start r = Some s \<and> s < p \<and> slice_all method_char b s p
      | _ \<Rightarrow> \<exists>s e. request_start r = Some s \<and> method_end r = Some e \<and> s \<le> e \<and> e + 1 < p \<and>
             slice_all method_char b s (e + 1) \<and> b ! (e + 1) = ch_space \<and> rl_tail_inv b p e r)"

definition rl_post :: "bytes \<Rightarrow> nat \<Rightarrow> http_request \<Rightarrow> ngx_rc \<Rightarrow> bool" where
  "rl_post b q r rc \<longleftrightarrow>
     (\<exists>s e u v w. request_start r = Some s \<and> method_end r = Some e \<and> uri_start r = Some u \<and>
        uri_end r = Some v \<and> request_end r = Some w \<and> s \<le> e \<and> e + 1 < u \<and> u < v \<and> v \<le> w \<and> w \<le> q \<and>
        slice_all method_char b s (e + 1) \<and> b ! (e + 1) = ch_space \<and> slice_all uri_char b u v) \<and>
     http_version r = http_major r * 1000 + http_minor r \<and> http_major r \<le> 1 \<and> http_minor r \<le> 999"

lemma uri_char_simps [simp]:
  "bitmap_test usual c \<Longrightarrow> uri_char c"
  "\<not> c < 0x20 \<Longrightarrow> c \<noteq> 0x20 \<Longrightarrow> c \<noteq> ch_DEL \<Longrightarrow> uri_char c"
  "uri_char ch_dot" "uri_char ch_percent" "uri_char ch_slash" "uri_char ch_quest"
  "uri_char ch_hash" "uri_char ch_plus"
  by (auto simp: uri_char_def usual_iff)


lemmas rl_unfold = request_line_step_def rl_defs rl_uri_end_def uri_terminator_def
  rl_inv_def rl_tail_inv_def Let_def

lemma rl_finish_not_Continue [simp]: "rl_finish p r \<noteq> Continue r'"
  by (simp add: rl_finish_def Let_def)


lemma rl_inv_step_method:
  assumes "p < length b" and "rl_inv b p r" and "request_line_step b p (b ! p) r = Continue r'"
    and "r_state r \<in> {sw_start, sw_method, sw_spaces_before_uri, sw_schema}"
  shows "rl_inv b (Suc p) r'"
  using assms(4)
  by (elim insertE emptyE) (use assms(1-3) in \<open>auto simp: rl_unfold split: if_splits\<close>)

lemma rl_inv_step_authority:
  assumes "p < length b" and "rl_inv b p r" and "request_line_step b p (b ! p) r = Continue r'"
    and "r_state r \<in> {sw_schema_slash, sw_schema_slash_slash, sw_host_start, sw_host, sw_host_end,
           sw_host_ip_literal, sw_port}"
  shows "rl_inv b (Suc p) r'"
  using assms(4)
  by (elim insertE emptyE; use assms(1-3) in \<open>auto simp: rl_unfold split: if_splits\<close>)

lemma rl_inv_step_uri:
  assumes "p < length b" and "rl_inv b p r" and "request_line_step b p (b ! p) r = Continue r'"
    and "r_state r \<in> {sw_after_slash_in_uri, sw_check_uri, sw_uri, sw_http_09}"
  shows "rl_inv b (Suc p) r'"
  using assms(4)
  by (elim insertE emptyE; use assms(1-3) in \<open>auto simp: rl_unfold split: if_splits\<close>)

lemma rl_inv_step_version:
  assumes "p < length b" and "rl_inv b p r" and "request_line_step b p (b ! p) r = Continue r'"
    and "r_state r \<in> {sw_http_H, sw_http_HT, sw_http_HTT, sw_http_HTTP, sw_first_major_digit,
           sw_major_digit, sw_first_minor_digit, sw_minor_digit, sw_spaces_after_digit, sw_almost_done}"
  shows "rl_inv b (Suc p) r'"
  using assms(4)
  by (elim insertE emptyE;
      use assms(1-3) digit_value(2)[of "b ! p"] in \<open>auto simp: rl_unfold split: if_splits\<close>)

lemma rl_inv_step:
  assumes "p < length b" and "rl_inv b p r" and "request_line_step b p (b ! p) r = Continue r'"
  shows "rl_inv b (Suc p) r'"
  using rl_inv_step_method[OF assms] rl_inv_step_authority[OF assms] rl_inv_step_uri[OF assms]
    rl_inv_step_version[OF assms]
  by (cases "r_state r") simp_all

lemma rl_inv_done:
  assumes "p < length b" and "rl_inv b p r" and "request_line_step b p (b ! p) r = Done r' rc"
  shows "rl_post b p r' rc"
proof -
  have "r_state r \<in> {sw_after_slash_in_uri, sw_check_uri, sw_uri, sw_http_09, sw_minor_digit,
      sw_spaces_after_digit, sw_almost_done}"
    using assms(3) by (cases "r_state r") (simp_all add: request_line_step_def rl_defs Let_def
      split: if_splits option.splits)
  then show ?thesis
    by (elim insertE emptyE;
        use assms in \<open>auto simp: rl_unfold rl_finish_def rl_post_def split: if_splits\<close>)
qed

interpretation rl_inv: invariant_machine request_line_step rl_inv rl_post
  by unfold_locales (fact rl_inv_step rl_inv_done)+

section \<open>Return codes\<close>

lemma rl_done_rc:
  "request_line_step b p c r = Done r' rc \<Longrightarrow> rc \<in> {NGX_OK, NGX_HTTP_PARSE_INVALID_09_METHOD}"
  by (cases "r_state r") (auto simp: request_line_step_def rl_defs rl_finish_def rl_uri_end_def Let_def
      split: if_splits option.splits)

lemma rl_fail_rc:
  "request_line_step b p c r = Fail r' rc \<Longrightarrow>
     rc \<notin> {NGX_OK, NGX_AGAIN, NGX_HTTP_PARSE_INVALID_09_METHOD}"
  by (cases "r_state r") (auto simp: request_line_step_def rl_defs rl_finish_def rl_uri_end_def Let_def
      split: if_splits option.splits)

lemma rl_again:
  "ngx_http_parse_request_line b pos r = (NGX_AGAIN, r', pos') \<longleftrightarrow>
     scan request_line_step b pos r = (Continue r', pos')"
  by (auto simp: ngx_http_parse_request_line_def split: prod.splits verdict.splits
      dest!: scan_Done_step scan_Fail_step rl_done_rc rl_fail_rc)

section \<open>The method table\<close>

text \<open>The table of RFC 9110 and RFC 4918 methods the switch on the method's length implements.\<close>

definition method_names :: "(bytes \<times> http_method) list" where
  "method_names =
    [(octets ''GET'', NGX_HTTP_GET), (octets ''HEAD'', NGX_HTTP_HEAD), (octets ''POST'', NGX_HTTP_POST),
     (octets ''PUT'', NGX_HTTP_PUT), (octets ''DELETE'', NGX_HTTP_DELETE),
     (octets ''MKCOL'', NGX_HTTP_MKCOL), (octets ''COPY'', NGX_HTTP_COPY),
     (octets ''MOVE'', NGX_HTTP_MOVE), (octets ''OPTIONS'', NGX_HTTP_OPTIONS),
     (octets ''PROPFIND'', NGX_HTTP_PROPFIND), (octets ''PROPPATCH'', NGX_HTTP_PROPPATCH),
     (octets ''LOCK'', NGX_HTTP_LOCK), (octets ''UNLOCK'', NGX_HTTP_UNLOCK),
     (octets ''PATCH'', NGX_HTTP_PATCH), (octets ''TRACE'', NGX_HTTP_TRACE),
     (octets ''CONNECT'', NGX_HTTP_CONNECT)]"



lemma method_known:
  assumes "(w, m) \<in> set method_names"
  shows "method_of (w @ [ch_space]) (length w) old = m"
  using assms unfolding method_names_def
  by (simp only: set_simps insert_iff prod.inject empty_iff simp_thms)
    (elim disjE conjE; hypsubst; simp add: method_of_def)

lemma method_unknown:
  assumes "w \<notin> fst ` set method_names"
  shows "method_of (w @ [ch_space]) (length w) old = old"
proof -
  have ne: "w \<noteq> octets ''GET''" "w \<noteq> octets ''HEAD''" "w \<noteq> octets ''POST''" "w \<noteq> octets ''PUT''"
    "w \<noteq> octets ''DELETE''" "w \<noteq> octets ''MKCOL''" "w \<noteq> octets ''COPY''" "w \<noteq> octets ''MOVE''"
    "w \<noteq> octets ''OPTIONS''" "w \<noteq> octets ''PROPFIND''" "w \<noteq> octets ''PROPPATCH''"
    "w \<noteq> octets ''LOCK''" "w \<noteq> octets ''UNLOCK''" "w \<noteq> octets ''PATCH''" "w \<noteq> octets ''TRACE''"
    "w \<noteq> octets ''CONNECT''"
    using assms by (simp_all add: method_names_def del: octets_Cons)
  have sp: "w @ [ch_space] = octets ''GET '' \<longleftrightarrow> w = octets ''GET''"
    "w @ [ch_space] = octets ''PUT '' \<longleftrightarrow> w = octets ''PUT''"
    "w @ [ch_space] = octets ''CONNECT '' \<longleftrightarrow> w = octets ''CONNECT''"
    "w @ [ch_space] = octets ''OPTIONS '' \<longleftrightarrow> w = octets ''OPTIONS''"
    by (simp_all add: append_eq_Cons_conv)
  show ?thesis using ne by (simp add: method_of_def sp del: octets_Cons)
qed

section \<open>Runs of the machine over a well-formed line\<close>

lemma rl_version_step:
  "r_state r = sw_http_09 \<Longrightarrow> request_line_step b p ch_H r = Continue (r\<lparr>http_protocol_data := Some p, r_state := sw_http_H\<rparr>)"
  "r_state r = sw_http_H \<Longrightarrow> request_line_step b p ch_T r = Continue (r\<lparr>r_state := sw_http_HT\<rparr>)"
  "r_state r = sw_http_HT \<Longrightarrow> request_line_step b p ch_T r = Continue (r\<lparr>r_state := sw_http_HTT\<rparr>)"
  "r_state r = sw_http_HTT \<Longrightarrow> request_line_step b p ch_P r = Continue (r\<lparr>r_state := sw_http_HTTP\<rparr>)"
  "r_state r = sw_http_HTTP \<Longrightarrow> request_line_step b p ch_slash r = Continue (r\<lparr>r_state := sw_first_major_digit\<rparr>)"
  "r_state r = sw_first_major_digit \<Longrightarrow> request_line_step b p ch_1 r =
     Continue (r\<lparr>http_major := 1, r_state := sw_major_digit\<rparr>)"
  "r_state r = sw_major_digit \<Longrightarrow> request_line_step b p ch_dot r = Continue (r\<lparr>r_state := sw_first_minor_digit\<rparr>)"
  "r_state r = sw_first_minor_digit \<Longrightarrow> is_digit d \<Longrightarrow> request_line_step b p d r =
     Continue (r\<lparr>http_minor := unat (d - ch_0), r_state := sw_minor_digit\<rparr>)"
  "r_state r = sw_minor_digit \<Longrightarrow> request_line_step b p CR r = Continue (r\<lparr>r_state := sw_almost_done\<rparr>)"
  "r_state r = sw_almost_done \<Longrightarrow> request_line_step b p LF r = rl_finish p (r\<lparr>request_end := Some (p - 1)\<rparr>)"
  by (simp_all add: request_line_step_def rl_http_09_def rl_expect_def rl_major_def
        rl_major_digit_def rl_first_minor_digit_def rl_minor_digit_def rl_almost_done_def Let_def)

definition rl_target_inv :: "http_request \<Rightarrow> http_request \<Rightarrow> bool" where
  "rl_target_inv r0 r \<longleftrightarrow> r_state r \<in> {sw_after_slash_in_uri, sw_check_uri, sw_uri} \<and>
     r_method r = r_method r0 \<and> request_start r = request_start r0 \<and> method_end r = method_end r0 \<and>
     uri_start r = uri_start r0 \<and> request_end r = request_end r0"

lemma rl_target_step:
  assumes "uri_char c" and st: "r_state r \<in> {sw_after_slash_in_uri, sw_check_uri, sw_uri}"
  shows "\<exists>r'. request_line_step b p c r = Continue r' \<and> rl_target_inv r r'"
proof -
  have c: "c \<noteq> ch_space" "c \<noteq> CR" "c \<noteq> LF" "\<not> c < 0x20" "c \<noteq> ch_DEL"
    using assms(1) by (auto simp: uri_char_def word_less_nat_alt)
  show ?thesis
    using st by (elim insertE emptyE) (simp_all add: request_line_step_def rl_after_slash_in_uri_def
        rl_check_uri_def rl_uri_def uri_terminator_def rl_target_inv_def c)
qed

lemma rl_run_target:
  assumes "list_all uri_char u" and "r_state r \<in> {sw_after_slash_in_uri, sw_check_uri, sw_uri}"
  shows "\<exists>r'. scan request_line_step (pre @ u @ post) (length pre) r =
      scan request_line_step (pre @ u @ post) (length pre + length u) r' \<and> rl_target_inv r r'"
  using assms
proof (induction u arbitrary: pre r)
  case Nil
  then show ?case by (auto simp: rl_target_inv_def)
next
  case (Cons c u)
  then obtain r1 where "request_line_step (pre @ (c # u) @ post) (length pre) c r = Continue r1"
    and r1: "rl_target_inv r r1"
    using rl_target_step[of c r "pre @ (c # u) @ post" "length pre"] by auto
  then have "scan request_line_step (pre @ (c # u) @ post) (length pre) r =
      scan request_line_step ((pre @ [c]) @ u @ post) (length (pre @ [c])) r1"
    by (simp add: scan_at)
  moreover have "r_state r1 \<in> {sw_after_slash_in_uri, sw_check_uri, sw_uri}"
    using r1 by (simp add: rl_target_inv_def)
  ultimately show ?case
    using Cons.IH[of r1 "pre @ [c]"] Cons.prems r1 by (auto simp: rl_target_inv_def)
qed

lemma rl_target_space:
  assumes "r_state r \<in> {sw_after_slash_in_uri, sw_check_uri, sw_uri}"
  shows "request_line_step b p ch_space r = Continue (r\<lparr>uri_end := Some p, r_state := sw_http_09\<rparr>)"
proof -
  have "\<not> bitmap_test usual ch_space" by (simp add: usual_iff)
  then show ?thesis
    using assms by (elim insertE emptyE) (simp_all add: request_line_step_def rl_after_slash_in_uri_def
        rl_check_uri_def rl_uri_def uri_terminator_def rl_uri_end_def)
qed

lemma rl_run_version:
  assumes "r_state r = sw_http_09" and "is_digit d" and "request_end r = None" and "b = pre @ octets ''HTTP/1.'' @ [d, CR, LF] @ rest"
  shows "scan request_line_step b (length pre) r =
     (rl_finish (length pre + 9) (r\<lparr>http_protocol_data := Some (length pre), http_major := 1,
        http_minor := unat (d - ch_0), r_state := sw_almost_done,
        request_end := Some (length pre + 8)\<rparr>), length pre + 9)"
  using assms by (simp add: scan_step nth_append rl_version_step rl_finish_def Let_def)

lemma rl_run_method:
  assumes "m \<noteq> []" and "list_all method_char m"
  shows "scan request_line_step (m @ ch_space # post) 0 new_request =
     scan request_line_step (m @ ch_space # post) (Suc (length m))
       (new_request\<lparr>request_start := Some 0, method_end := Some (length m - 1),
          r_method := method_of (m @ [ch_space]) (length m) NGX_HTTP_UNKNOWN, r_state := sw_spaces_before_uri\<rparr>)"
proof -
  obtain c m' where m: "m = c # m'" using assms(1) by (cases m) auto
  let ?r = "new_request\<lparr>request_start := Some 0, r_state := sw_method\<rparr>"
  have c: "c \<noteq> CR" "c \<noteq> LF" "method_char c"
    using assms(2) by (auto simp: m method_char_def word_le_nat_alt)
  have "scan request_line_step (m @ ch_space # post) 0 new_request =
      scan request_line_step ([c] @ m' @ ch_space # post) (length [c]) ?r"
    using c by (simp add: m scan_step request_line_step_def rl_start_def new_request_def)
  also have "\<dots> = scan request_line_step ([c] @ m' @ ch_space # post) (length [c] + length m') ?r"
  proof (rule scan_skip)
    fix p d
    assume "d \<in> set m'"
    then have "method_char d" "d \<noteq> ch_space"
      using assms(2) by (auto simp: m list_all_iff method_char_def word_le_nat_alt)
    then show "request_line_step ([c] @ m' @ ch_space # post) p d ?r = Continue ?r"
      by (simp add: request_line_step_def rl_method_def)
  qed
  finally show ?thesis
    by (simp add: m scan_step nth_append request_line_step_def rl_method_def new_request_def)
qed


text \<open>A request line in origin form.\<close>

definition render_request_line :: "bytes \<Rightarrow> bytes \<Rightarrow> u_char \<Rightarrow> bytes" where
  "render_request_line m u d = m @ [ch_space, ch_slash] @ u @ octets '' HTTP/1.'' @ [d, CR, LF]"

section \<open>Properties\<close>

text \<open>
  The parser may be stopped at any octet and resumed. If a call on what has arrived so far
  returns NGX_AGAIN, then continuing from the state it left, with more input appended, gives the
  same return code and the same request fields as one call on all the input; unless the line is
  malformed the saved state and the buffer position are the same too.
\<close>

theorem request_line_resumes:
  assumes "pos \<le> length b" and "ngx_http_parse_request_line b pos r = (NGX_AGAIN, r', pos')"
  shows "case (ngx_http_parse_request_line (b @ ext) pos r, ngx_http_parse_request_line (b @ ext) pos' r') of
      ((rc1, r1, p1), (rc2, r2, p2)) \<Rightarrow>
         rc1 = rc2 \<and> r1\<lparr>r_state := sw_start\<rparr> = r2\<lparr>r_state := sw_start\<rparr> \<and>
         (rc1 \<in> {NGX_OK, NGX_AGAIN, NGX_HTTP_PARSE_INVALID_09_METHOD} \<longrightarrow> r1 = r2 \<and> p1 = p2)"
proof -
  have "scan request_line_step (b @ ext) pos r = scan request_line_step (b @ ext) pos' r'"
    using assms by (simp add: rl_again rl.scan_append)
  then show ?thesis
    by (auto simp: ngx_http_parse_request_line_def split: prod.splits verdict.splits
        dest!: scan_Fail_step rl_fail_rc)
qed

theorem request_line_resumes_witness:
  "case (ngx_http_parse_request_line (octets ''GET /a'' @ octets '' HTTP/1.1'' @ [CR, LF]) 0 new_request,
         ngx_http_parse_request_line (octets ''GET /a'' @ octets '' HTTP/1.1'' @ [CR, LF])
           (snd (snd (ngx_http_parse_request_line (octets ''GET /a'') 0 new_request)))
           (fst (snd (ngx_http_parse_request_line (octets ''GET /a'') 0 new_request)))) of
      ((rc1, r1, p1), (rc2, r2, p2)) \<Rightarrow>
         rc1 = rc2 \<and> r1\<lparr>r_state := sw_start\<rparr> = r2\<lparr>r_state := sw_start\<rparr> \<and>
         (rc1 \<in> {NGX_OK, NGX_AGAIN, NGX_HTTP_PARSE_INVALID_09_METHOD} \<longrightarrow> r1 = r2 \<and> p1 = p2)"
proof (rule request_line_resumes)
  have "fst (ngx_http_parse_request_line (octets ''GET /a'') 0 new_request) = NGX_AGAIN" by code_simp
  then show "ngx_http_parse_request_line (octets ''GET /a'') 0 new_request =
    (NGX_AGAIN, fst (snd (ngx_http_parse_request_line (octets ''GET /a'') 0 new_request)),
       snd (snd (ngx_http_parse_request_line (octets ''GET /a'') 0 new_request)))"
    by (metis prod.collapse)
qed simp

text \<open>
  C14: What an accepted request line looks like. The method, the URI and the line are disjoint slices of
  the buffer in this order, the method consists of method octets and is followed by a space, the
  URI is not empty and holds no control octet and no space, and the version is
  major * 1000 + minor with a major of at most 1 and a minor of at most 999.
\<close>

theorem request_line_accepted:
  assumes "ngx_http_parse_request_line b 0 new_request = (rc, r, pos)"
    and "rc \<in> {NGX_OK, NGX_HTTP_PARSE_INVALID_09_METHOD}"
  shows "\<exists>s e u v w. request_start r = Some s \<and> method_end r = Some e \<and> uri_start r = Some u \<and>
        uri_end r = Some v \<and> request_end r = Some w \<and> s \<le> e \<and> e + 1 < u \<and> u < v \<and> v \<le> w \<and> w < pos \<and>
        pos \<le> length b \<and> (\<forall>k. s \<le> k \<and> k \<le> e \<longrightarrow> method_char (b ! k)) \<and> b ! (e + 1) = ch_space \<and>
        (\<forall>k. u \<le> k \<and> k < v \<longrightarrow> b ! k > 0x20 \<and> b ! k \<noteq> ch_DEL) \<and>
        http_version r = http_major r * 1000 + http_minor r \<and> http_major r \<le> 1 \<and> http_minor r \<le> 999"
proof -
  obtain r0 q where "scan request_line_step b 0 new_request = (Done r0 rc, q)" "r = r0" "pos = q + 1"
    using assms by (auto simp: ngx_http_parse_request_line_def split: prod.splits verdict.splits
        dest!: scan_Fail_step rl_fail_rc)
  moreover have "rl_inv b 0 new_request" by (simp add: rl_inv_def new_request_def)
  ultimately have "q < length b \<and> rl_post b q r rc" "pos = q + 1" 
    using rl_inv.scan_done[of 0 b new_request r0 rc q] by simp_all
  then show ?thesis by (fastforce simp: rl_post_def slice_all_def uri_char_def less_Suc_eq_le)
qed
theorem request_line_accepted_witness:
  "case ngx_http_parse_request_line (octets ''PUT http://h:1/x?y HTTP/1.0'' @ [CR, LF]) 0 new_request of
     (rc, r, pos) \<Rightarrow> rc = NGX_OK \<and> (\<exists>u v. uri_start r = Some u \<and> uri_end r = Some v \<and> u < v \<and> v < pos)"
proof -
  let ?b = "octets ''PUT http://h:1/x?y HTTP/1.0'' @ [CR, LF]"
  obtain rc r pos where e: "ngx_http_parse_request_line ?b 0 new_request = (rc, r, pos)"
    by (rule prod_cases3)
  have "fst (ngx_http_parse_request_line ?b 0 new_request) = NGX_OK" by code_simp
  with e have "rc = NGX_OK" by simp
  with request_line_accepted[OF e] e show ?thesis by auto
qed

text \<open>
  The comparisons the parser makes on the length and the machine words of the method are an exact
  lookup in the table of method names: a name of the table gives its method, any other text
  leaves the method as it was.
\<close>

lemma method_lookup:
  "method_of (w @ [ch_space]) (length w) old =
     (case map_of method_names w of Some m \<Rightarrow> m | None \<Rightarrow> old)"
  by (auto split: option.split simp: map_of_eq_None_iff method_unknown dest!: map_of_SomeD method_known)

text \<open>
  C13: A request line in origin form is accepted, whatever follows it in the buffer: the parser
  consumes exactly the line, finds the method and the target where they were written, and reads
  the method's code and the version.
\<close>

theorem request_line_roundtrip:
  assumes "m \<noteq> []" and "list_all method_char m" and "list_all uri_char u" and "is_digit d"
  shows "\<exists>r. ngx_http_parse_request_line (render_request_line m u d @ rest) 0 new_request =
      (NGX_OK, r, length (render_request_line m u d)) \<and>
      r_method r = (case map_of method_names m of Some x \<Rightarrow> x | None \<Rightarrow> NGX_HTTP_UNKNOWN) \<and>
      request_start r = Some 0 \<and> method_end r = Some (length m - 1) \<and>
      uri_start r = Some (length m + 1) \<and> uri_end r = Some (length m + 2 + length u) \<and>
      http_version r = 1000 + unat (d - ch_0) \<and>
      request_end r = Some (length (render_request_line m u d) - 2)"
proof -
  let ?b = "render_request_line m u d @ rest"
  let ?r1 = "new_request\<lparr>request_start := Some 0, method_end := Some (length m - 1),
          r_method := method_of (m @ [ch_space]) (length m) NGX_HTTP_UNKNOWN, r_state := sw_spaces_before_uri\<rparr>"
  let ?r2 = "?r1\<lparr>uri_start := Some (length m + 1), r_state := sw_after_slash_in_uri\<rparr>"
  let ?ver = "octets ''HTTP/1.'' @ [d, CR, LF] @ rest"
  let ?pre = "m @ [ch_space, ch_slash]"
  have b1: "?b = m @ ch_space # (ch_slash # u @ ch_space # ?ver)"
    and b2: "?b = ?pre @ u @ (ch_space # ?ver)"
    and b3: "?b = (?pre @ u) @ ch_space # ?ver"
    and b4: "?b = (?pre @ u @ [ch_space]) @ ?ver"
    by (simp_all add: render_request_line_def)
  have "scan request_line_step ?b 0 new_request = scan request_line_step ?b (Suc (length m)) ?r1"
    unfolding b1 by (rule rl_run_method[OF assms(1,2)])
  also have "\<dots> = scan request_line_step ?b (length ?pre) ?r2"
    unfolding b1 by (simp add: scan_step nth_append request_line_step_def rl_spaces_before_uri_def)
  finally have s2: "scan request_line_step ?b 0 new_request = scan request_line_step ?b (length ?pre) ?r2" .
  obtain r3 where s3: "scan request_line_step ?b (length ?pre) ?r2 =
      scan request_line_step ?b (length ?pre + length u) r3" and r3: "rl_target_inv ?r2 r3"
    using rl_run_target[OF assms(3), of ?r2 ?pre "ch_space # ?ver"] unfolding b2 by auto
  let ?r4 = "r3\<lparr>uri_end := Some (length m + 2 + length u), r_state := sw_http_09\<rparr>"
  have s4: "scan request_line_step ?b (length ?pre + length u) r3 =
      scan request_line_step ?b (length (?pre @ u @ [ch_space])) ?r4"
    using rl_target_space[of r3] r3 scan_at[of "length (?pre @ u)" "?pre @ u" request_line_step ch_space ?ver r3]
    unfolding b3 by (simp add: rl_target_inv_def)
  have s5: "scan request_line_step ?b (length (?pre @ u @ [ch_space])) ?r4 =
      (rl_finish (length m + length u + 12) (?r4\<lparr>http_protocol_data := Some (length (?pre @ u @ [ch_space])),
         http_major := 1, http_minor := unat (d - ch_0), r_state := sw_almost_done,
         request_end := Some (length m + length u + 11)\<rparr>), length m + length u + 12)"
    using rl_run_version[of ?r4 d ?b "?pre @ u @ [ch_space]" rest] r3 assms(4) b4
    by (simp add: rl_target_inv_def new_request_def add.commute)
  have len: "length (render_request_line m u d) = length m + length u + 13"
    by (simp add: render_request_line_def)
  have r3': "r_method r3 = method_of (m @ [ch_space]) (length m) NGX_HTTP_UNKNOWN"
    "request_start r3 = Some 0" "method_end r3 = Some (length m - 1)"
    "uri_start r3 = Some (length m + 1)"
    using r3 by (simp_all add: rl_target_inv_def)
  have lk: "method_of (m @ [ch_space]) (length m) NGX_HTTP_UNKNOWN =
      (case map_of method_names m of Some x \<Rightarrow> x | None \<Rightarrow> NGX_HTTP_UNKNOWN)"
    by (auto split: option.split simp: map_of_eq_None_iff method_unknown dest!: map_of_SomeD method_known)
  show ?thesis
    unfolding ngx_http_parse_request_line_def s2 s3 s4 s5
    by (simp add: rl_finish_def Let_def len r3' lk)
qed

theorem request_line_roundtrip_witness:
  "\<exists>r. ngx_http_parse_request_line (render_request_line (octets ''HEAD'') (octets ''a/b?c'') ch_1 @ octets ''Host'') 0 new_request =
      (NGX_OK, r, length (render_request_line (octets ''HEAD'') (octets ''a/b?c'') ch_1)) \<and> r_method r = NGX_HTTP_HEAD"
  using request_line_roundtrip[of "octets ''HEAD''" "octets ''a/b?c''" ch_1 "octets ''Host''"]
  by (fastforce simp: method_char_def uri_char_def is_digit_def method_names_def)

end
