(* ===== verification/NgxString.thy ===== *)
theory NgxString
  imports Prelude "HOL-Library.Sublist"
begin

text \<open>
  The string functions of \<^verbatim>\<open>src/core/ngx_string.c\<close>: copying and case folding, the comparisons, the
  substring searches and the conversions of digits to numbers. A buffer given with its length is a
  list of octets. A zero-terminated string is the list of its octets without the terminator: the
  terminator is what \<open>c_head\<close> reads when the list is used up. Signed 64-bit results are \<open>int\<close>; C
  leaves signed overflow undefined, and the lemmas show that the values stay in range.
\<close>

section \<open>Copying, length, case\<close>

definition c_head :: "bytes \<Rightarrow> u_char" where
  "c_head s = (case s of [] \<Rightarrow> ch_NUL | c # _ \<Rightarrow> c)"

lemma c_head_simps [simp]: "c_head [] = ch_NUL" "c_head (c # s) = c"
  by (simp_all add: c_head_def)

fun ngx_strlow :: "bytes \<Rightarrow> nat \<Rightarrow> bytes" where
  "ngx_strlow src 0 = []"
| "ngx_strlow src (Suc n) = ngx_tolower (c_head src) # ngx_strlow (tl src) n"

fun ngx_strnlen :: "bytes \<Rightarrow> nat \<Rightarrow> nat" where
  "ngx_strnlen p 0 = 0"
| "ngx_strnlen p (Suc n) = (if c_head p = ch_NUL then 0 else Suc (ngx_strnlen (tl p) n))"

text \<open>The octets written to \<^verbatim>\<open>dst\<close>, the terminator included; the result points at the terminator.\<close>

fun cpystrn_loop :: "bytes \<Rightarrow> nat \<Rightarrow> bytes" where
  "cpystrn_loop src 0 = [ch_NUL]"
| "cpystrn_loop src (Suc n) =
     (if c_head src = ch_NUL then [ch_NUL] else c_head src # cpystrn_loop (tl src) n)"

definition ngx_cpystrn :: "bytes \<Rightarrow> nat \<Rightarrow> bytes \<times> nat" where
  "ngx_cpystrn src n =
     (if n = 0 then ([], 0)
      else let w = cpystrn_loop src (n - 1) in (w, length w - 1))"

section \<open>Comparison\<close>

function ngx_strcasecmp :: "bytes \<Rightarrow> bytes \<Rightarrow> int" where
  "ngx_strcasecmp s1 s2 =
     (let c1 = ngx_tolower (c_head s1); c2 = ngx_tolower (c_head s2) in
      if c1 = c2 then (if c1 \<noteq> 0 then ngx_strcasecmp (tl s1) (tl s2) else 0)
      else uint c1 - uint c2)"
  by pat_completeness auto
termination by (relation "measure (\<lambda>(s1, s2). length s1)") (auto simp: c_head_def split: list.splits)

declare ngx_strcasecmp.simps [simp del]

fun ngx_strncasecmp :: "bytes \<Rightarrow> bytes \<Rightarrow> nat \<Rightarrow> int" where
  "ngx_strncasecmp s1 s2 0 = 0"
| "ngx_strncasecmp s1 s2 (Suc n) =
     (let c1 = ngx_tolower (c_head s1); c2 = ngx_tolower (c_head s2) in
      if c1 = c2 then (if c1 \<noteq> 0 then ngx_strncasecmp (tl s1) (tl s2) n else 0)
      else uint c1 - uint c2)"

text \<open>\<^verbatim>\<open>strncmp\<close> and \<^verbatim>\<open>memcmp\<close> of the C library: the difference of the first octets that differ.\<close>

fun ngx_strncmp :: "bytes \<Rightarrow> bytes \<Rightarrow> nat \<Rightarrow> int" where
  "ngx_strncmp s1 s2 0 = 0"
| "ngx_strncmp s1 s2 (Suc n) =
     (let c1 = c_head s1; c2 = c_head s2 in
      if c1 \<noteq> c2 then uint c1 - uint c2
      else if c1 = 0 then 0 else ngx_strncmp (tl s1) (tl s2) n)"

fun ngx_memcmp :: "bytes \<Rightarrow> bytes \<Rightarrow> nat \<Rightarrow> int" where
  "ngx_memcmp s1 s2 0 = 0"
| "ngx_memcmp s1 s2 (Suc n) =
     (let c1 = c_head s1; c2 = c_head s2 in
      if c1 \<noteq> c2 then uint c1 - uint c2 else ngx_memcmp (tl s1) (tl s2) n)"

text \<open>The comparisons from the end; \<open>n\<close> is the number of octets still to compare.\<close>

fun ngx_rstrncmp :: "bytes \<Rightarrow> bytes \<Rightarrow> nat \<Rightarrow> int" where
  "ngx_rstrncmp s1 s2 0 = 0"
| "ngx_rstrncmp s1 s2 (Suc n) =
     (if s1 ! n \<noteq> s2 ! n then uint (s1 ! n) - uint (s2 ! n) else ngx_rstrncmp s1 s2 n)"

fun ngx_rstrncasecmp :: "bytes \<Rightarrow> bytes \<Rightarrow> nat \<Rightarrow> int" where
  "ngx_rstrncasecmp s1 s2 0 = 0"
| "ngx_rstrncasecmp s1 s2 (Suc n) =
     (let c1 = (if ch_a \<le> s1 ! n \<and> s1 ! n \<le> ch_z then s1 ! n - 0x20 else s1 ! n);
          c2 = (if ch_a \<le> s2 ! n \<and> s2 ! n \<le> ch_z then s2 ! n - 0x20 else s2 ! n) in
      if c1 \<noteq> c2 then uint c1 - uint c2 else ngx_rstrncasecmp s1 s2 n)"

definition ngx_memn2cmp :: "bytes \<Rightarrow> bytes \<Rightarrow> nat \<Rightarrow> nat \<Rightarrow> int" where
  "ngx_memn2cmp s1 s2 n1 n2 =
     (let (n, z) = (if n1 \<le> n2 then (n1, -1) else (n2, 1)) in
      let m = ngx_memcmp s1 s2 n in
      if m \<noteq> 0 \<or> n1 = n2 then m else z)"

function ngx_dns_strcmp :: "bytes \<Rightarrow> bytes \<Rightarrow> int" where
  "ngx_dns_strcmp s1 s2 =
     (let c1 = ngx_tolower (c_head s1); c2 = ngx_tolower (c_head s2) in
      if c1 = c2 then (if c1 \<noteq> 0 then ngx_dns_strcmp (tl s1) (tl s2) else 0)
      else let c1 = (if c1 = ch_dot then ch_space else c1);
               c2 = (if c2 = ch_dot then ch_space else c2) in
           uint c1 - uint c2)"
  by pat_completeness auto
termination by (relation "measure (\<lambda>(s1, s2). length s1)") (auto simp: c_head_def split: list.splits)

declare ngx_dns_strcmp.simps [simp del]

fun ngx_filename_cmp :: "bytes \<Rightarrow> bytes \<Rightarrow> nat \<Rightarrow> int" where
  "ngx_filename_cmp s1 s2 0 = 0"
| "ngx_filename_cmp s1 s2 (Suc n) =
     (let c1 = c_head s1; c2 = c_head s2 in
      if c1 = c2 then (if c1 \<noteq> 0 then ngx_filename_cmp (tl s1) (tl s2) n else 0)
      else if c1 = 0 \<or> c2 = 0 then uint c1 - uint c2
      else let c1 = (if c1 = ch_slash then 0 else c1);
               c2 = (if c2 = ch_slash then 0 else c2) in
           uint c1 - uint c2)"

section \<open>Searching\<close>

text \<open>
  The searches return the offset of the match in \<^verbatim>\<open>s1\<close> (None for NULL); \<open>k\<close> counts the octets
  passed. \<open>s2\<close> is the needle with its first octet, which the code strips.
\<close>

function strnstr_loop :: "bytes \<Rightarrow> u_char \<Rightarrow> bytes \<Rightarrow> nat \<Rightarrow> nat \<Rightarrow> nat \<Rightarrow> nat option" where
  "strnstr_loop s1 c2 s2 n len k =
     (if len = 0 then None
      else let len = len - 1; c1 = c_head s1; s1 = tl s1 in
           if c1 = 0 then None
           else if c1 \<noteq> c2 then strnstr_loop s1 c2 s2 n len (k + 1)
           else if n > len then None
           else if ngx_strncmp s1 s2 n \<noteq> 0 then strnstr_loop s1 c2 s2 n len (k + 1)
           else Some k)"
  by pat_completeness auto
termination by (relation "measure (\<lambda>(s1, c2, s2, n, len, k). len)") auto

declare strnstr_loop.simps [simp del]

definition ngx_strnstr :: "bytes \<Rightarrow> bytes \<Rightarrow> nat \<Rightarrow> nat option" where
  "ngx_strnstr s1 s2 len = strnstr_loop s1 (c_head s2) (tl s2) (length (tl s2)) len 0"

fun strstrn_loop :: "bytes \<Rightarrow> u_char \<Rightarrow> bytes \<Rightarrow> nat \<Rightarrow> nat \<Rightarrow> nat option" where
  "strstrn_loop [] c2 s2 n k = None"
| "strstrn_loop (c1 # s1) c2 s2 n k =
     (if c1 = 0 then None
      else if c1 \<noteq> c2 \<or> ngx_strncmp s1 s2 n \<noteq> 0 then strstrn_loop s1 c2 s2 n (k + 1)
      else Some k)"

definition ngx_strstrn :: "bytes \<Rightarrow> bytes \<Rightarrow> nat \<Rightarrow> nat option" where
  "ngx_strstrn s1 s2 n = strstrn_loop s1 (c_head s2) (tl s2) n 0"

text \<open>
  Here \<^verbatim>\<open>s2\<close> is a \<^verbatim>\<open>char *\<close>, signed on amd64: its first octet is sign-extended to 64 bits.
\<close>

definition fold64 :: "u64 \<Rightarrow> u64" where
  "fold64 c = (if 0x41 \<le> c \<and> c \<le> 0x5A then c OR 0x20 else c)"

fun strcasestrn_loop :: "bytes \<Rightarrow> u64 \<Rightarrow> bytes \<Rightarrow> nat \<Rightarrow> nat \<Rightarrow> nat option" where
  "strcasestrn_loop [] c2 s2 n k = None"
| "strcasestrn_loop (c1 # s1) c2 s2 n k =
     (if c1 = 0 then None
      else if fold64 (ucast c1) \<noteq> c2 \<or> ngx_strncasecmp s1 s2 n \<noteq> 0
      then strcasestrn_loop s1 c2 s2 n (k + 1)
      else Some k)"

definition ngx_strcasestrn :: "bytes \<Rightarrow> bytes \<Rightarrow> nat \<Rightarrow> nat option" where
  "ngx_strcasestrn s1 s2 n = strcasestrn_loop s1 (fold64 (scast (c_head s2))) (tl s2) n 0"

text \<open>\<open>room\<close> is the distance from \<^verbatim>\<open>s1\<close> to \<^verbatim>\<open>last - n\<close>, negative when the haystack is too short.\<close>

fun strlcasestrn_loop :: "bytes \<Rightarrow> int \<Rightarrow> u_char \<Rightarrow> bytes \<Rightarrow> nat \<Rightarrow> nat \<Rightarrow> nat option" where
  "strlcasestrn_loop [] room c2 s2 n k = None"
| "strlcasestrn_loop (c1 # s1) room c2 s2 n k =
     (if room \<le> 0 then None
      else if ngx_tolower c1 \<noteq> c2 \<or> ngx_strncasecmp s1 s2 n \<noteq> 0
      then strlcasestrn_loop s1 (room - 1) c2 s2 n (k + 1)
      else Some k)"

definition ngx_strlcasestrn :: "bytes \<Rightarrow> bytes \<Rightarrow> nat \<Rightarrow> nat option" where
  "ngx_strlcasestrn s1 s2 n =
     strlcasestrn_loop s1 (int (length s1) - int n) (ngx_tolower (c_head s2)) (tl s2) n 0"

section \<open>Numbers\<close>

text \<open>The loop the conversions share; \<open>cutoff\<close> and \<open>cutlim\<close> are the maximum divided by ten.\<close>

fun ato_loop :: "int \<Rightarrow> int \<Rightarrow> int \<Rightarrow> bytes \<Rightarrow> int" where
  "ato_loop cutoff cutlim value [] = value"
| "ato_loop cutoff cutlim value (c # line) =
     (if c < ch_0 \<or> c > ch_9 then NGX_ERROR_INT
      else if value \<ge> cutoff \<and> (value > cutoff \<or> uint c - 48 > cutlim) then NGX_ERROR_INT
      else ato_loop cutoff cutlim (value * 10 + (uint c - 48)) line)"

definition ngx_atoi :: "bytes \<Rightarrow> int" where
  "ngx_atoi line =
     (if line = [] then NGX_ERROR_INT
      else ato_loop (NGX_MAX_INT_T_VALUE div 10) (NGX_MAX_INT_T_VALUE mod 10) 0 line)"

definition ngx_atosz :: "bytes \<Rightarrow> int" where
  "ngx_atosz line =
     (if line = [] then NGX_ERROR_INT
      else ato_loop (NGX_MAX_SIZE_T_VALUE div 10) (NGX_MAX_SIZE_T_VALUE mod 10) 0 line)"

definition ngx_atoof :: "bytes \<Rightarrow> int" where
  "ngx_atoof line =
     (if line = [] then NGX_ERROR_INT
      else ato_loop (NGX_MAX_OFF_T_VALUE div 10) (NGX_MAX_OFF_T_VALUE mod 10) 0 line)"

definition ngx_atotm :: "bytes \<Rightarrow> int" where
  "ngx_atotm line =
     (if line = [] then NGX_ERROR_INT
      else ato_loop (NGX_MAX_TIME_T_VALUE div 10) (NGX_MAX_TIME_T_VALUE mod 10) 0 line)"

text \<open>Fixed point: \<^verbatim>\<open>dot\<close> is set once a dot was seen; \<^verbatim>\<open>point\<close> is what is left of the fraction.\<close>

fun atofp_scale :: "int \<Rightarrow> nat \<Rightarrow> int \<Rightarrow> int" where
  "atofp_scale cutoff 0 value = value"
| "atofp_scale cutoff (Suc point) value =
     (if value > cutoff then NGX_ERROR_INT else atofp_scale cutoff point (value * 10))"

fun atofp_loop :: "int \<Rightarrow> int \<Rightarrow> int \<Rightarrow> nat \<Rightarrow> bool \<Rightarrow> bytes \<Rightarrow> int" where
  "atofp_loop cutoff cutlim value point dot [] = atofp_scale cutoff point value"
| "atofp_loop cutoff cutlim value point dot (c # line) =
     (if point = 0 then NGX_ERROR_INT
      else if c = ch_dot then
        (if dot then NGX_ERROR_INT else atofp_loop cutoff cutlim value point True line)
      else if c < ch_0 \<or> c > ch_9 then NGX_ERROR_INT
      else if value \<ge> cutoff \<and> (value > cutoff \<or> uint c - 48 > cutlim) then NGX_ERROR_INT
      else atofp_loop cutoff cutlim (value * 10 + (uint c - 48)) (point - of_bool dot) dot line)"

definition ngx_atofp :: "bytes \<Rightarrow> nat \<Rightarrow> int" where
  "ngx_atofp line point =
     (if line = [] then NGX_ERROR_INT
      else atofp_loop (NGX_MAX_INT_T_VALUE div 10) (NGX_MAX_INT_T_VALUE mod 10) 0 point False line)"

fun hextoi_loop :: "int \<Rightarrow> int \<Rightarrow> bytes \<Rightarrow> int" where
  "hextoi_loop cutoff value [] = value"
| "hextoi_loop cutoff value (ch # line) =
     (if value > cutoff then NGX_ERROR_INT
      else if ch_0 \<le> ch \<and> ch \<le> ch_9 then hextoi_loop cutoff (value * 16 + (uint ch - 48)) line
      else let c = ch OR 0x20 in
           if ch_a \<le> c \<and> c \<le> ch_f then hextoi_loop cutoff (value * 16 + (uint c - 97 + 10)) line
           else NGX_ERROR_INT)"

definition ngx_hextoi :: "bytes \<Rightarrow> int" where
  "ngx_hextoi line =
     (if line = [] then NGX_ERROR_INT else hextoi_loop (NGX_MAX_INT_T_VALUE div 16) 0 line)"

definition hex_lower :: bytes where
  "hex_lower = octets ''0123456789abcdef''"

fun ngx_hex_dump :: "bytes \<Rightarrow> bytes" where
  "ngx_hex_dump [] = []"
| "ngx_hex_dump (c # src) =
     hex_lower ! unat (drop_bit 4 c) # hex_lower ! unat (c AND 0xf) # ngx_hex_dump src"

section \<open>Readers of digits\<close>

text \<open>The maximum of the signed 64-bit types divided by ten and by sixteen, and the last digit.\<close>

abbreviation max_cutoff :: int where "max_cutoff \<equiv> 922337203685477580"
abbreviation max_cutlim :: int where "max_cutlim \<equiv> 7"
abbreviation max_cutoff16 :: int where "max_cutoff16 \<equiv> 576460752303423487"

text \<open>
  The contract of the conversion loops: one round multiplies by the base and adds the digit's value,
  and refuses an octet that is no digit and a value above the maximum. It determines the loop.
\<close>

locale digit_reader =
  fixes loop :: "int \<Rightarrow> bytes \<Rightarrow> int"
    and digit :: "u_char \<Rightarrow> int option"
    and base :: int
    and limit :: int
  assumes loop_Nil: "loop v [] = v"
    and loop_Cons: "0 \<le> v \<Longrightarrow> v \<le> limit \<Longrightarrow> loop v (c # s) =
          (case digit c of
             None \<Rightarrow> NGX_ERROR_INT
           | Some d \<Rightarrow> if v * base + d \<le> limit then loop (v * base + d) s else NGX_ERROR_INT)"
    and digit_nonneg: "digit c = Some d \<Longrightarrow> 0 \<le> d"
    and base_pos: "1 \<le> base"
begin

lemma step_grows: "0 \<le> v \<Longrightarrow> digit c = Some d \<Longrightarrow> v \<le> v * base + d"
  using base_pos digit_nonneg[of c d] mult_left_mono[of 1 base v] by simp

lemma value_grows:
  "0 \<le> v \<Longrightarrow> list_all (\<lambda>c. digit c \<noteq> None) s \<Longrightarrow> v \<le> foldl (\<lambda>v c. v * base + the (digit c)) v s"
proof (induction s arbitrary: v)
  case (Cons c s)
  then obtain d where d: "digit c = Some d" by auto
  with Cons.prems have "v \<le> v * base + d" by (simp add: step_grows)
  also have "\<dots> \<le> foldl (\<lambda>v c. v * base + the (digit c)) (v * base + d) s"
    using Cons \<open>v \<le> v * base + d\<close> by simp
  finally show ?case using d by simp
qed simp

lemma loop_exact:
  "0 \<le> v \<Longrightarrow> v \<le> limit \<Longrightarrow> loop v s =
     (if list_all (\<lambda>c. digit c \<noteq> None) s \<and> foldl (\<lambda>v c. v * base + the (digit c)) v s \<le> limit
      then foldl (\<lambda>v c. v * base + the (digit c)) v s else NGX_ERROR_INT)"
proof (induction s arbitrary: v)
  case (Cons c s)
  show ?case
  proof (cases "digit c")
    case (Some d)
    have "v \<le> v * base + d" using Cons.prems(1) Some by (rule step_grows)
    then show ?thesis
      using Cons value_grows[of "v * base + d" s] by (auto simp: loop_Cons Some)
  qed (simp add: loop_Cons Cons.prems)
qed (simp add: loop_Nil)

end

definition dec_digit :: "u_char \<Rightarrow> int option" where
  "dec_digit c = (if is_digit c then Some (uint c - 48) else None)"

definition hex_digit :: "u_char \<Rightarrow> int option" where
  "hex_digit c =
     (if is_digit c then Some (uint c - 48)
      else if ch_A \<le> c \<and> c \<le> 0x46 then Some (uint c - 55)
      else if ch_a \<le> c \<and> c \<le> ch_f then Some (uint c - 87)
      else None)"

lemma uint_le_iff: "(a :: u_char) \<le> b \<longleftrightarrow> uint a \<le> uint b"
  by (simp add: word_le_def)

lemma not_digit_iff: "\<not> is_digit c \<longleftrightarrow> c < ch_0 \<or> c > ch_9"
  by (auto simp: is_digit_def)

lemma dec_digit_bounds: "dec_digit c = Some d \<Longrightarrow> 0 \<le> d \<and> d \<le> 9"
  by (auto simp: dec_digit_def is_digit_def uint_le_iff split: if_splits)

interpretation decimal: digit_reader
  "ato_loop max_cutoff max_cutlim" dec_digit 10 NGX_MAX_INT_T_VALUE
proof (unfold_locales, goal_cases)
  case (2 v c s)
  then show ?case
    using dec_digit_bounds[of c] by (auto simp: dec_digit_def not_digit_iff[symmetric])
next
  case (3 c d)
  then show ?case using dec_digit_bounds by blast
qed auto

lemma hex_digit_bounds: "hex_digit c = Some d \<Longrightarrow> 0 \<le> d \<and> d \<le> 15"
  by (auto simp: hex_digit_def is_digit_def uint_le_iff split: if_splits)

lemma hex_digit_fold:
  "\<not> is_digit c \<Longrightarrow> hex_digit c =
     (let e = c OR 0x20 in if ch_a \<le> e \<and> e \<le> ch_f then Some (uint e - 97 + 10) else None)"
  by (induction c rule: all_octets) (simp add: octet_list_eq hex_digit_def is_digit_def word_le_nat_alt)

interpretation hex: digit_reader "hextoi_loop max_cutoff16" hex_digit 16 NGX_MAX_INT_T_VALUE
proof (unfold_locales, goal_cases)
  case (2 v c s)
  show ?case
  proof (cases "is_digit c")
    case True
    then show ?thesis using hex_digit_bounds[of c] by (auto simp: hex_digit_def) (auto simp: is_digit_def)
  next
    case False
    then have "\<not> (ch_0 \<le> c \<and> c \<le> ch_9)" by (simp add: is_digit_def)
    then show ?thesis
      using hex_digit_bounds[of c] False by (auto simp: hex_digit_fold Let_def)
  qed
next
  case (3 c d)
  then show ?case using hex_digit_bounds by blast
qed auto

text \<open>The value of a list of decimal digits.\<close>

definition dec_value :: "bytes \<Rightarrow> int" where
  "dec_value s = foldl (\<lambda>v c. v * 10 + (uint c - 48)) 0 s"

lemma dec_fold:
  "list_all is_digit s \<Longrightarrow> foldl (\<lambda>v c. v * 10 + the (dec_digit c)) v s = foldl (\<lambda>v c. v * 10 + (uint c - 48)) v s"
  by (induction s arbitrary: v) (simp_all add: dec_digit_def)

lemma all_dec_digit: "list_all (\<lambda>c. \<exists>d. dec_digit c = Some d) s \<longleftrightarrow> list_all is_digit s"
  by (rule list.pred_cong) (simp_all add: dec_digit_def)

section \<open>Fixed point\<close>

lemma atofp_scale_exact:
  assumes "0 \<le> v" and "v \<le> NGX_MAX_INT_T_VALUE"
  shows "atofp_scale max_cutoff point v =
    (if v * 10 ^ point \<le> NGX_MAX_INT_T_VALUE then v * 10 ^ point else NGX_ERROR_INT)"
  using assms
proof (induction point arbitrary: v)
  case (Suc point)
  show ?case
  proof (cases "v > max_cutoff")
    case True
    then have "NGX_MAX_INT_T_VALUE < v * 10" by simp
    also have "v * 10 \<le> v * 10 * 10 ^ point"
      using Suc.prems by (simp add: mult_le_cancel_left1)
    finally show ?thesis using True by (simp add: mult.assoc)
  next
    case False
    then show ?thesis using Suc.IH[of "v * 10"] Suc.prems by (simp add: mult.assoc)
  qed
qed simp

lemma dec_fold_grows:
  "0 \<le> v \<Longrightarrow> list_all is_digit s \<Longrightarrow> v \<le> foldl (\<lambda>v c. v * 10 + (uint c - 48)) v s"
  using decimal.value_grows[of v s] by (simp add: dec_fold all_dec_digit del: foldl.simps)

lemma digit_not_dot: "is_digit c \<Longrightarrow> c \<noteq> ch_dot"
  by (auto simp: is_digit_def uint_le_iff)

lemma scaled_overflow:
  assumes "NGX_MAX_INT_T_VALUE < (v :: int)" shows "\<not> v * 10 ^ k \<le> NGX_MAX_INT_T_VALUE"
proof -
  have "v \<le> v * 10 ^ k" using assms by (simp add: mult_le_cancel_left1)
  then show ?thesis using assms by linarith
qed

text \<open>One round of the loop.\<close>

lemma atofp_digit:
  assumes "is_digit c"
  shows "atofp_loop max_cutoff max_cutlim v point dot (c # s) =
    (if point = 0 \<or> v * 10 + (uint c - 48) > NGX_MAX_INT_T_VALUE then NGX_ERROR_INT
     else atofp_loop max_cutoff max_cutlim (v * 10 + (uint c - 48)) (point - of_bool dot) dot s)"
proof -
  have "\<not> (c < ch_0 \<or> c > ch_9)" "c \<noteq> ch_dot" "0 \<le> uint c - 48 \<and> uint c - 48 \<le> 9"
    using assms not_digit_iff[of c] digit_not_dot[of c] dec_digit_bounds[of c] by (auto simp: dec_digit_def)
  then show ?thesis by (auto simp only: atofp_loop.simps split: if_splits)
qed

lemma atofp_other:
  "\<not> is_digit c \<Longrightarrow> c \<noteq> ch_dot \<Longrightarrow>
     atofp_loop max_cutoff max_cutlim v point dot (c # s) = NGX_ERROR_INT"
  by (simp add: not_digit_iff)

lemma atofp_dot:
  "atofp_loop max_cutoff max_cutlim v point dot (ch_dot # s) =
    (if point = 0 \<or> dot then NGX_ERROR_INT else atofp_loop max_cutoff max_cutlim v point True s)"
  by simp

lemmas atofp_rounds = atofp_digit atofp_other atofp_dot

declare atofp_loop.simps(2) [simp del]

lemma digit_grows: "is_digit c \<Longrightarrow> 0 \<le> v \<Longrightarrow> 0 \<le> v * 10 + (uint c - 48)"
  using dec_digit_bounds[of c] by (simp add: dec_digit_def)

lemma overflow_persists:
  assumes "is_digit c" and "0 \<le> v" and "NGX_MAX_INT_T_VALUE < v * 10 + (uint c - 48)" and "list_all is_digit s"
  shows "\<not> foldl (\<lambda>v c. v * 10 + (uint c - 48)) (v * 10 + (uint c - 48)) s * 10 ^ k \<le> NGX_MAX_INT_T_VALUE"
  using dec_fold_grows[OF digit_grows[OF assms(1,2)] assms(4)] assms(3)
  by (intro scaled_overflow) linarith

text \<open>After the dot: at most \<open>point\<close> digits, then the value is scaled by what is left.\<close>

lemma atofp_fraction:
  assumes "0 \<le> v" and "v \<le> NGX_MAX_INT_T_VALUE"
  shows "atofp_loop max_cutoff max_cutlim v point True s =
    (let w = foldl (\<lambda>v c. v * 10 + (uint c - 48)) v s * 10 ^ (point - length s) in
     if list_all is_digit s \<and> length s \<le> point \<and> w \<le> NGX_MAX_INT_T_VALUE then w else NGX_ERROR_INT)"
  using assms
proof (induction s arbitrary: v point)
  case Nil
  then show ?case by (simp add: atofp_scale_exact)
next
  case (Cons c s)
  show ?case
  proof (cases "is_digit c")
    case True
    have IH: "v * 10 + (uint c - 48) \<le> NGX_MAX_INT_T_VALUE \<Longrightarrow>
        atofp_loop max_cutoff max_cutlim (v * 10 + (uint c - 48)) (point - 1) True s =
        (let w = foldl (\<lambda>v c. v * 10 + (uint c - 48)) (v * 10 + (uint c - 48)) s * 10 ^ (point - 1 - length s) in
         if list_all is_digit s \<and> length s \<le> point - 1 \<and> w \<le> NGX_MAX_INT_T_VALUE then w else NGX_ERROR_INT)"
      using Cons.IH[of "v * 10 + (uint c - 48)" "point - 1"] digit_grows[OF True] Cons.prems by simp
    show ?thesis
      using overflow_persists[OF True Cons.prems(1), of s "point - Suc (length s)"] IH True
      by (cases point) (auto simp: atofp_digit Let_def not_le simp del: foldl_append)
  next
    case False
    then show ?thesis by (cases "c = ch_dot") (auto simp: atofp_rounds is_digit_def Let_def)
  qed
qed

lemma atofp_integer:
  assumes "0 \<le> v" and "v \<le> NGX_MAX_INT_T_VALUE" and "point \<noteq> 0"
  shows "atofp_loop max_cutoff max_cutlim v point False s =
    (let ip = takeWhile (\<lambda>c. c \<noteq> ch_dot) s; fp = tl (dropWhile (\<lambda>c. c \<noteq> ch_dot) s);
         w = foldl (\<lambda>v c. v * 10 + (uint c - 48)) v (ip @ fp) * 10 ^ (point - length fp) in
     if list_all is_digit (ip @ fp) \<and> length fp \<le> point \<and> w \<le> NGX_MAX_INT_T_VALUE then w
     else NGX_ERROR_INT)"
  using assms
proof (induction s arbitrary: v)
  case Nil
  then show ?case by (simp add: atofp_scale_exact)
next
  case (Cons c s)
  consider "c = ch_dot" | "is_digit c" "c \<noteq> ch_dot" | "\<not> is_digit c" "c \<noteq> ch_dot" by blast
  then show ?case
  proof cases
    case 1
    then show ?thesis using Cons.prems by (simp add: atofp_dot atofp_fraction Let_def)
  next
    case 2
    let ?v = "v * 10 + (uint c - 48)"
    let ?ip = "takeWhile (\<lambda>c. c \<noteq> ch_dot) s" and ?fp = "tl (dropWhile (\<lambda>c. c \<noteq> ch_dot) s)"
    show ?thesis
    proof (cases "?v \<le> NGX_MAX_INT_T_VALUE")
      case True
      then show ?thesis
        using Cons.IH[of ?v] Cons.prems 2 digit_grows[OF 2(1), of v] by (simp add: atofp_digit Let_def)
    next
      case False
      then show ?thesis
        using overflow_persists[OF 2(1) Cons.prems(1), of "?ip @ ?fp" "point - length ?fp"] Cons.prems 2
        by (auto simp: atofp_digit Let_def not_le simp del: foldl_append)
    qed
  next
    case 3
    then show ?thesis using Cons.prems by (simp add: atofp_other Let_def)
  qed
qed

section \<open>Hexadecimal dump\<close>

definition be_value :: "bytes \<Rightarrow> int" where
  "be_value s = foldl (\<lambda>v c. v * 256 + uint c) 0 s"

lemma hex_lower_digit: "n < 16 \<Longrightarrow> hex_digit (hex_lower ! n) = Some (int n)"
  by (erule below_16) (simp add: hex_lower_def hex_digit_def is_digit_def word_le_nat_alt)

lemma hex_dump_digits:
  "hex_digit (hex_lower ! unat (drop_bit 4 (c :: u_char))) = Some (uint c div 16)"
  "hex_digit (hex_lower ! unat (c AND 0xf)) = Some (uint c mod 16)"
  using octet_less[of c] by (simp_all only: nibbles) (simp_all add: hex_lower_digit zdiv_int zmod_int)

lemma hextoi_dump_loop:
  "foldl (\<lambda>v c. v * 16 + the (hex_digit c)) v (ngx_hex_dump s) = foldl (\<lambda>v c. v * 256 + uint c) v s"
proof (induction s arbitrary: v)
  case (Cons c s)
  have "(v * 16 + uint c div 16) * 16 + uint c mod 16 = v * 256 + uint c"
    by (simp add: algebra_simps)
  then show ?case using Cons by (simp only: ngx_hex_dump.simps foldl.simps hex_dump_digits option.sel)
qed simp

lemma hextoi_dump_digits: "list_all (\<lambda>c. \<exists>d. hex_digit c = Some d) (ngx_hex_dump s)"
  by (induction s) (simp_all add: hex_dump_digits)

lemma hex_dump_Nil: "ngx_hex_dump s = [] \<longleftrightarrow> s = []"
  by (cases s) simp_all

lemma hextoi_exact:
  "ngx_hextoi s =
    (let v = foldl (\<lambda>v c. v * 16 + the (hex_digit c)) 0 s in
     if s \<noteq> [] \<and> list_all (\<lambda>c. hex_digit c \<noteq> None) s \<and> v \<le> NGX_MAX_INT_T_VALUE then v
     else NGX_ERROR_INT)"
  using hex.loop_exact[of 0 s] by (simp add: ngx_hextoi_def Let_def)

section \<open>Order of the comparisons\<close>

text \<open>The order of octet strings after case folding: the first difference decides, a prefix is less.\<close>

definition fold_less :: "bytes \<Rightarrow> bytes \<Rightarrow> bool" where
  "fold_less s1 s2 \<longleftrightarrow> (map ngx_tolower s1, map ngx_tolower s2) \<in> lexord {(a, b). a < b}"

lemma uint_diff_sign:
  "uint (a :: u_char) - uint b < 0 \<longleftrightarrow> a < b" "uint a - uint b = 0 \<longleftrightarrow> a = b"
  "uint a - uint b > 0 \<longleftrightarrow> b < a"
  by (auto simp: word_less_def word_uint_eq_iff)

lemma tolower_pos: "c \<noteq> 0 \<Longrightarrow> 0 < ngx_tolower c"
  using ngx_tolower_eq_0[of c] by (metis word_neq_0_conv)

lemma strcasecmp_steps:
  "ngx_strcasecmp [] [] = 0"
  "b \<noteq> 0 \<Longrightarrow> ngx_strcasecmp [] (b # s2) = - uint (ngx_tolower b)"
  "a \<noteq> 0 \<Longrightarrow> ngx_strcasecmp (a # s1) [] = uint (ngx_tolower a)"
  "a \<noteq> 0 \<Longrightarrow> ngx_strcasecmp (a # s1) (b # s2) =
     (if ngx_tolower a = ngx_tolower b then ngx_strcasecmp s1 s2
      else uint (ngx_tolower a) - uint (ngx_tolower b))"
  using ngx_tolower_eq_0[of b] ngx_tolower_eq_0[of a] ngx_tolower_eq_0[of 0]
  by (subst ngx_strcasecmp.simps; simp add: Let_def del: ngx_tolower_eq_0)+

lemma tolower_uint_pos: "c \<noteq> 0 \<Longrightarrow> 0 < uint (ngx_tolower c)"
  using tolower_pos[of c] by (simp add: word_less_def)

section \<open>Searching\<close>

lemma strncasecmp_eq_0:
  "n \<le> length s1 \<Longrightarrow> n \<le> length s2 \<Longrightarrow> ch_NUL \<notin> set s2 \<Longrightarrow>
     ngx_strncasecmp s1 s2 n = 0 \<longleftrightarrow> map ngx_tolower (take n s1) = map ngx_tolower (take n s2)"
proof (induction n arbitrary: s1 s2)
  case (Suc n)
  then obtain a b u v where s: "s1 = a # u" "s2 = b # v" by (meson Suc_le_length_iff)
  then have "ngx_tolower b \<noteq> 0" using Suc.prems by simp
  then show ?case
    using Suc.IH[of u v] Suc.prems uint_diff_sign(2)[of "ngx_tolower a" "ngx_tolower b"]
    by (cases "ngx_tolower a = ngx_tolower b") (auto simp: s Let_def simp del: ngx_tolower_eq_0)
qed simp

text \<open>The needle \<open>s2\<close> occurs at offset \<open>i\<close> of \<open>s1\<close>, up to case.\<close>

definition occurs_at :: "bytes \<Rightarrow> bytes \<Rightarrow> nat \<Rightarrow> bool" where
  "occurs_at s1 s2 i \<longleftrightarrow>
     i + length s2 \<le> length s1 \<and> map ngx_tolower (take (length s2) (drop i s1)) = map ngx_tolower s2"

lemma occurs_at_Cons: "occurs_at (a # s1) s2 (Suc i) \<longleftrightarrow> occurs_at s1 s2 i"
  by (simp add: occurs_at_def)

lemma occurs_at_0:
  "ch_NUL \<notin> set s2 \<Longrightarrow> occurs_at (a # s1) (b # s2) 0 \<longleftrightarrow>
     length s2 \<le> length s1 \<and> ngx_tolower a = ngx_tolower b \<and> ngx_strncasecmp s1 s2 (length s2) = 0"
  by (auto simp: occurs_at_def strncasecmp_eq_0)

lemma occurs_at_short: "length s1 < i + length s2 \<Longrightarrow> \<not> occurs_at s1 s2 i"
  by (simp add: occurs_at_def)

lemma strlcasestrn_loop_first:
  assumes "ch_NUL \<notin> set s2" and "room = int (length s1) - int (length s2)"
  shows "strlcasestrn_loop s1 room (ngx_tolower b) s2 (length s2) k = Some m \<longleftrightarrow>
     (\<exists>i. m = k + i \<and> occurs_at s1 (b # s2) i \<and> (\<forall>j<i. \<not> occurs_at s1 (b # s2) j))"
  using assms(2)
proof (induction s1 arbitrary: room k)
  case Nil
  then show ?case by (auto simp: occurs_at_def)
next
  case (Cons a s1)
  show ?case
  proof (cases "occurs_at (a # s1) (b # s2) 0")
    case True
    then have "length s2 \<le> length s1" "ngx_tolower a = ngx_tolower b" "ngx_strncasecmp s1 s2 (length s2) = 0"
      using occurs_at_0[OF assms(1), of a s1 b] by simp_all
    moreover have "\<not> room \<le> 0" using Cons.prems calculation(1) by simp
    ultimately show ?thesis using True by auto (metis gr0I)
  next
    case False
    have shift: "(\<exists>i. m = k + i \<and> occurs_at (a # s1) (b # s2) i \<and> (\<forall>j<i. \<not> occurs_at (a # s1) (b # s2) j)) \<longleftrightarrow>
        (\<exists>i. m = k + 1 + i \<and> occurs_at s1 (b # s2) i \<and> (\<forall>j<i. \<not> occurs_at s1 (b # s2) j))"
    proof
      assume "\<exists>i. m = k + i \<and> occurs_at (a # s1) (b # s2) i \<and> (\<forall>j<i. \<not> occurs_at (a # s1) (b # s2) j)"
      then obtain i where i: "m = k + i" "occurs_at (a # s1) (b # s2) i" "\<forall>j<i. \<not> occurs_at (a # s1) (b # s2) j"
        by blast
      with False obtain i' where "i = Suc i'" by (cases i) auto
      with i show "\<exists>i. m = k + 1 + i \<and> occurs_at s1 (b # s2) i \<and> (\<forall>j<i. \<not> occurs_at s1 (b # s2) j)"
        by (auto simp: occurs_at_Cons[symmetric, of s1 "b # s2" _ a] intro!: exI[of _ i'])
    next
      assume "\<exists>i. m = k + 1 + i \<and> occurs_at s1 (b # s2) i \<and> (\<forall>j<i. \<not> occurs_at s1 (b # s2) j)"
      then obtain i where "m = k + 1 + i" "occurs_at s1 (b # s2) i" "\<forall>j<i. \<not> occurs_at s1 (b # s2) j"
        by blast
      with False show "\<exists>i. m = k + i \<and> occurs_at (a # s1) (b # s2) i \<and> (\<forall>j<i. \<not> occurs_at (a # s1) (b # s2) j)"
        by (intro exI[of _ "Suc i"]) (auto simp: occurs_at_Cons less_Suc_eq_0_disj)
    qed
    show ?thesis
    proof (cases "room \<le> 0")
      case True
      then have "\<not> occurs_at s1 (b # s2) i" for i using Cons.prems by (simp add: occurs_at_def)
      then show ?thesis using True shift by simp
    next
      case room: False
      then have "\<not> (ngx_tolower a = ngx_tolower b \<and> ngx_strncasecmp s1 s2 (length s2) = 0)"
        using False occurs_at_0[OF assms(1), of a s1 b] Cons.prems by auto
      moreover have "room - 1 = int (length s1) - int (length s2)" using Cons.prems by simp
      ultimately show ?thesis using room Cons.IH[of "room - 1" "k + 1"] shift by auto
    qed
  qed
qed

section \<open>Properties\<close>

text \<open>
  The conversions of decimal digits are exact: they return the number the digits denote when the
  input is not empty, holds only digits and the number fits in the signed 64-bit result; in every
  other case they return NGX_ERROR. No input makes the arithmetic overflow.
\<close>

theorem ngx_ato_exact:
  "f \<in> {ngx_atoi, ngx_atosz, ngx_atoof, ngx_atotm} \<Longrightarrow>
   f s = (if s \<noteq> [] \<and> list_all is_digit s \<and> dec_value s \<le> NGX_MAX_INT_T_VALUE
          then dec_value s else NGX_ERROR_INT)"
  using decimal.loop_exact[of 0 s]
  by (auto simp: ngx_atoi_def ngx_atosz_def ngx_atoof_def ngx_atotm_def all_dec_digit dec_fold dec_value_def)

theorem ngx_ato_exact_witness:
  "ngx_atoof (octets ''9223372036854775807'') = 9223372036854775807 \<and>
   ngx_atoof (octets ''9223372036854775808'') = NGX_ERROR_INT"
  using ngx_ato_exact[of ngx_atoof "octets ''9223372036854775807''"]
    ngx_ato_exact[of ngx_atoof "octets ''9223372036854775808''"]
  by (simp add: dec_value_def is_digit_def word_le_nat_alt)

text \<open>
  The fixed point conversion is exact: the digits before and after at most one dot, scaled by ten to
  the number of fraction digits that are missing; NGX_ERROR when a fraction is longer than the
  point, when another octet occurs, when the input or the point is empty or the result too large.
\<close>

theorem ngx_atofp_exact:
  "ngx_atofp s point =
    (let ip = takeWhile (\<lambda>c. c \<noteq> ch_dot) s; fp = tl (dropWhile (\<lambda>c. c \<noteq> ch_dot) s);
         w = dec_value (ip @ fp) * 10 ^ (point - length fp) in
     if s \<noteq> [] \<and> point \<noteq> 0 \<and> list_all is_digit (ip @ fp) \<and> length fp \<le> point \<and>
        w \<le> NGX_MAX_INT_T_VALUE
     then w else NGX_ERROR_INT)"
proof (cases "s = [] \<or> point = 0")
  case True
  then show ?thesis by (cases s) (auto simp: ngx_atofp_def Let_def atofp_loop.simps)
next
  case False
  then show ?thesis by (simp add: ngx_atofp_def atofp_integer dec_value_def Let_def del: foldl_append)
qed

text \<open>
  Reading back a hexadecimal dump gives the octets' big-endian value, as long as it fits in the
  signed 64-bit result; a dump that denotes a larger number is refused.
\<close>

theorem ngx_hextoi_hex_dump:
  "ngx_hextoi (ngx_hex_dump s) =
     (if s \<noteq> [] \<and> be_value s \<le> NGX_MAX_INT_T_VALUE then be_value s else NGX_ERROR_INT)"
  using hextoi_dump_loop hextoi_dump_digits hex_dump_Nil[of s]
  by (simp add: hextoi_exact be_value_def Let_def)

text \<open>
  The case-insensitive comparison of zero-terminated strings is the lexicographic order of the
  case-folded strings: zero exactly for strings equal up to case, negative and positive exactly
  for the strict order and its converse.
\<close>

theorem ngx_strcasecmp_order:
  assumes "ch_NUL \<notin> set s1" and "ch_NUL \<notin> set s2"
  shows "(ngx_strcasecmp s1 s2 = 0 \<longleftrightarrow> map ngx_tolower s1 = map ngx_tolower s2) \<and>
    (ngx_strcasecmp s1 s2 < 0 \<longleftrightarrow> fold_less s1 s2) \<and>
    (ngx_strcasecmp s1 s2 > 0 \<longleftrightarrow> fold_less s2 s1)"
  using assms
proof (induction s1 arbitrary: s2)
  case Nil
  then show ?case
    using tolower_uint_pos[of "hd s2"] by (cases s2) (auto simp: fold_less_def strcasecmp_steps)
next
  case (Cons a s1)
  show ?case
  proof (cases s2)
    case Nil
    then show ?thesis
      using Cons.prems tolower_uint_pos[of a] by (auto simp: strcasecmp_steps fold_less_def)
  next
    case (Cons b s2')
    then show ?thesis
      using Cons.IH[of s2'] Cons.prems uint_diff_sign[of "ngx_tolower a" "ngx_tolower b"]
      by (cases "ngx_tolower a = ngx_tolower b") (simp_all add: strcasecmp_steps fold_less_def)
  qed
qed

theorem ngx_strcasecmp_order_witness:
  "ngx_strcasecmp (octets ''Host'') (octets ''hOST'') = 0 \<and> fold_less (octets ''Host'') (octets ''hosts'')"
  using ngx_strcasecmp_order[of "octets ''Host''" "octets ''hOST''"]
    ngx_strcasecmp_order[of "octets ''Host''" "octets ''hosts''"]
  by (simp add: ngx_tolower_def word_le_nat_alt strcasecmp_steps)

text \<open>
  The bounded case-insensitive search returns the offset of the first occurrence of the needle that
  lies wholly inside the haystack, and NULL exactly when there is none; \<open>n\<close> is one less than the
  needle's length, as the function requires.
\<close>

theorem ngx_strlcasestrn_first:
  assumes "s2 \<noteq> []" and "ch_NUL \<notin> set s2" and "n = length s2 - 1"
  shows "ngx_strlcasestrn s1 s2 n = Some i \<longleftrightarrow> occurs_at s1 s2 i \<and> (\<forall>j<i. \<not> occurs_at s1 s2 j)"
  using strlcasestrn_loop_first[of "tl s2" "int (length s1) - int n" s1 "hd s2" 0 i] assms
  by (cases s2) (auto simp: ngx_strlcasestrn_def)

theorem ngx_strlcasestrn_first_witness:
  "ngx_strlcasestrn (octets ''MSIE ms'') (octets ''Ms'') 1 = Some 0"
  using ngx_strlcasestrn_first[of "octets ''Ms''" 1 "octets ''MSIE ms''" 0]
  by (simp add: occurs_at_def ngx_tolower_def word_le_nat_alt)

end
