(* ===== verification/HttpHeaderLine.thy ===== *)
theory HttpHeaderLine
  imports Scanner NgxString
begin

text \<open>
  The header line parser \<^verbatim>\<open>ngx_http_parse_header_line\<close> of \<^verbatim>\<open>src/http/ngx_http_parse.c\<close> and the header
  hash of \<^verbatim>\<open>src/core/ngx_hash.c\<close> it computes on the way. The locals \<^verbatim>\<open>state\<close>, \<^verbatim>\<open>hash\<close> and \<^verbatim>\<open>i\<close> of the loop
  and the request fields they are saved to are the same fields of the record; the places that return
  without saving them restore the values of the call. The states are those of the C enum with the
  prefix \<open>hl_\<close>.
\<close>

section \<open>The header hash\<close>

definition ngx_hash :: "u64 \<Rightarrow> u_char \<Rightarrow> u64" where
  "ngx_hash key c = key * 31 + ucast c"

definition ngx_hash_key :: "bytes \<Rightarrow> u64" where
  "ngx_hash_key data = foldl ngx_hash 0 data"

definition ngx_hash_key_lc :: "bytes \<Rightarrow> u64" where
  "ngx_hash_key_lc data = foldl (\<lambda>key c. ngx_hash key (ngx_tolower c)) 0 data"

text \<open>\<^verbatim>\<open>ngx_hash_strlow\<close> lowers into \<^verbatim>\<open>dst\<close> and hashes what it wrote.\<close>

fun hash_strlow_loop :: "u64 \<Rightarrow> bytes \<Rightarrow> bytes \<times> u64" where
  "hash_strlow_loop key [] = ([], key)"
| "hash_strlow_loop key (c # src) =
     (case hash_strlow_loop (ngx_hash key (ngx_tolower c)) src of (dst, k) \<Rightarrow> (ngx_tolower c # dst, k))"

definition ngx_hash_strlow :: "bytes \<Rightarrow> bytes \<times> u64" where
  "ngx_hash_strlow src = hash_strlow_loop 0 src"

section \<open>State\<close>

text \<open>The table \<^verbatim>\<open>lowcase\<close>: letters in lower case, digits and the hyphen; zero for all others.\<close>

definition lowcase :: bytes where
  "lowcase = replicate 32 0 @ replicate 13 0 @ [ch_minus, 0, 0] @ octets ''0123456789'' @ replicate 6 0
     @ 0 # octets ''abcdefghijklmnopqrstuvwxyz'' @ replicate 5 0
     @ 0 # octets ''abcdefghijklmnopqrstuvwxyz'' @ replicate 5 0 @ replicate 128 0"

definition NGX_HTTP_LC_HEADER_LEN :: nat where "NGX_HTTP_LC_HEADER_LEN = 32"

datatype hl_state =
    hl_start | hl_name | hl_space_before_value | hl_value | hl_space_after_value
  | hl_ignore_line | hl_almost_done | hl_header_almost_done

record http_header =
  h_state :: hl_state
  header_hash :: u64
  lowcase_index :: nat
  lowcase_header :: bytes
  invalid_header :: bool
  upstream :: bool                \<comment> \<open>\<^verbatim>\<open>r->upstream\<close> is not null\<close>
  allow_underscores :: bool       \<comment> \<open>the parameter of the call\<close>
  header_name_start :: ptr
  header_name_end :: ptr
  header_start :: ptr
  header_end :: ptr

definition new_header :: "bool \<Rightarrow> bool \<Rightarrow> http_header" where
  "new_header up und = \<lparr> h_state = hl_start, header_hash = 0, lowcase_index = 0,
     lowcase_header = replicate NGX_HTTP_LC_HEADER_LEN 0, invalid_header = False, upstream = up,
     allow_underscores = und, header_name_start = None, header_name_end = None,
     header_start = None, header_end = None \<rparr>"

section \<open>The cases of the switch\<close>

text \<open>The first octet of a name starts the hash and the buffer of the lowered name.\<close>

definition hl_first :: "u_char \<Rightarrow> http_header \<Rightarrow> http_header" where
  "hl_first c r = r\<lparr>header_hash := ngx_hash 0 c, lowcase_header := (lowcase_header r)[0 := c], lowcase_index := 1\<rparr>"

text \<open>Every further one is appended; the index wraps at the buffer's length.\<close>

definition hl_next :: "u_char \<Rightarrow> http_header \<Rightarrow> http_header" where
  "hl_next c r = r\<lparr>header_hash := ngx_hash (header_hash r) c,
     lowcase_header := (lowcase_header r)[lowcase_index r := c],
     lowcase_index := (lowcase_index r + 1) mod NGX_HTTP_LC_HEADER_LEN\<rparr>"

definition hl_case_start :: "nat \<Rightarrow> u_char \<Rightarrow> http_header \<Rightarrow> http_header verdict" where
  "hl_case_start p ch r =
    (let r = r\<lparr>header_name_start := Some p, invalid_header := False\<rparr> in
     if ch = CR then Continue (r\<lparr>header_end := Some p, h_state := hl_header_almost_done\<rparr>)
     else if ch = LF then Done (r\<lparr>header_end := Some p\<rparr>) NGX_HTTP_PARSE_HEADER_DONE
     else
       let r = r\<lparr>h_state := hl_name\<rparr>; c = lowcase ! unat ch in
       if c \<noteq> 0 then Continue (hl_first c r)
       else if ch = ch_underscore then
         (if allow_underscores r then Continue (hl_first ch r)
          else Continue (r\<lparr>header_hash := 0, lowcase_index := 0, invalid_header := True\<rparr>))
       else if ch \<le> 0x20 \<or> ch = ch_DEL \<or> ch = ch_colon
       then Fail (r\<lparr>header_end := Some p\<rparr>) NGX_HTTP_PARSE_INVALID_HEADER
       else Continue (r\<lparr>header_hash := 0, lowcase_index := 0, invalid_header := True\<rparr>))"

text \<open>\<^verbatim>\<open>p - r->header_name_start == 4 && ngx_strncmp(r->header_name_start, "HTTP", 4) == 0\<close>.\<close>

definition name_is_http :: "bytes \<Rightarrow> nat \<Rightarrow> http_header \<Rightarrow> bool" where
  "name_is_http buf p r \<longleftrightarrow>
     (case header_name_start r of
        Some s \<Rightarrow> p = s + 4 \<and> slice buf s p = octets ''HTTP''
      | None \<Rightarrow> False)"

definition hl_case_name :: "bytes \<Rightarrow> nat \<Rightarrow> u_char \<Rightarrow> http_header \<Rightarrow> http_header verdict" where
  "hl_case_name buf p ch r =
    (let c = lowcase ! unat ch in
     if c \<noteq> 0 then Continue (hl_next c r)
     else if ch = ch_underscore then
       (if allow_underscores r then Continue (hl_next ch r) else Continue (r\<lparr>invalid_header := True\<rparr>))
     else if ch = ch_colon then Continue (r\<lparr>header_name_end := Some p, h_state := hl_space_before_value\<rparr>)
     else if ch = CR then
       Continue (r\<lparr>header_name_end := Some p, header_start := Some p, header_end := Some p, h_state := hl_almost_done\<rparr>)
     else if ch = LF then
       Done (r\<lparr>header_name_end := Some p, header_start := Some p, header_end := Some p\<rparr>) NGX_OK
     else if ch = ch_slash \<and> upstream r \<and> name_is_http buf p r then Continue (r\<lparr>h_state := hl_ignore_line\<rparr>)
     else if ch \<le> 0x20 \<or> ch = ch_DEL
     then Fail (r\<lparr>header_end := Some p\<rparr>) NGX_HTTP_PARSE_INVALID_HEADER
     else Continue (r\<lparr>invalid_header := True\<rparr>))"

definition hl_case_space_before_value :: "nat \<Rightarrow> u_char \<Rightarrow> http_header \<Rightarrow> http_header verdict" where
  "hl_case_space_before_value p ch r =
    (if ch = ch_space then Continue r
     else if ch = CR then Continue (r\<lparr>header_start := Some p, header_end := Some p, h_state := hl_almost_done\<rparr>)
     else if ch = LF then Done (r\<lparr>header_start := Some p, header_end := Some p\<rparr>) NGX_OK
     else if ch = ch_NUL then Fail (r\<lparr>header_end := Some p\<rparr>) NGX_HTTP_PARSE_INVALID_HEADER
     else Continue (r\<lparr>header_start := Some p, h_state := hl_value\<rparr>))"

definition hl_case_value :: "nat \<Rightarrow> u_char \<Rightarrow> http_header \<Rightarrow> http_header verdict" where
  "hl_case_value p ch r =
    (if ch = ch_space then Continue (r\<lparr>header_end := Some p, h_state := hl_space_after_value\<rparr>)
     else if ch = CR then Continue (r\<lparr>header_end := Some p, h_state := hl_almost_done\<rparr>)
     else if ch = LF then Done (r\<lparr>header_end := Some p\<rparr>) NGX_OK
     else if ch = ch_NUL then Fail (r\<lparr>header_end := Some p\<rparr>) NGX_HTTP_PARSE_INVALID_HEADER
     else Continue r)"

definition hl_case_space_after_value :: "nat \<Rightarrow> u_char \<Rightarrow> http_header \<Rightarrow> http_header verdict" where
  "hl_case_space_after_value p ch r =
    (if ch = ch_space then Continue r
     else if ch = CR then Continue (r\<lparr>h_state := hl_almost_done\<rparr>)
     else if ch = LF then Done r NGX_OK
     else if ch = ch_NUL then Fail (r\<lparr>header_end := Some p\<rparr>) NGX_HTTP_PARSE_INVALID_HEADER
     else Continue (r\<lparr>h_state := hl_value\<rparr>))"

section \<open>The switch and the loop\<close>

definition header_line_step :: "http_header byte_step" where
  "header_line_step buf p ch r =
    (case h_state r of
       hl_start \<Rightarrow> hl_case_start p ch r
     | hl_name \<Rightarrow> hl_case_name buf p ch r
     | hl_space_before_value \<Rightarrow> hl_case_space_before_value p ch r
     | hl_value \<Rightarrow> hl_case_value p ch r
     | hl_space_after_value \<Rightarrow> hl_case_space_after_value p ch r
     | hl_ignore_line \<Rightarrow> if ch = LF then Continue (r\<lparr>h_state := hl_start\<rparr>) else Continue r
     | hl_almost_done \<Rightarrow>
         if ch = LF then Done r NGX_OK else if ch = CR then Continue r
         else Fail r NGX_HTTP_PARSE_INVALID_HEADER
     | hl_header_almost_done \<Rightarrow>
         if ch = LF then Done r NGX_HTTP_PARSE_HEADER_DONE else Fail r NGX_HTTP_PARSE_INVALID_HEADER)"

text \<open>
  \<^verbatim>\<open>done\<close> saves the hash and the index and resets the state; \<^verbatim>\<open>header_done\<close> does not save them; an error
  saves nothing and leaves \<^verbatim>\<open>b->pos\<close>.
\<close>

definition ngx_http_parse_header_line ::
    "bytes \<Rightarrow> nat \<Rightarrow> http_header \<Rightarrow> ngx_rc \<times> http_header \<times> nat" where
  "ngx_http_parse_header_line buf pos r =
    (case scan header_line_step buf pos r of
       (Continue r', p) \<Rightarrow> (NGX_AGAIN, r', p)
     | (Done r' rc, p) \<Rightarrow>
         if rc = NGX_HTTP_PARSE_HEADER_DONE
         then (rc, r'\<lparr>h_state := hl_start, header_hash := header_hash r, lowcase_index := lowcase_index r\<rparr>, p + 1)
         else (rc, r'\<lparr>h_state := hl_start\<rparr>, p + 1)
     | (Fail r' rc, p) \<Rightarrow>
         (rc, r'\<lparr>h_state := h_state r, header_hash := header_hash r, lowcase_index := lowcase_index r\<rparr>, pos))"

section \<open>Facts on the table\<close>

definition name_char :: "bool \<Rightarrow> u_char \<Rightarrow> bool" where
  "name_char und c \<longleftrightarrow> is_digit c \<or> is_lower (ngx_tolower c) \<or> c = ch_minus \<or> (und \<and> c = ch_underscore)"

lemma lowcase_table: "lowcase = map (\<lambda>c. if name_char False c then ngx_tolower c else 0) octet_list"
  by code_simp

lemma lowcase_nth: "lowcase ! unat c = (if name_char False c then ngx_tolower c else 0)"
  using octet_less[of c] by (simp add: lowcase_table octet_list_def)

section \<open>The buffer of the lowered name\<close>


lemmas hl_defs = hl_case_start_def hl_case_name_def hl_case_space_before_value_def hl_case_value_def
  hl_case_space_after_value_def


section \<open>Resumption and the invariant of the loop\<close>

lemma slice_causal: "p \<le> length b \<Longrightarrow> slice (b @ ext) s p = slice b s p"
  by (cases "s \<le> length b") (auto simp: slice_def)

lemma name_is_http_causal: "p \<le> length b \<Longrightarrow> name_is_http (b @ ext) p r = name_is_http b p r"
  by (simp add: name_is_http_def slice_causal split: option.split)

interpretation hl: byte_machine header_line_step
proof
  fix p :: nat and b ext :: bytes and s :: http_header
  assume p: "p < length b"
  then have "(b @ ext) ! p = b ! p" and "name_is_http (b @ ext) p s = name_is_http b p s"
    by (simp_all add: nth_append name_is_http_causal)
  then show "header_line_step (b @ ext) p ((b @ ext) ! p) s = header_line_step b p (b ! p) s"
    by (simp only: header_line_step_def hl_case_name_def)
qed

text \<open>
  What the hash and the buffer hold of the name from \<open>s\<close> up to \<open>p\<close> while it is valid: the hash of the
  lowered name, and the last 32 octets of the lowered name, at their offsets modulo 32.
\<close>

definition hash_ok :: "bytes \<Rightarrow> nat \<Rightarrow> nat \<Rightarrow> http_header \<Rightarrow> bool" where
  "hash_ok b s p r \<longleftrightarrow> \<not> invalid_header r \<longrightarrow>
     slice_all (name_char (allow_underscores r)) b s p \<and>
     header_hash r = ngx_hash_key_lc (slice b s p) \<and> lowcase_index r = (p - s) mod 32 \<and>
     (\<forall>j. s \<le> j \<and> j < p \<and> p \<le> j + 32 \<longrightarrow> lowcase_header r ! ((j - s) mod 32) = ngx_tolower (b ! j))"

lemma hash_ok_frame [simp]:
  "hash_ok b s p (r\<lparr>header_end := x\<rparr>) = hash_ok b s p r"
  "hash_ok b s p (r\<lparr>header_start := x\<rparr>) = hash_ok b s p r"
  "hash_ok b s p (r\<lparr>header_name_end := x\<rparr>) = hash_ok b s p r"
  "hash_ok b s p (r\<lparr>header_name_start := x\<rparr>) = hash_ok b s p r"
  "hash_ok b s p (r\<lparr>h_state := st\<rparr>) = hash_ok b s p r"
  "hash_ok b s p (r\<lparr>invalid_header := True\<rparr>)"
  by (simp_all add: hash_ok_def)

lemma hash_ok_first:
  assumes "p < length b" and "name_char (allow_underscores r) (b ! p)" and "c = ngx_tolower (b ! p)"
    and "length (lowcase_header r) = 32"
  shows "hash_ok b p (Suc p) (hl_first c r)"
  using assms by (auto simp: hash_ok_def hl_first_def ngx_hash_key_lc_def slice_Suc less_Suc_eq)

lemma hash_ok_next:
  assumes "s < p" and "p < length b" and "name_char (allow_underscores r) (b ! p)" and "c = ngx_tolower (b ! p)"
    and "length (lowcase_header r) = 32" and "hash_ok b s p r"
  shows "hash_ok b s (Suc p) (hl_next c r)"
proof -
  have idx: "(p - s) mod 32 \<noteq> (j - s) mod 32" if "s \<le> j" "j < p" "Suc p \<le> j + 32" for j
  proof
    assume "(p - s) mod 32 = (j - s) mod 32"
    then have "32 dvd (p - s) - (j - s)" using that mod_eq_dvd_iff_nat[of "j - s" "p - s" 32] by simp
    then show False using that by (auto dest!: dvd_imp_le)
  qed
  show ?thesis
    using assms idx
    by (auto simp: hash_ok_def hl_next_def ngx_hash_key_lc_def slice_Suc less_Suc_eq Suc_diff_le
        NGX_HTTP_LC_HEADER_LEN_def mod_Suc_eq)
qed

definition field_char :: "u_char \<Rightarrow> bool" where
  "field_char c \<longleftrightarrow> 0x20 < c \<and> c \<noteq> ch_DEL \<and> c \<noteq> ch_colon"

definition value_char :: "u_char \<Rightarrow> bool" where
  "value_char c \<longleftrightarrow> c \<noteq> ch_NUL \<and> c \<noteq> CR \<and> c \<noteq> LF"

lemma name_field_char: "name_char und c \<Longrightarrow> field_char c"
  by (induction c rule: all_octets)
    (simp add: octet_list_eq name_char_def field_char_def ngx_tolower_def is_digit_def is_lower_def
      word_le_nat_alt)


definition hl_name_ok :: "bytes \<Rightarrow> nat \<Rightarrow> nat \<Rightarrow> http_header \<Rightarrow> bool" where
  "hl_name_ok b s e r \<longleftrightarrow> header_name_start r = Some s \<and> s < e \<and> slice_all field_char b s e \<and> hash_ok b s e r"

definition hl_line_ok :: "bytes \<Rightarrow> nat \<Rightarrow> nat \<Rightarrow> nat \<Rightarrow> http_header \<Rightarrow> bool" where
  "hl_line_ok b s e hs r \<longleftrightarrow> hl_name_ok b s e r \<and> header_name_end r = Some e \<and> header_start r = Some hs \<and> e \<le> hs"

definition hl_value_ok :: "bytes \<Rightarrow> nat \<Rightarrow> nat \<Rightarrow> bool" where
  "hl_value_ok b hs he \<longleftrightarrow> hs \<le> he \<and> slice_all value_char b hs he \<and>
     (hs < he \<longrightarrow> b ! hs \<noteq> ch_space \<and> b ! (he - 1) \<noteq> ch_space)"

definition hl_inv :: "bytes \<Rightarrow> nat \<Rightarrow> http_header \<Rightarrow> bool" where
  "hl_inv b p r \<longleftrightarrow> length (lowcase_header r) = 32 \<and>
    (let st = h_state r in
     if st = hl_name then \<exists>s. hl_name_ok b s p r
     else if st = hl_space_before_value then \<exists>s e. hl_name_ok b s e r \<and> header_name_end r = Some e \<and> e < p
     else if st = hl_value then \<exists>s e hs. hl_line_ok b s e hs r \<and> hs < p \<and> hl_value_ok b hs p
     else if st = hl_space_after_value then
       \<exists>s e hs he. hl_line_ok b s e hs r \<and> header_end r = Some he \<and> hs < he \<and> he < p \<and> hl_value_ok b hs he \<and>
         slice_all value_char b hs p
     else if st = hl_almost_done then
       \<exists>s e hs he. hl_line_ok b s e hs r \<and> header_end r = Some he \<and> he < p \<and> hl_value_ok b hs he
     else True)"

definition hl_post :: "bytes \<Rightarrow> nat \<Rightarrow> http_header \<Rightarrow> ngx_rc \<Rightarrow> bool" where
  "hl_post b q r rc \<longleftrightarrow> rc = NGX_OK \<longrightarrow>
     (\<exists>s e hs he. hl_line_ok b s e hs r \<and> header_end r = Some he \<and> he \<le> q \<and> hl_value_ok b hs he)"

lemmas hl_unfold = header_line_step_def hl_defs hl_inv_def Let_def

lemma hl_name_ok_frame [simp]:
  "hl_name_ok b s p (r\<lparr>header_end := x\<rparr>) = hl_name_ok b s p r"
  "hl_name_ok b s p (r\<lparr>header_start := x\<rparr>) = hl_name_ok b s p r"
  "hl_name_ok b s p (r\<lparr>header_name_end := x\<rparr>) = hl_name_ok b s p r"
  "hl_name_ok b s p (r\<lparr>h_state := st\<rparr>) = hl_name_ok b s p r"
  by (simp_all add: hl_name_ok_def)

lemma hl_line_ok_frame [simp]:
  "hl_line_ok b s e hs (r\<lparr>header_end := x\<rparr>) = hl_line_ok b s e hs r"
  "hl_line_ok b s e hs (r\<lparr>h_state := st\<rparr>) = hl_line_ok b s e hs r"
  by (simp_all add: hl_line_ok_def)

lemma hl_value_ok_refl [simp]: "hl_value_ok b p p"
  by (simp add: hl_value_ok_def)

lemma hl_value_ok_Suc:
  "value_char (b ! p) \<Longrightarrow> b ! p \<noteq> ch_space \<Longrightarrow> hs \<le> p \<Longrightarrow> slice_all value_char b hs p \<Longrightarrow>
     (hs < p \<Longrightarrow> b ! hs \<noteq> ch_space) \<Longrightarrow> hl_value_ok b hs (Suc p)"
  by (auto simp: hl_value_ok_def less_Suc_eq)

text \<open>What an octet of a name is to the table.\<close>

lemma lowcase_cases:
  obtains "name_char und ch" and "(lowcase ! unat ch \<noteq> 0 \<and> lowcase ! unat ch = ngx_tolower ch) \<or>
      (lowcase ! unat ch = 0 \<and> und \<and> ch = ch_underscore \<and> ngx_tolower ch = ch)"
  | "\<not> name_char und ch" and "lowcase ! unat ch = 0" and "\<not> (und \<and> ch = ch_underscore)"
proof (cases "name_char False ch")
  case True
  then have "ch \<noteq> 0" using ngx_tolower_eq_0[of 0]
    by (auto simp: name_char_def is_digit_def is_lower_def word_le_nat_alt simp del: ngx_tolower_eq_0)
  with True show ?thesis using that(1) by (auto simp: lowcase_nth name_char_def)
next
  case False
  then have z: "lowcase ! unat ch = 0" by (simp add: lowcase_nth)
  show ?thesis
  proof (cases "und \<and> ch = ch_underscore")
    case True
    then have "ngx_tolower ch = ch" by (simp add: ngx_tolower_def word_le_nat_alt)
    with True z show ?thesis using that(1) by (simp add: name_char_def)
  next
    case False
    with z \<open>\<not> name_char False ch\<close> show ?thesis using that(2) by (auto simp: name_char_def)
  qed
qed

lemma hl_start_step:
  assumes "hl_case_start p ch r = Continue r'"
  shows "(ch = CR \<and> r' = r\<lparr>header_name_start := Some p, invalid_header := False, header_end := Some p,
            h_state := hl_header_almost_done\<rparr>) \<or>
    (name_char (allow_underscores r) ch \<and> r' = hl_first (ngx_tolower ch)
       (r\<lparr>header_name_start := Some p, invalid_header := False, h_state := hl_name\<rparr>)) \<or>
    (field_char ch \<and> r' = r\<lparr>header_name_start := Some p, invalid_header := True, h_state := hl_name,
       header_hash := 0, lowcase_index := 0\<rparr>)"
proof (cases rule: lowcase_cases[of "allow_underscores r" ch])
  case 1
  then have "ch \<noteq> CR" "ch \<noteq> LF" by (auto simp: name_char_def is_digit_def is_lower_def ngx_tolower_def word_le_nat_alt)
  with 1 show ?thesis using assms by (auto simp: hl_case_start_def Let_def)
next
  case 2
  then show ?thesis
    using assms by (auto simp: hl_case_start_def Let_def field_char_def not_le split: if_splits)
qed

lemma hl_name_step:
  assumes "hl_case_name b p ch r = Continue r'"
  shows "(name_char (allow_underscores r) ch \<and> r' = hl_next (ngx_tolower ch) r) \<or>
    (field_char ch \<and> r' = r\<lparr>invalid_header := True\<rparr>) \<or>
    (ch = ch_colon \<and> r' = r\<lparr>header_name_end := Some p, h_state := hl_space_before_value\<rparr>) \<or>
    (ch = CR \<and> r' = r\<lparr>header_name_end := Some p, header_start := Some p, header_end := Some p,
       h_state := hl_almost_done\<rparr>) \<or>
    r' = r\<lparr>h_state := hl_ignore_line\<rparr>"
proof (cases rule: lowcase_cases[of "allow_underscores r" ch])
  case 1
  with assms show ?thesis by (auto simp: hl_case_name_def Let_def)
next
  case 2
  then show ?thesis
    using assms by (auto simp: hl_case_name_def Let_def field_char_def not_le split: if_splits)
qed

lemma hl_inv_start:
  assumes "p < length b" and "length (lowcase_header r) = 32" and "hl_case_start p (b ! p) r = Continue r'"
  shows "hl_inv b (Suc p) r'"
  using hl_start_step[OF assms(3)]
proof (elim disjE conjE)
  assume "name_char (allow_underscores r) (b ! p)"
    and r': "r' = hl_first (ngx_tolower (b ! p)) (r\<lparr>header_name_start := Some p, invalid_header := False, h_state := hl_name\<rparr>)"
  then have "hash_ok b p (Suc p) r'" unfolding r' using assms by (intro hash_ok_first) simp_all
  with \<open>name_char _ _\<close> show ?thesis
    using assms(2) unfolding r' by (auto simp: hl_inv_def hl_name_ok_def hl_first_def name_field_char)
qed (use assms(2) in \<open>auto simp: hl_inv_def hl_name_ok_def hash_ok_def\<close>)

lemma hl_inv_name:
  assumes "p < length b" and "h_state r = hl_name" and "hl_inv b p r" and "hl_case_name b p (b ! p) r = Continue r'"
  shows "hl_inv b (Suc p) r'"
proof -
  obtain s where s: "hl_name_ok b s p r" and len: "length (lowcase_header r) = 32"
    using assms(2,3) by (auto simp: hl_inv_def)
  show ?thesis
    using hl_name_step[OF assms(4)]
  proof (elim disjE conjE)
    assume nc: "name_char (allow_underscores r) (b ! p)" and r': "r' = hl_next (ngx_tolower (b ! p)) r"
    then have "hash_ok b s (Suc p) r'"
      unfolding r' using assms(1) s len by (intro hash_ok_next) (simp_all add: hl_name_ok_def)
    with nc show ?thesis
      using s len assms(2) unfolding r' by (auto simp: hl_inv_def hl_name_ok_def hl_next_def name_field_char)
  qed (use s len assms(2) in \<open>auto simp: hl_inv_def hl_name_ok_def hl_line_ok_def hash_ok_def\<close>)
qed

lemma hl_inv_value:
  assumes "p < length b" and "hl_inv b p r" and "header_line_step b p (b ! p) r = Continue r'"
    and "h_state r \<in> {hl_space_before_value, hl_value, hl_space_after_value}"
  shows "hl_inv b (Suc p) r'"
  using assms(4)
proof (elim insertE emptyE)
  assume "h_state r = hl_space_before_value"
  then show ?thesis
    using assms(1-3) by (auto simp: hl_inv_def header_line_step_def hl_case_space_before_value_def hl_line_ok_def
        value_char_def hl_value_ok_def split: if_splits)
next
  assume st: "h_state r = hl_value"
  then obtain s e hs where "hl_line_ok b s e hs r" "hs < p" "hl_value_ok b hs p"
    using assms(2) by (auto simp: hl_inv_def)
  moreover from this have "slice_all value_char b hs p" and "b ! hs \<noteq> ch_space"
    by (simp_all add: hl_value_ok_def)
  moreover have "length (lowcase_header r) = 32" using assms(2) by (simp add: hl_inv_def)
  ultimately show ?thesis
    using assms(1,3) st
    by (auto simp: hl_inv_def header_line_step_def hl_case_value_def value_char_def hl_value_ok_Suc split: if_splits)
      (blast intro: hl_value_ok_Suc | fastforce simp: value_char_def intro: hl_value_ok_Suc)+
next
  assume st: "h_state r = hl_space_after_value"
  then obtain s e hs he where h: "hl_line_ok b s e hs r" "header_end r = Some he" "hs < he" "he < p"
    "hl_value_ok b hs he" "slice_all value_char b hs p"
    using assms(2) by (auto simp: hl_inv_def)
  then have "b ! hs \<noteq> ch_space" "hs < Suc p" "he < Suc p" by (simp_all add: hl_value_ok_def)
  moreover have "length (lowcase_header r) = 32" using assms(2) by (simp add: hl_inv_def)
  moreover have "b ! p = ch_space \<Longrightarrow> slice_all value_char b hs (Suc p)"
    using h by (simp add: value_char_def)
  moreover have "b ! p \<noteq> ch_space \<Longrightarrow> value_char (b ! p) \<Longrightarrow> hl_value_ok b hs (Suc p)"
    using h calculation by (intro hl_value_ok_Suc) simp_all
  ultimately show ?thesis
    using assms(1,3) st h(1-5)
    by (auto simp: hl_inv_def header_line_step_def hl_case_space_after_value_def value_char_def
        split: if_splits simp del: slice_all_Suc) (blast | metis less_trans less_SucI)+
qed

lemma hl_inv_step:
  assumes "p < length b" and "hl_inv b p r" and "header_line_step b p (b ! p) r = Continue r'"
  shows "hl_inv b (Suc p) r'"
proof (cases "h_state r")
  case hl_start
  then show ?thesis
    using assms hl_inv_start[of p b r r'] by (simp add: header_line_step_def hl_inv_def[of b p])
next
  case hl_name
  then show ?thesis using assms hl_inv_name[of p b r r'] by (simp add: header_line_step_def)
next
  case hl_almost_done
  then show ?thesis using assms by (auto simp: header_line_step_def hl_inv_def split: if_splits)
next
  case hl_ignore_line
  then show ?thesis using assms by (auto simp: header_line_step_def hl_inv_def split: if_splits)
next
  case hl_header_almost_done
  then show ?thesis using assms by (auto simp: header_line_step_def split: if_splits)
qed (use assms hl_inv_value in auto)

lemma hl_inv_done:
  assumes "p < length b" and "hl_inv b p r" and "header_line_step b p (b ! p) r = Done r' rc"
  shows "hl_post b p r' rc"
proof (cases "h_state r")
  case hl_name
  then show ?thesis
    using assms by (auto simp: hl_post_def hl_inv_def hl_line_ok_def header_line_step_def hl_case_name_def Let_def split: if_splits)
next
  case hl_value
  then obtain s e hs where "hl_line_ok b s e hs r" "hs < p" "hl_value_ok b hs p"
    using assms(2) by (auto simp: hl_inv_def)
  with hl_value show ?thesis
    using assms(3) by (auto simp: hl_post_def header_line_step_def hl_case_value_def split: if_splits) blast
next
  case hl_space_after_value
  then show ?thesis
    using assms by (auto simp: hl_post_def hl_inv_def header_line_step_def hl_case_space_after_value_def split: if_splits)
next
  case hl_space_before_value
  then show ?thesis
    using assms by (auto simp: hl_post_def hl_inv_def hl_line_ok_def header_line_step_def hl_case_space_before_value_def split: if_splits)
next
  case hl_almost_done
  then show ?thesis
    using assms by (auto simp: hl_post_def hl_inv_def header_line_step_def split: if_splits)
qed (use assms in \<open>auto simp: hl_post_def header_line_step_def hl_case_start_def Let_def split: if_splits\<close>)

interpretation hl_inv: invariant_machine header_line_step hl_inv hl_post
  by unfold_locales (fact hl_inv_step hl_inv_done)+

section \<open>Return codes\<close>

lemma hl_done_rc:
  "header_line_step b p c r = Done r' rc \<Longrightarrow> rc \<in> {NGX_OK, NGX_HTTP_PARSE_HEADER_DONE}"
  by (cases "h_state r") (auto simp: header_line_step_def hl_defs Let_def split: if_splits)

lemma hl_fail_rc: "header_line_step b p c r = Fail r' rc \<Longrightarrow> rc = NGX_HTTP_PARSE_INVALID_HEADER"
  by (cases "h_state r") (auto simp: header_line_step_def hl_defs Let_def split: if_splits)

lemma hl_again:
  "ngx_http_parse_header_line b pos r = (NGX_AGAIN, r', pos') \<longleftrightarrow>
     scan header_line_step b pos r = (Continue r', pos')"
  by (auto simp: ngx_http_parse_header_line_def split: prod.splits verdict.splits if_splits
      dest!: scan_Done_step scan_Fail_step hl_done_rc hl_fail_rc)

section \<open>Runs over a well-formed line\<close>

lemma hl_run_name:
  assumes "list_all (name_char (allow_underscores r)) nm" and "h_state r = hl_name"
  shows "\<exists>r'. scan header_line_step (pre @ nm @ post) (length pre) r =
      scan header_line_step (pre @ nm @ post) (length pre + length nm) r' \<and> h_state r' = hl_name \<and>
      invalid_header r' = invalid_header r \<and> header_name_start r' = header_name_start r \<and>
      allow_underscores r' = allow_underscores r"
  using assms
proof (induction nm arbitrary: pre r)
  case (Cons c nm)
  have "header_line_step (pre @ (c # nm) @ post) (length pre) c r = Continue (hl_next (ngx_tolower c) r)"
    using Cons.prems by (cases rule: lowcase_cases[of "allow_underscores r" c])
      (auto simp: header_line_step_def hl_case_name_def Let_def)
  then have "scan header_line_step (pre @ (c # nm) @ post) (length pre) r =
      scan header_line_step ((pre @ [c]) @ nm @ post) (length (pre @ [c])) (hl_next (ngx_tolower c) r)"
    by (simp add: scan_at)
  moreover have "list_all (name_char (allow_underscores (hl_next (ngx_tolower c) r))) nm"
    and "h_state (hl_next (ngx_tolower c) r) = hl_name"
    using Cons.prems by (simp_all add: hl_next_def)
  ultimately show ?case
    using Cons.IH[of "hl_next (ngx_tolower c) r" "pre @ [c]"] by (auto simp: hl_next_def)
qed auto

lemma hl_run_value:
  assumes "list_all value_char v" and "h_state r = (if w = ch_space then hl_space_after_value else hl_value)"
  shows "\<exists>r'. scan header_line_step (pre @ v @ post) (length pre) r =
      scan header_line_step (pre @ v @ post) (length pre + length v) r' \<and>
      h_state r' = (if last (w # v) = ch_space then hl_space_after_value else hl_value) \<and>
      invalid_header r' = invalid_header r \<and> header_name_start r' = header_name_start r \<and>
      header_name_end r' = header_name_end r \<and> header_start r' = header_start r"
  using assms
proof (induction v arbitrary: pre r w)
  case (Cons c v)
  then have c: "c \<noteq> ch_NUL" "c \<noteq> CR" "c \<noteq> LF" by (simp_all add: value_char_def)
  define r1 where "r1 = (if c = ch_space \<and> w \<noteq> ch_space
      then r\<lparr>header_end := Some (length pre), h_state := hl_space_after_value\<rparr>
      else if c \<noteq> ch_space then r\<lparr>h_state := hl_value\<rparr> else r)"
  have r1: "h_state r1 = (if c = ch_space then hl_space_after_value else hl_value)"
    "invalid_header r1 = invalid_header r" "header_name_start r1 = header_name_start r"
    "header_name_end r1 = header_name_end r" "header_start r1 = header_start r"
    using Cons.prems(2) by (auto simp: r1_def)
  have "header_line_step (pre @ (c # v) @ post) (length pre) c r = Continue r1"
    using Cons.prems(2) c
    by (auto simp: header_line_step_def hl_case_value_def hl_case_space_after_value_def r1_def)
  then have "scan header_line_step (pre @ (c # v) @ post) (length pre) r =
      scan header_line_step ((pre @ [c]) @ v @ post) (length (pre @ [c])) r1"
    by (simp add: scan_at)
  then show ?case using Cons.IH[of r1 c "pre @ [c]"] Cons.prems(1) r1 by auto
qed auto

text \<open>A header line: the name, a colon, spaces, the value.\<close>

definition render_header :: "bytes \<Rightarrow> nat \<Rightarrow> bytes \<Rightarrow> bytes" where
  "render_header nm k v = nm @ [ch_colon] @ replicate k ch_space @ v @ [CR, LF]"

section \<open>Properties\<close>

text \<open>
  The header parser may be stopped at any octet and resumed: after NGX_AGAIN, continuing from the state
  it saved with more input gives the return code of one call on all the input, and the same header,
  hash and position when a header line is complete; at the end of the headers the same position.
\<close>

theorem header_line_resumes:
  assumes "pos \<le> length b" and "ngx_http_parse_header_line b pos r = (NGX_AGAIN, r', pos')"
  shows "case (ngx_http_parse_header_line (b @ ext) pos r, ngx_http_parse_header_line (b @ ext) pos' r') of
      ((rc1, r1, p1), (rc2, r2, p2)) \<Rightarrow>
         rc1 = rc2 \<and> (rc1 \<in> {NGX_OK, NGX_AGAIN} \<longrightarrow> r1 = r2 \<and> p1 = p2) \<and>
         (rc1 = NGX_HTTP_PARSE_HEADER_DONE \<longrightarrow> p1 = p2) \<and>
         r1\<lparr>h_state := hl_start, header_hash := 0, lowcase_index := 0\<rparr> =
         r2\<lparr>h_state := hl_start, header_hash := 0, lowcase_index := 0\<rparr>"
proof -
  have "scan header_line_step (b @ ext) pos r = scan header_line_step (b @ ext) pos' r'"
    using assms by (simp add: hl_again hl.scan_append)
  then show ?thesis
    by (auto simp: ngx_http_parse_header_line_def split: prod.splits verdict.splits
        dest!: scan_Fail_step hl_fail_rc)
qed

theorem header_line_resumes_witness:
  "case (ngx_http_parse_header_line (octets ''Ho'' @ octets ''st: a'' @ [LF]) 0 (new_header False False),
         ngx_http_parse_header_line (octets ''Ho'' @ octets ''st: a'' @ [LF])
           (snd (snd (ngx_http_parse_header_line (octets ''Ho'') 0 (new_header False False))))
           (fst (snd (ngx_http_parse_header_line (octets ''Ho'') 0 (new_header False False))))) of
      ((rc1, r1, p1), (rc2, r2, p2)) \<Rightarrow>
         rc1 = rc2 \<and> (rc1 \<in> {NGX_OK, NGX_AGAIN} \<longrightarrow> r1 = r2 \<and> p1 = p2) \<and>
         (rc1 = NGX_HTTP_PARSE_HEADER_DONE \<longrightarrow> p1 = p2) \<and>
         r1\<lparr>h_state := hl_start, header_hash := 0, lowcase_index := 0\<rparr> =
         r2\<lparr>h_state := hl_start, header_hash := 0, lowcase_index := 0\<rparr>"
proof (rule header_line_resumes)
  have "fst (ngx_http_parse_header_line (octets ''Ho'') 0 (new_header False False)) = NGX_AGAIN" by code_simp
  then show "ngx_http_parse_header_line (octets ''Ho'') 0 (new_header False False) =
    (NGX_AGAIN, fst (snd (ngx_http_parse_header_line (octets ''Ho'') 0 (new_header False False))),
       snd (snd (ngx_http_parse_header_line (octets ''Ho'') 0 (new_header False False))))"
    by (metis prod.collapse)
qed simp



text \<open>
  C16: What an accepted header line looks like. Name and value are disjoint slices in this order; the name is
  not empty and holds no colon, space or control octet; the value holds no zero, CR or LF and neither
  starts nor ends with a space. Unless the header is marked invalid, its hash is ngx_hash_key_lc of
  the name, and for a name of at most 32 octets the buffer holds the lowered name: what the hash
  tables of known headers are searched with.
\<close>

theorem header_line_accepted:
  assumes "ngx_http_parse_header_line b 0 (new_header up und) = (NGX_OK, r, pos)"
  shows "\<exists>s e hs he. header_name_start r = Some s \<and> header_name_end r = Some e \<and>
     header_start r = Some hs \<and> header_end r = Some he \<and> s < e \<and> e \<le> hs \<and> hs \<le> he \<and> he < pos \<and> pos \<le> length b \<and>
     (\<forall>k. s \<le> k \<and> k < e \<longrightarrow> b ! k > 0x20 \<and> b ! k \<noteq> ch_DEL \<and> b ! k \<noteq> ch_colon) \<and>
     (\<forall>k. hs \<le> k \<and> k < he \<longrightarrow> b ! k \<notin> {ch_NUL, CR, LF}) \<and>
     (hs < he \<longrightarrow> b ! hs \<noteq> ch_space \<and> b ! (he - 1) \<noteq> ch_space) \<and>
     (\<not> invalid_header r \<longrightarrow> header_hash r = ngx_hash_key_lc (slice b s e) \<and>
       (e - s \<le> 32 \<longrightarrow> (\<forall>j < e - s. lowcase_header r ! j = ngx_tolower (b ! (s + j)))))"
proof -
  obtain r0 q where scan: "scan header_line_step b 0 (new_header up und) = (Done r0 NGX_OK, q)"
    and r: "r = r0\<lparr>h_state := hl_start\<rparr>" "pos = q + 1"
    using assms by (auto simp: ngx_http_parse_header_line_def split: prod.splits verdict.splits if_splits
        dest!: scan_Fail_step hl_fail_rc)
  have "hl_inv b 0 (new_header up und)"
    by (simp add: hl_inv_def new_header_def NGX_HTTP_LC_HEADER_LEN_def)
  from hl_inv.scan_done[OF _ this scan] have q: "q < length b" and post: "hl_post b q r0 NGX_OK" by simp_all
  then obtain s e hs he where h: "hl_line_ok b s e hs r0" "header_end r0 = Some he" "he \<le> q" "hl_value_ok b hs he"
    by (auto simp: hl_post_def)
  have "\<not> invalid_header r0 \<longrightarrow> header_hash r0 = ngx_hash_key_lc (slice b s e) \<and>
       (e - s \<le> 32 \<longrightarrow> (\<forall>j < e - s. lowcase_header r0 ! j = ngx_tolower (b ! (s + j))))"
  proof (intro impI conjI allI)
    assume ok: "\<not> invalid_header r0"
    then show "header_hash r0 = ngx_hash_key_lc (slice b s e)"
      using h(1) by (simp add: hl_line_ok_def hl_name_ok_def hash_ok_def)
    fix j
    assume "e - s \<le> 32" "j < e - s"
    then show "lowcase_header r0 ! j = ngx_tolower (b ! (s + j))"
      using h(1) ok by (auto simp: hl_line_ok_def hl_name_ok_def hash_ok_def dest!: spec[of _ "s + j"])
  qed
  then show ?thesis
    using h q r by (auto simp: hl_line_ok_def hl_name_ok_def hl_value_ok_def slice_all_def field_char_def
        value_char_def intro!: exI[of _ s] exI[of _ e] exI[of _ hs] exI[of _ he])
qed

theorem header_line_accepted_witness:
  "case ngx_http_parse_header_line (octets ''Host: a'' @ [CR, LF]) 0 (new_header False False) of
     (rc, r, pos) \<Rightarrow> \<exists>s e. header_name_start r = Some s \<and> header_name_end r = Some e \<and> s < e \<and> e < pos"
proof -
  let ?b = "octets ''Host: a'' @ [CR, LF]"
  obtain rc r pos where e: "ngx_http_parse_header_line ?b 0 (new_header False False) = (rc, r, pos)"
    by (rule prod_cases3)
  have "fst (ngx_http_parse_header_line ?b 0 (new_header False False)) = NGX_OK" by code_simp
  with e have "rc = NGX_OK" by simp
  with header_line_accepted[of ?b False False r pos] e show ?thesis by auto
qed

text \<open>
  C15: A well-formed header line is accepted, whatever follows it: the parser consumes exactly the line, finds
  the name and the value where they were written and does not mark the header invalid.
\<close>

theorem header_line_roundtrip:
  assumes "nm \<noteq> []" and "list_all (name_char und) nm"
    and "v \<noteq> []" and "list_all value_char v" and "hd v \<noteq> ch_space" and "last v \<noteq> ch_space"
  shows "\<exists>r. ngx_http_parse_header_line (render_header nm k v @ rest) 0 (new_header up und) =
      (NGX_OK, r, length (render_header nm k v)) \<and> \<not> invalid_header r \<and>
      header_name_start r = Some 0 \<and> header_name_end r = Some (length nm) \<and>
      header_start r = Some (length nm + 1 + k) \<and> header_end r = Some (length nm + 1 + k + length v)"
proof -
  let ?b = "render_header nm k v @ rest"
  let ?tail = "v @ [CR, LF] @ rest"
  obtain c nm' where nm: "nm = c # nm'" using assms(1) by (cases nm) auto
  obtain d v' where v: "v = d # v'" using assms(3) by (cases v) auto
  have b1: "?b = [c] @ nm' @ (ch_colon # replicate k ch_space @ ?tail)"
    and b2: "?b = nm @ ch_colon # (replicate k ch_space @ ?tail)"
    and b3: "?b = (nm @ [ch_colon]) @ replicate k ch_space @ ?tail"
    and b4: "?b = (nm @ [ch_colon] @ replicate k ch_space) @ d # (v' @ [CR, LF] @ rest)"
    and b5: "?b = (nm @ [ch_colon] @ replicate k ch_space @ [d]) @ v' @ ([CR, LF] @ rest)"
    and b6: "?b = (nm @ [ch_colon] @ replicate k ch_space @ v) @ [CR, LF] @ rest"
    by (simp_all add: render_header_def nm v)
  define r1 where "r1 = hl_first (ngx_tolower c)
      ((new_header up und)\<lparr>header_name_start := Some 0, invalid_header := False, h_state := hl_name\<rparr>)"
  have "name_char und c" using assms(2) by (simp add: nm)
  then have "header_line_step ?b 0 c (new_header up und) = Continue r1"
    using name_field_char[OF \<open>name_char und c\<close>]
    by (cases rule: lowcase_cases[of und c]) (auto simp: header_line_step_def hl_case_start_def Let_def
        new_header_def r1_def field_char_def word_less_nat_alt)
  then have s1: "scan header_line_step ?b 0 (new_header up und) = scan header_line_step ?b (length [c]) r1"
    unfolding b1 by (simp add: scan_step)
  have r1: "h_state r1 = hl_name" "\<not> invalid_header r1" "header_name_start r1 = Some 0"
    "allow_underscores r1 = und"
    by (simp_all add: r1_def hl_first_def new_header_def)
  obtain r2 where s2: "scan header_line_step ?b (length [c]) r1 = scan header_line_step ?b (length nm) r2"
    and r2: "h_state r2 = hl_name" "\<not> invalid_header r2" "header_name_start r2 = Some 0"
    using hl_run_name[of r1 nm' "[c]" "ch_colon # replicate k ch_space @ ?tail"] r1 assms(2)
    unfolding b1 by (auto simp: nm)
  define r3 where "r3 = r2\<lparr>header_name_end := Some (length nm), h_state := hl_space_before_value\<rparr>"
  have "lowcase ! 58 = 0"
    using lowcase_nth[of ch_colon]
    by (simp add: name_char_def is_digit_def is_lower_def ngx_tolower_def word_le_nat_alt)
  then have s3: "scan header_line_step ?b (length nm) r2 = scan header_line_step ?b (length (nm @ [ch_colon])) r3"
    unfolding b2 using r2 by (simp add: scan_at header_line_step_def hl_case_name_def Let_def r3_def)
  have s4: "scan header_line_step ?b (length (nm @ [ch_colon])) r3 =
      scan header_line_step ?b (length (nm @ [ch_colon]) + length (replicate k ch_space)) r3"
    unfolding b3
    by (rule scan_skip) (auto simp: header_line_step_def hl_case_space_before_value_def r3_def)
  define r4 where "r4 = r3\<lparr>header_start := Some (length nm + 1 + k), h_state := hl_value\<rparr>"
  have d: "d \<noteq> ch_NUL" "d \<noteq> CR" "d \<noteq> LF" "d \<noteq> ch_space" using assms(4,5) by (auto simp: v value_char_def)
  then have s5: "scan header_line_step ?b (length (nm @ [ch_colon]) + length (replicate k ch_space)) r3 =
      scan header_line_step ?b (length (nm @ [ch_colon] @ replicate k ch_space @ [d])) r4"
    using scan_at[of "length (nm @ [ch_colon] @ replicate k ch_space)" "nm @ [ch_colon] @ replicate k ch_space"
        header_line_step d "v' @ [CR, LF] @ rest" r3]
    unfolding b4 by (simp add: header_line_step_def hl_case_space_before_value_def r3_def r4_def)
  obtain r5 where s6: "scan header_line_step ?b (length (nm @ [ch_colon] @ replicate k ch_space @ [d])) r4 =
      scan header_line_step ?b (length (nm @ [ch_colon] @ replicate k ch_space @ v)) r5"
    and r5: "h_state r5 = hl_value" "invalid_header r5 = invalid_header r4" "header_name_start r5 = header_name_start r4"
      "header_name_end r5 = header_name_end r4" "header_start r5 = header_start r4"
    using hl_run_value[of v' r4 d "nm @ [ch_colon] @ replicate k ch_space @ [d]" "[CR, LF] @ rest"] assms(4,6) d(4)
    unfolding b5 by (auto simp: v r4_def add.assoc)
  have s7: "scan header_line_step ?b (length (nm @ [ch_colon] @ replicate k ch_space @ v)) r5 =
      (Done (r5\<lparr>header_end := Some (length nm + 1 + k + length v), h_state := hl_almost_done\<rparr>) NGX_OK,
       length nm + 1 + k + length v + 1)"
    unfolding b6 using r5(1) by (simp add: scan_step nth_append header_line_step_def hl_case_value_def)
  show ?thesis
    unfolding ngx_http_parse_header_line_def s1 s2 s3 s4 s5 s6 s7
    using r5 r2 by (simp add: r4_def r3_def render_header_def)
qed

theorem header_line_roundtrip_witness:
  "\<exists>r. ngx_http_parse_header_line (render_header (octets ''X-A'') 1 (octets ''b c'') @ [CR]) 0 (new_header False False) =
      (NGX_OK, r, length (render_header (octets ''X-A'') 1 (octets ''b c''))) \<and> \<not> invalid_header r"
  using header_line_roundtrip[of "octets ''X-A''" False "octets ''b c''" 1 "[CR]" False]
  by (fastforce simp: name_char_def value_char_def is_digit_def is_lower_def ngx_tolower_def word_le_nat_alt)

end
