(* ===== verification/NgxCodec.thy ===== *)
theory NgxCodec
  imports NgxString
begin

text \<open>
  The encoders and decoders of \<^verbatim>\<open>src/core/ngx_string.c\<close>: Base64, UTF-8, the escaping of URIs by bitmap
  and its inverse, and the escaping of HTML and JSON. Where the C code has two passes in one
  function (a null \<^verbatim>\<open>dst\<close> asks for the room that escaping needs), the passes are two definitions.
  Output written through \<^verbatim>\<open>dst\<close> is the list of octets written.
\<close>

section \<open>Base64\<close>

definition basis64 :: bytes where
  "basis64 = octets ''ABCDEFGHIJKLMNOPQRSTUVWXYZabcdefghijklmnopqrstuvwxyz0123456789+/''"

definition basis64url :: bytes where
  "basis64url = octets ''ABCDEFGHIJKLMNOPQRSTUVWXYZabcdefghijklmnopqrstuvwxyz0123456789-_''"

fun ngx_encode_base64_internal :: "bytes \<Rightarrow> bool \<Rightarrow> bytes \<Rightarrow> bytes" where
  "ngx_encode_base64_internal basis padding (s0 # s1 # s2 # s) =
     basis ! unat (drop_bit 2 s0 AND 0x3f)
     # basis ! unat (push_bit 4 (s0 AND 3) OR drop_bit 4 s1)
     # basis ! unat (push_bit 2 (s1 AND 0x0f) OR drop_bit 6 s2)
     # basis ! unat (s2 AND 0x3f)
     # ngx_encode_base64_internal basis padding s"
| "ngx_encode_base64_internal basis padding [s0, s1] =
     [basis ! unat (drop_bit 2 s0 AND 0x3f),
      basis ! unat (push_bit 4 (s0 AND 3) OR drop_bit 4 s1),
      basis ! unat (push_bit 2 (s1 AND 0x0f))] @ (if padding then [ch_eq] else [])"
| "ngx_encode_base64_internal basis padding [s0] =
     [basis ! unat (drop_bit 2 s0 AND 0x3f),
      basis ! unat (push_bit 4 (s0 AND 3))] @ (if padding then [ch_eq, ch_eq] else [])"
| "ngx_encode_base64_internal basis padding [] = []"

definition ngx_encode_base64 :: "bytes \<Rightarrow> bytes" where
  "ngx_encode_base64 src = ngx_encode_base64_internal basis64 True src"

definition ngx_encode_base64url :: "bytes \<Rightarrow> bytes" where
  "ngx_encode_base64url src = ngx_encode_base64_internal basis64url False src"

text \<open>The decoding tables; 77 marks an octet outside the alphabet.\<close>

definition decode_basis64 :: bytes where
  "decode_basis64 =
    [77, 77, 77, 77, 77, 77, 77, 77, 77, 77, 77, 77, 77, 77, 77, 77,
     77, 77, 77, 77, 77, 77, 77, 77, 77, 77, 77, 77, 77, 77, 77, 77,
     77, 77, 77, 77, 77, 77, 77, 77, 77, 77, 77, 62, 77, 77, 77, 63,
     52, 53, 54, 55, 56, 57, 58, 59, 60, 61, 77, 77, 77, 77, 77, 77,
     77,  0,  1,  2,  3,  4,  5,  6,  7,  8,  9, 10, 11, 12, 13, 14,
     15, 16, 17, 18, 19, 20, 21, 22, 23, 24, 25, 77, 77, 77, 77, 77,
     77, 26, 27, 28, 29, 30, 31, 32, 33, 34, 35, 36, 37, 38, 39, 40,
     41, 42, 43, 44, 45, 46, 47, 48, 49, 50, 51, 77, 77, 77, 77, 77] @ replicate 128 77"

definition decode_basis64url :: bytes where
  "decode_basis64url =
    [77, 77, 77, 77, 77, 77, 77, 77, 77, 77, 77, 77, 77, 77, 77, 77,
     77, 77, 77, 77, 77, 77, 77, 77, 77, 77, 77, 77, 77, 77, 77, 77,
     77, 77, 77, 77, 77, 77, 77, 77, 77, 77, 77, 77, 77, 62, 77, 77,
     52, 53, 54, 55, 56, 57, 58, 59, 60, 61, 77, 77, 77, 77, 77, 77,
     77,  0,  1,  2,  3,  4,  5,  6,  7,  8,  9, 10, 11, 12, 13, 14,
     15, 16, 17, 18, 19, 20, 21, 22, 23, 24, 25, 77, 77, 77, 77, 63,
     77, 26, 27, 28, 29, 30, 31, 32, 33, 34, 35, 36, 37, 38, 39, 40,
     41, 42, 43, 44, 45, 46, 47, 48, 49, 50, 51, 77, 77, 77, 77, 77] @ replicate 128 77"

text \<open>The first loop: the number of octets before the padding, None for a foreign octet.\<close>

fun base64_span :: "bytes \<Rightarrow> bytes \<Rightarrow> nat option" where
  "base64_span basis [] = Some 0"
| "base64_span basis (c # s) =
     (if c = ch_eq then Some 0
      else if basis ! unat c = 77 then None
      else map_option Suc (base64_span basis s))"

fun base64_quads :: "bytes \<Rightarrow> bytes \<Rightarrow> bytes" where
  "base64_quads basis (s0 # s1 # s2 # s3 # s) =
     (push_bit 2 (basis ! unat s0) OR drop_bit 4 (basis ! unat s1))
     # (push_bit 4 (basis ! unat s1) OR drop_bit 2 (basis ! unat s2))
     # (push_bit 6 (basis ! unat s2) OR basis ! unat s3)
     # base64_quads basis s"
| "base64_quads basis [s0, s1, s2] =
     [push_bit 2 (basis ! unat s0) OR drop_bit 4 (basis ! unat s1),
      push_bit 4 (basis ! unat s1) OR drop_bit 2 (basis ! unat s2)]"
| "base64_quads basis [s0, s1] = [push_bit 2 (basis ! unat s0) OR drop_bit 4 (basis ! unat s1)]"
| "base64_quads basis [s0] = []"
| "base64_quads basis [] = []"

text \<open>None is NGX_ERROR; otherwise what is left in \<^verbatim>\<open>dst\<close>.\<close>

definition ngx_decode_base64_internal :: "bytes \<Rightarrow> bytes \<Rightarrow> bytes option" where
  "ngx_decode_base64_internal basis src =
    (case base64_span basis src of
       None \<Rightarrow> None
     | Some len \<Rightarrow> if len mod 4 = 1 then None else Some (base64_quads basis (take len src)))"

definition ngx_decode_base64 :: "bytes \<Rightarrow> bytes option" where
  "ngx_decode_base64 src = ngx_decode_base64_internal decode_basis64 src"

definition ngx_decode_base64url :: "bytes \<Rightarrow> bytes option" where
  "ngx_decode_base64url src = ngx_decode_base64_internal decode_basis64url src"

definition ngx_base64_encoded_length :: "nat \<Rightarrow> nat" where
  "ngx_base64_encoded_length len = ((len + 2) div 3) * 4"

definition ngx_base64_decoded_length :: "nat \<Rightarrow> nat" where
  "ngx_base64_decoded_length len = ((len + 3) div 4) * 3"

section \<open>UTF-8\<close>

text \<open>
  The result is the value and the number of octets \<^verbatim>\<open>*p\<close> moved. The loop reads \<open>len\<close> more octets.
  The subtraction \<^verbatim>\<open>n - 1\<close> is unsigned: with \<^verbatim>\<open>n\<close> zero it is no bound at all.
\<close>

fun utf8_tail :: "u32 \<Rightarrow> bytes \<Rightarrow> nat \<Rightarrow> nat \<Rightarrow> u32 option \<times> nat" where
  "utf8_tail u p 0 k = (Some u, k)"
| "utf8_tail u p (Suc len) k =
     (let i = ucast (c_head p) :: u32 in
      if i < 0x80 then (None, k + 1)
      else utf8_tail (push_bit 6 u OR (i AND 0x3f)) (tl p) len (k + 1))"

definition ngx_utf8_decode :: "bytes \<Rightarrow> nat \<Rightarrow> u32 \<times> nat" where
  "ngx_utf8_decode p n =
    (let u = ucast (c_head p) :: u32;
         decode = (\<lambda>u valid len.
           if 0 < n \<and> n - 1 < len then (0xfffffffe, 0)
           else (case utf8_tail u (tl p) len 1 of
                   (None, k) \<Rightarrow> (0xffffffff, k)
                 | (Some v, k) \<Rightarrow> if v > valid then (v, k) else (0xffffffff, k)))
     in if u \<ge> 0xf8 then (0xffffffff, 1)
        else if u \<ge> 0xf0 then decode (u AND 0x07) 0xffff 3
        else if u \<ge> 0xe0 then decode (u AND 0x0f) 0x7ff 2
        else if u \<ge> 0xc2 then decode (u AND 0x1f) 0x7f 1
        else (0xffffffff, 1))"

text \<open>\<open>p\<close> is what is left of the string; a value above 0x10ffff ends the count with the whole length.\<close>

function utf8_length_loop :: "bytes \<Rightarrow> nat \<Rightarrow> nat \<Rightarrow> nat" where
  "utf8_length_loop p n len =
    (if p = [] then len
     else if hd p < 0x80 then utf8_length_loop (tl p) n (len + 1)
     else case ngx_utf8_decode p (length p) of
            (u, k) \<Rightarrow> if u > 0x10ffff then n
                      else utf8_length_loop (drop k p) n (len + 1))"
  by pat_completeness auto

lemma utf8_tail_moves: "k \<le> snd (utf8_tail u p len k)"
proof (induction u p len k rule: utf8_tail.induct)
  case (2 u p len k)
  then show ?case by (auto simp: Let_def)
qed simp

lemma utf8_decode_moves: "ngx_utf8_decode p n = (u, k) \<Longrightarrow> u \<le> 0x10ffff \<Longrightarrow> 0 < k"
  using utf8_tail_moves[of 1 "ucast (c_head p) AND 7" "tl p" 3]
    utf8_tail_moves[of 1 "ucast (c_head p) AND 0xf" "tl p" 2]
    utf8_tail_moves[of 1 "ucast (c_head p) AND 0x1f" "tl p" 1]
  by (auto simp: ngx_utf8_decode_def Let_def word_le_nat_alt split: if_splits prod.splits option.splits)

termination utf8_length_loop
  by (relation "measure (\<lambda>(p, n, len). length p)")
    (auto dest!: utf8_decode_moves[OF sym] simp: not_less)

definition ngx_utf8_length :: "bytes \<Rightarrow> nat" where
  "ngx_utf8_length p = utf8_length_loop p (length p) 0"

section \<open>Escaping URIs\<close>

datatype escape_type =
    NGX_ESCAPE_URI | NGX_ESCAPE_ARGS | NGX_ESCAPE_URI_COMPONENT | NGX_ESCAPE_HTML
  | NGX_ESCAPE_REFRESH | NGX_ESCAPE_MEMCACHED | NGX_ESCAPE_MAIL_AUTH

fun escape_map :: "escape_type \<Rightarrow> u32 list" where
  "escape_map NGX_ESCAPE_URI =
     [0xffffffff, 0xd000002d, 0x50000000, 0xb8000001, 0xffffffff, 0xffffffff, 0xffffffff, 0xffffffff]"
| "escape_map NGX_ESCAPE_ARGS =
     [0xffffffff, 0xd800086d, 0x50000000, 0xb8000001, 0xffffffff, 0xffffffff, 0xffffffff, 0xffffffff]"
| "escape_map NGX_ESCAPE_URI_COMPONENT =
     [0xffffffff, 0xfc009fff, 0x78000001, 0xb8000001, 0xffffffff, 0xffffffff, 0xffffffff, 0xffffffff]"
| "escape_map NGX_ESCAPE_HTML =
     [0xffffffff, 0x500000ad, 0x50000000, 0xb8000001, 0xffffffff, 0xffffffff, 0xffffffff, 0xffffffff]"
| "escape_map NGX_ESCAPE_REFRESH =
     [0xffffffff, 0x50000085, 0x50000000, 0xd8000001, 0xffffffff, 0xffffffff, 0xffffffff, 0xffffffff]"
| "escape_map NGX_ESCAPE_MEMCACHED = [0xffffffff, 0x00000021, 0, 0, 0, 0, 0, 0]"
| "escape_map NGX_ESCAPE_MAIL_AUTH = [0xffffffff, 0x00000021, 0, 0, 0, 0, 0, 0]"

definition hex_upper :: bytes where
  "hex_upper = octets ''0123456789ABCDEF''"

text \<open>The first pass counts the octets to escape, the second writes.\<close>

fun escape_uri_count :: "u32 list \<Rightarrow> bytes \<Rightarrow> nat" where
  "escape_uri_count m [] = 0"
| "escape_uri_count m (c # src) = of_bool (bitmap_test m c) + escape_uri_count m src"

fun escape_uri_write :: "u32 list \<Rightarrow> bytes \<Rightarrow> bytes" where
  "escape_uri_write m [] = []"
| "escape_uri_write m (c # src) =
     (if bitmap_test m c
      then ch_percent # hex_upper ! unat (drop_bit 4 c) # hex_upper ! unat (c AND 0xf) # escape_uri_write m src
      else c # escape_uri_write m src)"

definition ngx_escape_uri_length :: "bytes \<Rightarrow> escape_type \<Rightarrow> nat" where
  "ngx_escape_uri_length src type = escape_uri_count (escape_map type) src"

definition ngx_escape_uri :: "bytes \<Rightarrow> escape_type \<Rightarrow> bytes" where
  "ngx_escape_uri src type = escape_uri_write (escape_map type) src"

text \<open>
  The inverse. \<open>prev\<close> is the octet before the current one, \<^verbatim>\<open>*(s - 2)\<close> in the code; \<open>out\<close> is what was
  written so far. The result is the output and the input not consumed (\<^verbatim>\<open>goto done\<close> leaves some).
\<close>

definition NGX_UNESCAPE_URI :: u64 where "NGX_UNESCAPE_URI = 1"
definition NGX_UNESCAPE_REDIRECT :: u64 where "NGX_UNESCAPE_REDIRECT = 2"

datatype unescape_state = ue_usual | ue_quoted | ue_quoted_second

text \<open>What \<open>sw_quoted_second\<close> does with the octet it has decoded from a digit and from a letter.\<close>

definition unescaped_printable :: "u_char \<Rightarrow> u_char \<Rightarrow> u_char \<Rightarrow> bytes" where
  "unescaped_printable prev ch v =
     (if v > ch_percent \<and> v < 0x7f then [v] else [ch_percent, prev, ch])"

fun ngx_unescape_loop :: "u64 \<Rightarrow> unescape_state \<Rightarrow> u_char \<Rightarrow> u_char \<Rightarrow> bytes \<Rightarrow> bytes \<times> bytes" where
  "ngx_unescape_loop type state decoded prev [] = ([], [])"
| "ngx_unescape_loop type state decoded prev (ch # s) =
    (let emit = (\<lambda>w (d, rest). (w @ d, rest));
         next = (\<lambda>state decoded. ngx_unescape_loop type state decoded ch s)
     in case state of
          ue_usual \<Rightarrow>
            if ch = ch_quest \<and> type AND (NGX_UNESCAPE_URI OR NGX_UNESCAPE_REDIRECT) \<noteq> 0 then ([ch], s)
            else if ch = ch_percent then next ue_quoted decoded
            else emit [ch] (next ue_usual decoded)
        | ue_quoted \<Rightarrow>
            if ch_0 \<le> ch \<and> ch \<le> ch_9 then next ue_quoted_second (ch - ch_0)
            else if ch_a \<le> ch OR 0x20 \<and> ch OR 0x20 \<le> ch_f
            then next ue_quoted_second ((ch OR 0x20) - ch_a + 10)
            else emit [ch] (next ue_usual decoded)
        | ue_quoted_second \<Rightarrow>
            if ch_0 \<le> ch \<and> ch \<le> ch_9 then
              (let v = push_bit 4 decoded + (ch - ch_0) in
               if type AND NGX_UNESCAPE_REDIRECT \<noteq> 0
               then emit (unescaped_printable prev ch v) (next ue_usual decoded)
               else emit [v] (next ue_usual decoded))
            else if ch_a \<le> ch OR 0x20 \<and> ch OR 0x20 \<le> ch_f then
              (let v = push_bit 4 decoded + ((ch OR 0x20) - ch_a) + 10 in
               if type AND NGX_UNESCAPE_URI \<noteq> 0 then
                 (if v = ch_quest then ([v], s) else emit [v] (next ue_usual decoded))
               else if type AND NGX_UNESCAPE_REDIRECT \<noteq> 0 then
                 (if v = ch_quest then ([v], s)
                  else emit (unescaped_printable prev ch v) (next ue_usual decoded))
               else emit [v] (next ue_usual decoded))
            else next ue_usual decoded)"

text \<open>The result: the octets written to \<^verbatim>\<open>*dst\<close> and how far \<^verbatim>\<open>*src\<close> moved.\<close>

definition ngx_unescape_uri :: "bytes \<Rightarrow> u64 \<Rightarrow> bytes \<times> nat" where
  "ngx_unescape_uri src type =
     (case ngx_unescape_loop type ue_usual 0 0 src of (d, rest) \<Rightarrow> (d, length src - length rest))"

section \<open>Escaping HTML and JSON\<close>

text \<open>Both functions count the additional octets when \<^verbatim>\<open>dst\<close> is null.\<close>

fun ngx_escape_html_length :: "bytes \<Rightarrow> nat" where
  "ngx_escape_html_length [] = 0"
| "ngx_escape_html_length (ch # src) =
     (if ch = ch_lt then 3 else if ch = ch_gt then 3 else if ch = ch_amp then 4
      else if ch = ch_dquote then 5 else 0) + ngx_escape_html_length src"

fun ngx_escape_html :: "bytes \<Rightarrow> bytes" where
  "ngx_escape_html [] = []"
| "ngx_escape_html (ch # src) =
     (if ch = ch_lt then octets ''&lt;''
      else if ch = ch_gt then octets ''&gt;''
      else if ch = ch_amp then octets ''&amp;''
      else if ch = ch_dquote then octets ''&quot;''
      else [ch]) @ ngx_escape_html src"

abbreviation ch_BS :: u_char where "ch_BS \<equiv> 8"
abbreviation ch_FF :: u_char where "ch_FF \<equiv> 12"

fun ngx_escape_json_length :: "bytes \<Rightarrow> nat" where
  "ngx_escape_json_length [] = 0"
| "ngx_escape_json_length (ch # src) =
     (if ch = ch_backslash \<or> ch = ch_dquote then 1
      else if ch \<le> 0x1f then (if ch \<in> {LF, CR, ch_TAB, ch_BS, ch_FF} then 1 else 5)
      else 0) + ngx_escape_json_length src"

fun ngx_escape_json :: "bytes \<Rightarrow> bytes" where
  "ngx_escape_json [] = []"
| "ngx_escape_json (ch # src) =
     (if ch > 0x1f then
        (if ch = ch_backslash \<or> ch = ch_dquote then [ch_backslash] else []) @ [ch]
      else ch_backslash #
        (if ch = LF then [0x6e] else if ch = CR then [0x72] else if ch = ch_TAB then [0x74]
         else if ch = ch_BS then [0x62] else if ch = ch_FF then [0x66]
         else [0x75, ch_0, ch_0, ch_0 + drop_bit 4 ch,
               (let l = ch AND 0xf in if l < 10 then ch_0 + l else ch_A + l - 10)]))
     @ ngx_escape_json src"

section \<open>Base64: the alphabets\<close>

lemma below_64_iff: "(x :: u_char) < 64 \<longleftrightarrow> take_bit 6 x = x"
  by (simp add: word_less_nat_alt word_unat_eq_iff unsigned_take_bit_eq take_bit_nat_eq_self_iff)

lemma low_bits: "(x :: u_char) AND 0x3f = take_bit 6 x" "x AND 0x0f = take_bit 4 x" "x AND 3 = take_bit 2 x"
  by (simp_all add: take_bit_eq_mask mask_numeral)

lemma bit_beyond: "bit (x :: u_char) n \<Longrightarrow> n < 8"
  using bit_imp_le_length[of x n] by simp

lemma sextet_bounds:
  "drop_bit 2 (a :: u_char) AND 0x3f < 64" "push_bit 4 (a AND 3) OR drop_bit 4 (b :: u_char) < 64"
  "push_bit 2 (b AND 0x0f) OR drop_bit 6 (c :: u_char) < 64" "c AND 0x3f < 64"
  "push_bit 4 (a AND 3) < 64" "push_bit 2 (b AND 0x0f) < 64"
  unfolding below_64_iff low_bits
  by (rule bit_word_eqI, auto simp: bit_simps dest: bit_beyond)+

lemma shift_index:
  "\<not> n < 2 \<Longrightarrow> Suc (Suc (n - 2)) = n" "2 \<le> n \<Longrightarrow> Suc (Suc (n - 2)) = n"
  by simp_all

lemma sextet_join1: "push_bit 2 (drop_bit 2 (a :: u_char) AND 0x3f) OR drop_bit 4 (push_bit 4 (a AND 3) OR drop_bit 4 (b :: u_char)) = a"
  unfolding low_bits
  by (rule bit_word_eqI) (auto simp: bit_simps shift_index dest: bit_beyond)

lemma sextet_join2: "push_bit 4 (push_bit 4 (a AND 3) OR drop_bit 4 (b :: u_char)) OR drop_bit 2 (push_bit 2 (b AND 0x0f) OR drop_bit 6 (c :: u_char)) = b"
  unfolding low_bits
  by (rule bit_word_eqI) (auto simp: bit_simps dest: bit_beyond, rule ccontr, simp)

lemma sextet_join3: "push_bit 6 (push_bit 2 (b AND 0x0f) OR drop_bit 6 c) OR (c AND 0x3f) = (c :: u_char)"
  unfolding low_bits
  by (rule bit_word_eqI) (auto simp: bit_simps shift_index dest: bit_beyond)

lemma sextet_join4: "push_bit 2 (drop_bit 2 (a :: u_char) AND 0x3f) OR drop_bit 4 (push_bit 4 (a AND 3)) = a"
  unfolding low_bits
  by (rule bit_word_eqI) (auto simp: bit_simps shift_index dest: bit_beyond)

lemma sextet_join5: "push_bit 4 (push_bit 4 (a AND 3) OR drop_bit 4 b) OR drop_bit 2 (push_bit 2 (b AND 0x0f)) = (b :: u_char)"
  unfolding low_bits
  by (rule bit_word_eqI) (auto simp: bit_simps dest: bit_beyond, rule ccontr, simp)

lemmas sextet_join = sextet_join1 sextet_join2 sextet_join3 sextet_join4 sextet_join5

text \<open>\<open>coded\<close> is the coding of the sextets \<open>vs\<close>, padded or not, and they decode to \<open>s\<close>.\<close>

definition cut_into :: "bytes \<Rightarrow> bytes \<Rightarrow> bytes \<Rightarrow> bytes \<Rightarrow> bytes \<Rightarrow> bool" where
  "cut_into basis table s coded vs \<longleftrightarrow> (\<exists>pad. coded = map (\<lambda>v. basis ! unat v) vs @ pad \<and> (pad = [] \<or> hd pad = ch_eq)) \<and>
     list_all (\<lambda>v. v < 64) vs \<and> length vs mod 4 \<noteq> 1 \<and>
     base64_quads table (map (\<lambda>v. basis ! unat v) vs) = s"

text \<open>What the coder needs of an alphabet and its decoding table: they are inverse on the 64 sextets.\<close>

locale base64_alphabet =
  fixes basis table :: bytes
  assumes table_basis: "v < 64 \<Longrightarrow> table ! unat (basis ! unat v) = v"
    and basis_no_pad: "v < 64 \<Longrightarrow> basis ! unat v \<noteq> ch_eq"
begin

lemma span_coded:
  assumes "list_all (\<lambda>v. v < 64) (vs :: bytes)" and "rest = [] \<or> hd rest = ch_eq"
  shows "base64_span table (map (\<lambda>v. basis ! unat v) vs @ rest) = Some (length vs)"
  using assms(1)
proof (induction vs)
  case Nil
  then show ?case using assms(2) by (cases rest) auto
next
  case (Cons v vs)
  moreover have "v \<noteq> 77" using Cons.prems by auto
  ultimately show ?case by (simp add: table_basis basis_no_pad)
qed

lemma cut_quad:
  assumes "cut_into basis table s coded vs" and "x0 < 64" and "x1 < 64" and "x2 < 64" and "x3 < 64"
    and "push_bit 2 x0 OR drop_bit 4 x1 = s0" and "push_bit 4 x1 OR drop_bit 2 x2 = s1"
    and "push_bit 6 x2 OR x3 = s2"
  shows "cut_into basis table (s0 # s1 # s2 # s)
     (basis ! unat x0 # basis ! unat x1 # basis ! unat x2 # basis ! unat x3 # coded) (x0 # x1 # x2 # x3 # vs)"
  using assms by (auto simp: cut_into_def table_basis)

lemma cut_exists: "\<exists>vs. cut_into basis table s (ngx_encode_base64_internal basis padding s) vs"
proof (induction "length s" arbitrary: s rule: less_induct)
  case less
  consider "s = []" | s0 where "s = [s0]" | s0 s1 where "s = [s0, s1]" | s0 s1 s2 t where "s = s0 # s1 # s2 # t"
    by (metis list.exhaust)
  then show ?case
  proof cases
    case 1
    then have "cut_into basis table s (ngx_encode_base64_internal basis padding s) []" by (simp add: cut_into_def)
    then show ?thesis ..
  next
    case 2
    define x0 x1 where "x0 = drop_bit 2 s0 AND 0x3f" and "x1 = push_bit 4 (s0 AND 3)"
    have "x0 < 64" "x1 < 64" "push_bit 2 x0 OR drop_bit 4 x1 = s0"
      unfolding x0_def x1_def by (fact sextet_bounds sextet_join)+
    moreover have "ngx_encode_base64_internal basis padding s =
        [basis ! unat x0, basis ! unat x1] @ (if padding then [ch_eq, ch_eq] else [])"
      by (simp only: 2 x0_def x1_def ngx_encode_base64_internal.simps)
    ultimately have "cut_into basis table s (ngx_encode_base64_internal basis padding s) [x0, x1]"
      by (auto simp: 2 cut_into_def table_basis)
    then show ?thesis ..
  next
    case 3
    define x0 x1 x2 where "x0 = drop_bit 2 s0 AND 0x3f" and "x1 = push_bit 4 (s0 AND 3) OR drop_bit 4 s1"
      and "x2 = push_bit 2 (s1 AND 0x0f)"
    have "x0 < 64" "x1 < 64" "x2 < 64" "push_bit 2 x0 OR drop_bit 4 x1 = s0" "push_bit 4 x1 OR drop_bit 2 x2 = s1"
      unfolding x0_def x1_def x2_def by (fact sextet_bounds sextet_join)+
    moreover have "ngx_encode_base64_internal basis padding s =
        [basis ! unat x0, basis ! unat x1, basis ! unat x2] @ (if padding then [ch_eq] else [])"
      by (simp only: 3 x0_def x1_def x2_def ngx_encode_base64_internal.simps)
    ultimately have "cut_into basis table s (ngx_encode_base64_internal basis padding s) [x0, x1, x2]"
      by (auto simp: 3 cut_into_def table_basis)
    then show ?thesis ..
  next
    case 4
    then obtain vs where "cut_into basis table t (ngx_encode_base64_internal basis padding t) vs"
      using less[of t] by auto
    from cut_quad[OF this sextet_bounds(1,2,3,4) sextet_join(1,2,3)] show ?thesis
      by (auto simp only: 4 ngx_encode_base64_internal.simps)
  qed
qed

lemma decode_encode: "ngx_decode_base64_internal table (ngx_encode_base64_internal basis padding s) = Some s"
proof -
  obtain vs where "cut_into basis table s (ngx_encode_base64_internal basis padding s) vs" using cut_exists ..
  then show ?thesis by (auto simp: cut_into_def ngx_decode_base64_internal_def span_coded span_coded[of _ "[]", simplified])
qed

end

lemma below_64_cases:
  assumes "v < 64" and "list_all P (map word_of_nat [0..<64])" shows "P (v :: u_char)"
proof -
  have "unat v \<in> set [0..<64]" using assms(1) by (simp add: word_less_nat_alt del: upt_rec_numeral)
  then have "P (word_of_nat (unat v))" using assms(2) by (simp only: list_all_iff set_map ball_simps)
  then show ?thesis by simp
qed

interpretation std: base64_alphabet basis64 decode_basis64
  by unfold_locales (erule below_64_cases; code_simp)+

interpretation url: base64_alphabet basis64url decode_basis64url
  by unfold_locales (erule below_64_cases; code_simp)+


section \<open>Base64: sizes\<close>

lemma round_up_triple: "(5 + n) div 3 = Suc (Suc (Suc n) div (3 :: nat))"
  "(14 + n) div 3 = Suc (Suc (Suc (Suc (Suc (Suc n) div (3 :: nat)))))"
  by presburger+

lemma base64_encoded_size:
  "length (ngx_encode_base64_internal basis padding s) =
     (if padding then ngx_base64_encoded_length (length s) else (length s * 4 + 2) div 3)"
  by (induction basis padding s rule: ngx_encode_base64_internal.induct)
    (simp_all add: ngx_base64_encoded_length_def round_up_triple)

lemma base64_span_le: "base64_span basis s = Some n \<Longrightarrow> n \<le> length s"
  by (induction basis s arbitrary: n rule: base64_span.induct) (auto split: if_splits)

lemma round_up_quad: "(7 + n) div 4 = Suc ((n + 3) div (4 :: nat))"
  by presburger

lemma base64_quads_size: "length (base64_quads basis s) \<le> ngx_base64_decoded_length (length s)"
  by (induction basis s rule: base64_quads.induct) (simp_all add: ngx_base64_decoded_length_def round_up_quad)

lemma base64_decoded_size:
  assumes "ngx_decode_base64_internal basis s = Some d"
  shows "length d \<le> ngx_base64_decoded_length (length s)"
proof -
  obtain n where n: "n \<le> length s" and d: "d = base64_quads basis (take n s)"
    using assms base64_span_le[of basis s]
    by (auto simp: ngx_decode_base64_internal_def split: option.splits if_splits)
  have "length d \<le> ngx_base64_decoded_length n" using base64_quads_size[of basis "take n s"] n by (simp add: d)
  also have "\<dots> \<le> ngx_base64_decoded_length (length s)"
    using n by (simp add: ngx_base64_decoded_length_def div_le_mono)
  finally show ?thesis .
qed

section \<open>UTF-8\<close>

text \<open>The encoding of RFC 3629 for two to four octets.\<close>

definition utf8_encode :: "nat \<Rightarrow> bytes" where
  "utf8_encode u =
    (if u < 0x80 then [word_of_nat u]
     else if u < 0x800 then [word_of_nat (0xC0 + u div 64), word_of_nat (0x80 + u mod 64)]
     else if u < 0x10000 then
       [word_of_nat (0xE0 + u div 4096), word_of_nat (0x80 + u div 64 mod 64), word_of_nat (0x80 + u mod 64)]
     else [word_of_nat (0xF0 + u div 262144), word_of_nat (0x80 + u div 4096 mod 64),
           word_of_nat (0x80 + u div 64 mod 64), word_of_nat (0x80 + u mod 64)])"

lemma shift6_or:
  fixes u i :: u32
  assumes "unat u < 2 ^ 26"
  shows "push_bit 6 u OR (i AND 0x3f) = word_of_nat (unat u * 64 + unat i mod 64)"
proof -
  have "push_bit 6 u OR (i AND 0x3f) = push_bit 6 u OR take_bit 6 i"
    by (simp add: take_bit_eq_mask mask_numeral)
  also have "\<dots> = push_bit 6 u + take_bit 6 i"
    by (rule disjunctive_add[symmetric]) (simp add: bit_simps)
  also have "\<dots> = word_of_nat (unat u * 64 + unat i mod 64)"
  proof -
    have "unat (take_bit 6 i) = take_bit 6 (unat i)" by (rule unsigned_take_bit_eq)
    also have "\<dots> = unat i mod 64" by (simp add: take_bit_eq_mod)
    finally have "take_bit 6 i = word_of_nat (unat i mod 64)" by (metis of_nat_unat ucast_id)
    moreover have "push_bit 6 u = word_of_nat (unat u * 64)" by (simp add: push_bit_eq_mult)
    ultimately show ?thesis by simp
  qed
  finally show ?thesis .
qed


lemma utf8_tail_step:
  assumes "0x80 \<le> unat (c_head p)" and "unat u < 2 ^ 26"
  shows "utf8_tail u p (Suc len) k =
    utf8_tail (word_of_nat (unat u * 64 + unat (c_head p) mod 64)) (tl p) len (k + 1)"
proof -
  have "unat (ucast (c_head p) :: u32) = unat (c_head p)"
    using octet_less[of "c_head p"] by (simp add: unsigned_ucast_eq take_bit_nat_eq_self)
  moreover from this have "\<not> (ucast (c_head p) :: u32) < 0x80"
    using assms(1) by (simp add: word_less_nat_alt)
  ultimately show ?thesis
    using shift6_or[OF assms(2), of "ucast (c_head p)"] by (simp add: Let_def)
qed


text \<open>One octet of the encoding read as a number.\<close>

lemma cont_octet: "u < 64 \<Longrightarrow> unat (word_of_nat (0x80 + u) :: u_char) = 0x80 + u"
  by (simp add: unsigned_of_nat take_bit_nat_eq_self del: of_nat_add)

lemma utf8_tail_cont:
  assumes "unat v < 2 ^ 26" and "u < 64" and "unat c = 0x80 + u"
  shows "utf8_tail v (c # p) (Suc len) k = utf8_tail (word_of_nat (unat v * 64 + u)) p len (k + 1)"
proof -
  have "unat (c_head (c # p)) = u + 2 * 64" using assms(3) by simp
  then have "unat (c_head (c # p)) mod 64 = u" using assms(2) by (simp only: mod_mult_self1 mod_less)
  moreover have "0x80 \<le> unat (c_head (c # p))" unfolding c_head_simps assms(3) by (rule le_add1)
  ultimately show ?thesis
    using utf8_tail_step[of "c # p" v len k] assms(1) by (simp only: list.sel)
qed

lemma lead_octet:
  assumes "base + u < 256"
  shows "(ucast (word_of_nat (base + u) :: u_char) :: u32) = word_of_nat (base + u)"
proof -
  have "unat (word_of_nat (base + u) :: u_char) = base + u"
    using assms by (simp add: unsigned_of_nat take_bit_nat_eq_self del: of_nat_add)
  then show ?thesis by (simp add: word_unat_eq_iff unsigned_ucast_eq unsigned_of_nat del: of_nat_add)
qed

lemma u32_small: "n < 2 ^ 32 \<Longrightarrow> unat (word_of_nat n :: u32) = n"
  by (simp add: unsigned_of_nat take_bit_nat_eq_self)

lemma lead_payload:
  "u < 32 \<Longrightarrow> (word_of_nat (0xC0 + u) :: u32) AND 0x1f = word_of_nat u"
  "u < 16 \<Longrightarrow> (word_of_nat (0xE0 + u) :: u32) AND 0x0f = word_of_nat u"
  "u < 8 \<Longrightarrow> (word_of_nat (0xF0 + u) :: u32) AND 0x07 = word_of_nat u"
proof -
  have and_mask: "(word_of_nat n :: u32) AND mask k = word_of_nat (n mod 2 ^ k)" for n k
    by (simp only: take_bit_eq_mask[symmetric] take_bit_of_nat) (simp add: take_bit_eq_mod)
  show "u < 32 \<Longrightarrow> (word_of_nat (0xC0 + u) :: u32) AND 0x1f = word_of_nat u"
    using and_mask[of "0xC0 + u" 5] by (simp add: mask_numeral mod_add_eq[symmetric] del: of_nat_add)
  show "u < 16 \<Longrightarrow> (word_of_nat (0xE0 + u) :: u32) AND 0x0f = word_of_nat u"
    using and_mask[of "0xE0 + u" 4] by (simp add: mask_numeral mod_add_eq[symmetric] del: of_nat_add)
  show "u < 8 \<Longrightarrow> (word_of_nat (0xF0 + u) :: u32) AND 0x07 = word_of_nat u"
    using and_mask[of "0xF0 + u" 3] by (simp add: mask_numeral mod_add_eq[symmetric] del: of_nat_add)
qed

lemma lead_compare:
  assumes "n < 256"
  shows "(word_of_nat n :: u32) < numeral k \<longleftrightarrow> n < take_bit 32 (numeral k)"
    "numeral k \<le> (word_of_nat n :: u32) \<longleftrightarrow> take_bit 32 (numeral k) \<le> n"
  using u32_small[of n] assms by (simp_all add: word_less_nat_alt word_le_nat_alt)

lemma decode_two:
  assumes "0x80 \<le> u" and "u < 0x800" and "2 \<le> n"
  shows "ngx_utf8_decode (utf8_encode u @ rest) n = (word_of_nat u, 2)"
proof -
  have q: "u div 64 < 32" "2 \<le> u div 64" using assms by auto
  have lead: "(ucast (word_of_nat (0xC0 + u div 64) :: u_char) :: u32) = word_of_nat (0xC0 + u div 64)"
    using q by (intro lead_octet) simp
  have pay: "(word_of_nat (0xC0 + u div 64) :: u32) AND 0x1f = word_of_nat (u div 64)"
    using q by (intro lead_payload)
  have tail: "utf8_tail (word_of_nat (u div 64)) (word_of_nat (0x80 + u mod 64) # rest) 1 1 = (Some (word_of_nat u), 2)"
    using q utf8_tail_cont[of "word_of_nat (u div 64)" "u mod 64" "word_of_nat (0x80 + u mod 64)" rest 0 1]
    by (simp add: u32_small cont_octet del: of_nat_add of_nat_mult of_nat_div)
  have big: "\<not> (word_of_nat u :: u32) \<le> 0x7f" 
    using assms u32_small[of u] by (simp add: word_le_nat_alt)
  show ?thesis
    using assms q big
    by (simp add: utf8_encode_def ngx_utf8_decode_def lead pay tail lead_compare not_le Let_def del: of_nat_add One_nat_def)
qed

lemma decode_three:
  assumes "0x800 \<le> u" and "u < 0x10000" and "3 \<le> n"
  shows "ngx_utf8_decode (utf8_encode u @ rest) n = (word_of_nat u, 3)"
proof -
  have q: "u div 4096 < 16" "u div 64 < 1024" using assms by auto
  have split: "u div 4096 * 64 + u div 64 mod 64 = u div 64" "u div 64 * 64 + u mod 64 = u"
    using div_mult_mod_eq[of "u div 64" 64] by (simp_all add: div_mult2_eq[symmetric])
  have lead: "(ucast (word_of_nat (0xE0 + u div 4096) :: u_char) :: u32) = word_of_nat (0xE0 + u div 4096)"
    using q by (intro lead_octet) simp
  have pay: "(word_of_nat (0xE0 + u div 4096) :: u32) AND 0x0f = word_of_nat (u div 4096)"
    using q by (intro lead_payload)
  have tail: "utf8_tail (word_of_nat (u div 4096))
      (word_of_nat (0x80 + u div 64 mod 64) # word_of_nat (0x80 + u mod 64) # rest) 2 1 = (Some (word_of_nat u), 3)"
    using q split utf8_tail_cont[of "word_of_nat (u div 4096)" "u div 64 mod 64" "word_of_nat (0x80 + u div 64 mod 64)"
        "word_of_nat (0x80 + u mod 64) # rest" 1 1]
      utf8_tail_cont[of "word_of_nat (u div 64)" "u mod 64" "word_of_nat (0x80 + u mod 64)" rest 0 2]
    by (simp add: u32_small cont_octet numeral_2_eq_2[symmetric] del: of_nat_add of_nat_mult of_nat_div utf8_tail.simps(2))
  have big: "\<not> (word_of_nat u :: u32) \<le> 0x7ff"
    using assms u32_small[of u] by (simp add: word_le_nat_alt)
  show ?thesis
    using assms q big
    by (simp add: utf8_encode_def ngx_utf8_decode_def lead pay tail lead_compare not_le Let_def
        del: of_nat_add One_nat_def utf8_tail.simps(2))
qed

lemma decode_four:
  assumes "0x10000 \<le> u" and "u < 0x110000" and "4 \<le> n"
  shows "ngx_utf8_decode (utf8_encode u @ rest) n = (word_of_nat u, 4)"
proof -
  have q: "u div 262144 < 5" "u div 4096 < 1024" "u div 64 < 65536" using assms by auto
  have split: "u div 262144 * 64 + u div 4096 mod 64 = u div 4096"
      "u div 4096 * 64 + u div 64 mod 64 = u div 64" "u div 64 * 64 + u mod 64 = u"
    using div_mult_mod_eq[of "u div 64" 64] div_mult_mod_eq[of "u div 4096" 64]
    by (simp_all add: div_mult2_eq[symmetric])
  have lead: "(ucast (word_of_nat (0xF0 + u div 262144) :: u_char) :: u32) = word_of_nat (0xF0 + u div 262144)"
    using q by (intro lead_octet) simp
  have pay: "(word_of_nat (0xF0 + u div 262144) :: u32) AND 0x07 = word_of_nat (u div 262144)"
    using q by (intro lead_payload) simp
  have tail: "utf8_tail (word_of_nat (u div 262144)) (word_of_nat (0x80 + u div 4096 mod 64)
      # word_of_nat (0x80 + u div 64 mod 64) # word_of_nat (0x80 + u mod 64) # rest) 3 1 = (Some (word_of_nat u), 4)"
    using q split
      utf8_tail_cont[of "word_of_nat (u div 262144)" "u div 4096 mod 64" "word_of_nat (0x80 + u div 4096 mod 64)"
        "word_of_nat (0x80 + u div 64 mod 64) # word_of_nat (0x80 + u mod 64) # rest" 2 1]
      utf8_tail_cont[of "word_of_nat (u div 4096)" "u div 64 mod 64" "word_of_nat (0x80 + u div 64 mod 64)"
        "word_of_nat (0x80 + u mod 64) # rest" 1 2]
      utf8_tail_cont[of "word_of_nat (u div 64)" "u mod 64" "word_of_nat (0x80 + u mod 64)" rest 0 3]
    by (simp add: u32_small cont_octet numeral_2_eq_2[symmetric] numeral_3_eq_3[symmetric]
        del: of_nat_add of_nat_mult of_nat_div utf8_tail.simps(2))
  have big: "\<not> (word_of_nat u :: u32) \<le> 0xffff"
    using assms u32_small[of u] by (simp add: word_le_nat_alt)
  show ?thesis
    using assms q big
    by (simp add: utf8_encode_def ngx_utf8_decode_def lead pay tail lead_compare not_le Let_def
        del: of_nat_add One_nat_def utf8_tail.simps(2))
qed

lemma utf8_encode_length:
  "length (utf8_encode u) = (if u < 0x80 then 1 else if u < 0x800 then 2 else if u < 0x10000 then 3 else 4)"
  by (simp add: utf8_encode_def)

lemma utf8_lead_high: "0x80 \<le> u \<Longrightarrow> u < 0x110000 \<Longrightarrow> \<exists>c t. utf8_encode u = c # t \<and> \<not> c < 0x80"
proof -
  assume u: "0x80 \<le> u" "u < 0x110000"
  have high: "\<not> (word_of_nat n :: u_char) < 0x80" if "0x80 \<le> n" "n < 256" for n
    using that by (simp add: word_less_nat_alt unsigned_of_nat take_bit_nat_eq_self)
  have "0xC0 + u div 64 < 256" if "u < 0x800" using that by auto
  moreover have "0xE0 + u div 4096 < 256" if "u < 0x10000" using that by auto
  moreover have "0xF0 + u div 262144 < 256" using u by auto
  ultimately show ?thesis
    using u high[of "0xC0 + u div 64"] high[of "0xE0 + u div 4096"] high[of "0xF0 + u div 262144"]
    by (auto simp: utf8_encode_def simp del: of_nat_add)
qed

declare utf8_length_loop.simps [simp del]

lemma utf8_length_run:
  assumes "\<forall>u \<in> set us. u < 0x110000"
  shows "utf8_length_loop (concat (map utf8_encode us)) n len = len + length us"
  using assms
proof (induction us arbitrary: len)
  case Nil
  then show ?case by (simp add: utf8_length_loop.simps)
next
  case (Cons u us)
  let ?p = "concat (map utf8_encode us)"
  have IH: "utf8_length_loop ?p n (len + 1) = len + 1 + length us" using Cons by simp
  show ?case
  proof (cases "u < 0x80")
    case True
    then have e: "concat (map utf8_encode (u # us)) = word_of_nat u # ?p" and "(word_of_nat u :: u_char) < 0x80"
      by (simp_all add: utf8_encode_def word_less_nat_alt unsigned_of_nat take_bit_nat_eq_self)
    then show ?thesis using IH by (subst utf8_length_loop.simps) simp
  next
    case False
    then obtain c t where ct: "utf8_encode u = c # t" "\<not> c < 0x80" using utf8_lead_high[of u] Cons.prems by auto
    have "ngx_utf8_decode (utf8_encode u @ ?p) (length (utf8_encode u @ ?p)) = (word_of_nat u, length (utf8_encode u))"
      using False Cons.prems decode_two[of u] decode_three[of u] decode_four[of u]
      by (auto simp: utf8_encode_length not_less)
    moreover have "\<not> (word_of_nat u :: u32) > 0x10ffff"
      using Cons.prems u32_small[of u] by (simp add: word_less_nat_alt)
    ultimately show ?thesis
      using IH ct by (subst utf8_length_loop.simps) (simp add: ct)
  qed
qed

section \<open>URI escaping\<close>








text \<open>What the loop has written and left over, against what it has read.\<close>

fun unescape_pending :: "unescape_state \<Rightarrow> nat" where
  "unescape_pending ue_usual = 0"
| "unescape_pending ue_quoted = 1"
| "unescape_pending ue_quoted_second = 2"

lemma unescape_in_place:
  "ngx_unescape_loop type state decoded prev s = (d, rest) \<Longrightarrow>
     length d + length rest \<le> length s + unescape_pending state \<and> length rest \<le> length s"
proof (induction s arbitrary: state decoded prev d)
  case (Cons ch s)
  then show ?case
    by (cases state) (fastforce simp: Let_def unescaped_printable_def split: if_splits prod.splits)+
qed auto

section \<open>HTML and JSON\<close>

text \<open>A reader of character references and of JSON string bodies, to state what escaping preserves.\<close>

function html_unescape :: "bytes \<Rightarrow> bytes" where
  "html_unescape s =
    (if s = [] then []
     else if take 4 s = octets ''&lt;'' then ch_lt # html_unescape (drop 4 s)
     else if take 4 s = octets ''&gt;'' then ch_gt # html_unescape (drop 4 s)
     else if take 5 s = octets ''&amp;'' then ch_amp # html_unescape (drop 5 s)
     else if take 6 s = octets ''&quot;'' then ch_dquote # html_unescape (drop 6 s)
     else hd s # html_unescape (tl s))"
  by pat_completeness auto
termination by (relation "measure length") auto

declare html_unescape.simps [simp del]

lemma html_unescape_escape: "html_unescape (ngx_escape_html s) = s"
proof (induction s)
  case (Cons c s)
  consider "c = ch_lt" | "c = ch_gt" | "c = ch_amp" | "c = ch_dquote" | "c \<notin> {ch_lt, ch_gt, ch_amp, ch_dquote}"
    by blast
  then show ?case
    by cases (subst html_unescape.simps; simp add: Cons)+
qed (simp add: html_unescape.simps)

fun json_simple_escape :: "u_char \<Rightarrow> u_char option" where
  "json_simple_escape e =
     (if e \<in> {ch_dquote, ch_backslash, ch_slash} then Some e
      else if e = 0x62 then Some ch_BS else if e = 0x66 then Some ch_FF else if e = 0x6e then Some LF
      else if e = 0x72 then Some CR else if e = 0x74 then Some ch_TAB else None)"

fun json_hex4 :: "bytes \<Rightarrow> int option" where
  "json_hex4 [a, b, c, d] =
     (case (hex_digit a, hex_digit b, hex_digit c, hex_digit d) of
        (Some a, Some b, Some c, Some d) \<Rightarrow> Some (((a * 16 + b) * 16 + c) * 16 + d)
      | _ \<Rightarrow> None)"
| "json_hex4 _ = None"

function json_body :: "bytes \<Rightarrow> bytes option" where
  "json_body s =
    (case s of
       [] \<Rightarrow> Some []
     | c # t \<Rightarrow>
         if c = ch_dquote \<or> c < 0x20 then None
         else if c = ch_backslash then
           (case t of
              [] \<Rightarrow> None
            | e # t' \<Rightarrow>
                if e = 0x75 then
                  (case json_hex4 (take 4 t') of
                     Some v \<Rightarrow> if v < 0x80 then map_option ((#) (word_of_int v)) (json_body (drop 4 t')) else None
                   | None \<Rightarrow> None)
                else (case json_simple_escape e of
                        Some v \<Rightarrow> map_option ((#) v) (json_body t')
                      | None \<Rightarrow> None))
         else map_option ((#) c) (json_body t))"
  by pat_completeness auto
termination by (relation "measure length") auto

declare json_body.simps [simp del]

lemma json_control:
  assumes "c \<le> 0x1f" and "c \<notin> {LF, CR, ch_TAB, ch_BS, ch_FF}"
  shows "json_hex4 [ch_0, ch_0, ch_0 + drop_bit 4 c,
      (let l = c AND 0xf in if l < 10 then ch_0 + l else ch_A + l - 10)] = Some (uint c)"
proof -
  have "0 \<le> c" by simp
  then show ?thesis using assms(1)
    by (rule octet_range) code_simp
qed

section \<open>Properties\<close>

text \<open>
  C39: Decoding what was encoded gives back the source, for the standard alphabet with padding and for the
  URL alphabet without.
\<close>

theorem base64_roundtrip:
  "ngx_decode_base64 (ngx_encode_base64 s) = Some s \<and> ngx_decode_base64url (ngx_encode_base64url s) = Some s"
  by (simp add: ngx_decode_base64_def ngx_encode_base64_def ngx_decode_base64url_def
      ngx_encode_base64url_def std.decode_encode url.decode_encode)

text \<open>
  The sizes the callers allocate suffice: the padded encoding has exactly the length of
  ngx_base64_encoded_length, the unpadded one at most that, and a decoded text is never longer than
  ngx_base64_decoded_length of its source.
\<close>

theorem base64_sizes:
  "length (ngx_encode_base64 s) = ngx_base64_encoded_length (length s) \<and>
   length (ngx_encode_base64url s) \<le> ngx_base64_encoded_length (length s) \<and>
   (case ngx_decode_base64 t of None \<Rightarrow> True | Some d \<Rightarrow> length d \<le> ngx_base64_decoded_length (length t)) \<and>
   (case ngx_decode_base64url t of None \<Rightarrow> True | Some d \<Rightarrow> length d \<le> ngx_base64_decoded_length (length t))"
proof -
  have "(length s * 4 + 2) div 3 \<le> (length s + 2) div 3 * 4" by presburger
  then show ?thesis
    using base64_decoded_size
    by (auto simp: ngx_encode_base64_def ngx_encode_base64url_def ngx_decode_base64_def
        ngx_decode_base64url_def base64_encoded_size ngx_base64_encoded_length_def split: option.split)
qed

text \<open>
  UTF-8 decoding inverts the encoding of RFC 3629: on the octets of a code point above ASCII it
  returns the code point and moves past exactly these octets, whatever follows them.
\<close>

theorem utf8_decode_roundtrip:
  assumes "0x80 \<le> u" and "u < 0x110000" and "length (utf8_encode u) \<le> n"
  shows "ngx_utf8_decode (utf8_encode u @ rest) n = (word_of_nat u, length (utf8_encode u))"
proof -
  consider "u < 0x800" | "\<not> u < 0x800" "u < 0x10000" | "\<not> u < 0x800" "\<not> u < 0x10000" by linarith
  then show ?thesis
    using assms by cases (simp_all add: utf8_encode_length decode_two decode_three decode_four)
qed

theorem utf8_decode_roundtrip_witness:
  "ngx_utf8_decode (utf8_encode 0x20AC @ [ch_a]) 4 = (0x20AC, 3)"
  using utf8_decode_roundtrip[where u = "0x20AC" and n = 4 and rest = "[ch_a]"] by (simp add: utf8_encode_length)

text \<open>
  The length in characters of a text of UTF-8 encoded code points is the number of code points.
\<close>

theorem utf8_length_counts:
  assumes "\<forall>u \<in> set us. u < 0x110000"
  shows "ngx_utf8_length (concat (map utf8_encode us)) = length us"
  using utf8_length_run[OF assms] by (simp add: ngx_utf8_length_def)

theorem utf8_length_counts_witness:
  "ngx_utf8_length (concat (map utf8_encode [0x41, 0x20AC, 0x1F600, 0xE9])) = 4"
  using utf8_length_counts[of "[0x41, 0x20AC, 0x1F600, 0xE9]"] by simp



text \<open>
  Unescaping can be done in place: whatever the type and the input, it never writes more octets than
  it has read, and it reads at most the input.
\<close>

theorem unescape_uri_in_place:
  "case ngx_unescape_uri src type of (d, k) \<Rightarrow> length d \<le> k \<and> k \<le> length src"
  using unescape_in_place[of type ue_usual 0 0 src]
  by (auto simp: ngx_unescape_uri_def split: prod.split)

text \<open>
  The counting pass of the escaping functions is exact: the text the writing pass produces is longer
  than the source by the count (by twice the count for URIs, where the count is of octets).
\<close>

theorem escape_lengths:
  "length (ngx_escape_uri s type) = length s + 2 * ngx_escape_uri_length s type \<and>
   length (ngx_escape_html s) = length s + ngx_escape_html_length s \<and>
   length (ngx_escape_json s) = length s + ngx_escape_json_length s"
proof (intro conjI)
  have "length (escape_uri_write m s) = length s + 2 * escape_uri_count m s" for m
    by (induction m s rule: escape_uri_write.induct) auto
  then show "length (ngx_escape_uri s type) = length s + 2 * ngx_escape_uri_length s type"
    by (simp add: ngx_escape_uri_def ngx_escape_uri_length_def)
  show "length (ngx_escape_html s) = length s + ngx_escape_html_length s"
    by (induction s) auto
  show "length (ngx_escape_json s) = length s + ngx_escape_json_length s"
    by (induction s) (auto simp: not_less Let_def word_le_nat_alt word_less_nat_alt)
qed

text \<open>
  Escaped HTML holds no angle bracket and no double quote, so it cannot open or close a tag or end a
  quoted attribute, and reading its character references gives back the source.
\<close>

theorem escape_html_safe:
  "set (ngx_escape_html s) \<inter> {ch_lt, ch_gt, ch_dquote} = {} \<and> html_unescape (ngx_escape_html s) = s"
proof
  show "set (ngx_escape_html s) \<inter> {ch_lt, ch_gt, ch_dquote} = {}"
    by (induction s) auto
qed (rule html_unescape_escape)

text \<open>
  Escaped JSON text is the body of a valid JSON string, with no unescaped quote and no control
  octet, and a JSON reader recovers the source from it.
\<close>

theorem escape_json_safe: "json_body (ngx_escape_json s) = Some s"
proof (induction s)
  case Nil
  then show ?case by (simp add: json_body.simps)
next
  case (Cons c s)
  consider "c > 0x1f" "c \<noteq> ch_backslash" "c \<noteq> ch_dquote" | "c = ch_backslash" | "c = ch_dquote"
    | "c \<in> {LF, CR, ch_TAB, ch_BS, ch_FF}" | "c \<le> 0x1f" "c \<notin> {LF, CR, ch_TAB, ch_BS, ch_FF}"
    by force
  then show ?case
  proof cases
    case 1
    then have "\<not> c < 0x20" by (simp add: word_less_nat_alt)
    with 1 Cons show ?thesis by (subst json_body.simps) simp
  next
    case 5
    then have "uint c < 0x80" by (simp add: word_le_def)
    moreover have "\<not> c > 0x1f" using 5 by simp
    ultimately show ?thesis
      using Cons 5 json_control[OF 5] by (subst json_body.simps) simp
  next
    case 2
    with Cons show ?thesis by (subst json_body.simps) simp
  next
    case 3
    with Cons show ?thesis by (subst json_body.simps) simp
  next
    case 4
    then show ?thesis using Cons by (elim insertE emptyE) (simp; subst json_body.simps; simp)+
  qed
qed

end
