(* ===== verification/HttpUri.thy ===== *)
theory HttpUri
  imports HttpRequestLine NgxCodec
begin

text \<open>
  The URI functions of \<^verbatim>\<open>src/http/ngx_http_parse.c\<close>: \<^verbatim>\<open>ngx_http_parse_uri\<close>, which checks a URI and
  notes what is special in it, and \<^verbatim>\<open>ngx_http_parse_complex_uri\<close>, which decodes and normalises it into
  \<^verbatim>\<open>r->uri\<close>. The output buffer is the list of octets below the write pointer \<^verbatim>\<open>u\<close>: \<^verbatim>\<open>*u++ = ch\<close> appends,
  \<^verbatim>\<open>u--\<close> drops the last octet. The input is the header buffer with the indices \<^verbatim>\<open>uri_start\<close> and
  \<^verbatim>\<open>uri_end\<close>.
\<close>

section \<open>Checking: ngx_http_parse_uri\<close>

datatype pu_state = pu_start | pu_after_slash_in_uri | pu_check_uri | pu_uri

record uri_check = http_uri +
  pu_st :: pu_state

definition pu_invalid :: "u_char \<Rightarrow> bool" where
  "pu_invalid ch \<longleftrightarrow> ch \<le> 0x20 \<or> ch = ch_DEL"

definition parse_uri_step :: "uri_check byte_step" where
  "parse_uri_step buf p ch r =
    (case pu_st r of
       pu_start \<Rightarrow>
         if ch \<noteq> ch_slash then Fail r NGX_ERROR else Continue (r\<lparr>pu_st := pu_after_slash_in_uri\<rparr>)
     | pu_after_slash_in_uri \<Rightarrow>
         if bitmap_test usual ch then Continue (r\<lparr>pu_st := pu_check_uri\<rparr>)
         else if ch = ch_dot then Continue (r\<lparr>complex_uri := True, pu_st := pu_uri\<rparr>)
         else if ch = ch_percent then Continue (r\<lparr>quoted_uri := True, pu_st := pu_uri\<rparr>)
         else if ch = ch_slash then Continue (r\<lparr>complex_uri := True, pu_st := pu_uri\<rparr>)
         else if ch = ch_quest then Continue (r\<lparr>args_start := Some (p + 1), pu_st := pu_uri\<rparr>)
         else if ch = ch_hash then Continue (r\<lparr>complex_uri := True, pu_st := pu_uri\<rparr>)
         else if ch = ch_plus then Continue (r\<lparr>plus_in_uri := True\<rparr>)
         else if pu_invalid ch then Fail r NGX_ERROR
         else Continue (r\<lparr>pu_st := pu_check_uri\<rparr>)
     | pu_check_uri \<Rightarrow>
         if bitmap_test usual ch then Continue r
         else if ch = ch_slash then Continue (r\<lparr>uri_ext := None, pu_st := pu_after_slash_in_uri\<rparr>)
         else if ch = ch_dot then Continue (r\<lparr>uri_ext := Some (p + 1)\<rparr>)
         else if ch = ch_percent then Continue (r\<lparr>quoted_uri := True, pu_st := pu_uri\<rparr>)
         else if ch = ch_quest then Continue (r\<lparr>args_start := Some (p + 1), pu_st := pu_uri\<rparr>)
         else if ch = ch_hash then Continue (r\<lparr>complex_uri := True, pu_st := pu_uri\<rparr>)
         else if ch = ch_plus then Continue (r\<lparr>plus_in_uri := True\<rparr>)
         else if pu_invalid ch then Fail r NGX_ERROR
         else Continue r
     | pu_uri \<Rightarrow>
         if bitmap_test usual ch then Continue r
         else if ch = ch_hash then Continue (r\<lparr>complex_uri := True\<rparr>)
         else if pu_invalid ch then Fail r NGX_ERROR
         else Continue r)"

text \<open>The loop runs to \<^verbatim>\<open>r->uri_end\<close>; the state is a local of the function.\<close>

definition ngx_http_parse_uri :: "bytes \<Rightarrow> nat \<Rightarrow> nat \<Rightarrow> uri_check \<Rightarrow> ngx_rc \<times> uri_check" where
  "ngx_http_parse_uri buf start end r =
    (case scan parse_uri_step (take end buf) start (r\<lparr>pu_st := pu_start\<rparr>) of
       (Continue r', p) \<Rightarrow> (NGX_OK, r')
     | (Done r' rc, p) \<Rightarrow> (rc, r')
     | (Fail r' rc, p) \<Rightarrow> (rc, r'))"

definition new_uri :: uri_check where
  "new_uri = \<lparr> uri_start = None, uri_end = None, uri_ext = None, args_start = None,
     complex_uri = False, quoted_uri = False, plus_in_uri = False, empty_path_in_uri = False,
     pu_st = pu_start \<rparr>"

section \<open>Normalising: ngx_http_parse_complex_uri\<close>

text \<open>
  The states; \<^verbatim>\<open>quoted_state\<close> only ever holds one of the four that are not inside a quoted octet.
\<close>

datatype cu_plain = cu_usual | cu_slash | cu_dot | cu_dot_dot
datatype cu_state = Plain cu_plain | cu_quoted | cu_quoted_second

record cu =
  cu_st :: cu_state
  quoted_state :: cu_plain
  decoded :: u_char
  cu_p :: nat                   \<comment> \<open>the read pointer, behind \<open>ch\<close>\<close>
  cu_ch :: u_char
  cu_u :: bytes                 \<comment> \<open>\<^verbatim>\<open>r->uri.data\<close> up to \<open>u\<close>\<close>
  cu_uri_ext :: "nat option"        \<comment> \<open>\<^verbatim>\<open>r->uri_ext\<close>, an offset in \<^verbatim>\<open>r->uri.data\<close>\<close>
  cu_args_start :: ptr
  cu_plus_in_uri :: bool
  cu_quoted_uri :: bool

datatype cu_verdict = Round cu | Goto_done cu | Goto_args cu | Invalid cu

definition cu_read :: "bytes \<Rightarrow> cu \<Rightarrow> cu" where
  "cu_read buf s = s\<lparr>cu_ch := buf ! cu_p s, cu_p := cu_p s + 1\<rparr>"

definition cu_put :: "u_char \<Rightarrow> cu \<Rightarrow> cu" where
  "cu_put c s = s\<lparr>cu_u := cu_u s @ [c]\<rparr>"

definition cu_drop :: "cu \<Rightarrow> cu" where
  "cu_drop s = s\<lparr>cu_u := butlast (cu_u s)\<rparr>"

text \<open>
  \<^verbatim>\<open>u -= 4; for ( ;; ) { if (u < r->uri.data) return ...; if (*u == '/') { u++; break; } u--; }\<close>: the
  output up to and including the last slash at or below \<open>i\<close>, None when the start is passed.
\<close>

fun cu_back_from :: "bytes \<Rightarrow> nat \<Rightarrow> bytes option" where
  "cu_back_from u i =
     (if u ! i = ch_slash then Some (take (i + 1) u)
      else case i of 0 \<Rightarrow> None | Suc j \<Rightarrow> cu_back_from u j)"

declare cu_back_from.simps [simp del]

definition cu_back :: "bytes \<Rightarrow> bytes option" where
  "cu_back u = (if length u < 4 then None else cu_back_from u (length u - 4))"

text \<open>An octet with no meaning in the state at hand, after the test of \<^verbatim>\<open>'+'\<close> that falls through to it.\<close>

definition cu_default :: "bytes \<Rightarrow> cu \<Rightarrow> cu_verdict" where
  "cu_default buf s =
    (let s = (if cu_ch s = ch_plus then s\<lparr>cu_plus_in_uri := True\<rparr> else s)
     in Round (cu_read buf (cu_put (cu_ch s) (s\<lparr>cu_st := Plain cu_usual\<rparr>))))"

definition cu_quote :: "bytes \<Rightarrow> cu_plain \<Rightarrow> cu \<Rightarrow> cu_verdict" where
  "cu_quote buf st s = Round (cu_read buf (s\<lparr>quoted_state := st, cu_st := cu_quoted\<rparr>))"

definition cu_case_usual :: "bytes \<Rightarrow> cu \<Rightarrow> cu_verdict" where
  "cu_case_usual buf s =
    (let ch = cu_ch s in
     if bitmap_test usual ch then Round (cu_read buf (cu_put ch s))
     else if ch = ch_slash then Round (cu_read buf (cu_put ch (s\<lparr>cu_uri_ext := None, cu_st := Plain cu_slash\<rparr>)))
     else if ch = ch_percent then cu_quote buf cu_usual s
     else if ch = ch_quest then Goto_args (s\<lparr>cu_args_start := Some (cu_p s)\<rparr>)
     else if ch = ch_hash then Goto_done s
     else if ch = ch_dot then Round (cu_read buf (cu_put ch (s\<lparr>cu_uri_ext := Some (length (cu_u s) + 1)\<rparr>)))
     else cu_default buf s)"

definition cu_case_slash :: "bytes \<Rightarrow> bool \<Rightarrow> cu \<Rightarrow> cu_verdict" where
  "cu_case_slash buf merge_slashes s =
    (let ch = cu_ch s in
     if bitmap_test usual ch then Round (cu_read buf (cu_put ch (s\<lparr>cu_st := Plain cu_usual\<rparr>)))
     else if ch = ch_slash then Round (cu_read buf (if \<not> merge_slashes then cu_put ch s else s))
     else if ch = ch_dot then Round (cu_read buf (cu_put ch (s\<lparr>cu_st := Plain cu_dot\<rparr>)))
     else if ch = ch_percent then cu_quote buf cu_slash s
     else if ch = ch_quest then Goto_args (s\<lparr>cu_args_start := Some (cu_p s)\<rparr>)
     else if ch = ch_hash then Goto_done s
     else cu_default buf s)"

definition cu_case_dot :: "bytes \<Rightarrow> cu \<Rightarrow> cu_verdict" where
  "cu_case_dot buf s =
    (let ch = cu_ch s in
     if bitmap_test usual ch then Round (cu_read buf (cu_put ch (s\<lparr>cu_st := Plain cu_usual\<rparr>)))
     else if ch = ch_slash then Round (cu_read buf (cu_drop (s\<lparr>cu_st := Plain cu_slash\<rparr>)))
     else if ch = ch_dot then Round (cu_read buf (cu_put ch (s\<lparr>cu_st := Plain cu_dot_dot\<rparr>)))
     else if ch = ch_percent then cu_quote buf cu_dot s
     else if ch = ch_quest then Goto_args ((cu_drop s)\<lparr>cu_args_start := Some (cu_p s)\<rparr>)
     else if ch = ch_hash then Goto_done (cu_drop s)
     else cu_default buf s)"

definition cu_case_dot_dot :: "bytes \<Rightarrow> cu \<Rightarrow> cu_verdict" where
  "cu_case_dot_dot buf s =
    (let ch = cu_ch s in
     if bitmap_test usual ch then Round (cu_read buf (cu_put ch (s\<lparr>cu_st := Plain cu_usual\<rparr>)))
     else if ch = ch_slash \<or> ch = ch_quest \<or> ch = ch_hash then
       (case cu_back (cu_u s) of
          None \<Rightarrow> Invalid s
        | Some u \<Rightarrow>
            let s = s\<lparr>cu_u := u\<rparr> in
            if ch = ch_quest then Goto_args (s\<lparr>cu_args_start := Some (cu_p s)\<rparr>)
            else if ch = ch_hash then Goto_done s
            else Round (cu_read buf (s\<lparr>cu_st := Plain cu_slash\<rparr>)))
     else if ch = ch_percent then cu_quote buf cu_dot_dot s
     else cu_default buf s)"

definition cu_case_quoted :: "bytes \<Rightarrow> cu \<Rightarrow> cu_verdict" where
  "cu_case_quoted buf s =
    (let s = s\<lparr>cu_quoted_uri := True\<rparr>; ch = cu_ch s; c = ch OR 0x20 in
     if ch_0 \<le> ch \<and> ch \<le> ch_9
     then Round (cu_read buf (s\<lparr>decoded := ch - ch_0, cu_st := cu_quoted_second\<rparr>))
     else if ch_a \<le> c \<and> c \<le> ch_f
     then Round (cu_read buf (s\<lparr>decoded := c - ch_a + 10, cu_st := cu_quoted_second\<rparr>))
     else Invalid s)"

definition cu_case_quoted_second :: "bytes \<Rightarrow> cu \<Rightarrow> cu_verdict" where
  "cu_case_quoted_second buf s =
    (let ch = cu_ch s; c = ch OR 0x20 in
     if ch_0 \<le> ch \<and> ch \<le> ch_9 then
       (let ch = push_bit 4 (decoded s) + (ch - ch_0); s = s\<lparr>cu_ch := ch\<rparr> in
        if ch = ch_percent \<or> ch = ch_hash
        then Round (cu_read buf (cu_put ch (s\<lparr>cu_st := Plain cu_usual\<rparr>)))
        else if ch = ch_NUL then Invalid s
        else Round (s\<lparr>cu_st := Plain (quoted_state s)\<rparr>))
     else if ch_a \<le> c \<and> c \<le> ch_f then
       (let ch = push_bit 4 (decoded s) + (c - ch_a) + 10; s = s\<lparr>cu_ch := ch\<rparr> in
        if ch = ch_quest then Round (cu_read buf (cu_put ch (s\<lparr>cu_st := Plain cu_usual\<rparr>)))
        else
          let s = (if ch = ch_plus then s\<lparr>cu_plus_in_uri := True\<rparr> else s)
          in Round (s\<lparr>cu_st := Plain (quoted_state s)\<rparr>))
     else Invalid s)"

definition cu_round :: "bytes \<Rightarrow> bool \<Rightarrow> cu \<Rightarrow> cu_verdict" where
  "cu_round buf merge_slashes s =
    (case cu_st s of
       Plain cu_usual \<Rightarrow> cu_case_usual buf s
     | Plain cu_slash \<Rightarrow> cu_case_slash buf merge_slashes s
     | Plain cu_dot \<Rightarrow> cu_case_dot buf s
     | Plain cu_dot_dot \<Rightarrow> cu_case_dot_dot buf s
     | cu_quoted \<Rightarrow> cu_case_quoted buf s
     | cu_quoted_second \<Rightarrow> cu_case_quoted_second buf s)"

text \<open>After the loop, when no \<^verbatim>\<open>goto\<close> left it.\<close>

definition cu_end :: "cu \<Rightarrow> cu_verdict" where
  "cu_end s =
    (case cu_st s of
       cu_quoted \<Rightarrow> Invalid s
     | cu_quoted_second \<Rightarrow> Invalid s
     | Plain cu_dot \<Rightarrow> Goto_done (cu_drop s)
     | Plain cu_dot_dot \<Rightarrow> (case cu_back (cu_u s) of None \<Rightarrow> Invalid s | Some u \<Rightarrow> Goto_done (s\<lparr>cu_u := u\<rparr>))
     | _ \<Rightarrow> Goto_done s)"

text \<open>
  Every round moves the read pointer, except the one that hands a decoded octet back to the state
  it was quoted in.
\<close>

lemmas cu_cases = cu_case_usual_def cu_case_slash_def cu_case_dot_def cu_case_dot_dot_def
  cu_case_quoted_def cu_case_quoted_second_def cu_default_def cu_quote_def cu_read_def cu_put_def cu_drop_def

lemma cu_round_moves:
  assumes "cu_round buf merge s = Round s'"
  shows "cu_p s' = cu_p s + 1 \<or> (cu_p s' = cu_p s \<and> cu_st s = cu_quoted_second \<and> cu_st s' \<noteq> cu_quoted_second)"
  using assms
  by (auto simp: cu_round_def cu_cases Let_def split: cu_state.splits cu_plain.splits if_splits option.splits)

function cu_loop :: "bytes \<Rightarrow> bool \<Rightarrow> nat \<Rightarrow> cu \<Rightarrow> cu_verdict" where
  "cu_loop buf merge end s =
    (if cu_p s \<le> end then
       (case cu_round buf merge s of
          Round s' \<Rightarrow> cu_loop buf merge end s'
        | v \<Rightarrow> v)
     else cu_end s)"
  by pat_completeness auto
termination
  by (relation "measure (\<lambda>(buf, merge, end, s). 2 * (end + 1 - cu_p s) + of_bool (cu_st s = cu_quoted_second))")
    (auto dest!: cu_round_moves)

declare cu_loop.simps [simp del]

text \<open>The label \<^verbatim>\<open>args\<close>: the fragment is cut off the arguments, which then are a string of their own.\<close>

fun cu_args_loop :: "bytes \<Rightarrow> nat \<Rightarrow> nat \<Rightarrow> nat option" where
  "cu_args_loop buf p 0 = None"
| "cu_args_loop buf p (Suc n) = (if buf ! p \<noteq> ch_hash then cu_args_loop buf (p + 1) n else Some (p + 1))"

record complex_result =
  res_uri :: bytes
  res_exten :: "bytes option"
  res_args :: "bytes option"          \<comment> \<open>\<^verbatim>\<open>r->args\<close>, when it was set here\<close>
  res_args_start :: ptr
  res_plus_in_uri :: bool
  res_quoted_uri :: bool

definition cu_result :: "cu \<Rightarrow> bytes option \<Rightarrow> ptr \<Rightarrow> complex_result" where
  "cu_result s args astart =
    \<lparr> res_uri = cu_u s, res_exten = map_option (\<lambda>e. drop e (cu_u s)) (cu_uri_ext s), res_args = args,
      res_args_start = astart, res_plus_in_uri = cu_plus_in_uri s, res_quoted_uri = cu_quoted_uri s \<rparr>"

text \<open>None is NGX_HTTP_PARSE_INVALID_REQUEST; the flags are those the request has before.\<close>

definition ngx_http_parse_complex_uri ::
    "bytes \<Rightarrow> nat \<Rightarrow> nat \<Rightarrow> bool \<Rightarrow> bool \<Rightarrow> bool \<Rightarrow> bool \<Rightarrow> complex_result option" where
  "ngx_http_parse_complex_uri buf start end empty_path plus_in quoted merge_slashes =
    (let s = \<lparr> cu_st = Plain cu_usual, quoted_state = cu_usual, decoded = 0, cu_p = start + 1,
               cu_ch = buf ! start, cu_u = (if empty_path then [ch_slash] else []), cu_uri_ext = None,
               cu_args_start = None, cu_plus_in_uri = plus_in, cu_quoted_uri = quoted \<rparr>
     in case cu_loop buf merge_slashes end s of
          Goto_done s' \<Rightarrow> Some (cu_result s' None (cu_args_start s'))
        | Goto_args s' \<Rightarrow>
            (case cu_args_loop buf (cu_p s') (end - cu_p s') of
               None \<Rightarrow> Some (cu_result s' None (cu_args_start s'))
             | Some p \<Rightarrow>
                 Some (cu_result s' (map_option (\<lambda>a. slice buf a (p - 1)) (cu_args_start s')) None))
        | _ \<Rightarrow> None)"

section \<open>The URI of a request: ngx_http_process_request_uri\<close>

text \<open>
  \<^verbatim>\<open>r->uri\<close>, \<^verbatim>\<open>r->unparsed_uri\<close>, \<^verbatim>\<open>r->valid_unparsed_uri\<close>, \<^verbatim>\<open>r->exten\<close> and \<^verbatim>\<open>r->args\<close>; the last two are
  None when the function leaves them as they were. \<open>uri_room\<close> is the size of the buffer that is
  allocated for the normalised URI. The result None is the response 400. The part for Win32 is left
  out.
\<close>

record request_uri =
  pr_uri :: bytes
  pr_unparsed_uri :: bytes
  pr_valid_unparsed_uri :: bool
  pr_exten :: "bytes option"
  pr_args :: "bytes option"

definition uri_len :: "'a http_uri_scheme \<Rightarrow> nat" where
  "uri_len r = (case args_start r of Some a \<Rightarrow> a - 1 - the (uri_start r) | None \<Rightarrow> the (uri_end r) - the (uri_start r))"

definition uri_room :: "'a http_uri_scheme \<Rightarrow> nat" where
  "uri_room r = (if empty_path_in_uri r then uri_len r + 1 else uri_len r)"

definition ngx_http_process_request_uri :: "bytes \<Rightarrow> bool \<Rightarrow> 'a http_uri_scheme \<Rightarrow> request_uri option" where
  "ngx_http_process_request_uri buf merge_slashes r =
    (let s = the (uri_start r); e = the (uri_end r);
         parsed =
           (if complex_uri r \<or> quoted_uri r \<or> empty_path_in_uri r then
              map_option (\<lambda>c. (res_uri c, res_exten c, None, res_args c, res_args_start c))
                (ngx_http_parse_complex_uri buf s e (empty_path_in_uri r) (plus_in_uri r) (quoted_uri r) merge_slashes)
            else Some (take (uri_len r) (drop s buf), None, uri_ext r, None, args_start r))
     in map_option (\<lambda>(u, exten, uext, args, astart).
          \<lparr> pr_uri = u, pr_unparsed_uri = slice buf s e, pr_valid_unparsed_uri = (\<not> empty_path_in_uri r),
            pr_exten = (case uext of
                None \<Rightarrow> exten
              | Some x \<Rightarrow> Some (slice buf x (case astart of Some a \<Rightarrow> a - 1 | None \<Rightarrow> e))),
            pr_args = (case astart of
                Some a \<Rightarrow> if e > a then Some (slice buf a e) else args
              | None \<Rightarrow> args) \<rparr>) parsed)"

end
