(* ===== verification/HttpUriPath.thy ===== *)
theory HttpUriPath
  imports HttpUri
begin

text \<open>
  What the normalisation of \<^verbatim>\<open>ngx_http_parse_complex_uri\<close> computes: the path is decoded, cut into
  segments at its slashes, and the dot segments are resolved. The automaton of HttpUri, which works
  in one pass and backs up over its own output, is shown to simulate that reference; the fast path
  that skips it is shown to agree with it.
\<close>

section \<open>The reference\<close>

text \<open>
  A path as its closed segments and the segment being read. \<open>close_segment\<close> is what a slash does to
  the current segment: \<open>.\<close> is dropped, \<open>..\<close> drops the segment before it, an empty one is dropped
  when slashes are merged.
\<close>

definition path_text :: "bytes list \<Rightarrow> bytes \<Rightarrow> bytes" where
  "path_text segs cur = concat (map ((#) ch_slash) segs) @ ch_slash # cur"

definition close_segment :: "bool \<Rightarrow> bytes list \<Rightarrow> bytes \<Rightarrow> bytes list option" where
  "close_segment merge segs cur =
    (if cur = [ch_dot] then Some segs
     else if cur = [ch_dot, ch_dot] then (if segs = [] then None else Some (butlast segs))
     else if cur = [] \<and> merge then Some segs
     else Some (segs @ [cur]))"

definition finish_segment :: "bytes list \<Rightarrow> bytes \<Rightarrow> (bytes list \<times> bytes) option" where
  "finish_segment segs cur =
    (if cur = [ch_dot] then Some (segs, [])
     else if cur = [ch_dot, ch_dot] then (if segs = [] then None else Some (butlast segs, []))
     else Some (segs, cur))"

fun normalize :: "bool \<Rightarrow> bytes list \<Rightarrow> bytes \<Rightarrow> bytes \<Rightarrow> (bytes list \<times> bytes) option" where
  "normalize merge segs cur [] = finish_segment segs cur"
| "normalize merge segs cur (c # cs) =
    (if c = ch_slash then
       (case close_segment merge segs cur of
          None \<Rightarrow> None
        | Some segs' \<Rightarrow> normalize merge segs' [] cs)
     else normalize merge segs (cur @ [c]) cs)"

text \<open>
  The decoded path: up to the first literal question mark or hash, with every quoted octet decoded;
  None for a quote that is malformed or denotes the zero octet.
\<close>

fun decode_path :: "bytes \<Rightarrow> bytes option" where
  "decode_path [] = Some []"
| "decode_path (c # s) =
    (if c = ch_quest \<or> c = ch_hash then Some []
     else if c = ch_percent then
       (case s of
          a # b # s' \<Rightarrow>
            (case (hex_digit a, hex_digit b) of
               (Some x, Some y) \<Rightarrow>
                 if x * 16 + y = 0 then None else map_option ((#) (word_of_int (x * 16 + y))) (decode_path s')
             | _ \<Rightarrow> None)
        | _ \<Rightarrow> None)
     else map_option ((#) c) (decode_path s))"

text \<open>The state a segment puts the machine in.\<close>

definition segment_state :: "bytes \<Rightarrow> cu_plain" where
  "segment_state cur =
    (if cur = [] then cu_slash else if cur = [ch_dot] then cu_dot
     else if cur = [ch_dot, ch_dot] then cu_dot_dot else cu_usual)"

lemma segment_state_snoc:
  "c \<noteq> ch_dot \<Longrightarrow> segment_state (cur @ [c]) = cu_usual"
  "segment_state [] = cu_slash"
  "segment_state cur = cu_usual \<Longrightarrow> segment_state (cur @ [c]) = cu_usual"
  "segment_state cur = cu_dot_dot \<Longrightarrow> segment_state (cur @ [c]) = cu_usual"
  "segment_state cur = cu_slash \<Longrightarrow> segment_state (cur @ [ch_dot]) = cu_dot"
  "segment_state cur = cu_dot \<Longrightarrow> segment_state (cur @ [ch_dot]) = cu_dot_dot"
  by (auto simp: segment_state_def append_eq_Cons_conv split: if_splits)

lemma segment_state_iff:
  "segment_state cur = cu_slash \<longleftrightarrow> cur = []"
  "segment_state cur = cu_dot \<longleftrightarrow> cur = [ch_dot]"
  "segment_state cur = cu_dot_dot \<longleftrightarrow> cur = [ch_dot, ch_dot]"
  by (auto simp: segment_state_def)

lemma path_text_snoc: "path_text segs cur @ [c] = path_text segs (cur @ [c])"
  by (simp add: path_text_def)

lemma path_text_close: "path_text segs cur @ [ch_slash] = path_text (segs @ [cur]) []"
  by (simp add: path_text_def)

lemma path_text_drop: "butlast (path_text segs [c]) = path_text segs []"
  by (simp add: path_text_def butlast_append)

lemma cu_back_from_suffix:
  "ch_slash \<notin> set w \<Longrightarrow> i < length w + 1 \<Longrightarrow>
     cu_back_from (v @ ch_slash # w @ x) (length v + i) = Some (v @ [ch_slash])"
proof (induction i)
  case 0
  then show ?case by (simp add: cu_back_from.simps nth_append)
next
  case (Suc i)
  then have "(v @ ch_slash # w @ x) ! (length v + Suc i) = w ! i" by (simp add: nth_append)
  moreover have "w ! i \<noteq> ch_slash" using Suc.prems by (auto simp: in_set_conv_nth)
  ultimately show ?case using Suc by (subst cu_back_from.simps) simp
qed

lemma cu_back_path:
  assumes "\<forall>s \<in> set segs. ch_slash \<notin> set s"
  shows "cu_back (path_text segs [ch_dot, ch_dot]) = (if segs = [] then None else Some (path_text (butlast segs) []))"
proof (cases segs rule: rev_cases)
  case Nil
  then show ?thesis by (simp add: cu_back_def path_text_def)
next
  case (snoc ss s)
  let ?v = "concat (map ((#) ch_slash) ss)"
  have "path_text segs [ch_dot, ch_dot] = ?v @ ch_slash # s @ [ch_slash, ch_dot, ch_dot]"
    by (simp add: snoc path_text_def)
  moreover have "length (?v @ ch_slash # s @ [ch_slash, ch_dot, ch_dot]) - 4 = length ?v + length s" by simp
  moreover have "cu_back_from (?v @ ch_slash # s @ [ch_slash, ch_dot, ch_dot]) (length ?v + length s) = Some (?v @ [ch_slash])"
    using assms by (intro cu_back_from_suffix) (simp_all add: snoc)
  ultimately show ?thesis by (simp add: cu_back_def snoc path_text_def)
qed

section \<open>Simulation\<close>

definition cu_sim :: "bytes list \<Rightarrow> bytes \<Rightarrow> cu \<Rightarrow> bool" where
  "cu_sim segs cur s \<longleftrightarrow> cu_st s = Plain (segment_state cur) \<and> cu_u s = path_text segs cur \<and>
     (\<forall>g \<in> set segs. ch_slash \<notin> set g) \<and> ch_slash \<notin> set cur"

definition cu_outcome :: "(bytes list \<times> bytes) option \<Rightarrow> cu_verdict \<Rightarrow> bool" where
  "cu_outcome r v \<longleftrightarrow>
     (case r of
        None \<Rightarrow> \<exists>s. v = Invalid s
      | Some (gs, l) \<Rightarrow> \<exists>s. (v = Goto_done s \<or> v = Goto_args s) \<and> cu_u s = path_text gs l)"

lemma cu_back_sim:
  assumes "cu_sim segs cur s" and "cur = [ch_dot, ch_dot]"
  shows "cu_back (cu_u s) = (if segs = [] then None else Some (path_text (butlast segs) []))"
  using assms cu_back_path[of segs] by (auto simp: cu_sim_def)

lemma usual_class:
  "bitmap_test usual ch \<Longrightarrow> ch \<noteq> ch_slash \<and> ch \<noteq> ch_dot \<and> ch \<noteq> ch_percent \<and> ch \<noteq> ch_quest \<and> ch \<noteq> ch_hash \<and> ch \<noteq> ch_plus"
  by (auto simp: usual_iff)

lemma usual_special [simp]:
  "\<not> bitmap_test usual ch_slash" "\<not> bitmap_test usual ch_dot" "\<not> bitmap_test usual ch_percent"
  "\<not> bitmap_test usual ch_quest" "\<not> bitmap_test usual ch_hash"
  by (simp_all add: usual_iff)

text \<open>An ordinary octet is appended to the current segment.\<close>

lemma cu_round_char:
  assumes "cu_sim segs cur s" and "cu_ch s \<notin> {ch_slash, ch_percent, ch_quest, ch_hash}"
  shows "\<exists>s'. cu_round buf merge s = Round s' \<and> cu_sim segs (cur @ [cu_ch s]) s' \<and>
    cu_p s' = cu_p s + 1 \<and> cu_ch s' = buf ! cu_p s"
proof (cases "segment_state cur")
  case cu_usual
  then have "segment_state (cur @ [cu_ch s]) = cu_usual" by (rule segment_state_snoc)
  then show ?thesis
    using assms cu_usual by (auto simp: cu_sim_def cu_round_def cu_cases Let_def path_text_snoc)
next
  case cu_slash
  then show ?thesis
    using assms by (cases "cu_ch s = ch_dot")
      (auto simp: cu_sim_def cu_round_def cu_cases Let_def path_text_snoc segment_state_snoc)
next
  case cu_dot
  then show ?thesis
    using assms by (cases "cu_ch s = ch_dot")
      (auto simp: cu_sim_def cu_round_def cu_cases Let_def path_text_snoc segment_state_snoc)
next
  case cu_dot_dot
  then show ?thesis
    using assms by (auto simp: cu_sim_def cu_round_def cu_cases Let_def path_text_snoc segment_state_snoc)
qed

text \<open>A slash closes it.\<close>

lemma cu_round_slash:
  assumes sim: "cu_sim segs cur s" and ch: "cu_ch s = ch_slash"
  shows "case close_segment merge segs cur of
      None \<Rightarrow> \<exists>s'. cu_round buf merge s = Invalid s'
    | Some segs' \<Rightarrow> \<exists>s'. cu_round buf merge s = Round s' \<and> cu_sim segs' [] s' \<and>
        cu_p s' = cu_p s + 1 \<and> cu_ch s' = buf ! cu_p s"
proof (cases "segment_state cur")
  case cu_usual
  then have "close_segment merge segs cur = Some (segs @ [cur])"
    by (auto simp: segment_state_def close_segment_def split: if_splits)
  then show ?thesis
    using sim ch cu_usual by (auto simp: cu_sim_def cu_round_def cu_cases Let_def path_text_close segment_state_snoc)
next
  case cu_slash
  then have "cur = []" by (simp add: segment_state_iff)
  then show ?thesis
    using sim ch by (auto simp: cu_sim_def cu_round_def cu_cases Let_def path_text_close segment_state_snoc
        close_segment_def)
next
  case cu_dot
  then have "cur = [ch_dot]" by (simp add: segment_state_iff)
  then show ?thesis
    using sim ch cu_dot by (auto simp: cu_sim_def cu_round_def cu_cases Let_def path_text_drop segment_state_snoc
        close_segment_def)
next
  case cu_dot_dot
  then have c: "cur = [ch_dot, ch_dot]" by (simp add: segment_state_iff)
  then show ?thesis
    using sim ch cu_dot_dot cu_back_sim[OF sim c]
    by (auto simp: cu_sim_def cu_round_def cu_case_dot_dot_def cu_read_def Let_def segment_state_snoc
        close_segment_def dest: in_set_butlastD)
qed

text \<open>A literal question mark or hash ends the path, as does the end of the input.\<close>

lemma cu_round_stop:
  assumes sim: "cu_sim segs cur s" and ch: "cu_ch s = ch_quest \<or> cu_ch s = ch_hash"
  shows "cu_outcome (finish_segment segs cur) (cu_round buf merge s) \<and> (\<forall>s'. cu_round buf merge s \<noteq> Round s')"
proof (cases "segment_state cur")
  case cu_usual
  then have "finish_segment segs cur = Some (segs, cur)"
    by (auto simp: segment_state_def finish_segment_def split: if_splits)
  then show ?thesis
    using sim ch cu_usual by (auto simp: cu_outcome_def cu_sim_def cu_round_def cu_cases Let_def)
next
  case cu_slash
  then have "cur = []" by (simp add: segment_state_iff)
  then show ?thesis
    using sim ch cu_slash by (auto simp: cu_outcome_def cu_sim_def cu_round_def cu_cases Let_def finish_segment_def)
next
  case cu_dot
  then have "cur = [ch_dot]" by (simp add: segment_state_iff)
  then show ?thesis
    using sim ch cu_dot by (auto simp: cu_outcome_def cu_sim_def cu_round_def cu_cases Let_def path_text_drop
        finish_segment_def)
next
  case cu_dot_dot
  then have c: "cur = [ch_dot, ch_dot]" by (simp add: segment_state_iff)
  then show ?thesis
    using sim ch cu_dot_dot cu_back_sim[OF sim c]
    by (auto simp: cu_outcome_def cu_sim_def cu_round_def cu_case_dot_dot_def Let_def finish_segment_def)
qed

lemma cu_end_sim:
  assumes sim: "cu_sim segs cur s"
  shows "cu_outcome (finish_segment segs cur) (cu_end s)"
proof (cases "segment_state cur")
  case cu_dot_dot
  then have c: "cur = [ch_dot, ch_dot]" by (simp add: segment_state_iff)
  then show ?thesis
    using sim cu_back_sim[OF sim c]
    by (auto simp: cu_outcome_def cu_sim_def cu_end_def finish_segment_def segment_state_def)
qed (use sim in \<open>auto simp: cu_outcome_def cu_sim_def cu_end_def cu_drop_def finish_segment_def path_text_drop
      segment_state_def split: if_splits\<close>)

text \<open>One octet of the decoded path, however it was written, is one round in a plain state.\<close>

lemma cu_round_plain:
  assumes sim: "cu_sim segs cur s" and ch: "cu_ch s \<notin> {ch_percent, ch_quest, ch_hash}"
  obtains s' where "cu_round buf merge s = Invalid s'"
      "\<And>d. Option.bind (map_option ((#) (cu_ch s)) d) (normalize merge segs cur) = None"
  | s' segs' cur' where "cu_round buf merge s = Round s'" "cu_sim segs' cur' s'" "cu_p s' = cu_p s + 1"
      "cu_ch s' = buf ! cu_p s"
      "\<And>d. Option.bind (map_option ((#) (cu_ch s)) d) (normalize merge segs cur) = Option.bind d (normalize merge segs' cur')"
proof (cases "cu_ch s = ch_slash")
  case True
  have bind: "Option.bind (map_option ((#) (cu_ch s)) d) (normalize merge segs cur) =
      (case close_segment merge segs cur of None \<Rightarrow> None | Some segs' \<Rightarrow> Option.bind d (normalize merge segs' []))" for d
    using True by (cases d) (simp_all split: option.split)
  show ?thesis
  proof (cases "close_segment merge segs cur")
    case None
    then show ?thesis using that(1) cu_round_slash[OF sim True, where merge = merge and buf = buf] bind by auto
  next
    case (Some segs')
    then show ?thesis using that(2)[of _ segs' "[]"] cu_round_slash[OF sim True, where merge = merge and buf = buf] bind by auto
  qed
next
  case False
  have "Option.bind (map_option ((#) (cu_ch s)) d) (normalize merge segs cur) =
      Option.bind d (normalize merge segs (cur @ [cu_ch s]))" for d
    using False by (cases d) simp_all
  then show ?thesis using that(2)[of _ segs "cur @ [cu_ch s]"] cu_round_char[OF sim, where merge = merge and buf = buf] False ch by auto
qed

text \<open>A quoted octet.\<close>

lemma hex_digit_cases:
  assumes "hex_digit a = Some x"
  obtains "is_digit a" "a - ch_0 = word_of_int x" "0 \<le> x" "x \<le> 9"
  | "\<not> is_digit a" "ch_a \<le> a OR 0x20" "a OR 0x20 \<le> ch_f" "(a OR 0x20) - ch_a + 10 = word_of_int x" "10 \<le> x" "x \<le> 15"
proof (cases "is_digit a")
  case True
  then have "x = uint a - 48" using assms by (simp add: hex_digit_def)
  moreover have "0 \<le> x \<and> x \<le> 9" using dec_digit_bounds[of a x] True calculation by (simp add: dec_digit_def)
  ultimately show ?thesis using True that(1) by simp
next
  case False
  define e where "e = a OR 0x20"
  have e: "ch_a \<le> e" "e \<le> ch_f" and x: "x = uint e - 97 + 10"
    using assms hex_digit_fold[OF False] by (auto simp: e_def Let_def split: if_splits)
  have "10 \<le> x" "x \<le> 15" using e x by (auto simp: uint_le_iff)
  moreover have "e - ch_a + 10 = word_of_int x" using x by simp
  ultimately show ?thesis using False e that(2) by (simp add: e_def)
qed

lemma hex_digit_None:
  "hex_digit a = None \<Longrightarrow> \<not> (ch_0 \<le> a \<and> a \<le> ch_9) \<and> \<not> (ch_a \<le> a OR 0x20 \<and> a OR 0x20 \<le> ch_f)"
  using hex_digit_fold[of a] by (cases "is_digit a") (auto simp: hex_digit_def is_digit_def Let_def split: if_splits)

lemma octet_of_int: "0 \<le> n \<Longrightarrow> n < 256 \<Longrightarrow> uint (word_of_int n :: u_char) = n"
  by (simp add: unsigned_of_int take_bit_int_eq_self)

lemma cu_round_quoted:
  assumes "cu_st s = cu_quoted"
  shows "case hex_digit (cu_ch s) of
      None \<Rightarrow> \<exists>s'. cu_round buf merge s = Invalid s'
    | Some x \<Rightarrow> cu_round buf merge s =
        Round (cu_read buf (s\<lparr>cu_quoted_uri := True, decoded := word_of_int x, cu_st := cu_quoted_second\<rparr>))"
proof (cases "hex_digit (cu_ch s)")
  case None
  then show ?thesis
    using hex_digit_None[OF None] assms by (simp add: cu_round_def cu_case_quoted_def Let_def)
next
  case (Some x)
  then show ?thesis
    using assms by (cases rule: hex_digit_cases[OF Some])
      (auto simp: cu_round_def cu_case_quoted_def Let_def is_digit_def)
qed

lemma verdict_round: "Round s = Round t \<longleftrightarrow> s = t"
  by simp

lemma plus_frame: "\<exists>f. s\<lparr>cu_ch := v, cu_st := q\<rparr> = s\<lparr>cu_ch := v, cu_st := q, cu_plus_in_uri := f\<rparr>"
  by (rule exI[of _ "cu_plus_in_uri s"]) simp

lemma cu_round_quoted_second:
  assumes st: "cu_st s = cu_quoted_second" and d: "decoded s = word_of_int x" "0 \<le> x" "x \<le> 15"
  shows "case hex_digit (cu_ch s) of
      None \<Rightarrow> \<exists>s'. cu_round buf merge s = Invalid s'
    | Some y \<Rightarrow>
        if x * 16 + y = 0 then \<exists>s'. cu_round buf merge s = Invalid s'
        else if word_of_int (x * 16 + y) \<in> {ch_percent, ch_quest, ch_hash}
        then cu_round buf merge s = Round (cu_read buf (cu_put (word_of_int (x * 16 + y))
               (s\<lparr>cu_ch := word_of_int (x * 16 + y), cu_st := Plain cu_usual\<rparr>)))
        else \<exists>f. cu_round buf merge s =
               Round (s\<lparr>cu_ch := word_of_int (x * 16 + y), cu_st := Plain (quoted_state s), cu_plus_in_uri := f\<rparr>)"
proof (cases "hex_digit (cu_ch s)")
  case None
  then show ?thesis
    using hex_digit_None[OF None] st by (simp add: cu_round_def cu_case_quoted_second_def Let_def)
next
  case (Some y)
  have y: "0 \<le> y" "y \<le> 15" using hex_digit_bounds[OF Some] by simp_all
  define v :: u_char where "v = word_of_int (x * 16 + y)"
  have uv: "uint v = x * 16 + y" unfolding v_def using d y by (intro octet_of_int) simp_all
  have v0: "v = 0 \<longleftrightarrow> x * 16 + y = 0" "v = ch_percent \<longleftrightarrow> x * 16 + y = 37" "v = ch_hash \<longleftrightarrow> x * 16 + y = 35"
    "v = ch_quest \<longleftrightarrow> x * 16 + y = 63"
    by (simp_all add: word_uint_eq_iff uv)
  show ?thesis
  proof (cases rule: hex_digit_cases[OF Some])
    case 1
    have eq: "push_bit 4 (decoded s) + (cu_ch s - ch_0) = v"
      using 1(2) by (simp add: d v_def push_bit_eq_mult)
    have ne: "v \<noteq> ch_quest" using v0(4) 1(3,4) d by presburger
    have r: "cu_round buf merge s =
        (if v = ch_percent \<or> v = ch_hash then Round (cu_read buf (cu_put v (s\<lparr>cu_ch := v, cu_st := Plain cu_usual\<rparr>)))
         else if v = 0 then Invalid (s\<lparr>cu_ch := v\<rparr>)
         else Round (s\<lparr>cu_ch := v, cu_st := Plain (quoted_state s)\<rparr>))"
      using st 1(1) unfolding is_digit_def
      by (simp only: cu_round_def cu_state.case cu_case_quoted_second_def Let_def if_True eq) simp
    show ?thesis
      unfolding Some option.case v_def[symmetric] r using ne v0(1) plus_frame[where s = s] by (cases "v = 0") auto
  next
    case 2
    have eq: "push_bit 4 (decoded s) + ((cu_ch s OR 0x20) - ch_a) + 10 = v"
      using 2(4) by (simp add: d v_def push_bit_eq_mult algebra_simps)
    have ne: "v \<noteq> ch_percent" "v \<noteq> ch_hash" "v \<noteq> 0"
      using v0 2(5,6) d by presburger+
    have q: "quoted_state (if v = ch_plus then s\<lparr>cu_ch := v, cu_plus_in_uri := True\<rparr> else s\<lparr>cu_ch := v\<rparr>) = quoted_state s"
      by simp
    have r: "cu_round buf merge s =
        (if v = ch_quest then Round (cu_read buf (cu_put v (s\<lparr>cu_ch := v, cu_st := Plain cu_usual\<rparr>)))
         else Round ((if v = ch_plus then s\<lparr>cu_ch := v, cu_plus_in_uri := True\<rparr> else s\<lparr>cu_ch := v\<rparr>)
                       \<lparr>cu_st := Plain (quoted_state s)\<rparr>))"
      using st 2(1-3) unfolding is_digit_def
      by (simp only: cu_round_def cu_state.case cu_case_quoted_second_def Let_def if_False if_True eq simp_thms q)
    have nz: "x * 16 + y \<noteq> 0" using ne(3) v0(1) by simp
    consider "v = ch_quest" | "v \<noteq> ch_quest" "v = ch_plus" | "v \<noteq> ch_quest" "v \<noteq> ch_plus" by blast
    then show ?thesis
    proof cases
      case 1
      then have m: "v \<in> {ch_percent, ch_quest, ch_hash}" by simp
      show ?thesis
        unfolding Some option.case v_def[symmetric] if_not_P[OF nz] if_P[OF m] r if_P[OF 1] by (rule refl)
    next
      case 2
      then have m: "v \<notin> {ch_percent, ch_quest, ch_hash}" using ne by blast
      show ?thesis
        unfolding Some option.case v_def[symmetric] if_not_P[OF nz] if_not_P[OF m] r if_not_P[OF 2(1)] if_P[OF 2(2)]
        by (intro exI[of _ True]) simp
    next
      case 3
      then have m: "v \<notin> {ch_percent, ch_quest, ch_hash}" using ne by blast
      show ?thesis
        unfolding Some option.case v_def[symmetric] if_not_P[OF nz] if_not_P[OF m] r if_not_P[OF 3(1)] if_not_P[OF 3(2)]
          verdict_round by (rule plus_frame)
    qed
  qed
qed


text \<open>
  The whole loop. The read pointer is one behind the unread octets; a quote takes three rounds, the
  last of which is the round of the octet it denotes.
\<close>

lemma cu_loop_round: "cu_p s \<le> end \<Longrightarrow> cu_round buf merge s = Round s' \<Longrightarrow> cu_loop buf merge end s = cu_loop buf merge end s'"
  by (subst cu_loop.simps) simp

lemma cu_loop_stop: "cu_p s \<le> end \<Longrightarrow> \<forall>s'. cu_round buf merge s \<noteq> Round s' \<Longrightarrow> cu_loop buf merge end s = cu_round buf merge s"
  by (subst cu_loop.simps) (simp split: cu_verdict.split)

lemma cu_loop_end: "end < cu_p s \<Longrightarrow> cu_loop buf merge end s = cu_end s"
  by (subst cu_loop.simps) simp

lemma cu_round_percent:
  assumes "cu_sim segs cur s" and "cu_ch s = ch_percent"
  shows "cu_round buf merge s = Round (cu_read buf (s\<lparr>quoted_state := segment_state cur, cu_st := cu_quoted\<rparr>))"
  using assms by (cases "segment_state cur") (simp_all add: cu_sim_def cu_round_def cu_cases Let_def)

lemma cu_sim_put:
  assumes "cu_sim segs cur s" and "v \<noteq> ch_slash" and "v \<noteq> ch_dot"
    and "cu_u s' = cu_u s" and "cu_st s' = Plain cu_usual"
  shows "cu_sim segs (cur @ [v]) (cu_put v s')"
  using assms by (simp add: cu_sim_def cu_put_def path_text_snoc segment_state_snoc)


lemma cu_loop_plain:
  assumes "cu_sim segs cur s" and "cu_ch s \<notin> {ch_percent, ch_quest, ch_hash}" and "cu_p s \<le> end"
    and "\<And>s' segs' cur'. \<lbrakk>cu_sim segs' cur' s'; cu_p s' = cu_p s + 1; cu_ch s' = buf ! cu_p s\<rbrakk> \<Longrightarrow>
       cu_outcome (Option.bind d (normalize merge segs' cur')) (cu_loop buf merge end s')"
  shows "cu_outcome (Option.bind (map_option ((#) (cu_ch s)) d) (normalize merge segs cur)) (cu_loop buf merge end s)"
proof (cases rule: cu_round_plain[OF assms(1,2), of buf merge])
  case (1 s')
  moreover have "cu_loop buf merge end s = Invalid s'" using 1(1) assms(3) cu_loop_stop by simp
  ultimately show ?thesis by (simp add: cu_outcome_def)
next
  case (2 s' segs' cur')
  then show ?thesis using assms(4)[OF 2(2-4)] cu_loop_round[OF assms(3) 2(1)] by simp
qed

text \<open>The three rounds of a quoted octet.\<close>

lemma cu_loop_quoted:
  assumes sim: "cu_sim segs cur s" and ch: "cu_ch s = ch_percent" and p: "cu_p s \<le> end"
  shows "\<exists>s1. cu_loop buf merge end s = cu_loop buf merge end s1 \<and> cu_st s1 = cu_quoted \<and> cu_p s1 = cu_p s + 1 \<and>
     cu_ch s1 = buf ! cu_p s \<and> cu_u s1 = cu_u s \<and> quoted_state s1 = segment_state cur"
  by (rule exI, rule conjI[OF cu_loop_round[OF p cu_round_percent[OF sim ch]]]) (simp add: cu_read_def)

lemma cu_loop_quoted_first:
  assumes st: "cu_st s1 = cu_quoted" and p: "cu_p s1 \<le> end" 
  shows "case hex_digit (cu_ch s1) of
      None \<Rightarrow> \<exists>s'. cu_loop buf merge end s1 = Invalid s'
    | Some x \<Rightarrow> \<exists>s2. cu_loop buf merge end s1 = cu_loop buf merge end s2 \<and> cu_st s2 = cu_quoted_second \<and>
        cu_p s2 = cu_p s1 + 1 \<and> cu_ch s2 = buf ! cu_p s1 \<and> cu_u s2 = cu_u s1 \<and> quoted_state s2 = quoted_state s1 \<and>
        decoded s2 = word_of_int x"
proof (cases "hex_digit (cu_ch s1)")
  case None
  then show ?thesis using cu_round_quoted[OF st, of buf merge] cu_loop_stop[OF p, of buf merge] by auto
next
  case (Some x)
  then have "cu_round buf merge s1 =
      Round (cu_read buf (s1\<lparr>cu_quoted_uri := True, decoded := word_of_int x, cu_st := cu_quoted_second\<rparr>))"
    using cu_round_quoted[OF st, of buf merge] by simp
  from cu_loop_round[OF p this] Some show ?thesis by (auto simp: cu_read_def)
qed

lemma cu_loop_quoted_second:
  assumes st: "cu_st s2 = cu_quoted_second" and p: "cu_p s2 \<le> end" and d: "decoded s2 = word_of_int x" "0 \<le> x" "x \<le> 15"
    and u: "cu_u s2 = path_text segs cur" "quoted_state s2 = segment_state cur"
    and segs: "\<forall>g \<in> set segs. ch_slash \<notin> set g" "ch_slash \<notin> set cur"
    and cont: "\<And>s' segs' cur'. \<lbrakk>cu_sim segs' cur' s'; cu_p s' = cu_p s2 + 1; cu_ch s' = buf ! cu_p s2\<rbrakk> \<Longrightarrow>
       cu_outcome (Option.bind e (normalize merge segs' cur')) (cu_loop buf merge end s')"
  shows "cu_outcome
     (Option.bind (case hex_digit (cu_ch s2) of None \<Rightarrow> None
        | Some y \<Rightarrow> if x * 16 + y = 0 then None else map_option ((#) (word_of_int (x * 16 + y))) e)
        (normalize merge segs cur))
     (cu_loop buf merge end s2)"
proof (cases "hex_digit (cu_ch s2)")
  case None
  then show ?thesis
    using cu_round_quoted_second[OF st d, of buf merge] cu_loop_stop[OF p, of buf merge] by (auto simp: cu_outcome_def)
next
  case (Some y)
  define v :: u_char where "v = word_of_int (x * 16 + y)"
  note r = cu_round_quoted_second[OF st d, of buf merge, unfolded Some option.case, folded v_def]
  consider "x * 16 + y = 0" | "x * 16 + y \<noteq> 0" "v \<in> {ch_percent, ch_quest, ch_hash}"
    | "x * 16 + y \<noteq> 0" "v \<notin> {ch_percent, ch_quest, ch_hash}" by blast
  then show ?thesis
  proof cases
    case 1
    then show ?thesis using r cu_loop_stop[OF p, of buf merge] Some by (auto simp: cu_outcome_def)
  next
    case 2
    let ?s = "cu_read buf (cu_put v (s2\<lparr>cu_ch := v, cu_st := Plain cu_usual\<rparr>))"
    have "cu_sim segs (cur @ [v]) ?s"
      using 2(2) u segs by (auto simp: cu_sim_def cu_read_def cu_put_def path_text_snoc segment_state_snoc)
    then have "cu_outcome (Option.bind e (normalize merge segs (cur @ [v]))) (cu_loop buf merge end ?s)"
      by (rule cont) (simp_all add: cu_read_def cu_put_def)
    moreover have "cu_loop buf merge end s2 = cu_loop buf merge end ?s"
      using r 2 by (intro cu_loop_round[OF p]) simp
    moreover have "Option.bind (map_option ((#) v) e) (normalize merge segs cur) = Option.bind e (normalize merge segs (cur @ [v]))"
      using 2(2) by (cases e) auto
    ultimately show ?thesis using Some 2(1) by (simp add: v_def)
  next
    case 3
    then obtain f where f: "cu_round buf merge s2 =
        Round (s2\<lparr>cu_ch := v, cu_st := Plain (quoted_state s2), cu_plus_in_uri := f\<rparr>)" (is "_ = Round ?s")
      using r by auto
    have "cu_sim segs cur ?s" using u segs by (simp add: cu_sim_def)
    then have "cu_outcome (Option.bind (map_option ((#) (cu_ch ?s)) e) (normalize merge segs cur)) (cu_loop buf merge end ?s)"
      using 3(2) p by (rule_tac cu_loop_plain) (auto intro: cont)
    then show ?thesis using cu_loop_round[OF p f] Some 3(1) by (simp add: v_def)
  qed
qed


text \<open>A quote in full; \<open>cont\<close> is what holds of the rest of the input.\<close>

lemma cu_loop_percent:
  assumes sim: "cu_sim segs cur s" and ch: "cu_ch s = ch_percent" and buf: "buf = pre @ (ch_percent # t) @ post"
    and p: "cu_p s = length pre + 1" and en: "end = length pre + length t + 1"
    and cont: "\<And>a b t' s' segs' cur'. \<lbrakk>t = a # b # t'; cu_sim segs' cur' s'; cu_p s' = length pre + 4;
       cu_ch s' = buf ! (length pre + 3)\<rbrakk> \<Longrightarrow>
       cu_outcome (Option.bind (decode_path t') (normalize merge segs' cur')) (cu_loop buf merge end s')"
  shows "cu_outcome (Option.bind (decode_path (ch_percent # t)) (normalize merge segs cur)) (cu_loop buf merge end s)"
proof -
  obtain s1 where s1: "cu_loop buf merge end s = cu_loop buf merge end s1" "cu_st s1 = cu_quoted"
    "cu_p s1 = cu_p s + 1" "cu_ch s1 = buf ! cu_p s" "cu_u s1 = cu_u s" "quoted_state s1 = segment_state cur"
    using cu_loop_quoted[OF sim ch, of "end" buf merge] p en by auto
  consider "t = []" | a where "t = [a]" | a b t' where "t = a # b # t'" by (cases t rule: remdups_adj.cases) auto
  then show ?thesis
  proof cases
    case 1
    then have "cu_loop buf merge end s1 = cu_end s1" using s1(3) p en by (intro cu_loop_end) simp
    then show ?thesis using s1(1,2) 1 by (simp add: cu_end_def cu_outcome_def)
  next
    case 2
    then have p1: "cu_p s1 \<le> end" and "cu_p s1 + 1 > end" using s1(3) p en by simp_all
    then show ?thesis
      using cu_loop_quoted_first[OF s1(2) p1, of buf merge] s1(1) 2
      by (auto simp: cu_outcome_def cu_loop_end cu_end_def split: option.splits)
  next
    case 3
    have p1: "cu_p s1 \<le> end" and a: "cu_ch s1 = a" using s1(3,4) buf p en 3 by (simp_all add: nth_append)
    note first = cu_loop_quoted_first[OF s1(2) p1, of buf merge, unfolded a]
    show ?thesis
    proof (cases "hex_digit a")
      case None
      then show ?thesis using first s1(1) 3 by (auto simp: cu_outcome_def)
    next
      case (Some x)
      have x: "0 \<le> x" "x \<le> 15" using hex_digit_bounds[OF Some] by simp_all
      obtain s2 where s2: "cu_loop buf merge end s1 = cu_loop buf merge end s2" "cu_st s2 = cu_quoted_second"
        "cu_p s2 = cu_p s1 + 1" "cu_ch s2 = buf ! cu_p s1" "cu_u s2 = cu_u s1" "quoted_state s2 = quoted_state s1"
        "decoded s2 = word_of_int x"
        using first Some by auto
      have p2: "cu_p s2 \<le> end" and b: "cu_ch s2 = b" using s1(3) s2(3,4) buf p en 3 by (simp_all add: nth_append)
      have "cu_outcome
         (Option.bind (case hex_digit (cu_ch s2) of None \<Rightarrow> None
            | Some y \<Rightarrow> if x * 16 + y = 0 then None else map_option ((#) (word_of_int (x * 16 + y))) (decode_path t'))
            (normalize merge segs cur))
         (cu_loop buf merge end s2)"
        using s1 s2 p sim 3
        by (intro cu_loop_quoted_second[OF s2(2) p2 s2(7) x] cont) (auto simp: cu_sim_def eval_nat_numeral)
      then show ?thesis using s1(1) s2(1) 3 b Some by simp
    qed
  qed
qed

lemma cu_loop_sim:
  assumes "buf = pre @ cs @ post" and "post \<noteq> []" and "cu_p s = length pre + 1" and "cu_ch s = hd (cs @ post)"
    and "cu_sim segs cur s" and "end = length pre + length cs"
  shows "cu_outcome (Option.bind (decode_path cs) (normalize merge segs cur)) (cu_loop buf merge end s)"
  using assms
proof (induction "length cs" arbitrary: pre cs s segs cur rule: less_induct)
  case less
  show ?case
  proof (cases cs)
    case Nil
    then show ?thesis using less.prems cu_end_sim[OF less.prems(5)] by (simp add: cu_loop_end)
  next
    case (Cons c cs1)
    have ch: "cu_ch s = c" using less.prems(4) Cons by simp
    have p: "cu_p s \<le> end" using less.prems(3,6) Cons by simp
    have after: "cu_outcome (Option.bind (decode_path t) (normalize merge segs' cur')) (cu_loop buf merge end s')"
      if "cs = h @ t" "h \<noteq> []" "cu_sim segs' cur' s'" "cu_p s' = length pre + length h + 1"
        "cu_ch s' = buf ! (length pre + length h)" for h t segs' cur' s'
    proof (rule less.hyps[of t "pre @ h"])
      show "cu_ch s' = hd (t @ post)" using that less.prems(1,2) by (simp add: nth_append hd_append hd_conv_nth)
    qed (use that less.prems in auto)
    consider "c = ch_quest \<or> c = ch_hash" | "c \<notin> {ch_percent, ch_quest, ch_hash}" | "c = ch_percent" by auto
    then show ?thesis
    proof cases
      case 1
      then show ?thesis
        using cu_round_stop[OF less.prems(5), of buf merge] cu_loop_stop[OF p, of buf merge] Cons ch by simp
    next
      case 2
      have "cu_outcome (Option.bind (map_option ((#) (cu_ch s)) (decode_path cs1)) (normalize merge segs cur)) (cu_loop buf merge end s)"
        using 2 ch p less.prems(3) Cons by (intro cu_loop_plain[OF less.prems(5)]) (auto intro!: after[of "[c]"])
      then show ?thesis using Cons ch 2 by simp
    next
      case 3
      have "cu_outcome (Option.bind (decode_path (ch_percent # cs1)) (normalize merge segs cur)) (cu_loop buf merge end s)"
      proof (rule cu_loop_percent[OF less.prems(5), of buf pre cs1 post])
        fix a b t' s' segs' cur'
        assume "cs1 = a # b # t'" "cu_sim segs' cur' s'" "cu_p s' = length pre + 4" "cu_ch s' = buf ! (length pre + 3)"
        then show "cu_outcome (Option.bind (decode_path t') (normalize merge segs' cur')) (cu_loop buf merge end s')"
          using Cons 3 by (intro after[of "[c, a, b]"]) (auto simp: eval_nat_numeral)
      qed (use 3 ch less.prems Cons in auto)
      then show ?thesis using Cons 3 by simp
    qed
  qed
qed

section \<open>The parser as a whole\<close>

definition uri_reference :: "bool \<Rightarrow> bytes \<Rightarrow> bytes option" where
  "uri_reference merge cs =
     map_option (\<lambda>(gs, l). path_text gs l) (Option.bind (decode_path cs) (normalize merge [] []))"

lemma complex_uri_sim:
  assumes "post \<noteq> []"
  shows "map_option res_uri (ngx_http_parse_complex_uri (pre @ (ch_slash # cs) @ post) (length pre) (length pre + length cs + 1)
      False plus_in quoted merge) = uri_reference merge cs"
proof -
  let ?buf = "pre @ (ch_slash # cs) @ post" and ?stop = "length pre + length cs + 1"
  define s0 where "s0 = \<lparr> cu_st = Plain cu_usual, quoted_state = cu_usual, decoded = 0, cu_p = length pre + 1,
               cu_ch = ?buf ! length pre, cu_u = [], cu_uri_ext = None,
               cu_args_start = None, cu_plus_in_uri = plus_in, cu_quoted_uri = quoted \<rparr>"
  obtain s1 where "cu_round ?buf merge s0 = Round s1" and s1: "cu_sim [] [] s1" "cu_p s1 = length pre + 2"
    "cu_ch s1 = ?buf ! (length pre + 1)"
    by (simp add: s0_def cu_round_def cu_cases Let_def cu_sim_def path_text_def segment_state_def)
  then have "cu_loop ?buf merge ?stop s0 = cu_loop ?buf merge ?stop s1"
    by (intro cu_loop_round) (simp_all add: s0_def)
  moreover have "cu_outcome (Option.bind (decode_path cs) (normalize merge [] [])) (cu_loop ?buf merge ?stop s1)"
    using assms s1 by (intro cu_loop_sim[where pre = "pre @ [ch_slash]" and post = post])
      (auto simp: nth_append hd_append hd_conv_nth split: list.splits)
  ultimately have "cu_outcome (Option.bind (decode_path cs) (normalize merge [] [])) (cu_loop ?buf merge ?stop s0)" by simp
  then show ?thesis
    by (auto simp: ngx_http_parse_complex_uri_def Let_def s0_def uri_reference_def cu_outcome_def cu_result_def
        split: option.splits)
qed

end
