(* ===== verification/HttpUriCheck.thy ===== *)
theory HttpUriCheck
  imports HttpUriPath
begin

text \<open>
  \<^verbatim>\<open>ngx_http_parse_uri\<close> and \<^verbatim>\<open>ngx_http_process_request_uri\<close>: what the reference promises of its result, what a
  URI that was not flagged looks like, and the properties of the URI of a request.
\<close>

section \<open>Properties of the reference\<close>

definition segs_clean :: "bool \<Rightarrow> bytes list \<Rightarrow> bool" where
  "segs_clean merge segs \<longleftrightarrow>
     (\<forall>g \<in> set segs. ch_slash \<notin> set g \<and> g \<noteq> [ch_dot] \<and> g \<noteq> [ch_dot, ch_dot] \<and> (merge \<longrightarrow> g \<noteq> []))"

lemma segs_clean_simps [simp]:
  "segs_clean merge []"
  "segs_clean merge (segs @ [g]) \<longleftrightarrow> segs_clean merge segs \<and>
     ch_slash \<notin> set g \<and> g \<noteq> [ch_dot] \<and> g \<noteq> [ch_dot, ch_dot] \<and> (merge \<longrightarrow> g \<noteq> [])"
  "segs_clean merge segs \<Longrightarrow> segs_clean merge (butlast segs)"
  by (auto simp: segs_clean_def in_set_butlastD)










section \<open>The fast path\<close>

text \<open>A path that \<^verbatim>\<open>ngx_http_parse_uri\<close> does not flag: nothing to decode, to merge or to resolve.\<close>

definition plain_segment :: "bytes \<Rightarrow> bool" where
  "plain_segment g \<longleftrightarrow> (g = [] \<or> hd g \<noteq> ch_dot) \<and> set g \<inter> {ch_slash, ch_percent, ch_quest, ch_hash} = {}"

definition plain_segments :: "bytes list \<Rightarrow> bool" where
  "plain_segments segs \<longleftrightarrow> (\<forall>g \<in> set segs. g \<noteq> [] \<and> plain_segment g)"

definition plain_path :: "bytes \<Rightarrow> bool" where
  "plain_path x \<longleftrightarrow> (\<exists>segs cur. x = path_text segs cur \<and> plain_segments segs \<and> plain_segment cur)"

lemma plain_segment_snoc:
  "plain_segment (g @ [c]) \<longleftrightarrow> plain_segment g \<and> c \<notin> {ch_slash, ch_percent, ch_quest, ch_hash} \<and> (g = [] \<longrightarrow> c \<noteq> ch_dot)"
  by (cases g) (auto simp: plain_segment_def)

lemma plain_segments_snoc: "plain_segments (segs @ [g]) \<longleftrightarrow> plain_segments segs \<and> g \<noteq> [] \<and> plain_segment g"
  by (auto simp: plain_segments_def)

text \<open>What \<open>x\<close>, the octets read, say of the state.\<close>

fun pu_shape :: "bytes \<Rightarrow> pu_state \<Rightarrow> bool" where
  "pu_shape x pu_start \<longleftrightarrow> x = []"
| "pu_shape x pu_after_slash_in_uri \<longleftrightarrow> (\<exists>segs cur. x = path_text segs cur \<and> plain_segments segs \<and> set cur \<subseteq> {ch_plus})"
| "pu_shape x pu_check_uri \<longleftrightarrow>
     (\<exists>segs cur. x = path_text segs cur \<and> plain_segments segs \<and> cur \<noteq> [] \<and> plain_segment cur)"
| "pu_shape x pu_uri \<longleftrightarrow> (\<exists>y z. x = y @ ch_quest # z \<and> plain_path y \<and> ch_hash \<notin> set z)"

definition pu_args :: "nat \<Rightarrow> bytes \<Rightarrow> uri_check \<Rightarrow> bool" where
  "pu_args start x r \<longleftrightarrow>
     (case args_start r of
        None \<Rightarrow> pu_st r = pu_uri \<or> ch_quest \<notin> set x
      | Some a \<Rightarrow> pu_st r = pu_uri \<and> ch_quest \<in> set x \<and> a = start + length (takeWhile (\<lambda>c. c \<noteq> ch_quest) x) + 1)"

definition pu_read :: "nat \<Rightarrow> bytes \<Rightarrow> uri_check \<Rightarrow> bool" where
  "pu_read start x r \<longleftrightarrow> pu_args start x r \<and> (\<forall>c \<in> set x. \<not> pu_invalid c) \<and> (\<not> complex_uri r \<and> \<not> quoted_uri r \<longrightarrow>
     pu_shape x (pu_st r) \<and> (pu_st r = pu_uri \<longrightarrow> args_start r \<noteq> None))"

lemmas pu_unfold = parse_uri_step_def pu_read_def pu_args_def

lemma takeWhile_not_quest: "ch_quest \<notin> set x \<Longrightarrow> takeWhile (\<lambda>c. c \<noteq> ch_quest) x = x"
  by (auto simp: takeWhile_eq_all_conv)

lemma pu_args_step:
  assumes "pu_args start x r" and "parse_uri_step b (start + length x) ch r = Continue r'"
  shows "pu_args start (x @ [ch]) r'"
  using assms takeWhile_not_quest[of x]
  by (cases "pu_st r"; cases "args_start r")
    (auto simp: parse_uri_step_def pu_args_def takeWhile_tail split: if_split_asm)

lemma pu_shapeI:
  "x = path_text segs cur \<Longrightarrow> plain_segments segs \<Longrightarrow> set cur \<subseteq> {ch_plus} \<Longrightarrow> pu_shape x pu_after_slash_in_uri"
  "x = path_text segs cur \<Longrightarrow> plain_segments segs \<Longrightarrow> cur \<noteq> [] \<Longrightarrow> plain_segment cur \<Longrightarrow> pu_shape x pu_check_uri"
  "x = y @ ch_quest # z \<Longrightarrow> plain_path y \<Longrightarrow> ch_hash \<notin> set z \<Longrightarrow> pu_shape x pu_uri"
  by auto

lemma plain_path_quest: "plain_path y \<Longrightarrow> pu_shape (y @ [ch_quest]) pu_uri"
  by (rule pu_shapeI(3)[where z = "[]"]) simp_all

lemma pu_after_slash_step:
  assumes step: "parse_uri_step b p ch r = Continue r'" and st: "pu_st r = pu_after_slash_in_uri"
    and x: "x = path_text segs cur" "plain_segments segs" "set cur \<subseteq> {ch_plus}"
    and flags: "\<not> complex_uri r'" "\<not> quoted_uri r'"
  shows "pu_shape (x @ [ch]) (pu_st r') \<and> (pu_st r' = pu_uri \<longrightarrow> args_start r' \<noteq> None)"
proof -
  have cur: "plain_segment cur" using x(3) by (cases cur) (auto simp: plain_segment_def)
  consider "ch = ch_quest" "pu_st r' = pu_uri" "args_start r' \<noteq> None" | "ch = ch_plus" "pu_st r' = pu_after_slash_in_uri"
    | "ch \<notin> {ch_plus, ch_slash, ch_percent, ch_quest, ch_hash, ch_dot}" "pu_st r' = pu_check_uri"
    using step st flags by (auto simp: parse_uri_step_def dest: usual_class split: if_split_asm)
  then show ?thesis
  proof cases
    case 1
    then show ?thesis using plain_path_quest[of x] x(1,2) cur by (auto simp: plain_path_def)
  next
    case 2
    have "pu_shape (x @ [ch]) pu_after_slash_in_uri"
      using x 2(1) by (intro pu_shapeI(1)[of _ segs "cur @ [ch_plus]"]) (simp_all add: path_text_snoc)
    then show ?thesis using 2(2) by simp
  next
    case 3
    have "plain_segment (cur @ [ch])" using cur 3(1) by (simp add: plain_segment_snoc)
    then show ?thesis using x(1,2) 3(2) path_text_snoc[of segs cur ch] by fastforce
  qed
qed

lemma pu_check_step:
  assumes step: "parse_uri_step b p ch r = Continue r'" and st: "pu_st r = pu_check_uri"
    and x: "x = path_text segs cur" "plain_segments segs" "cur \<noteq> []" "plain_segment cur"
    and flags: "\<not> complex_uri r'" "\<not> quoted_uri r'"
  shows "pu_shape (x @ [ch]) (pu_st r') \<and> (pu_st r' = pu_uri \<longrightarrow> args_start r' \<noteq> None)"
proof -
  consider "ch = ch_quest" "pu_st r' = pu_uri" "args_start r' \<noteq> None" | "ch = ch_slash" "pu_st r' = pu_after_slash_in_uri"
    | "ch \<notin> {ch_slash, ch_percent, ch_quest, ch_hash}" "pu_st r' = pu_check_uri"
    using step st flags by (auto simp: parse_uri_step_def dest: usual_class split: if_split_asm)
  then show ?thesis
  proof cases
    case 1
    then show ?thesis using plain_path_quest[of x] x by (auto simp: plain_path_def)
  next
    case 2
    have "pu_shape (x @ [ch]) pu_after_slash_in_uri"
      using x 2(1) by (intro pu_shapeI(1)[of _ "segs @ [cur]" "[]"]) (simp_all add: path_text_close plain_segments_snoc)
    then show ?thesis using 2(2) by simp
  next
    case 3
    have "plain_segment (cur @ [ch])" using x(3,4) 3(1) by (simp add: plain_segment_snoc)
    then show ?thesis using x(1,2) 3(2) path_text_snoc[of segs cur ch] by fastforce
  qed
qed

lemma pu_shape_step:
  assumes "pu_read start x r" and "parse_uri_step b p ch r = Continue r'"
    and "\<not> complex_uri r'" and "\<not> quoted_uri r'"
  shows "pu_shape (x @ [ch]) (pu_st r') \<and> (pu_st r' = pu_uri \<longrightarrow> args_start r' \<noteq> None)"
proof -
  have flags: "\<not> complex_uri r" "\<not> quoted_uri r"
    using assms(2-4) by (auto simp: parse_uri_step_def split: pu_state.splits if_split_asm)
  then have sh: "pu_shape x (pu_st r)" "pu_st r = pu_uri \<longrightarrow> args_start r \<noteq> None" using assms(1) by (simp_all add: pu_read_def)
  show ?thesis
  proof (cases "pu_st r")
    case pu_start
    then show ?thesis using assms(2) sh
      by (auto simp: parse_uri_step_def path_text_def plain_segments_def split: if_split_asm intro!: exI[of _ "[]"])
  next
    case pu_after_slash_in_uri
    then show ?thesis using sh assms(2-4) pu_after_slash_step by fastforce
  next
    case pu_check_uri
    then show ?thesis using sh assms(2-4) pu_check_step by fastforce
  next
    case pu_uri
    then obtain y z where x: "x = y @ ch_quest # z" "plain_path y" "ch_hash \<notin> set z" using sh by auto
    have "pu_st r' = pu_uri" "args_start r' = args_start r" "ch \<noteq> ch_hash"
      using assms(2-4) pu_uri by (auto simp: parse_uri_step_def split: if_split_asm)
    moreover have "pu_shape (x @ [ch]) pu_uri" using x \<open>ch \<noteq> ch_hash\<close> by (intro pu_shapeI(3)[of _ y "z @ [ch]"]) simp_all
    ultimately show ?thesis using sh pu_uri by simp
  qed
qed

lemma pu_valid_step: "parse_uri_step b p ch r = Continue r' \<Longrightarrow> \<not> pu_invalid ch"
  using usual_iff[of ch]
  by (cases "bitmap_test usual ch") (auto simp: parse_uri_step_def pu_invalid_def split: pu_state.splits if_split_asm)

lemma pu_read_step:
  "pu_read start x r \<Longrightarrow> parse_uri_step b (start + length x) ch r = Continue r' \<Longrightarrow> pu_read start (x @ [ch]) r'"
  using pu_args_step[of start x r b ch r'] pu_shape_step[of start x r b "start + length x" ch r']
    pu_valid_step[of b "start + length x" ch r r']
  by (simp add: pu_read_def)

definition pu_inv :: "nat \<Rightarrow> bytes \<Rightarrow> nat \<Rightarrow> uri_check \<Rightarrow> bool" where
  "pu_inv start b p r \<longleftrightarrow> start \<le> p \<and> pu_read start (slice b start p) r"

interpretation pu: invariant_machine parse_uri_step "pu_inv start" "\<lambda>_ _ _ _. True" for start
proof
  fix p :: nat and b :: bytes and r r' :: uri_check
  assume p: "p < length b" and inv: "pu_inv start b p r" and step: "parse_uri_step b p (b ! p) r = Continue r'"
  have "start + length (slice b start p) = p" using p inv by (simp add: pu_inv_def slice_def)
  then show "pu_inv start b (Suc p) r'"
    using p inv step pu_read_step[of start "slice b start p" r b "b ! p" r'] by (simp add: pu_inv_def slice_Suc)
qed (simp_all add: parse_uri_step_def nth_append)

lemma pu_kept:
  "fst (scan parse_uri_step b p r) = Continue r' \<Longrightarrow>
     uri_start r' = uri_start r \<and> uri_end r' = uri_end r \<and> empty_path_in_uri r' = empty_path_in_uri r"
  using scan_keeps[of "\<lambda>r'. uri_start r' = uri_start r \<and> uri_end r' = uri_end r \<and> empty_path_in_uri r' = empty_path_in_uri r"
      parse_uri_step r b p]
  by (simp add: parse_uri_step_def split: pu_state.split)

text \<open>What an accepted URI is known to be.\<close>

lemma parse_uri_accepted:
  assumes "ngx_http_parse_uri (pre @ u @ post) (length pre) (length pre + length u) r = (NGX_OK, r')"
    and "\<not> complex_uri r" and "\<not> quoted_uri r" and "args_start r = None" 
  shows "pu_read (length pre) u r' \<and> uri_start r' = uri_start r \<and> uri_end r' = uri_end r \<and>
    empty_path_in_uri r' = empty_path_in_uri r"
proof -
  obtain q where sc: "scan parse_uri_step (pre @ u) (length pre) (r\<lparr>pu_st := pu_start\<rparr>) = (Continue r', q)"
    using assms(1) by (auto simp: ngx_http_parse_uri_def parse_uri_step_def split: prod.splits verdict.splits
        pu_state.splits if_split_asm dest!: scan_Fail_step scan_Done_step)
  have "pu_inv (length pre) (pre @ u) (length pre) (r\<lparr>pu_st := pu_start\<rparr>)"
    using assms by (simp add: pu_inv_def pu_read_def pu_args_def)
  then have "pu_inv (length pre) (pre @ u) q r'" using sc by (rule_tac pu.scan_inv) simp_all
  moreover have "q = length (pre @ u)" using scan_Continue_end[OF _ sc] by simp
  ultimately show ?thesis using pu_kept[of "pre @ u" "length pre" "r\<lparr>pu_st := pu_start\<rparr>" r'] sc
    by (simp add: pu_inv_def slice_def)
qed


text \<open>On a plain path the reference is the identity.\<close>

lemma decode_plain:
  "set y \<inter> {ch_percent, ch_quest, ch_hash} = {} \<Longrightarrow>
     decode_path (y @ z) = map_option ((@) y) (decode_path z)"
  by (cases "decode_path z"; induction y) auto

lemma normalize_segment:
  "ch_slash \<notin> set g \<Longrightarrow> normalize merge segs cur (g @ w) = normalize merge segs (cur @ g) w"
  by (induction g arbitrary: cur) auto

lemma normalize_plain:
  "plain_segments gs \<Longrightarrow> plain_segment l \<Longrightarrow>
     normalize merge segs [] (concat (map (\<lambda>g. g @ [ch_slash]) gs) @ l) = Some (segs @ gs, l)"
proof (induction gs arbitrary: segs)
  case Nil
  then have "ch_slash \<notin> set l" "l \<noteq> [ch_dot]" "l \<noteq> [ch_dot, ch_dot]" by (auto simp: plain_segment_def)
  then show ?case using normalize_segment[of l merge segs "[]" "[]"] by (simp add: finish_segment_def)
next
  case (Cons g gs)
  then have g: "ch_slash \<notin> set g" "g \<noteq> [ch_dot]" "g \<noteq> [ch_dot, ch_dot]" "g \<noteq> []" "plain_segments gs"
    by (auto simp: plain_segments_def plain_segment_def)
  then show ?case using Cons by (simp add: normalize_segment close_segment_def)
qed

lemma path_text_body: "path_text gs l = ch_slash # concat (map (\<lambda>g. g @ [ch_slash]) gs) @ l"
  by (induction gs) (simp_all add: path_text_def)

lemma plain_path_octets: "plain_path y \<Longrightarrow> set y \<inter> {ch_percent, ch_quest, ch_hash} = {}"
proof -
  assume "plain_path y"
  then obtain segs cur where y: "y = path_text segs cur" "plain_segments segs" "plain_segment cur" by (auto simp: plain_path_def)
  have "\<forall>g \<in> set segs. set g \<inter> {ch_percent, ch_quest, ch_hash} = {}"
    using y(2) by (auto simp: plain_segments_def plain_segment_def)
  moreover have "set cur \<inter> {ch_percent, ch_quest, ch_hash} = {}" using y(3) by (auto simp: plain_segment_def)
  ultimately show ?thesis unfolding y(1) path_text_body by auto
qed

lemma pu_shape_plain: "pu_shape x st \<Longrightarrow> x \<noteq> [] \<Longrightarrow> st \<noteq> pu_uri \<Longrightarrow> plain_path x"
proof (cases st)
  case pu_after_slash_in_uri
  assume "pu_shape x st"
  then obtain segs cur where x: "x = path_text segs cur" "plain_segments segs" "set cur \<subseteq> {ch_plus}"
    using pu_after_slash_in_uri by auto
  moreover have "plain_segment cur" using x(3) by (cases cur) (auto simp: plain_segment_def)
  ultimately show ?thesis by (auto simp: plain_path_def)
qed (auto simp: plain_path_def)

lemma uri_reference_plain:
  assumes "plain_path y" and "decode_path z = Some []"
  shows "uri_reference merge (tl y @ z) = Some y"
proof -
  obtain gs l where y: "y = path_text gs l" "plain_segments gs" "plain_segment l" using assms(1) by (auto simp: plain_path_def)
  have "set (tl y) \<inter> {ch_percent, ch_quest, ch_hash} = {}"
    using plain_path_octets[OF assms(1)] y(1) by (auto simp: path_text_body)
  then have "decode_path (tl y @ z) = Some (tl y)" using assms(2) by (simp add: decode_plain)
  then show ?thesis using y normalize_plain[of gs l merge "[]"] by (simp add: uri_reference_def path_text_body)
qed

lemma pu_plain:
  assumes "pu_read start u r" and "u \<noteq> []" and "\<not> complex_uri r" and "\<not> quoted_uri r"
  shows "uri_reference merge (tl u) = Some (takeWhile (\<lambda>c. c \<noteq> ch_quest) u) \<and>
    (args_start r = None \<longrightarrow> ch_quest \<notin> set u)"
proof (cases "pu_st r = pu_uri")
  case False
  then have u: "plain_path u"
    using assms pu_shape_plain[of u "pu_st r"] by (simp add: pu_read_def)
  then have "ch_quest \<notin> set u" using plain_path_octets by blast
  then show ?thesis using uri_reference_plain[OF u, of "[]"] by (simp add: takeWhile_not_quest)
next
  case True
  then obtain y z where u: "u = y @ ch_quest # z" "plain_path y" "args_start r \<noteq> None" using assms by (auto simp: pu_read_def)
  have "ch_quest \<notin> set y" using plain_path_octets[OF u(2)] by blast
  then have "takeWhile (\<lambda>c. c \<noteq> ch_quest) u = y" using u(1) by (simp add: takeWhile_append)
  moreover have "tl u = tl y @ ch_quest # z" using u by (auto simp: plain_path_def path_text_body)
  ultimately show ?thesis using uri_reference_plain[OF u(2), of "ch_quest # z"] u(3) by auto
qed

lemma pu_uri_len:
  assumes "pu_read start u r" and "uri_start r = Some start" and "uri_end r = Some (start + length u)"
  shows "length (takeWhile (\<lambda>c. c \<noteq> ch_quest) u) \<le> uri_len r"
    and "ch_quest \<notin> set u \<or> args_start r \<noteq> None \<Longrightarrow> uri_len r = length (takeWhile (\<lambda>c. c \<noteq> ch_quest) u)"
proof -
  have "args_start r = None \<Longrightarrow> uri_len r = length u" using assms(2,3) by (simp add: uri_len_def)
  moreover have "args_start r \<noteq> None \<Longrightarrow> uri_len r = length (takeWhile (\<lambda>c. c \<noteq> ch_quest) u)"
    using assms by (auto simp: pu_read_def pu_args_def uri_len_def)
  ultimately show "length (takeWhile (\<lambda>c. c \<noteq> ch_quest) u) \<le> uri_len r"
    and "ch_quest \<notin> set u \<or> args_start r \<noteq> None \<Longrightarrow> uri_len r = length (takeWhile (\<lambda>c. c \<noteq> ch_quest) u)"
    by (cases "args_start r"; simp add: length_takeWhile_le takeWhile_not_quest)+
qed

text \<open>Both ways through \<^verbatim>\<open>ngx_http_process_request_uri\<close>.\<close>

definition checked_uri :: "bytes \<Rightarrow> bytes \<Rightarrow> bytes \<Rightarrow> uri_check \<Rightarrow> bool" where
  "checked_uri pre u post r \<longleftrightarrow>
     ngx_http_parse_uri (pre @ u @ post) (length pre) (length pre + length u)
       (new_uri\<lparr>uri_start := Some (length pre), uri_end := Some (length pre + length u)\<rparr>) = (NGX_OK, r)"

lemma checked_uri_facts:
  assumes "checked_uri pre u post r"
  shows "pu_read (length pre) u r" "uri_start r = Some (length pre)" "uri_end r = Some (length pre + length u)"
    "\<not> empty_path_in_uri r"
  using parse_uri_accepted[OF assms[unfolded checked_uri_def]] by (simp_all add: new_uri_def)

lemma checked_uri_slash:
  assumes "checked_uri pre u post r" and "u \<noteq> []"
  shows "u = ch_slash # tl u"
proof -
  obtain c cs where u: "u = c # cs" using assms(2) by (cases u) auto
  have "c = ch_slash"
  proof (rule ccontr)
    assume "c \<noteq> ch_slash"
    then have "fst (ngx_http_parse_uri (pre @ u @ post) (length pre) (length pre + length u) (new_uri\<lparr>uri_start := s, uri_end := e\<rparr>)) = NGX_ERROR" for s e
      using scan_at[of "length pre" pre parse_uri_step c cs]
      by (simp add: u ngx_http_parse_uri_def parse_uri_step_def)
    then show False using assms(1) by (auto simp: checked_uri_def dest: arg_cong[where f = fst])
  qed
  then show ?thesis using u by simp
qed

lemma process_slow:
  assumes "checked_uri pre u post r" and "u \<noteq> []" and "post \<noteq> []" and "complex_uri r' \<or> quoted_uri r'"
    and "uri_start r' = uri_start r" and "uri_end r' = uri_end r" and "\<not> empty_path_in_uri r'"
  shows "map_option pr_uri (ngx_http_process_request_uri (pre @ u @ post) merge r') = uri_reference merge (tl u)"
proof -
  have u: "u = ch_slash # tl u" by (rule checked_uri_slash) fact+
  then have "length u = length (tl u) + 1" by (metis One_nat_def Suc_eq_plus1 length_Cons)
  then have "map_option res_uri (ngx_http_parse_complex_uri (pre @ u @ post) (length pre) (length pre + length u)
      False (plus_in_uri r') (quoted_uri r') merge) = uri_reference merge (tl u)"
    using complex_uri_sim[OF assms(3), of pre "tl u"] u by (metis add.assoc)
  then show ?thesis
    using checked_uri_facts[OF assms(1)] assms(4-7)
    by (auto simp: ngx_http_process_request_uri_def Let_def option.map_comp comp_def case_prod_beta)
qed

lemma process_reference:
  assumes "checked_uri pre u post r" and "u \<noteq> []" and "post \<noteq> []"
  shows "map_option pr_uri (ngx_http_process_request_uri (pre @ u @ post) merge r) = uri_reference merge (tl u)"
proof (cases "complex_uri r \<or> quoted_uri r")
  case True
  then show ?thesis using process_slow[OF assms] checked_uri_facts[OF assms(1)] by simp
next
  case False
  note f = checked_uri_facts[OF assms(1)]
  have p: "uri_reference merge (tl u) = Some (takeWhile (\<lambda>c. c \<noteq> ch_quest) u)" "args_start r = None \<longrightarrow> ch_quest \<notin> set u"
    using pu_plain[OF f(1) assms(2)] False by simp_all
  then have "uri_len r = length (takeWhile (\<lambda>c. c \<noteq> ch_quest) u)" using pu_uri_len(2)[OF f(1-3)] by blast
  then have "take (uri_len r) (u @ post) = takeWhile (\<lambda>c. c \<noteq> ch_quest) u"
    by (simp add: length_takeWhile_le takeWhile_eq_take[symmetric] flip: takeWhile_eq_take)
  then show ?thesis using f False p by (simp add: ngx_http_process_request_uri_def Let_def)
qed


section \<open>Properties\<close>

text \<open>
  C12: The URI of a request is its normalised path, whichever way the server takes. For a URI that
  ngx_http_parse_uri accepts, ngx_http_process_request_uri gives what the reference gives: quotes
  decoded, the path cut at its slashes, dot segments resolved, empty segments dropped when slashes are
  merged, and the response 400 exactly when a quote is malformed or a dot-dot leaves the root. The
  short cut for a URI with nothing to decode or to resolve agrees with the full automaton.
\<close>

theorem request_uri_normalised:
  assumes "checked_uri pre u post r" and "u \<noteq> []" and "post \<noteq> []"
  shows "map_option pr_uri (ngx_http_process_request_uri (pre @ u @ post) merge r) =
           map_option (\<lambda>(gs, l). path_text gs l) (Option.bind (decode_path (tl u)) (normalize merge [] [])) \<and>
         map_option pr_uri (ngx_http_process_request_uri (pre @ u @ post) merge (r\<lparr>complex_uri := True\<rparr>)) =
           map_option pr_uri (ngx_http_process_request_uri (pre @ u @ post) merge r)"
  using process_reference[OF assms, of merge] process_slow[OF assms, of "r\<lparr>complex_uri := True\<rparr>" merge] checked_uri_facts[OF assms(1)]
  by (simp_all add: uri_reference_def)

theorem request_uri_normalised_witness:
  "map_option pr_uri (ngx_http_process_request_uri (octets ''/a/..//%62?x'' @ [ch_space]) True
     (snd (ngx_http_parse_uri (octets ''/a/..//%62?x'' @ [ch_space]) 0 12
        (new_uri\<lparr>uri_start := Some 0, uri_end := Some 12\<rparr>)))) = Some (octets ''/b'')"
proof -
  have c: "checked_uri [] (octets ''/a/..//%62?x'') [ch_space]
      (snd (ngx_http_parse_uri (octets ''/a/..//%62?x'' @ [ch_space]) 0 12 (new_uri\<lparr>uri_start := Some 0, uri_end := Some 12\<rparr>)))"
    unfolding checked_uri_def by code_simp
  have r: "map_option (\<lambda>(gs, l). path_text gs l)
      (Option.bind (decode_path (tl (octets ''/a/..//%62?x''))) (normalize True [] [])) = Some (octets ''/b'')"
    by code_simp
  show ?thesis using request_uri_normalised[OF c, of True] r by simp
qed



end
