(* ===== verification/HttpChunked.thy ===== *)
theory HttpChunked
  imports Scanner
begin

text \<open>
  The chunked transfer coding: the parser \<^verbatim>\<open>ngx_http_parse_chunked\<close> of \<^verbatim>\<open>src/http/ngx_http_parse.c\<close> and the
  loop of \<^verbatim>\<open>ngx_http_request_body_chunked_filter\<close> of \<^verbatim>\<open>src/http/ngx_http_request_body.c\<close> that takes the
  data of the chunks out of the buffers they were read into. Small chunks are moved together inside
  the buffer they came in, so the buffer is a memory that the filter overwrites while it reads it,
  and the output is a list of slices of that memory. The states are those of the C enum with the
  prefix \<open>ch_\<close>; sizes, which are \<^verbatim>\<open>off_t\<close>, are natural numbers with the code's tests against overflow.
\<close>

section \<open>The parser\<close>

datatype ch_state =
    ch_chunk_start | ch_chunk_size | ch_chunk_extension | ch_chunk_extension_almost_done
  | ch_chunk_data | ch_after_data | ch_after_data_almost_done
  | ch_last_chunk_extension | ch_last_chunk_extension_almost_done
  | ch_trailer | ch_trailer_almost_done | ch_trailer_header | ch_trailer_header_almost_done

record chunked =
  ck_state :: ch_state
  ck_size :: nat
  ck_length :: nat

definition new_chunked :: chunked where
  "new_chunked = \<lparr> ck_state = ch_chunk_start, ck_size = 0, ck_length = 0 \<rparr>"

abbreviation MAX_OFF_T :: nat where "MAX_OFF_T \<equiv> 9223372036854775807"

text \<open>A hexadecimal digit: a decimal one, or a letter with the bit of lower case set.\<close>

definition chunk_digit :: "u_char \<Rightarrow> nat option" where
  "chunk_digit ch =
    (if ch_0 \<le> ch \<and> ch \<le> ch_9 then Some (unat ch - 48)
     else let c = ch OR 0x20 in
       if ch_a \<le> c \<and> c \<le> ch_f then Some (unat c - 97 + 10) else None)"

definition ch_goto :: "ch_state \<Rightarrow> chunked \<Rightarrow> chunked verdict" where
  "ch_goto st x = Continue (x\<lparr>ck_state := st\<rparr>)"

definition ch_case_start :: "u_char \<Rightarrow> chunked \<Rightarrow> chunked verdict" where
  "ch_case_start ch x =
    (case chunk_digit ch of
       Some d \<Rightarrow> Continue (x\<lparr>ck_state := ch_chunk_size, ck_size := d\<rparr>)
     | None \<Rightarrow> Fail x NGX_ERROR)"

definition ch_case_size :: "u_char \<Rightarrow> chunked \<Rightarrow> chunked verdict" where
  "ch_case_size ch x =
    (if ck_size x > MAX_OFF_T div 16 then Fail x NGX_ERROR
     else case chunk_digit ch of
       Some d \<Rightarrow> Continue (x\<lparr>ck_size := ck_size x * 16 + d\<rparr>)
     | None \<Rightarrow>
       if ck_size x = 0 then
         (if ch = CR then ch_goto ch_last_chunk_extension_almost_done x
          else if ch = LF then ch_goto ch_trailer x
          else if ch = ch_semi \<or> ch = ch_space \<or> ch = ch_TAB then ch_goto ch_last_chunk_extension x
          else Fail x NGX_ERROR)
       else
         (if ch = CR then ch_goto ch_chunk_extension_almost_done x
          else if ch = LF then ch_goto ch_chunk_data x
          else if ch = ch_semi \<or> ch = ch_space \<or> ch = ch_TAB then ch_goto ch_chunk_extension x
          else Fail x NGX_ERROR))"

text \<open>The states that look for the end of a line, with what follows a carriage return and a line feed.\<close>

definition ch_to_eol :: "ch_state \<Rightarrow> ch_state \<Rightarrow> u_char \<Rightarrow> chunked \<Rightarrow> chunked verdict" where
  "ch_to_eol cr lf ch x = (if ch = CR then ch_goto cr x else if ch = LF then ch_goto lf x else Continue x)"

definition ch_lf :: "ch_state \<Rightarrow> u_char \<Rightarrow> chunked \<Rightarrow> chunked verdict" where
  "ch_lf st ch x = (if ch = LF then ch_goto st x else Fail x NGX_ERROR)"

definition ch_case_after_data :: "u_char \<Rightarrow> chunked \<Rightarrow> chunked verdict" where
  "ch_case_after_data ch x =
    (if ch = CR then ch_goto ch_after_data_almost_done x
     else if ch = LF then ch_goto ch_chunk_start x
     else Fail x NGX_ERROR)"

definition ch_case_trailer :: "u_char \<Rightarrow> chunked \<Rightarrow> chunked verdict" where
  "ch_case_trailer ch x =
    (if ch = CR then ch_goto ch_trailer_almost_done x
     else if ch = LF then Done x NGX_DONE
     else ch_goto ch_trailer_header x)"

definition chunked_step :: "chunked byte_step" where
  "chunked_step buf p ch x =
    (case ck_state x of
       ch_chunk_start \<Rightarrow> ch_case_start ch x
     | ch_chunk_size \<Rightarrow> ch_case_size ch x
     | ch_chunk_extension \<Rightarrow> ch_to_eol ch_chunk_extension_almost_done ch_chunk_data ch x
     | ch_chunk_extension_almost_done \<Rightarrow> ch_lf ch_chunk_data ch x
     | ch_chunk_data \<Rightarrow> Done x NGX_OK
     | ch_after_data \<Rightarrow> ch_case_after_data ch x
     | ch_after_data_almost_done \<Rightarrow> ch_lf ch_chunk_start ch x
     | ch_last_chunk_extension \<Rightarrow> ch_to_eol ch_last_chunk_extension_almost_done ch_trailer ch x
     | ch_last_chunk_extension_almost_done \<Rightarrow> ch_lf ch_trailer ch x
     | ch_trailer \<Rightarrow> ch_case_trailer ch x
     | ch_trailer_almost_done \<Rightarrow> if ch = LF then Done x NGX_DONE else Fail x NGX_ERROR
     | ch_trailer_header \<Rightarrow> ch_to_eol ch_trailer_header_almost_done ch_trailer ch x
     | ch_trailer_header_almost_done \<Rightarrow> ch_lf ch_trailer ch x)"

text \<open>The least number of octets that are still to come.\<close>

definition chunked_length :: "ch_state \<Rightarrow> nat \<Rightarrow> nat" where
  "chunked_length st sz =
    (case st of
       ch_chunk_start \<Rightarrow> 3
     | ch_chunk_size \<Rightarrow> 1 + (if sz \<noteq> 0 then sz + 4 else 1)
     | ch_chunk_extension \<Rightarrow> 1 + sz + 4
     | ch_chunk_extension_almost_done \<Rightarrow> 1 + sz + 4
     | ch_chunk_data \<Rightarrow> sz + 4
     | ch_after_data \<Rightarrow> 4
     | ch_after_data_almost_done \<Rightarrow> 4
     | ch_last_chunk_extension \<Rightarrow> 2
     | ch_last_chunk_extension_almost_done \<Rightarrow> 2
     | ch_trailer \<Rightarrow> 1
     | ch_trailer_almost_done \<Rightarrow> 1
     | ch_trailer_header \<Rightarrow> 2
     | ch_trailer_header_almost_done \<Rightarrow> 2)"

text \<open>The label \<^verbatim>\<open>data\<close>.\<close>

definition chunked_return :: "ngx_rc \<Rightarrow> chunked \<Rightarrow> nat \<Rightarrow> ngx_rc \<times> chunked \<times> nat" where
  "chunked_return rc x p =
    (if ck_size x > MAX_OFF_T - 5 then (NGX_ERROR, x, p)
     else (rc, x\<lparr>ck_length := chunked_length (ck_state x) (ck_size x)\<rparr>, p))"

definition chunked_enter :: "chunked \<Rightarrow> chunked" where
  "chunked_enter x = (if ck_state x = ch_chunk_data \<and> ck_size x = 0 then x\<lparr>ck_state := ch_after_data\<rparr> else x)"

definition ngx_http_parse_chunked :: "bytes \<Rightarrow> nat \<Rightarrow> chunked \<Rightarrow> ngx_rc \<times> chunked \<times> nat" where
  "ngx_http_parse_chunked buf pos x =
    (case scan chunked_step buf pos (chunked_enter x) of
       (Continue x', p) \<Rightarrow> chunked_return NGX_AGAIN x' p
     | (Done x' rc, p) \<Rightarrow>
         if rc = NGX_OK then chunked_return NGX_OK x' p
         else (NGX_DONE, x'\<lparr>ck_state := ch_chunk_start\<rparr>, p + 1)
     | (Fail x' rc, p) \<Rightarrow> (NGX_ERROR, x'\<lparr>ck_state := ck_state x\<rparr>, pos))"

section \<open>Facts on one step\<close>

lemmas ch_case_defs = ch_case_start_def ch_case_size_def ch_to_eol_def ch_lf_def ch_case_after_data_def
  ch_case_trailer_def ch_goto_def

lemma chunked_step_const: "chunked_step buf p ch x = chunked_step [] 0 ch x"
  by (simp add: chunked_step_def)

interpretation ch: byte_machine chunked_step
  by unfold_locales (simp add: chunked_step_def nth_append)

lemma chunk_digit_less: "chunk_digit ch = Some d \<Longrightarrow> d < 16"
proof -
  assume a: "chunk_digit ch = Some d"
  show ?thesis
  proof (cases "ch_0 \<le> ch \<and> ch \<le> ch_9")
    case True
    then show ?thesis using a digit_value(2)[of ch] digit_value(1)[of ch] by (auto simp: chunk_digit_def is_digit_def)
  next
    case False
    then have "ch OR 0x20 \<le> ch_f" and "d = unat (ch OR 0x20) - 97 + 10"
      using a by (auto simp: chunk_digit_def Let_def split: if_splits)
    then show ?thesis by (simp add: word_le_nat_alt)
  qed
qed

text \<open>For evaluation, where a large number is better an integer.\<close>

lemma off_t_code:
  "MAX_OFF_T div 16 < n \<longleftrightarrow> 576460752303423487 < int n"
  "MAX_OFF_T - 5 < n \<longleftrightarrow> 9223372036854775802 < int n"
  by auto

lemmas ch_case_size_code [code] = ch_case_size_def [unfolded off_t_code]
lemmas chunked_return_code [code] = chunked_return_def [unfolded off_t_code]

text \<open>The computed size stays within \<^verbatim>\<open>off_t\<close>: no step overflows.\<close>

lemma chunked_step_size:
  "ck_size x \<le> MAX_OFF_T \<Longrightarrow> ck_size (verdict_state (chunked_step b p ch x)) \<le> MAX_OFF_T"
  by (cases "ck_state x"; cases "chunk_digit ch") (auto simp: chunked_step_def ch_case_defs dest!: chunk_digit_less)

lemma chunked_step_rc:
  "chunked_step b p ch x = Done x' rc \<Longrightarrow> x' = x \<and> (rc = NGX_OK \<and> ck_state x = ch_chunk_data \<or> rc = NGX_DONE \<and> ck_state x \<noteq> ch_chunk_data)"
  "chunked_step b p ch x = Fail x' rc \<Longrightarrow> rc = NGX_ERROR \<and> ck_state x' = ck_state x"
  by (cases "ck_state x"; auto simp: chunked_step_def ch_case_defs split: if_splits option.splits)+

lemma chunked_size_pos:
  "chunked_step b p ch x = Continue x' \<Longrightarrow> ck_state x' = ch_chunk_data \<Longrightarrow> ck_size x' = 0 \<Longrightarrow>
     ck_state x \<noteq> ch_chunk_data"
  by (auto simp: chunked_step_def)

section \<open>The octet-wise reference\<close>

text \<open>
  What a chunked body means, one octet at a time: the data so far, and whether more is needed (in
  which state), the body is over (with what follows it) or it is not chunked coding.
\<close>

datatype dechunk_end = Dc_more ch_state nat | Dc_over bytes | Dc_bad

fun dechunk :: "chunked \<Rightarrow> bytes \<Rightarrow> bytes \<times> dechunk_end" where
  "dechunk x [] =
    ([], if ck_size x > MAX_OFF_T - 5 then Dc_bad else Dc_more (ck_state (chunked_enter x)) (ck_size x))"
| "dechunk x (c # cs) =
    (if ck_state x = ch_chunk_data \<and> ck_size x > MAX_OFF_T - 5 then ([], Dc_bad)
     else if ck_state x = ch_chunk_data \<and> ck_size x > 0
     then (case dechunk (x\<lparr>ck_size := ck_size x - 1\<rparr>) cs of (d, e) \<Rightarrow> (c # d, e))
     else (case chunked_step [] 0 c (chunked_enter x) of
             Continue x' \<Rightarrow> dechunk x' cs
           | Done x' rc \<Rightarrow> ([], Dc_over cs)
           | Fail x' rc \<Rightarrow> ([], Dc_bad)))"

lemmas dechunk_code [code] = dechunk.simps [unfolded off_t_code]

text \<open>The reference does not look at the length.\<close>

lemma chunked_step_length:
  "chunked_step [] 0 c (x\<lparr>ck_length := n\<rparr>) =
     (case chunked_step [] 0 c x of
        Continue x' \<Rightarrow> Continue (x'\<lparr>ck_length := n\<rparr>) | Done x' rc \<Rightarrow> Done (x'\<lparr>ck_length := n\<rparr>) rc
      | Fail x' rc \<Rightarrow> Fail (x'\<lparr>ck_length := n\<rparr>) rc)"
  by (cases "ck_state x") (simp_all add: chunked_step_def ch_case_defs split: option.split)

lemma dechunk_length: "dechunk (x\<lparr>ck_length := n\<rparr>) cs = dechunk x cs"
proof (induction cs arbitrary: x)
  case Nil
  then show ?case by (simp add: chunked_enter_def)
next
  case (Cons c cs)
  have e: "chunked_enter (x\<lparr>ck_length := n\<rparr>) = (chunked_enter x)\<lparr>ck_length := n\<rparr>" by (simp add: chunked_enter_def)
  have "dechunk (x\<lparr>ck_length := n, ck_size := m\<rparr>) cs = dechunk (x\<lparr>ck_size := m\<rparr>) cs" for m
    using Cons.IH[of "x\<lparr>ck_size := m\<rparr>"] by (cases x) simp
  then show ?case
    using Cons.IH by (cases "chunked_step [] 0 c (chunked_enter x)") (simp_all add: e chunked_step_length)
qed

text \<open>The parser against the reference.\<close>

definition parse_agrees :: "bytes \<Rightarrow> nat \<Rightarrow> chunked \<Rightarrow> ngx_rc \<times> chunked \<times> nat \<Rightarrow> bool" where
  "parse_agrees buf pos x res \<longleftrightarrow>
    (case res of (rc, x', p) \<Rightarrow>
       (rc = NGX_OK \<and> pos \<le> p \<and> p < length buf \<and> ck_state x' = ch_chunk_data \<and>
          ck_size x' \<le> MAX_OFF_T - 5 \<and> (ck_size x' = 0 \<longrightarrow> pos < p) \<and> dechunk x (drop pos buf) = dechunk x' (drop p buf)) \<or>
       (rc = NGX_AGAIN \<and> p = length buf \<and>
          dechunk x (drop pos buf) = ([], Dc_more (ck_state (chunked_enter x')) (ck_size x'))) \<or>
       (rc = NGX_DONE \<and> pos < p \<and> p \<le> length buf \<and> dechunk x (drop pos buf) = ([], Dc_over (drop p buf))) \<or>
       (rc = NGX_ERROR \<and> dechunk x (drop pos buf) = ([], Dc_bad)))"

lemma enter_enter [simp]: "chunked_enter (chunked_enter x) = chunked_enter x" "ck_size (chunked_enter x) = ck_size x"
  by (simp_all add: chunked_enter_def)

lemma enter_other: "ck_state x \<noteq> ch_chunk_data \<or> ck_size x \<noteq> 0 \<Longrightarrow> chunked_enter x = x"
  by (auto simp: chunked_enter_def)

lemma enter_data: "\<not> (ck_state (chunked_enter x) = ch_chunk_data \<and> ck_size x = 0)"
  by (simp add: chunked_enter_def)

lemma dechunk_enter: "dechunk (chunked_enter x) cs = dechunk x cs"
proof (cases "ck_state x = ch_chunk_data \<and> ck_size x = 0")
  case True
  then have "ck_state (chunked_enter x) = ch_after_data" by (simp add: chunked_enter_def)
  with True show ?thesis by (cases cs) simp_all
next
  case False
  then have "chunked_enter x = x" by (auto simp: chunked_enter_def)
  then show ?thesis by simp
qed

definition scan_meets :: "bytes \<Rightarrow> nat \<Rightarrow> chunked \<Rightarrow> chunked verdict \<times> nat \<Rightarrow> bool" where
  "scan_meets buf pos x vp \<longleftrightarrow>
    (case vp of
      (Continue x', p) \<Rightarrow> p = length buf \<and> dechunk x (drop pos buf) = dechunk x' [] \<and> (p = pos \<longrightarrow> x' = x)
    | (Done x' rc, p) \<Rightarrow> pos \<le> p \<and> p < length buf \<and>
        (rc = NGX_OK \<and> ck_state x' = ch_chunk_data \<and> dechunk x (drop pos buf) = dechunk x' (drop p buf) \<and>
           (p = pos \<longrightarrow> x' = x) \<or>
         rc = NGX_DONE \<and> dechunk x (drop pos buf) = ([], Dc_over (drop (p + 1) buf)))
    | (Fail x' rc, p) \<Rightarrow> rc = NGX_ERROR \<and> dechunk x (drop pos buf) = ([], Dc_bad))"

lemma scan_meets_Suc:
  assumes "scan_meets buf (Suc pos) x1 vp" and "dechunk x (drop pos buf) = dechunk x1 (drop (Suc pos) buf)"
    and "pos < length buf"
  shows "scan_meets buf pos x vp"
  using assms by (cases vp; cases "fst vp") (auto simp: scan_meets_def)

lemma dechunk_scan: "pos \<le> length buf \<Longrightarrow> scan_meets buf pos x (scan chunked_step buf pos x)"
proof (induction "length buf - pos" arbitrary: pos x)
  case 0
  then show ?case by (simp add: scan_meets_def)
next
  case (Suc n)
  then have pos: "pos < length buf" by simp
  then have d: "drop pos buf = buf ! pos # drop (Suc pos) buf" by (simp add: Cons_nth_drop_Suc)
  have e: "chunked_enter x = x" if "ck_state x \<noteq> ch_chunk_data" using that by (simp add: chunked_enter_def)
  note st = chunked_step_const[of buf pos "buf ! pos" x]
  show ?case
  proof (cases "chunked_step [] 0 (buf ! pos) x")
    case (Continue x1)
    then have "ck_state x \<noteq> ch_chunk_data" by (auto simp: chunked_step_def)
    then have "dechunk x (drop pos buf) = dechunk x1 (drop (Suc pos) buf)" using Continue e by (simp add: d)
    moreover have "scan chunked_step buf pos x = scan chunked_step buf (Suc pos) x1"
      using pos Continue by (simp add: scan_step st)
    moreover have "scan_meets buf (Suc pos) x1 (scan chunked_step buf (Suc pos) x1)"
      using Suc.hyps(1)[of "Suc pos" x1] Suc.hyps(2) pos by simp
    ultimately show ?thesis using scan_meets_Suc pos by simp
  next
    case (Done x1 rc)
    then show ?thesis
      using chunked_step_rc(1)[OF Done] pos e by (auto simp: scan_step st scan_meets_def) (simp_all add: d)
  next
    case (Fail x1 rc)
    then have "ck_state x \<noteq> ch_chunk_data" by (auto simp: chunked_step_def)
    then show ?thesis using chunked_step_rc(2)[OF Fail] Fail pos e by (simp add: scan_step st scan_meets_def) (simp add: d)
  qed
qed

lemma parse_chunked_agrees:
  assumes "pos \<le> length buf"
  shows "parse_agrees buf pos x (ngx_http_parse_chunked buf pos x)"
proof -
  obtain v p where v: "scan chunked_step buf pos (chunked_enter x) = (v, p)" by (rule prod.exhaust)
  note s = dechunk_scan[OF assms, of "chunked_enter x", unfolded dechunk_enter v scan_meets_def prod.case]
  have big: "dechunk x' (drop p buf) = ([], Dc_bad)" if "ck_state x' = ch_chunk_data" "MAX_OFF_T - 5 < ck_size x'" for x'
    using that by (cases "drop p buf") simp_all
  show ?thesis
  proof (cases v)
    case (Continue x')
    then have a: "p = length buf" "dechunk x (drop pos buf) = dechunk x' []" using s by simp_all
    have res: "ngx_http_parse_chunked buf pos x = chunked_return NGX_AGAIN x' p"
      by (simp add: ngx_http_parse_chunked_def v Continue)
    have "ck_state (chunked_enter (x'\<lparr>ck_length := n\<rparr>)) = ck_state (chunked_enter x')" for n
      by (simp add: chunked_enter_def)
    then show ?thesis using a unfolding res by (simp add: chunked_return_def parse_agrees_def)
  next
    case (Done x' rc)
    show ?thesis
    proof (cases "rc = NGX_OK")
      case True
      then have a: "pos \<le> p" "p < length buf" "ck_state x' = ch_chunk_data" "dechunk x (drop pos buf) = dechunk x' (drop p buf)"
        "p = pos \<longrightarrow> x' = chunked_enter x" using s Done by simp_all
      have res: "ngx_http_parse_chunked buf pos x = chunked_return NGX_OK x' p"
        by (simp add: ngx_http_parse_chunked_def v Done True)
      show ?thesis
      proof (cases "MAX_OFF_T - 5 < ck_size x'")
        case True
        then show ?thesis using a big[OF a(3) True] unfolding res by (simp add: chunked_return_def parse_agrees_def)
      next
        case False
        have "ck_size x' = 0 \<Longrightarrow> p \<noteq> pos" using a(3,5) enter_data[of x] enter_enter(2)[of x] by auto
        then show ?thesis
          using False a unfolding res by (auto simp: chunked_return_def parse_agrees_def dechunk_length)
      qed
    next
      case False
      then show ?thesis using s Done by (simp add: ngx_http_parse_chunked_def v parse_agrees_def)
    qed
  next
    case (Fail x' rc)
    then show ?thesis using s v by (simp add: ngx_http_parse_chunked_def parse_agrees_def)
  qed
qed

lemma parse_chunked_cases:
  assumes "ngx_http_parse_chunked buf pos x = (rc, x', p)" and "pos \<le> length buf"
  obtains "rc = NGX_OK" "pos \<le> p" "p < length buf" "ck_state x' = ch_chunk_data" "ck_size x' \<le> MAX_OFF_T - 5"
      "ck_size x' = 0 \<longrightarrow> pos < p" "dechunk x (drop pos buf) = dechunk x' (drop p buf)"
  | "rc = NGX_AGAIN" "p = length buf" "dechunk x (drop pos buf) = ([], Dc_more (ck_state (chunked_enter x')) (ck_size x'))"
  | "rc = NGX_DONE" "pos < p" "p \<le> length buf" "dechunk x (drop pos buf) = ([], Dc_over (drop p buf))"
  | "rc = NGX_ERROR" "dechunk x (drop pos buf) = ([], Dc_bad)"
  using parse_chunked_agrees[OF assms(2), of x] unfolding assms(1) parse_agrees_def prod.case by blast

lemma parse_chunked_ok_pos:
  assumes "ngx_http_parse_chunked buf pos x = (NGX_OK, x', p)"
  shows "pos < length buf \<and> pos \<le> p \<and> p < length buf \<and> (ck_size x' = 0 \<longrightarrow> pos < p)"
proof (cases "pos \<le> length buf")
  case True
  from assms True show ?thesis by (cases rule: parse_chunked_cases) simp_all
next
  case False
  then have "scan chunked_step buf pos (chunked_enter x) = (Continue (chunked_enter x), pos)" by simp
  then show ?thesis using assms by (simp add: ngx_http_parse_chunked_def chunked_return_def split: if_splits)
qed

section \<open>The filter\<close>

text \<open>
  One buffer of the chain: its memory, of which \<^verbatim>\<open>last\<close> is the end, the position, the chunked context, the
  length of the body so far, the output buffers over it as slices, the last of which is \<^verbatim>\<open>b\<close>, and the
  number of buffers that the pool can still give.
\<close>

record body_link =
  lk_mem :: bytes
  lk_pos :: nat
  lk_ctx :: chunked
  lk_len :: nat
  lk_slices :: "(nat \<times> nat) list"
  lk_free :: nat

text \<open>\<^verbatim>\<open>ngx_memmove\<close>, and the loop \<^verbatim>\<open>*b->last++ = *cl->buf->pos++\<close>.\<close>

definition memmove :: "bytes \<Rightarrow> nat \<Rightarrow> nat \<Rightarrow> nat \<Rightarrow> bytes" where
  "memmove mem dst src n =
     map (\<lambda>i. if dst \<le> i \<and> i < dst + n then mem ! (src + (i - dst)) else mem ! i) [0..<length mem]"

fun copy_bytes :: "bytes \<Rightarrow> nat \<Rightarrow> nat \<Rightarrow> nat \<Rightarrow> bytes" where
  "copy_bytes mem dst src 0 = mem"
| "copy_bytes mem dst src (Suc n) = copy_bytes (mem[dst := mem ! src]) (Suc dst) (Suc src) n"

text \<open>A small chunk that is whole in the buffer is appended to the previous output buffer.\<close>

definition chunk_append :: "body_link \<Rightarrow> body_link" where
  "chunk_append lk =
    (let sz = ck_size (lk_ctx lk); (bpos, blast) = last (lk_slices lk) in
     lk\<lparr>lk_mem := (if sz < 8 then copy_bytes (lk_mem lk) blast (lk_pos lk) sz else memmove (lk_mem lk) blast (lk_pos lk) sz),
        lk_slices := butlast (lk_slices lk) @ [(bpos, blast + sz)], lk_pos := lk_pos lk + sz,
        lk_ctx := (lk_ctx lk)\<lparr>ck_size := 0\<rparr>, lk_len := lk_len lk + sz\<rparr>)"

text \<open>Otherwise a new output buffer covers the chunk, or what there is of it.\<close>

definition chunk_new :: "body_link \<Rightarrow> body_link" where
  "chunk_new lk =
    (let sz = length (lk_mem lk) - lk_pos lk; pos = lk_pos lk; x = lk_ctx lk in
     if sz > ck_size x
     then lk\<lparr>lk_pos := pos + ck_size x, lk_len := lk_len lk + ck_size x, lk_ctx := x\<lparr>ck_size := 0\<rparr>,
             lk_slices := lk_slices lk @ [(pos, pos + ck_size x)], lk_free := lk_free lk - 1\<rparr>
     else lk\<lparr>lk_ctx := x\<lparr>ck_size := ck_size x - sz\<rparr>, lk_len := lk_len lk + sz, lk_pos := length (lk_mem lk),
             lk_slices := lk_slices lk @ [(pos, length (lk_mem lk))], lk_free := lk_free lk - 1\<rparr>)"

definition NGX_HTTP_BAD_REQUEST :: nat where "NGX_HTTP_BAD_REQUEST = 400"
definition NGX_HTTP_REQUEST_ENTITY_TOO_LARGE :: nat where "NGX_HTTP_REQUEST_ENTITY_TOO_LARGE = 413"
definition NGX_HTTP_INTERNAL_SERVER_ERROR :: nat where "NGX_HTTP_INTERNAL_SERVER_ERROR = 500"

definition chunk_data :: "nat \<Rightarrow> body_link \<Rightarrow> nat + body_link" where
  "chunk_data max_body lk =
    (let sz = ck_size (lk_ctx lk) in
     if max_body \<noteq> 0 \<and> int max_body - int (lk_len lk) < int sz then Inl NGX_HTTP_REQUEST_ENTITY_TOO_LARGE
     else if lk_slices lk \<noteq> [] \<and> sz \<le> 128 \<and> length (lk_mem lk) - lk_pos lk \<ge> sz then Inr (chunk_append lk)
     else if lk_free lk = 0 then Inl NGX_HTTP_INTERNAL_SERVER_ERROR
     else Inr (chunk_new lk))"

datatype link_end = Link_again | Link_done | Link_status nat

lemma length_memmove [simp]: "length (memmove mem dst src n) = length mem"
  by (simp add: memmove_def)

lemma length_copy_bytes [simp]: "length (copy_bytes mem dst src n) = length mem"
  by (induction mem dst src n rule: copy_bytes.induct) simp_all

text \<open>Every round gets on in the buffer.\<close>

lemma chunk_data_pos:
  assumes "chunk_data max_body lk = Inr lk'" and "lk_pos lk < length (lk_mem lk)"
  shows "lk_pos lk' = lk_pos lk + min (ck_size (lk_ctx lk)) (length (lk_mem lk) - lk_pos lk)"
  using assms by (auto simp: chunk_data_def chunk_append_def chunk_new_def Let_def split: if_splits prod.splits)

lemma chunk_data_length: "chunk_data max_body lk = Inr lk' \<Longrightarrow> length (lk_mem lk') = length (lk_mem lk)"
  by (auto simp: chunk_data_def chunk_append_def chunk_new_def Let_def split: if_splits prod.splits)

section \<open>The loop over one buffer\<close>

function chunked_loop :: "nat \<Rightarrow> body_link \<Rightarrow> link_end \<times> body_link" where
  "chunked_loop max_body lk =
    (case ngx_http_parse_chunked (lk_mem lk) (lk_pos lk) (lk_ctx lk) of (rc, x, p) \<Rightarrow>
       let lk = lk\<lparr>lk_ctx := x, lk_pos := p\<rparr> in
       if rc = NGX_OK then
         (case chunk_data max_body lk of
            Inl status \<Rightarrow> (Link_status status, lk)
          | Inr lk \<Rightarrow> chunked_loop max_body lk)
       else if rc = NGX_DONE then
         (if lk_free lk = 0 then (Link_status NGX_HTTP_INTERNAL_SERVER_ERROR, lk)
          else (Link_done, lk\<lparr>lk_free := lk_free lk - 1\<rparr>))
       else if rc = NGX_AGAIN then (Link_again, lk)
       else (Link_status NGX_HTTP_BAD_REQUEST, lk))"
  by pat_completeness auto
termination
proof (relation "measure (\<lambda>(max_body, lk). length (lk_mem lk) - lk_pos lk)", goal_cases)
  case (2 max_body lk rc y x p lk1 lk')
  then have r: "ngx_http_parse_chunked (lk_mem lk) (lk_pos lk) (lk_ctx lk) = (NGX_OK, x, p)" by auto
  note o = parse_chunked_ok_pos[OF r]
  have "lk_pos lk' = p + min (ck_size x) (length (lk_mem lk) - p)" and "length (lk_mem lk') = length (lk_mem lk)"
    using 2 o chunk_data_pos[of max_body lk1 lk'] chunk_data_length[of max_body lk1 lk'] by simp_all
  then show ?case using o by auto
qed simp

declare chunked_loop.simps [simp del]

end
