(* ===== verification/HttpChunkedBody.thy ===== *)
theory HttpChunkedBody
  imports HttpChunked
begin

text \<open>
  What \<^verbatim>\<open>ngx_http_request_body_chunked_filter\<close> delivers: the data of the chunks, however the coded body was
  cut into buffers and however its small chunks were moved. First one buffer, with the moves inside
  its memory, against the octet-wise reference; then the chain of buffers; then the coding itself.
\<close>

section \<open>Moving in a memory\<close>

lemma nth_memmove: "i < length mem \<Longrightarrow> memmove mem dst src n ! i =
    (if dst \<le> i \<and> i < dst + n then mem ! (src + (i - dst)) else mem ! i)"
  by (simp add: memmove_def)

text \<open>The loop that copies octet by octet is a move, since it copies downwards.\<close>

lemma copy_bytes_memmove:
  "dst \<le> src \<Longrightarrow> src + n \<le> length mem \<Longrightarrow> copy_bytes mem dst src n = memmove mem dst src n"
proof (induction mem dst src n rule: copy_bytes.induct)
  case (1 mem dst src)
  then show ?case by (intro nth_equalityI) (auto simp: nth_memmove)
next
  case (2 mem dst src n)
  then have "copy_bytes mem dst src (Suc n) = memmove (mem[dst := mem ! src]) (Suc dst) (Suc src) n" by simp
  also have "\<dots> = memmove mem dst src (Suc n)"
  proof (intro nth_equalityI)
    fix i
    assume "i < length (memmove (mem[dst := mem ! src]) (Suc dst) (Suc src) n)"
    then have i: "i < length mem" by simp
    consider "i < dst" | "i = dst" | "dst < i" by linarith
    then show "memmove (mem[dst := mem ! src]) (Suc dst) (Suc src) n ! i = memmove mem dst src (Suc n) ! i"
      using i 2(2,3) by cases (auto simp: nth_memmove nth_list_update Suc_diff_Suc)
  qed simp
  finally show ?case .
qed

lemma slice_cong:
  assumes "length m = length m'" and "\<And>i. s \<le> i \<Longrightarrow> i < e \<Longrightarrow> i < length m \<Longrightarrow> m ! i = m' ! i"
  shows "slice m s e = slice m' s e"
  using assms by (intro nth_equalityI) (auto simp: slice_def)

lemma slice_append: "s \<le> k \<Longrightarrow> k \<le> e \<Longrightarrow> slice m s e = slice m s k @ slice m k e"
proof -
  assume le: "s \<le> k" "k \<le> e"
  then have "e - s = (k - s) + (e - k)" and d: "drop (k - s) (drop s m) = drop k m" by simp_all
  then have "slice m s e = take ((k - s) + (e - k)) (drop s m)" by (simp only: slice_def)
  then show ?thesis unfolding take_add d slice_def .
qed

lemma slice_memmove_below: "e \<le> dst \<Longrightarrow> slice (memmove m dst src n) s e = slice m s e"
  by (intro slice_cong) (auto simp: nth_memmove)

lemma slice_memmove_moved:
  assumes "dst \<le> src" and "src + n \<le> length m"
  shows "slice (memmove m dst src n) dst (dst + n) = slice m src (src + n)"
  using assms by (intro nth_equalityI) (auto simp: slice_def nth_memmove)

lemma drop_memmove_above:
  assumes "dst + n \<le> k"
  shows "drop k (memmove m dst src n) = drop k m"
  using assms by (intro nth_equalityI) (auto simp: nth_memmove)

section \<open>The output buffers\<close>

fun slices_ok :: "nat \<Rightarrow> (nat \<times> nat) list \<Rightarrow> nat \<Rightarrow> bool" where
  "slices_ok lo [] hi \<longleftrightarrow> lo \<le> hi"
| "slices_ok lo ((s, e) # r) hi \<longleftrightarrow> lo \<le> s \<and> s \<le> e \<and> slices_ok e r hi"

definition slices_data :: "bytes \<Rightarrow> (nat \<times> nat) list \<Rightarrow> bytes" where
  "slices_data m ss = concat (map (\<lambda>(s, e). slice m s e) ss)"

lemma slices_ok_mono: "slices_ok lo ss hi \<Longrightarrow> hi \<le> hi' \<Longrightarrow> slices_ok lo ss hi'"
  by (induction lo ss hi rule: slices_ok.induct) auto

lemma slices_ok_append: "slices_ok lo (ss @ [(s, e)]) hi \<longleftrightarrow> slices_ok lo ss s \<and> s \<le> e \<and> e \<le> hi"
  by (induction lo ss s rule: slices_ok.induct) auto

lemma slices_data_below: "slices_ok lo ss hi \<Longrightarrow> hi \<le> dst \<Longrightarrow> slices_data (memmove m dst src n) ss = slices_data m ss"
proof (induction lo ss hi rule: slices_ok.induct)
  case (2 lo s e r hi)
  have "slices_ok e r hi \<Longrightarrow> e \<le> hi" by (induction e r hi rule: slices_ok.induct) auto
  then show ?case using 2 by (simp add: slices_data_def slice_memmove_below)
qed (simp add: slices_data_def)

lemma slices_data_append: "slices_data m (ss @ [(s, e)]) = slices_data m ss @ slice m s e"
  by (simp add: slices_data_def)

section \<open>One round\<close>

text \<open>Taking \<open>n\<close> octets of a chunk at once.\<close>

lemma dechunk_take:
  "ck_state x = ch_chunk_data \<Longrightarrow> n \<le> ck_size x \<Longrightarrow> ck_size x \<le> MAX_OFF_T - 5 \<Longrightarrow> n \<le> length cs \<Longrightarrow>
     dechunk x cs = (case dechunk (x\<lparr>ck_size := ck_size x - n\<rparr>) (drop n cs) of (d, e) \<Rightarrow> (take n cs @ d, e))"
proof (induction n arbitrary: x cs)
  case (Suc n)
  then obtain c cs' where cs: "cs = c # cs'" by (cases cs) auto
  have "dechunk (x\<lparr>ck_size := ck_size x - 1\<rparr>) cs' =
      (case dechunk (x\<lparr>ck_size := ck_size x - Suc n\<rparr>) (drop n cs') of (d, e) \<Rightarrow> (take n cs' @ d, e))"
    using Suc.IH[of "x\<lparr>ck_size := ck_size x - 1\<rparr>" cs'] Suc.prems cs by simp
  then show ?case using Suc.prems by (simp add: cs split: prod.split)
qed simp

definition link_ok :: "body_link \<Rightarrow> bool" where
  "link_ok lk \<longleftrightarrow> lk_pos lk \<le> length (lk_mem lk) \<and> slices_ok 0 (lk_slices lk) (lk_pos lk)"

definition link_data :: "body_link \<Rightarrow> bytes" where
  "link_data lk = slices_data (lk_mem lk) (lk_slices lk)"

definition link_rest :: "body_link \<Rightarrow> bytes" where
  "link_rest lk = drop (lk_pos lk) (lk_mem lk)"

text \<open>A round that succeeds moves octets from what is to be read to what is delivered.\<close>

lemma chunk_data_round:
  assumes "chunk_data max_body lk = Inr lk'" and "link_ok lk" and "ck_state (lk_ctx lk) = ch_chunk_data"
    and "ck_size (lk_ctx lk) \<le> MAX_OFF_T - 5"
  shows "\<exists>n. link_ok lk' \<and> link_data lk' = link_data lk @ take n (link_rest lk) \<and> n \<le> length (link_rest lk) \<and>
     link_rest lk' = drop n (link_rest lk) \<and> lk_ctx lk' = (lk_ctx lk)\<lparr>ck_size := ck_size (lk_ctx lk) - n\<rparr> \<and>
     n \<le> ck_size (lk_ctx lk) \<and> lk_len lk' = lk_len lk + n \<and> (max_body \<noteq> 0 \<longrightarrow> lk_len lk' \<le> max_body) \<and>
     lk_free lk - 1 \<le> lk_free lk'"
proof -
  let ?sz = "ck_size (lk_ctx lk)" and ?m = "lk_mem lk" and ?p = "lk_pos lk"
  have p: "?p \<le> length ?m" and ss: "slices_ok 0 (lk_slices lk) ?p" using assms(2) by (simp_all add: link_ok_def)
  have lim: "max_body \<noteq> 0 \<longrightarrow> lk_len lk + ?sz \<le> max_body"
    using assms(1) by (auto simp: chunk_data_def Let_def split: if_splits)
  show ?thesis
  proof (cases "lk_slices lk \<noteq> [] \<and> ?sz \<le> 128 \<and> length ?m - ?p \<ge> ?sz")
    case True
    then obtain ss' bs be where sl: "lk_slices lk = ss' @ [(bs, be)]" by (metis prod.exhaust rev_exhaust)
    have b: "slices_ok 0 ss' bs" "bs \<le> be" "be \<le> ?p" using ss by (simp_all add: sl slices_ok_append)
    have fits: "?p + ?sz \<le> length ?m" using True p by linarith
    have lk': "lk' = chunk_append lk"
      using assms(1) True by (auto simp: chunk_data_def Let_def split: if_splits)
    have mem: "lk_mem lk' = memmove ?m be ?p ?sz"
      using b(3) fits by (simp add: lk' chunk_append_def sl Let_def copy_bytes_memmove)
    have rest: "lk_slices lk' = ss' @ [(bs, be + ?sz)]" "lk_pos lk' = ?p + ?sz" "lk_ctx lk' = (lk_ctx lk)\<lparr>ck_size := 0\<rparr>"
      "lk_len lk' = lk_len lk + ?sz" "lk_free lk' = lk_free lk"
      by (simp_all add: lk' chunk_append_def sl Let_def)
    have "slice (memmove ?m be ?p ?sz) bs (be + ?sz) = slice ?m bs be @ slice ?m ?p (?p + ?sz)"
      using b fits slice_append[of bs be "be + ?sz" "memmove ?m be ?p ?sz"]
      by (simp add: slice_memmove_below slice_memmove_moved)
    then have "link_data lk' = link_data lk @ take ?sz (link_rest lk)"
      using b by (simp add: link_data_def mem rest slices_data_append sl slices_data_below link_rest_def slice_def)
    moreover have "link_rest lk' = drop ?sz (link_rest lk)"
      using b(3) by (simp add: link_rest_def mem rest drop_memmove_above add.commute)
    moreover have "link_ok lk'" using b fits by (simp add: link_ok_def mem rest slices_ok_append)
    ultimately show ?thesis
      using fits rest lim by (intro exI[of _ ?sz]) (simp add: link_rest_def)
  next
    case False
    then have free: "lk_free lk \<noteq> 0" and lk': "lk' = chunk_new lk"
      using assms(1) by (auto simp: chunk_data_def Let_def split: if_splits)
    define n where "n = min ?sz (length ?m - ?p)"
    have new: "lk_mem lk' = ?m" "lk_pos lk' = ?p + n" "lk_slices lk' = lk_slices lk @ [(?p, ?p + n)]"
      "lk_ctx lk' = (lk_ctx lk)\<lparr>ck_size := ?sz - n\<rparr>" "lk_len lk' = lk_len lk + n" "lk_free lk' = lk_free lk - 1"
      using p by (auto simp: lk' chunk_new_def Let_def n_def)
    have "link_data lk' = link_data lk @ take n (link_rest lk)"
      by (simp add: link_data_def new slices_data_append link_rest_def slice_def)
    moreover have "link_rest lk' = drop n (link_rest lk)" by (simp add: link_rest_def new add.commute)
    moreover have "link_ok lk'" using p ss by (simp add: link_ok_def new slices_ok_append n_def)
    moreover have "n \<le> length (link_rest lk)" "n \<le> ?sz" by (simp_all add: link_rest_def n_def)
    ultimately show ?thesis
      using new lim by (intro exI[of _ n]) auto
  qed
qed

section \<open>The loop\<close>

text \<open>What the loop must give, for the octets \<open>cs\<close> still to be read and the context \<open>x\<close> before it.\<close>

definition link_meets :: "nat \<Rightarrow> body_link \<Rightarrow> link_end \<times> body_link \<Rightarrow> bool" where
  "link_meets max_body lk res \<longleftrightarrow>
    (case res of (e, lk') \<Rightarrow>
      \<exists>d. link_data lk' = link_data lk @ d \<and> lk_len lk' = lk_len lk + length d \<and>
        (max_body \<noteq> 0 \<and> lk_len lk \<le> max_body \<longrightarrow> lk_len lk' \<le> max_body) \<and>
        (case e of
           Link_again \<Rightarrow> dechunk (lk_ctx lk) (link_rest lk) =
               (d, Dc_more (ck_state (chunked_enter (lk_ctx lk'))) (ck_size (lk_ctx lk')))
         | Link_done \<Rightarrow> dechunk (lk_ctx lk) (link_rest lk) = (d, Dc_over (link_rest lk'))
         | Link_status st \<Rightarrow>
             \<exists>d' en. dechunk (lk_ctx lk) (link_rest lk) = (d @ d', en) \<and>
               (st = NGX_HTTP_BAD_REQUEST \<and> d' = [] \<and> en = Dc_bad \<or>
                st = NGX_HTTP_REQUEST_ENTITY_TOO_LARGE \<and> max_body \<noteq> 0 \<and> max_body < lk_len lk' + ck_size (lk_ctx lk') \<and>
                  ck_state (lk_ctx lk') = ch_chunk_data \<and> dechunk (lk_ctx lk') (link_rest lk') = (d', en) \<or>
                st = NGX_HTTP_INTERNAL_SERVER_ERROR \<and> lk_free lk' = 0)))"

lemma link_meets_round:
  assumes "link_meets max_body lk1 res"
    and "dechunk (lk_ctx lk) (link_rest lk) = (case dechunk (lk_ctx lk1) (link_rest lk1) of (d, e) \<Rightarrow> (t @ d, e))"
    and "link_data lk1 = link_data lk @ t" and "lk_len lk1 = lk_len lk + length t"
    and "max_body \<noteq> 0 \<longrightarrow> lk_len lk1 \<le> max_body"
  shows "link_meets max_body lk res"
proof -
  obtain e lk' where res: "res = (e, lk')" by (rule prod.exhaust)
  from assms(1) obtain d where d: "link_data lk' = link_data lk1 @ d" "lk_len lk' = lk_len lk1 + length d"
      "max_body \<noteq> 0 \<and> lk_len lk1 \<le> max_body \<longrightarrow> lk_len lk' \<le> max_body"
      and e: "case e of
           Link_again \<Rightarrow> dechunk (lk_ctx lk1) (link_rest lk1) =
               (d, Dc_more (ck_state (chunked_enter (lk_ctx lk'))) (ck_size (lk_ctx lk')))
         | Link_done \<Rightarrow> dechunk (lk_ctx lk1) (link_rest lk1) = (d, Dc_over (link_rest lk'))
         | Link_status st \<Rightarrow>
             \<exists>d' en. dechunk (lk_ctx lk1) (link_rest lk1) = (d @ d', en) \<and>
               (st = NGX_HTTP_BAD_REQUEST \<and> d' = [] \<and> en = Dc_bad \<or>
                st = NGX_HTTP_REQUEST_ENTITY_TOO_LARGE \<and> max_body \<noteq> 0 \<and> max_body < lk_len lk' + ck_size (lk_ctx lk') \<and>
                  ck_state (lk_ctx lk') = ch_chunk_data \<and> dechunk (lk_ctx lk') (link_rest lk') = (d', en) \<or>
                st = NGX_HTTP_INTERNAL_SERVER_ERROR \<and> lk_free lk' = 0)"
    unfolding link_meets_def res prod.case by blast
  show ?thesis
    unfolding link_meets_def res prod.case
  proof (intro exI[of _ "t @ d"] conjI)
    show "case e of
           Link_again \<Rightarrow> dechunk (lk_ctx lk) (link_rest lk) =
               (t @ d, Dc_more (ck_state (chunked_enter (lk_ctx lk'))) (ck_size (lk_ctx lk')))
         | Link_done \<Rightarrow> dechunk (lk_ctx lk) (link_rest lk) = (t @ d, Dc_over (link_rest lk'))
         | Link_status st \<Rightarrow>
             \<exists>d' en. dechunk (lk_ctx lk) (link_rest lk) = ((t @ d) @ d', en) \<and>
               (st = NGX_HTTP_BAD_REQUEST \<and> d' = [] \<and> en = Dc_bad \<or>
                st = NGX_HTTP_REQUEST_ENTITY_TOO_LARGE \<and> max_body \<noteq> 0 \<and> max_body < lk_len lk' + ck_size (lk_ctx lk') \<and>
                  ck_state (lk_ctx lk') = ch_chunk_data \<and> dechunk (lk_ctx lk') (link_rest lk') = (d', en) \<or>
                st = NGX_HTTP_INTERNAL_SERVER_ERROR \<and> lk_free lk' = 0)"
      using e assms(2) by (cases e) auto
  qed (use d assms in auto)
qed

lemma chunk_data_status:
  "chunk_data max_body lk = Inl st \<Longrightarrow>
     st = NGX_HTTP_REQUEST_ENTITY_TOO_LARGE \<and> max_body \<noteq> 0 \<and> max_body < lk_len lk + ck_size (lk_ctx lk) \<or>
     st = NGX_HTTP_INTERNAL_SERVER_ERROR \<and> lk_free lk = 0"
  by (auto simp: chunk_data_def Let_def split: if_splits)

lemma chunked_loop_meets: "link_ok lk \<Longrightarrow> link_meets max_body lk (chunked_loop max_body lk)"
proof (induction max_body lk rule: chunked_loop.induct)
  case (1 max_body lk)
  obtain rc x p where r: "ngx_http_parse_chunked (lk_mem lk) (lk_pos lk) (lk_ctx lk) = (rc, x, p)" by (rule prod_cases3)
  define lk0 where "lk0 = lk\<lparr>lk_ctx := x, lk_pos := p\<rparr>"
  have f0: "link_data lk0 = link_data lk" "lk_len lk0 = lk_len lk" "lk_ctx lk0 = x" "link_rest lk0 = drop p (lk_mem lk)"
    "lk_free lk0 = lk_free lk" "lk_pos lk0 = p" "lk_mem lk0 = lk_mem lk" "lk_slices lk0 = lk_slices lk"
    by (simp_all add: lk0_def link_data_def link_rest_def)
  have pos: "lk_pos lk \<le> length (lk_mem lk)" and ss: "slices_ok 0 (lk_slices lk) (lk_pos lk)"
    using "1.prems" by (simp_all add: link_ok_def)
  note un = chunked_loop.simps[of max_body lk, unfolded r prod.case Let_def lk0_def[symmetric]]
  from r pos show ?case
  proof (cases rule: parse_chunked_cases)
    case 1
    have ok0: "link_ok lk0"
      using 1 ss slices_ok_mono[OF ss] by (simp add: link_ok_def f0)
    have dec: "dechunk (lk_ctx lk) (link_rest lk) = dechunk (lk_ctx lk0) (link_rest lk0)"
      using 1 by (simp add: f0 link_rest_def)
    show ?thesis
    proof (cases "chunk_data max_body lk0")
      case (Inl st)
      then have "chunked_loop max_body lk = (Link_status st, lk0)" using 1 by (simp add: un)
      then show ?thesis
        using chunk_data_status[OF Inl] dec 1(4)
        by (auto simp: link_meets_def f0 intro!: exI[of _ "fst (dechunk x (drop p (lk_mem lk)))"] exI[of _ "snd (dechunk x (drop p (lk_mem lk)))"])
    next
      case (Inr lk1)
      from chunk_data_round[OF Inr ok0] 1 obtain n where n: "link_ok lk1" "link_data lk1 = link_data lk0 @ take n (link_rest lk0)"
        "n \<le> length (link_rest lk0)" "link_rest lk1 = drop n (link_rest lk0)" "lk_ctx lk1 = x\<lparr>ck_size := ck_size x - n\<rparr>"
        "n \<le> ck_size x" "lk_len lk1 = lk_len lk0 + n" "max_body \<noteq> 0 \<longrightarrow> lk_len lk1 \<le> max_body"
        by (auto simp: f0)
      have "link_meets max_body lk1 (chunked_loop max_body lk1)"
        using "1.IH"[of rc "(x, p)" x p lk0 lk1] n(1) Inr r 1 by (simp add: lk0_def)
      moreover have "dechunk (lk_ctx lk) (link_rest lk) =
          (case dechunk (lk_ctx lk1) (link_rest lk1) of (d, e) \<Rightarrow> (take n (link_rest lk0) @ d, e))"
        unfolding dec using dechunk_take[of x n "link_rest lk0"] n 1 by (simp add: f0)
      ultimately have "link_meets max_body lk (chunked_loop max_body lk1)"
        using n by (intro link_meets_round[of max_body lk1 _ lk "take n (link_rest lk0)"]) (simp_all add: f0)
      then show ?thesis using 1 Inr by (simp add: un)
    qed
  next
    case 2
    then have "chunked_loop max_body lk = (Link_again, lk0)" by (simp add: un)
    then show ?thesis using 2 by (simp add: link_meets_def f0 link_rest_def)
  next
    case 3
    then have "chunked_loop max_body lk =
        (if lk_free lk0 = 0 then (Link_status NGX_HTTP_INTERNAL_SERVER_ERROR, lk0) else (Link_done, lk0\<lparr>lk_free := lk_free lk0 - 1\<rparr>))"
      by (simp add: un)
    then show ?thesis using 3 f0 by (simp add: link_meets_def link_rest_def link_data_def)
  next
    case 4
    then have "chunked_loop max_body lk = (Link_status NGX_HTTP_BAD_REQUEST, lk0)" by (simp add: un)
    then show ?thesis using 4 by (simp add: link_meets_def f0 link_rest_def)
  qed
qed

text \<open>The buffers of the pool that the loop uses: at most one for each octet read, and one for the end.\<close>

lemma chunk_data_free:
  assumes "chunk_data max_body lk = Inr lk'"
  shows "lk_free lk \<le> lk_free lk' + 1"
  using assms by (auto simp: chunk_data_def chunk_append_def chunk_new_def Let_def split: if_splits prod.splits)

lemma chunked_loop_free:
  "lk_pos lk \<le> length (lk_mem lk) \<Longrightarrow> length (lk_mem lk) - lk_pos lk + k \<le> lk_free lk \<Longrightarrow> 1 \<le> k \<Longrightarrow>
     (case chunked_loop max_body lk of (e, lk') \<Rightarrow>
        e \<noteq> Link_status NGX_HTTP_INTERNAL_SERVER_ERROR \<and> (e = Link_again \<longrightarrow> k \<le> lk_free lk'))"
proof (induction max_body lk rule: chunked_loop.induct)
  case (1 max_body lk)
  obtain rc x p where r: "ngx_http_parse_chunked (lk_mem lk) (lk_pos lk) (lk_ctx lk) = (rc, x, p)" by (rule prod_cases3)
  define lk0 where "lk0 = lk\<lparr>lk_ctx := x, lk_pos := p\<rparr>"
  have f0: "lk_free lk0 = lk_free lk" "lk_pos lk0 = p" "lk_mem lk0 = lk_mem lk" "lk_ctx lk0 = x" by (simp_all add: lk0_def)
  note un = chunked_loop.simps[of max_body lk, unfolded r prod.case Let_def lk0_def[symmetric]]
  from r "1.prems"(1) show ?case
  proof (cases rule: parse_chunked_cases)
    case 1
    show ?thesis
    proof (cases "chunk_data max_body lk0")
      case (Inl st)
      then have "st = NGX_HTTP_REQUEST_ENTITY_TOO_LARGE"
        using chunk_data_status[OF Inl] "1.prems" 1 f0 by auto
      then show ?thesis using 1 Inl
        by (simp add: un NGX_HTTP_REQUEST_ENTITY_TOO_LARGE_def NGX_HTTP_INTERNAL_SERVER_ERROR_def)
    next
      case (Inr lk1)
      have p1: "lk_pos lk1 = p + min (ck_size x) (length (lk_mem lk) - p)"
        using chunk_data_pos[OF Inr] 1 f0 by simp
      have m1: "length (lk_mem lk1) = length (lk_mem lk)" using chunk_data_length[OF Inr] f0 by simp
      have "length (lk_mem lk1) - lk_pos lk1 + k \<le> lk_free lk1"
        using chunk_data_free[OF Inr] p1 m1 1 "1.prems"(2) f0 by (auto simp: min_def)
      moreover have "lk_pos lk1 \<le> length (lk_mem lk1)" using p1 m1 1 by simp
      ultimately have "case chunked_loop max_body lk1 of (e, lk') \<Rightarrow>
          e \<noteq> Link_status NGX_HTTP_INTERNAL_SERVER_ERROR \<and> (e = Link_again \<longrightarrow> k \<le> lk_free lk')"
        using "1.IH"[of rc "(x, p)" x p lk0 lk1] Inr r 1 "1.prems"(3) by (simp add: lk0_def)
      then show ?thesis using 1 Inr by (simp add: un)
    qed
  qed (use "1.prems" f0 in \<open>auto simp: un NGX_HTTP_BAD_REQUEST_def NGX_HTTP_INTERNAL_SERVER_ERROR_def\<close>)
qed

section \<open>The reference on input that comes in pieces\<close>

text \<open>A size too large for the code is only ever held on the way to the data of its chunk.\<close>

fun heads_data :: "ch_state \<Rightarrow> bool" where
  "heads_data ch_chunk_size = True"
| "heads_data ch_chunk_extension = True"
| "heads_data ch_chunk_extension_almost_done = True"
| "heads_data ch_chunk_data = True"
| "heads_data _ = False"

definition size_ok :: "chunked \<Rightarrow> bool" where
  "size_ok x \<longleftrightarrow> ck_size x \<le> MAX_OFF_T - 5 \<or> heads_data (ck_state x)"

lemma size_ok_step:
  "size_ok x \<Longrightarrow> ck_state x \<noteq> ch_chunk_data \<Longrightarrow> chunked_step [] 0 c x = Continue x' \<Longrightarrow> size_ok x'"
  using chunk_digit_less[of c]
  by (cases "ck_state x"; cases "chunk_digit c")
    (auto simp: size_ok_def chunked_step_def ch_case_defs split: if_splits)

lemma size_ok_enter: "size_ok x \<Longrightarrow> size_ok (chunked_enter x)"
  by (auto simp: size_ok_def chunked_enter_def)

lemma dechunk_too_big: "MAX_OFF_T - 5 < ck_size x \<Longrightarrow> heads_data (ck_state x) \<Longrightarrow> dechunk x cs = ([], Dc_bad)"
proof (induction cs arbitrary: x)
  case (Cons c cs)
  then have e: "chunked_enter x = x" by (intro enter_other) auto
  show ?case
  proof (cases "ck_state x = ch_chunk_data")
    case False
    then have "ck_state x = ch_chunk_size \<or> ck_state x = ch_chunk_extension \<or> ck_state x = ch_chunk_extension_almost_done"
      using Cons.prems(2) by (cases "ck_state x") auto
    then show ?thesis
      using Cons e by (auto simp: chunked_step_def ch_case_defs)
  qed (use Cons in simp)
qed simp

definition resume_ctx :: "ch_state \<Rightarrow> nat \<Rightarrow> chunked" where
  "resume_ctx st sz = \<lparr> ck_state = st, ck_size = sz, ck_length = 0 \<rparr>"

lemma dechunk_resume: "dechunk (resume_ctx (ck_state x) (ck_size x)) cs = dechunk x cs"
  using dechunk_length[where x = x and n = 0 and cs = cs] by (cases x) (simp add: resume_ctx_def)

lemma dechunk_append:
  "size_ok x \<Longrightarrow> dechunk x (xs @ ys) =
     (case dechunk x xs of
        (d, Dc_more st sz) \<Rightarrow> (case dechunk (resume_ctx st sz) ys of (d', e) \<Rightarrow> (d @ d', e))
      | (d, Dc_over r) \<Rightarrow> (d, Dc_over (r @ ys))
      | (d, Dc_bad) \<Rightarrow> (d, Dc_bad))"
proof (induction xs arbitrary: x)
  case Nil
  show ?case
  proof (cases "ck_size x \<le> MAX_OFF_T - 5")
    case True
    have "dechunk x ys = dechunk (resume_ctx (ck_state (chunked_enter x)) (ck_size x)) ys"
      using dechunk_resume[of "chunked_enter x" ys] by (simp add: dechunk_enter)
    then show ?thesis using True by simp
  next
    case False
    then show ?thesis using dechunk_too_big[of x ys] Nil by (simp add: size_ok_def)
  qed
next
  case (Cons c xs)
  show ?case
  proof (cases "ck_state x = ch_chunk_data \<and> ck_size x > 0")
    case True
    have "size_ok (x\<lparr>ck_size := ck_size x - 1\<rparr>)" using True by (simp add: size_ok_def)
    from Cons.IH[OF this] True show ?thesis
      by (auto split: prod.split dechunk_end.split)
  next
    case False
    then have "ck_state (chunked_enter x) \<noteq> ch_chunk_data" by (auto simp: chunked_enter_def)
    then have ok: "size_ok x'" if "chunked_step [] 0 c (chunked_enter x) = Continue x'" for x'
      using size_ok_step[OF size_ok_enter[OF Cons.prems] _ that] by simp
    show ?thesis
    proof (cases "chunked_step [] 0 c (chunked_enter x)")
      case (Continue x')
      with Cons.IH[OF ok[OF Continue]] False show ?thesis by auto
    qed (use False in auto)
  qed
qed

text \<open>Of a body that is over, a chunk whose data has begun has come whole.\<close>

lemma dechunk_over_size:
  "dechunk x cs = (d, Dc_over r) \<Longrightarrow> ck_state x = ch_chunk_data \<Longrightarrow> ck_size x \<le> length d"
proof (induction cs arbitrary: x d)
  case (Cons c cs)
  show ?case
  proof (cases "ck_size x > 0")
    case True
    then obtain d' where "dechunk (x\<lparr>ck_size := ck_size x - 1\<rparr>) cs = (d', Dc_over r)" "d = c # d'"
      using Cons.prems by (auto split: if_splits prod.splits)
    with Cons.IH[of "x\<lparr>ck_size := ck_size x - 1\<rparr>" d'] Cons.prems(2) show ?thesis by simp
  qed simp
qed (simp split: if_splits)

section \<open>The chain of buffers\<close>

datatype out_buf = Body_buf bytes | Last_buf

text \<open>What the filter keeps in the request; \<open>br_rest\<close> is -1 before the first call.\<close>

record body_req =
  br_ctx :: chunked
  br_len :: nat
  br_rest :: int
  br_free :: nat

definition link_bufs :: "body_link \<Rightarrow> out_buf list" where
  "link_bufs lk = map (\<lambda>(s, e). Body_buf (slice (lk_mem lk) s e)) (lk_slices lk)"

definition new_link :: "bytes \<Rightarrow> nat \<Rightarrow> body_req \<Rightarrow> body_link" where
  "new_link mem pos rq = \<lparr> lk_mem = mem, lk_pos = pos, lk_ctx = br_ctx rq, lk_len = br_len rq, lk_slices = [],
     lk_free = br_free rq \<rparr>"

fun chunked_chain :: "nat \<Rightarrow> nat \<Rightarrow> (bytes \<times> nat) list \<Rightarrow> body_req \<Rightarrow> nat + body_req \<times> out_buf list" where
  "chunked_chain max_body large [] rq = Inr (rq, [])"
| "chunked_chain max_body large ((mem, pos) # cl) rq =
    (case chunked_loop max_body (new_link mem pos rq) of (e, lk) \<Rightarrow>
       let rq = rq\<lparr>br_ctx := lk_ctx lk, br_len := lk_len lk, br_free := lk_free lk\<rparr> in
       (case e of
          Link_status st \<Rightarrow> Inl st
        | Link_done \<Rightarrow>
            map_sum id (\<lambda>(rq, out). (rq, link_bufs lk @ [Last_buf] @ out)) (chunked_chain max_body large cl (rq\<lparr>br_rest := 0\<rparr>))
        | Link_again \<Rightarrow>
            map_sum id (\<lambda>(rq, out). (rq, link_bufs lk @ out))
              (chunked_chain max_body large cl (rq\<lparr>br_rest := int (max (ck_length (lk_ctx lk)) large)\<rparr>))))"

text \<open>The chain it returns is what it passes to the next filter; \<open>calloc\<close> tells whether the context of the
  first call can be allocated.\<close>

definition ngx_http_request_body_chunked_filter ::
    "nat \<Rightarrow> nat \<Rightarrow> bool \<Rightarrow> (bytes \<times> nat) list \<Rightarrow> body_req \<Rightarrow> nat + body_req \<times> out_buf list" where
  "ngx_http_request_body_chunked_filter max_body large calloc inp rq =
    (if br_rest rq = -1 then
       (if \<not> calloc then Inl NGX_HTTP_INTERNAL_SERVER_ERROR
        else chunked_chain max_body large inp (rq\<lparr>br_ctx := new_chunked, br_len := 0, br_rest := int large\<rparr>))
     else chunked_chain max_body large inp rq)"

fun out_data :: "out_buf list \<Rightarrow> bytes" where
  "out_data [] = []"
| "out_data (Body_buf b # out) = b @ out_data out"
| "out_data (Last_buf # out) = out_data out"

lemma out_data_append [simp]: "out_data (a @ b) = out_data a @ out_data b"
  by (induction a rule: out_data.induct) simp_all

lemma out_data_link: "out_data (link_bufs lk) = link_data lk"
proof -
  have "out_data (map (\<lambda>(s, e). Body_buf (slice m s e)) ss) = slices_data m ss" for m ss
    by (induction ss) (auto simp: slices_data_def)
  then show ?thesis by (simp add: link_bufs_def link_data_def)
qed

text \<open>Buffers with something to read in them, and what there is to read.\<close>

definition buf_full :: "bytes \<times> nat \<Rightarrow> bool" where
  "buf_full b \<longleftrightarrow> snd b < length (fst b)"

definition chain_rest :: "(bytes \<times> nat) list \<Rightarrow> bytes" where
  "chain_rest cl = concat (map (\<lambda>(mem, pos). drop pos mem) cl)"

lemma chain_rest_simps [simp]:
  "chain_rest [] = []" "chain_rest ((mem, pos) # cl) = drop pos mem @ chain_rest cl"
  by (simp_all add: chain_rest_def)


definition tail_room :: "(bytes \<times> nat) list \<Rightarrow> nat" where
  "tail_room cl = (if cl = [] then 0 else length (fst (last cl)) - snd (last cl))"

text \<open>
  What the chain must give when the octet-wise reference gives \<open>(d, e)\<close>. What follows the body is in
  the last buffer (less than the \<open>room\<close> octets in it), or there is nothing said.
\<close>

definition filter_ok :: "nat \<Rightarrow> body_req \<Rightarrow> bytes \<Rightarrow> body_req \<Rightarrow> out_buf list \<Rightarrow> bool" where
  "filter_ok max_body rq d rq' out \<longleftrightarrow> out_data out = d \<and> br_len rq' = br_len rq + length d \<and>
     (max_body \<noteq> 0 \<and> br_len rq \<le> max_body \<longrightarrow> br_len rq' \<le> max_body)"

fun chain_meets :: "nat \<Rightarrow> nat \<Rightarrow> body_req \<Rightarrow> bytes \<times> dechunk_end \<Rightarrow> nat + body_req \<times> out_buf list \<Rightarrow> bool" where
  "chain_meets max_body room rq (d, Dc_over r) (Inr (rq', out)) \<longleftrightarrow>
     (length r < room \<longrightarrow> filter_ok max_body rq d rq' out \<and> br_rest rq' = 0 \<and> (\<exists>out'. out = out' @ [Last_buf]))"
| "chain_meets max_body room rq (d, Dc_over r) (Inl st) \<longleftrightarrow>
     (length r < room \<longrightarrow> st = NGX_HTTP_REQUEST_ENTITY_TOO_LARGE \<and> max_body \<noteq> 0 \<and> max_body < br_len rq + length d)"
| "chain_meets max_body room rq (d, Dc_more st sz) (Inr (rq', out)) \<longleftrightarrow>
     filter_ok max_body rq d rq' out \<and> ck_state (chunked_enter (br_ctx rq')) = st \<and> ck_size (br_ctx rq') = sz"
| "chain_meets max_body room rq (d, Dc_more _ _) (Inl st) \<longleftrightarrow>
     st = NGX_HTTP_REQUEST_ENTITY_TOO_LARGE \<and> max_body \<noteq> 0"
| "chain_meets max_body room rq (d, Dc_bad) (Inr _) \<longleftrightarrow> False"
| "chain_meets max_body room rq (d, Dc_bad) (Inl st) \<longleftrightarrow>
     st = NGX_HTTP_BAD_REQUEST \<or> st = NGX_HTTP_REQUEST_ENTITY_TOO_LARGE \<and> max_body \<noteq> 0"

lemma tail_room_le: "tail_room cl \<le> length (chain_rest cl)"
  by (induction cl) (auto simp: tail_room_def)

lemma dechunk_more_size: "dechunk x cs = (d, Dc_more st sz) \<Longrightarrow> sz \<le> MAX_OFF_T - 5"
proof (induction cs arbitrary: x d)
  case (Cons c cs)
  then show ?case by (fastforce split: if_splits prod.splits verdict.splits)
qed (simp split: if_splits)

lemma chain_meets_shift:
  assumes "chain_meets max_body room rq1 (d2, e) res" and "br_len rq1 = br_len rq + length d1" and "out_data bufs = d1"
    and "max_body \<noteq> 0 \<and> br_len rq \<le> max_body \<longrightarrow> br_len rq1 \<le> max_body"
  shows "chain_meets max_body room rq (d1 @ d2, e) (map_sum id (\<lambda>(rq, out). (rq, bufs @ out)) res)"
  using assms by (cases res; cases e) (auto simp: filter_ok_def)

lemma chain_meets_413:
  assumes "max_body \<noteq> 0" and "\<And>r. e = Dc_over r \<Longrightarrow> max_body < br_len rq + length d"
  shows "chain_meets max_body room rq (d, e) (Inl NGX_HTTP_REQUEST_ENTITY_TOO_LARGE)"
  using assms by (cases e) simp_all

lemma chunked_chain_meets:
  "ck_size (br_ctx rq) \<le> MAX_OFF_T - 5 \<Longrightarrow> list_all buf_full cl \<Longrightarrow> length (chain_rest cl) + 1 \<le> br_free rq \<Longrightarrow>
     chain_meets max_body (tail_room cl) rq (dechunk (br_ctx rq) (chain_rest cl)) (chunked_chain max_body large cl rq)"
proof (induction cl arbitrary: rq)
  case Nil
  then show ?case by (simp add: filter_ok_def out_data_link)
next
  case (Cons b cl)
  obtain mem pos where b: "b = (mem, pos)" by (rule prod.exhaust)
  define lk0 where "lk0 = new_link mem pos rq"
  have l0: "lk_ctx lk0 = br_ctx rq" "link_rest lk0 = drop pos mem" "link_data lk0 = []" "lk_len lk0 = br_len rq"
    "lk_pos lk0 = pos" "lk_mem lk0 = mem" "lk_free lk0 = br_free rq" "link_ok lk0"
    using Cons.prems(2) by (simp_all add: lk0_def new_link_def link_rest_def link_data_def slices_data_def link_ok_def b buf_full_def)
  obtain e lk where loop: "chunked_loop max_body lk0 = (e, lk)" by (rule prod.exhaust)
  have "link_meets max_body lk0 (e, lk)" using chunked_loop_meets[OF l0(8), of max_body] by (simp add: loop)
  then obtain d1 where d1: "link_data lk = d1" "lk_len lk = br_len rq + length d1"
      "max_body \<noteq> 0 \<and> br_len rq \<le> max_body \<longrightarrow> lk_len lk \<le> max_body"
      and e: "case e of
           Link_again \<Rightarrow> dechunk (br_ctx rq) (drop pos mem) =
               (d1, Dc_more (ck_state (chunked_enter (lk_ctx lk))) (ck_size (lk_ctx lk)))
         | Link_done \<Rightarrow> dechunk (br_ctx rq) (drop pos mem) = (d1, Dc_over (link_rest lk))
         | Link_status st \<Rightarrow>
             \<exists>d' en. dechunk (br_ctx rq) (drop pos mem) = (d1 @ d', en) \<and>
               (st = NGX_HTTP_BAD_REQUEST \<and> d' = [] \<and> en = Dc_bad \<or>
                st = NGX_HTTP_REQUEST_ENTITY_TOO_LARGE \<and> max_body \<noteq> 0 \<and> max_body < lk_len lk + ck_size (lk_ctx lk) \<and>
                  ck_state (lk_ctx lk) = ch_chunk_data \<and> dechunk (lk_ctx lk) (link_rest lk) = (d', en) \<or>
                st = NGX_HTTP_INTERNAL_SERVER_ERROR \<and> lk_free lk = 0)"
    unfolding link_meets_def prod.case l0 by auto
  have "pos \<le> length mem" using Cons.prems(2) by (simp add: b buf_full_def)
  then have fr: "e \<noteq> Link_status NGX_HTTP_INTERNAL_SERVER_ERROR \<and> (e = Link_again \<longrightarrow> length (chain_rest cl) + 1 \<le> lk_free lk)"
    using chunked_loop_free[of lk0 "length (chain_rest cl) + 1" max_body] Cons.prems(3) by (simp add: loop l0 b)
  define rq1 where "rq1 = rq\<lparr>br_ctx := lk_ctx lk, br_len := lk_len lk, br_free := lk_free lk\<rparr>"
  have ok: "size_ok (br_ctx rq)" using Cons.prems(1) by (simp add: size_ok_def)
  note app = dechunk_append[OF ok, of "drop pos mem" "chain_rest cl"]
  have un: "chunked_chain max_body large (b # cl) rq =
      (case e of
          Link_status st \<Rightarrow> Inl st
        | Link_done \<Rightarrow>
            map_sum id (\<lambda>(rq, out). (rq, link_bufs lk @ [Last_buf] @ out)) (chunked_chain max_body large cl (rq1\<lparr>br_rest := 0\<rparr>))
        | Link_again \<Rightarrow>
            map_sum id (\<lambda>(rq, out). (rq, link_bufs lk @ out))
              (chunked_chain max_body large cl (rq1\<lparr>br_rest := int (max (ck_length (lk_ctx lk)) large)\<rparr>)))"
    unfolding rq1_def by (simp add: b lk0_def[symmetric] loop Let_def cong: link_end.case_cong)
  show ?case
  proof (cases e)
    case Link_again
    define rq2 where "rq2 = rq1\<lparr>br_rest := int (max (ck_length (lk_ctx lk)) large)\<rparr>"
    have r2: "br_ctx rq2 = lk_ctx lk" "br_len rq2 = br_len rq + length d1" "br_free rq2 = lk_free lk"
      using d1 by (simp_all add: rq2_def rq1_def)
    have more: "dechunk (br_ctx rq) (drop pos mem) = (d1, Dc_more (ck_state (chunked_enter (lk_ctx lk))) (ck_size (lk_ctx lk)))"
      using e Link_again by simp
    then have small: "ck_size (lk_ctx lk) \<le> MAX_OFF_T - 5" by (rule dechunk_more_size)
    then have "chain_meets max_body (tail_room cl) rq2 (dechunk (lk_ctx lk) (chain_rest cl)) (chunked_chain max_body large cl rq2)"
      using Cons.IH[of rq2] Cons.prems(2) fr Link_again r2 by simp
    moreover obtain d2 e2 where d2: "dechunk (lk_ctx lk) (chain_rest cl) = (d2, e2)" by (rule prod.exhaust)
    moreover have dec: "dechunk (br_ctx rq) (chain_rest (b # cl)) = (d1 @ d2, e2)"
      using app more d2 dechunk_resume[of "chunked_enter (lk_ctx lk)" "chain_rest cl"]
      by (simp add: b dechunk_enter)
    ultimately have sh: "chain_meets max_body (tail_room cl) rq (d1 @ d2, e2) (chunked_chain max_body large (b # cl) rq)"
      using chain_meets_shift[of max_body "tail_room cl" rq2 d2 e2 _ rq d1 "link_bufs lk"] r2 d1
      unfolding un Link_again rq2_def[symmetric] by (simp add: out_data_link)
    show ?thesis
    proof (cases "cl = []")
      case True
      then obtain st sz where "e2 = Dc_more st sz" using d2 small by auto
      then show ?thesis using sh unfolding dec by (cases "chunked_chain max_body large (b # cl) rq") auto
    next
      case False
      then show ?thesis using sh unfolding dec by (simp add: tail_room_def)
    qed
  next
    case Link_done
    have dec: "dechunk (br_ctx rq) (chain_rest (b # cl)) = (d1, Dc_over (link_rest lk @ chain_rest cl))"
      using app e Link_done by (simp add: b)
    show ?thesis
    proof (cases "cl = []")
      case True
      then have "chunked_chain max_body large (b # cl) rq = Inr (rq1\<lparr>br_rest := 0\<rparr>, link_bufs lk @ [Last_buf])"
        unfolding un Link_done by simp
      then show ?thesis using d1 unfolding dec by (simp add: filter_ok_def out_data_link rq1_def)
    next
      case False
      then have "\<not> length (link_rest lk @ chain_rest cl) < tail_room (b # cl)"
        using tail_room_le[of cl] by (simp add: tail_room_def)
      then show ?thesis unfolding dec by (cases "chunked_chain max_body large (b # cl) rq") auto
    qed
  next
    case (Link_status st)
    then obtain d' en where den: "dechunk (br_ctx rq) (drop pos mem) = (d1 @ d', en)"
        and st: "st = NGX_HTTP_BAD_REQUEST \<and> d' = [] \<and> en = Dc_bad \<or>
                st = NGX_HTTP_REQUEST_ENTITY_TOO_LARGE \<and> max_body \<noteq> 0 \<and> max_body < lk_len lk + ck_size (lk_ctx lk) \<and>
                  ck_state (lk_ctx lk) = ch_chunk_data \<and> dechunk (lk_ctx lk) (link_rest lk) = (d', en)"
      using e fr by auto
    show ?thesis
      using st
    proof (elim disjE conjE)
      assume "st = NGX_HTTP_BAD_REQUEST" "d' = []" "en = Dc_bad"
      then have "dechunk (br_ctx rq) (chain_rest (b # cl)) = (d1, Dc_bad)" using app den by (simp add: b)
      then show ?thesis unfolding un Link_status by (simp add: \<open>st = NGX_HTTP_BAD_REQUEST\<close>)
    next
      assume s: "st = NGX_HTTP_REQUEST_ENTITY_TOO_LARGE" "max_body \<noteq> 0" "max_body < lk_len lk + ck_size (lk_ctx lk)"
        "ck_state (lk_ctx lk) = ch_chunk_data" "dechunk (lk_ctx lk) (link_rest lk) = (d', en)"
      obtain D E where DE: "dechunk (lk_ctx lk) (link_rest lk @ chain_rest cl) = (D, E)" by (rule prod.exhaust)
      have "size_ok (lk_ctx lk)" using s(4) by (simp add: size_ok_def)
      from dechunk_append[OF this, of "link_rest lk" "chain_rest cl"] s(5) DE
      have "dechunk (br_ctx rq) (chain_rest (b # cl)) = (d1 @ D, E)"
        using app den by (cases en) (auto simp: b split: prod.splits)
      moreover have "max_body < br_len rq + length (d1 @ D)" if "E = Dc_over r" for r
        using dechunk_over_size[of "lk_ctx lk" "link_rest lk @ chain_rest cl" D r] DE that s(3,4) d1 by simp
      ultimately show ?thesis
        using chain_meets_413[OF s(2), of E rq "d1 @ D"] unfolding un Link_status by (simp add: s(1))
    qed
  qed
qed

section \<open>The coding\<close>

text \<open>
  A chunk as a client sends it: the digits of the size, an extension, the data; and the end of the body:
  zeros, an extension and the lines of the trailer.
\<close>

definition chunk_num :: "nat \<Rightarrow> bytes \<Rightarrow> nat" where
  "chunk_num v ds = foldl (\<lambda>v c. v * 16 + the (chunk_digit c)) v ds"

definition line_text :: "bytes \<Rightarrow> bool" where
  "line_text s \<longleftrightarrow> list_all (\<lambda>c. c \<noteq> CR \<and> c \<noteq> LF) s"

fun chunk_ext :: "bytes \<Rightarrow> bool" where
  "chunk_ext [] \<longleftrightarrow> True"
| "chunk_ext (c # s) \<longleftrightarrow> (c = ch_semi \<or> c = ch_space \<or> c = ch_TAB) \<and> line_text s"

definition chunk_head :: "bytes \<Rightarrow> bytes \<Rightarrow> nat \<Rightarrow> bool" where
  "chunk_head ds ext n \<longleftrightarrow> ds \<noteq> [] \<and> list_all (\<lambda>c. chunk_digit c \<noteq> None) ds \<and> chunk_num 0 ds = n \<and> chunk_ext ext"

definition chunk_ok :: "bytes \<times> bytes \<times> bytes \<Rightarrow> bool" where
  "chunk_ok c \<longleftrightarrow> (case c of (ds, ext, data) \<Rightarrow>
     chunk_head ds ext (length data) \<and> data \<noteq> [] \<and> length data \<le> MAX_OFF_T div 16)"

lemma chunk_ok_code [code]:
  "chunk_ok c = (case c of (ds, ext, data) \<Rightarrow>
     chunk_head ds ext (length data) \<and> data \<noteq> [] \<and> int (length data) \<le> 576460752303423487)"
  by (auto simp: chunk_ok_def)

definition render_chunk :: "bytes \<times> bytes \<times> bytes \<Rightarrow> bytes" where
  "render_chunk c = (case c of (ds, ext, data) \<Rightarrow> ds @ ext @ [CR, LF] @ data @ [CR, LF])"

definition trailer_ok :: "bytes \<Rightarrow> bool" where
  "trailer_ok t \<longleftrightarrow> t \<noteq> [] \<and> line_text t"

definition render_last :: "bytes \<Rightarrow> bytes \<Rightarrow> bytes list \<Rightarrow> bytes" where
  "render_last zs ext ts = zs @ ext @ [CR, LF] @ concat (map (\<lambda>t. t @ [CR, LF]) ts) @ [CR, LF]"

definition chunks_data :: "(bytes \<times> bytes \<times> bytes) list \<Rightarrow> bytes" where
  "chunks_data cs = concat (map (\<lambda>c. snd (snd c)) cs)"

lemma resume_simps [simp]:
  "ck_state (resume_ctx st sz) = st" "ck_size (resume_ctx st sz) = sz"
  "(resume_ctx st sz)\<lparr>ck_state := st'\<rparr> = resume_ctx st' sz" "(resume_ctx st sz)\<lparr>ck_size := sz'\<rparr> = resume_ctx st sz'"
  by (simp_all add: resume_ctx_def)

lemma new_chunked_resume: "new_chunked = resume_ctx ch_chunk_start 0"
  by (simp add: new_chunked_def resume_ctx_def)

lemma dechunk_step:
  "st \<noteq> ch_chunk_data \<Longrightarrow> dechunk (resume_ctx st sz) (c # cs) =
     (case chunked_step [] 0 c (resume_ctx st sz) of
        Continue x' \<Rightarrow> dechunk x' cs | Done x' rc \<Rightarrow> ([], Dc_over cs) | Fail x' rc \<Rightarrow> ([], Dc_bad))"
  by (simp add: chunked_enter_def)

lemma chunk_digit_eol: "chunk_digit CR = None" "chunk_digit LF = None"
  "chunk_digit ch_semi = None" "chunk_digit ch_space = None" "chunk_digit ch_TAB = None"
  by (simp_all add: chunk_digit_def word_le_nat_alt)

lemma chunk_num_mono: "v \<le> chunk_num v ds"
proof (induction ds arbitrary: v)
  case (Cons c ds)
  have "v \<le> v * 16 + the (chunk_digit c)" by simp
  also have "\<dots> \<le> chunk_num (v * 16 + the (chunk_digit c)) ds" by (rule Cons.IH)
  finally show ?case by (simp add: chunk_num_def)
qed (simp add: chunk_num_def)

lemma dechunk_digits:
  "list_all (\<lambda>c. chunk_digit c \<noteq> None) ds \<Longrightarrow> chunk_num v ds \<le> MAX_OFF_T div 16 \<Longrightarrow>
     dechunk (resume_ctx ch_chunk_size v) (ds @ cs) = dechunk (resume_ctx ch_chunk_size (chunk_num v ds)) cs"
proof (induction ds arbitrary: v)
  case (Cons c ds)
  obtain d where d: "chunk_digit c = Some d" using Cons.prems(1) by auto
  have n: "chunk_num v (c # ds) = chunk_num (v * 16 + d) ds" by (simp add: chunk_num_def d)
  then have "v \<le> MAX_OFF_T div 16" using chunk_num_mono[of v "c # ds"] Cons.prems(2) by linarith
  then have "dechunk (resume_ctx ch_chunk_size v) ((c # ds) @ cs) = dechunk (resume_ctx ch_chunk_size (v * 16 + d)) (ds @ cs)"
    by (simp add: dechunk_step chunked_step_def ch_case_size_def d del: dechunk.simps)
  then show ?case using Cons.IH[of "v * 16 + d"] Cons.prems n by simp
qed (simp add: chunk_num_def)

lemma dechunk_first_digits:
  assumes "chunk_head ds ext n" and "n \<le> MAX_OFF_T div 16"
  shows "dechunk (resume_ctx ch_chunk_start 0) (ds @ cs) = dechunk (resume_ctx ch_chunk_size n) cs"
proof -
  from assms(1) obtain c ds' d where ds: "ds = c # ds'" and d: "chunk_digit c = Some d"
      and r: "list_all (\<lambda>c. chunk_digit c \<noteq> None) ds'" "chunk_num d ds' = n"
    by (cases ds) (auto simp: chunk_head_def chunk_num_def)
  have "dechunk (resume_ctx ch_chunk_start 0) (ds @ cs) = dechunk (resume_ctx ch_chunk_size d) (ds' @ cs)"
    by (simp add: dechunk_step chunked_step_def ch_case_start_def ds d del: dechunk.simps)
  then show ?thesis using dechunk_digits[OF r(1), of d cs] r(2) assms(2) by simp
qed

text \<open>The states that skip a line skip a line.\<close>

definition line_state :: "ch_state \<Rightarrow> ch_state \<Rightarrow> ch_state \<Rightarrow> bool" where
  "line_state st cr nl \<longleftrightarrow>
     st = ch_chunk_extension \<and> cr = ch_chunk_extension_almost_done \<and> nl = ch_chunk_data \<or>
     st = ch_last_chunk_extension \<and> cr = ch_last_chunk_extension_almost_done \<and> nl = ch_trailer \<or>
     st = ch_trailer_header \<and> cr = ch_trailer_header_almost_done \<and> nl = ch_trailer"

lemma dechunk_eol:
  "line_state st cr nl \<Longrightarrow> dechunk (resume_ctx cr sz) (LF # cs) = dechunk (resume_ctx nl sz) cs"
  unfolding line_state_def
  by (elim disjE conjE; simp add: dechunk_step chunked_step_def ch_lf_def ch_goto_def del: dechunk.simps)

lemma dechunk_line:
  "line_state st cr nl \<Longrightarrow> line_text s \<Longrightarrow>
     dechunk (resume_ctx st sz) (s @ CR # LF # cs) = dechunk (resume_ctx nl sz) cs"
proof (induction s)
  case Nil
  then have "dechunk (resume_ctx st sz) (CR # LF # cs) = dechunk (resume_ctx cr sz) (LF # cs)"
    unfolding line_state_def
    by (elim disjE conjE; simp add: dechunk_step chunked_step_def ch_to_eol_def ch_goto_def del: dechunk.simps)
  then show ?case using dechunk_eol[OF Nil(1)] by simp
next
  case (Cons c s)
  then have "dechunk (resume_ctx st sz) ((c # s) @ CR # LF # cs) = dechunk (resume_ctx st sz) (s @ CR # LF # cs)"
    unfolding line_state_def line_text_def
    by (elim disjE conjE; simp add: dechunk_step chunked_step_def ch_to_eol_def ch_goto_def del: dechunk.simps)
  then show ?case using Cons by (simp add: line_text_def)
qed

text \<open>After the size: the extension and the end of the line.\<close>

lemma dechunk_after_size:
  assumes "chunk_ext ext" and "n \<le> MAX_OFF_T div 16"
  shows "dechunk (resume_ctx ch_chunk_size n) (ext @ CR # LF # cs) =
     dechunk (resume_ctx (if n = 0 then ch_trailer else ch_chunk_data) n) cs"
proof (cases ext)
  case Nil
  have "dechunk (resume_ctx ch_chunk_size n) (CR # LF # cs) =
      dechunk (resume_ctx (if n = 0 then ch_last_chunk_extension_almost_done else ch_chunk_extension_almost_done) n) (LF # cs)"
    using assms(2) by (simp add: dechunk_step chunked_step_def ch_case_size_def chunk_digit_eol ch_goto_def del: dechunk.simps)
  then show ?thesis
    using Nil by (simp add: dechunk_eol line_state_def del: dechunk.simps)
next
  case (Cons c s)
  have "c \<noteq> CR" "c \<noteq> LF" "chunk_digit c = None" using assms(1) Cons by (auto simp: chunk_digit_eol)
  then have "dechunk (resume_ctx ch_chunk_size n) (ext @ CR # LF # cs) =
      dechunk (resume_ctx (if n = 0 then ch_last_chunk_extension else ch_chunk_extension) n) (s @ CR # LF # cs)"
    using assms Cons by (auto simp: dechunk_step chunked_step_def ch_case_size_def ch_goto_def simp del: dechunk.simps)
  then show ?thesis
    using assms(1) Cons by (simp add: dechunk_line line_state_def del: dechunk.simps)
qed

lemma dechunk_chunk:
  assumes "chunk_ok c"
  shows "dechunk (resume_ctx ch_chunk_start 0) (render_chunk c @ cs) =
     (case dechunk (resume_ctx ch_chunk_start 0) cs of (d, e) \<Rightarrow> (snd (snd c) @ d, e))"
proof -
  obtain ds ext data where c: "c = (ds, ext, data)" by (rule prod_cases3)
  let ?n = "length data"
  have h: "chunk_head ds ext ?n" "data \<noteq> []" "?n \<le> MAX_OFF_T div 16" "chunk_ext ext"
    using assms by (simp_all add: c chunk_ok_def chunk_head_def)
  have "dechunk (resume_ctx ch_chunk_start 0) (render_chunk c @ cs) =
      dechunk (resume_ctx ch_chunk_data ?n) (data @ CR # LF # cs)"
    using dechunk_first_digits[OF h(1,3)] dechunk_after_size[OF h(4,3)] h(2) by (simp add: c render_chunk_def del: dechunk.simps)
  also have "\<dots> = (case dechunk (resume_ctx ch_chunk_data 0) (CR # LF # cs) of (d, e) \<Rightarrow> (data @ d, e))"
    using dechunk_take[of "resume_ctx ch_chunk_data ?n" ?n "data @ CR # LF # cs"] h(3) by (simp del: dechunk.simps)
  also have "dechunk (resume_ctx ch_chunk_data 0) (CR # LF # cs) = dechunk (resume_ctx ch_after_data_almost_done 0) (LF # cs)"
    by (simp add: chunked_enter_def chunked_step_def ch_case_after_data_def ch_goto_def)
  also have "\<dots> = dechunk (resume_ctx ch_chunk_start 0) cs"
    by (simp add: dechunk_step chunked_step_def ch_lf_def ch_goto_def del: dechunk.simps)
  finally show ?thesis by (simp add: c)
qed

lemma dechunk_chunks:
  "list_all chunk_ok chunks \<Longrightarrow> dechunk (resume_ctx ch_chunk_start 0) (concat (map render_chunk chunks) @ cs) =
     (case dechunk (resume_ctx ch_chunk_start 0) cs of (d, e) \<Rightarrow> (chunks_data chunks @ d, e))"
  by (induction chunks) (simp_all add: dechunk_chunk chunks_data_def split: prod.split del: dechunk.simps)

lemma dechunk_trailers:
  "list_all trailer_ok ts \<Longrightarrow> dechunk (resume_ctx ch_trailer 0) (concat (map (\<lambda>t. t @ [CR, LF]) ts) @ CR # LF # cs) = ([], Dc_over cs)"
proof (induction ts)
  case Nil
  then show ?case
    by (simp add: dechunk_step chunked_step_def ch_case_trailer_def ch_goto_def del: dechunk.simps)
next
  case (Cons t ts)
  then obtain c s where t: "t = c # s" "c \<noteq> CR" "c \<noteq> LF" "line_text s"
    by (cases t) (auto simp: trailer_ok_def line_text_def)
  let ?cs = "concat (map (\<lambda>t. t @ [CR, LF]) ts) @ CR # LF # cs"
  have "dechunk (resume_ctx ch_trailer 0) (t @ CR # LF # ?cs) = dechunk (resume_ctx ch_trailer_header 0) (s @ CR # LF # ?cs)"
    using t by (simp add: dechunk_step chunked_step_def ch_case_trailer_def ch_goto_def del: dechunk.simps)
  also have "\<dots> = dechunk (resume_ctx ch_trailer 0) ?cs"
    using t(4) by (intro dechunk_line) (simp_all add: line_state_def)
  finally show ?case using Cons by simp
qed

lemma dechunk_body:
  assumes "list_all chunk_ok chunks" and "chunk_head zs ext 0" and "list_all trailer_ok ts"
  shows "dechunk new_chunked (concat (map render_chunk chunks) @ render_last zs ext ts @ r) = (chunks_data chunks, Dc_over r)"
proof -
  have "chunk_ext ext" using assms(2) by (simp add: chunk_head_def)
  then have "dechunk (resume_ctx ch_chunk_start 0) (render_last zs ext ts @ r) = ([], Dc_over r)"
    using dechunk_first_digits[OF assms(2)] dechunk_after_size[of ext 0] dechunk_trailers[OF assms(3)]
    by (simp add: render_last_def del: dechunk.simps)
  then show ?thesis using dechunk_chunks[OF assms(1)] by (simp add: new_chunked_resume del: dechunk.simps)
qed

section \<open>The length that is asked for\<close>

lemma chunked_length_step:
  "chunked_step [] 0 c x = Continue x' \<Longrightarrow>
     chunked_length (ck_state x) (ck_size x) \<le> chunked_length (ck_state (chunked_enter x')) (ck_size x') + 1"
  by (cases "ck_state x"; cases "chunk_digit c")
     (auto simp: chunked_step_def ch_case_defs chunked_enter_def chunked_length_def split: if_splits)

lemma chunked_length_pos: "chunked_step [] 0 c x = Done x' rc \<Longrightarrow> ck_state x \<noteq> ch_chunk_data \<Longrightarrow>
    chunked_length (ck_state x) (ck_size x) \<le> 1"
  by (cases "ck_state x") (auto simp: chunked_step_def ch_case_defs chunked_length_def split: if_splits option.splits)

lemma dechunk_length_least:
  "dechunk x cs = (d, Dc_over r) \<Longrightarrow>
     chunked_length (ck_state (chunked_enter x)) (ck_size x) + length r \<le> length cs"
proof (induction cs arbitrary: x d)
  case (Cons c cs)
  show ?case
  proof (cases "ck_state x = ch_chunk_data \<and> ck_size x > 0")
    case True
    let ?y = "x\<lparr>ck_size := ck_size x - 1\<rparr>"
    obtain d' where "dechunk ?y cs = (d', Dc_over r)"
      using True Cons.prems by (auto split: if_splits prod.splits)
    then have "chunked_length (ck_state (chunked_enter ?y)) (ck_size ?y) + length r \<le> length cs" by (rule Cons.IH)
    moreover have "chunked_length (ck_state (chunked_enter x)) (ck_size x) \<le>
        chunked_length (ck_state (chunked_enter ?y)) (ck_size ?y) + 1"
      using True by (auto simp: chunked_enter_def chunked_length_def)
    ultimately show ?thesis by simp
  next
    case False
    then have st: "ck_state (chunked_enter x) \<noteq> ch_chunk_data" by (auto simp: chunked_enter_def)
    show ?thesis
    proof (cases "chunked_step [] 0 c (chunked_enter x)")
      case (Continue x')
      then have "dechunk x' cs = (d, Dc_over r)" using Cons.prems False by (simp split: if_splits)
      from Cons.IH[OF this] chunked_length_step[OF Continue] show ?thesis by simp
    next
      case (Done x' rc)
      then have "r = cs" using Cons.prems False by (simp split: if_splits)
      with chunked_length_pos[OF Done st] show ?thesis by simp
    next
      case (Fail x' rc)
      then show ?thesis using Cons.prems False by (simp split: if_splits)
    qed
  qed
qed (simp split: if_splits)

lemma parse_again_length:
  assumes "ngx_http_parse_chunked buf pos x = (NGX_AGAIN, x', p)"
  shows "ck_length x' = chunked_length (ck_state (chunked_enter x')) (ck_size x') \<and> ck_size x' \<le> MAX_OFF_T - 5"
proof -
  have "chunked_length (ck_state (chunked_enter y)) (ck_size y) = chunked_length (ck_state y) (ck_size y)" for y
    by (simp add: chunked_enter_def chunked_length_def)
  moreover have "chunked_enter (y\<lparr>ck_length := n\<rparr>) = (chunked_enter y)\<lparr>ck_length := n\<rparr>" for y n
    by (simp add: chunked_enter_def)
  ultimately show ?thesis
    using assms by (auto simp: ngx_http_parse_chunked_def chunked_return_def split: prod.splits verdict.splits if_splits)
qed

lemma chunked_length_max: "sz \<le> MAX_OFF_T - 5 \<Longrightarrow> chunked_length st sz \<le> MAX_OFF_T"
  by (cases st) (auto simp: chunked_length_def)

section \<open>The filter delivers the body\<close>

text \<open>The request as the first call leaves it before the loop.\<close>

definition first_call :: "nat \<Rightarrow> body_req \<Rightarrow> body_req" where
  "first_call large rq =
    (if br_rest rq = -1 then rq\<lparr>br_ctx := new_chunked, br_len := 0, br_rest := int large\<rparr> else rq)"

lemma filter_first_call:
  "ngx_http_request_body_chunked_filter max_body large True inp rq = chunked_chain max_body large inp (first_call large rq)"
  by (simp add: ngx_http_request_body_chunked_filter_def first_call_def)

lemma filter_meets:
  assumes "br_rest rq = -1 \<or> ck_size (br_ctx rq) \<le> MAX_OFF_T - 5"
    and "list_all buf_full inp" and "length (chain_rest inp) < br_free rq"
  shows "chain_meets max_body (tail_room inp) (first_call large rq) (dechunk (br_ctx (first_call large rq)) (chain_rest inp))
     (ngx_http_request_body_chunked_filter max_body large True inp rq)"
  unfolding filter_first_call
  using assms by (intro chunked_chain_meets) (auto simp: first_call_def new_chunked_def)


text \<open>C19: A body that a client sends in chunked coding comes back whole: any chunks with their sizes in any
  hexadecimal form and with any extensions, any trailer, cut into buffers at any places and followed by
  the next request in the last buffer, are delivered as the concatenation of the data with the
  end-of-body buffer at the end, and the length is counted; unless a limit is set and the body is longer than
  it, when the answer is 413.\<close>

theorem chunked_body_roundtrip:
  assumes "list_all chunk_ok chunks" and "chunk_head zs ext 0" and "list_all trailer_ok ts"
    and "br_rest rq = -1" and "list_all buf_full inp" and "length (chain_rest inp) < br_free rq"
    and "chain_rest inp = concat (map render_chunk chunks) @ render_last zs ext ts @ r" and "length r < tail_room inp"
  shows "case ngx_http_request_body_chunked_filter max_body large True inp rq of
      Inr (rq', out) \<Rightarrow> (max_body = 0 \<or> length (chunks_data chunks) \<le> max_body) \<and>
        out_data out = chunks_data chunks \<and> (\<exists>out'. out = out' @ [Last_buf]) \<and>
        br_len rq' = length (chunks_data chunks) \<and> br_rest rq' = 0
    | Inl st \<Rightarrow> st = NGX_HTTP_REQUEST_ENTITY_TOO_LARGE \<and> max_body \<noteq> 0 \<and> max_body < length (chunks_data chunks)"
proof -
  have "dechunk new_chunked (chain_rest inp) = (chunks_data chunks, Dc_over r)"
    using dechunk_body[OF assms(1-3), of r] assms(7) by simp
  moreover have "first_call large rq = rq\<lparr>br_ctx := new_chunked, br_len := 0, br_rest := int large\<rparr>"
    by (simp add: first_call_def assms(4))
  ultimately show ?thesis
    using filter_meets[OF _ assms(5,6), of max_body large] assms(4,8)
    by (cases "ngx_http_request_body_chunked_filter max_body large True inp rq") (auto simp: filter_ok_def)
qed

text \<open>When the chunked parser asks for more, the length it gives is a number of octets that does not
  overflow \<^verbatim>\<open>off_t\<close> and that every completion of the body has at least: reading that much never
  reads past the end of the body.\<close>

theorem chunked_length_bound:
  assumes "ngx_http_parse_chunked buf pos x = (NGX_AGAIN, x', p)" and "pos \<le> length buf" and "ck_size x \<le> MAX_OFF_T - 5"
  shows "ck_length x' \<le> MAX_OFF_T \<and>
    (\<forall>s d r. dechunk x (drop pos buf @ s) = (d, Dc_over r) \<longrightarrow> ck_length x' + length r \<le> length s)"
proof -
  note l = parse_again_length[OF assms(1)]
  have "dechunk x (drop pos buf @ s) = dechunk x' s" for s
    using assms(1,2)
  proof (cases rule: parse_chunked_cases)
    case 2
    have "size_ok x" using assms(3) by (simp add: size_ok_def)
    from dechunk_append[OF this, of "drop pos buf" s] 2 dechunk_resume[of "chunked_enter x'" s]
    show ?thesis by (simp add: dechunk_enter)
  qed simp_all
  then show ?thesis
    using l chunked_length_max dechunk_length_least by auto
qed

section \<open>A message in two buffers\<close>

definition demo_chunks :: "(bytes \<times> bytes \<times> bytes) list" where
  "demo_chunks = [(octets ''4'', octets '';a'', octets ''Wiki''), (octets ''05'', [], octets ''pedia'')]"

definition demo_bufs :: "(bytes \<times> nat) list" where
  "demo_bufs = [(octets ''4;a'' @ [CR, LF] @ octets ''Wiki'' @ [CR], 0),
     (octets ''xx'' @ [LF] @ octets ''05'' @ [CR, LF] @ octets ''pedia'' @ [CR, LF] @ octets ''0'' @ [CR, LF, CR, LF] @ octets ''GET'', 2)]"

definition demo_req :: body_req where
  "demo_req = \<lparr> br_ctx = new_chunked, br_len = 0, br_rest = -1, br_free = 100 \<rparr>"

lemma demo_body_facts:
  "list_all chunk_ok demo_chunks" "chunk_head (octets ''0'') [] 0" "list_all buf_full demo_bufs"
  "length (chain_rest demo_bufs) < br_free demo_req" "br_rest demo_req = -1" "3 < tail_room demo_bufs"
  "chain_rest demo_bufs = concat (map render_chunk demo_chunks) @ render_last (octets ''0'') [] [] @ octets ''GET''"
  by code_simp+


lemma chunked_body_roundtrip_witness:
  "case ngx_http_request_body_chunked_filter 9 8192 True demo_bufs demo_req of
      Inr (rq', out) \<Rightarrow> (9 = (0::nat) \<or> length (chunks_data demo_chunks) \<le> 9) \<and>
        out_data out = chunks_data demo_chunks \<and> (\<exists>out'. out = out' @ [Last_buf]) \<and>
        br_len rq' = length (chunks_data demo_chunks) \<and> br_rest rq' = 0
    | Inl st \<Rightarrow> st = NGX_HTTP_REQUEST_ENTITY_TOO_LARGE \<and> 9 \<noteq> (0::nat) \<and> 9 < length (chunks_data demo_chunks)"
  using demo_body_facts by (intro chunked_body_roundtrip[where r = "octets ''GET''" and zs = "octets ''0''" and ext = "[]" and ts = "[]"])
    simp_all

lemma chunked_length_bound_witness:
  "\<exists>x' p. ngx_http_parse_chunked (octets ''1a'') 0 new_chunked = (NGX_AGAIN, x', p) \<and> ck_length x' = 31 \<and> ck_length x' \<le> MAX_OFF_T"
proof -
  have r: "ngx_http_parse_chunked (octets ''1a'') 0 new_chunked =
      (NGX_AGAIN, \<lparr> ck_state = ch_chunk_size, ck_size = 26, ck_length = 31 \<rparr>, 2)" by code_simp
  have "ck_size new_chunked \<le> MAX_OFF_T - 5" by (simp add: new_chunked_def)
  from chunked_length_bound[OF r _ this] r show ?thesis by auto
qed

end
