(* ===== verification/NgxParse.thy ===== *)
theory NgxParse
  imports NgxString
begin

text \<open>
  The parsers of configuration values in \<^verbatim>\<open>src/core/ngx_parse.c\<close>: sizes and offsets with a unit
  suffix, and times made of several terms. Each is shown to be exact against a reference that has no
  overflow guards.
\<close>

section \<open>Sizes and offsets\<close>

abbreviation ch_K :: u_char where "ch_K \<equiv> 0x4b"
abbreviation ch_k :: u_char where "ch_k \<equiv> 0x6b"
abbreviation ch_M :: u_char where "ch_M \<equiv> 0x4d"
abbreviation ch_m :: u_char where "ch_m \<equiv> 0x6d"
abbreviation ch_G :: u_char where "ch_G \<equiv> 0x47"
abbreviation ch_g :: u_char where "ch_g \<equiv> 0x67"

definition ngx_parse_size :: "bytes \<Rightarrow> int" where
  "ngx_parse_size line =
    (if line = [] then NGX_ERROR_INT
     else let unit = last line;
              (len, mx, scale) =
                (if unit = ch_K \<or> unit = ch_k then (length line - 1, NGX_MAX_SIZE_T_VALUE div 1024, 1024)
                 else if unit = ch_M \<or> unit = ch_m
                 then (length line - 1, NGX_MAX_SIZE_T_VALUE div (1024 * 1024), 1024 * 1024)
                 else (length line, NGX_MAX_SIZE_T_VALUE, 1));
              size = ngx_atosz (take len line)
          in if size = NGX_ERROR_INT \<or> size > mx then NGX_ERROR_INT else size * scale)"

definition ngx_parse_offset :: "bytes \<Rightarrow> int" where
  "ngx_parse_offset line =
    (if line = [] then NGX_ERROR_INT
     else let unit = last line;
              (len, mx, scale) =
                (if unit = ch_K \<or> unit = ch_k then (length line - 1, NGX_MAX_OFF_T_VALUE div 1024, 1024)
                 else if unit = ch_M \<or> unit = ch_m
                 then (length line - 1, NGX_MAX_OFF_T_VALUE div (1024 * 1024), 1024 * 1024)
                 else if unit = ch_G \<or> unit = ch_g
                 then (length line - 1, NGX_MAX_OFF_T_VALUE div (1024 * 1024 * 1024), 1024 * 1024 * 1024)
                 else (length line, NGX_MAX_OFF_T_VALUE, 1));
              offset = ngx_atoof (take len line)
          in if offset = NGX_ERROR_INT \<or> offset > mx then NGX_ERROR_INT else offset * scale)"

section \<open>Times\<close>

text \<open>The steps of the grammar in the order their units may appear.\<close>

abbreviation st_start :: nat where "st_start \<equiv> 0"
abbreviation st_year :: nat where "st_year \<equiv> 1"
abbreviation st_month :: nat where "st_month \<equiv> 2"
abbreviation st_week :: nat where "st_week \<equiv> 3"
abbreviation st_day :: nat where "st_day \<equiv> 4"
abbreviation st_hour :: nat where "st_hour \<equiv> 5"
abbreviation st_min :: nat where "st_min \<equiv> 6"
abbreviation st_sec :: nat where "st_sec \<equiv> 7"
abbreviation st_msec :: nat where "st_msec \<equiv> 8"
abbreviation st_last :: nat where "st_last \<equiv> 9"

text \<open>
  The switch on the unit \<open>c\<close>: the new step, the largest value the unit admits, the unit's scale and
  what is left of the line; None is the return of NGX_ERROR.
\<close>

definition parse_time_unit :: "bool \<Rightarrow> nat \<Rightarrow> u_char \<Rightarrow> bytes \<Rightarrow> (nat \<times> int \<times> int \<times> bytes) option" where
  "parse_time_unit is_sec step c p =
    (if c = 0x79 then
       (if step > st_start then None
        else Some (st_year, NGX_MAX_INT_T_VALUE div (60 * 60 * 24 * 365), 60 * 60 * 24 * 365, p))
     else if c = ch_M then
       (if step \<ge> st_month then None
        else Some (st_month, NGX_MAX_INT_T_VALUE div (60 * 60 * 24 * 30), 60 * 60 * 24 * 30, p))
     else if c = 0x77 then
       (if step \<ge> st_week then None
        else Some (st_week, NGX_MAX_INT_T_VALUE div (60 * 60 * 24 * 7), 60 * 60 * 24 * 7, p))
     else if c = 0x64 then
       (if step \<ge> st_day then None
        else Some (st_day, NGX_MAX_INT_T_VALUE div (60 * 60 * 24), 60 * 60 * 24, p))
     else if c = 0x68 then
       (if step \<ge> st_hour then None
        else Some (st_hour, NGX_MAX_INT_T_VALUE div (60 * 60), 60 * 60, p))
     else if c = ch_m then
       (if p \<noteq> [] \<and> hd p = 0x73 then
          (if is_sec \<or> step \<ge> st_msec then None else Some (st_msec, NGX_MAX_INT_T_VALUE, 1, tl p))
        else if step \<ge> st_min then None
        else Some (st_min, NGX_MAX_INT_T_VALUE div 60, 60, p))
     else if c = 0x73 then
       (if step \<ge> st_sec then None else Some (st_sec, NGX_MAX_INT_T_VALUE, 1, p))
     else if c = ch_space then
       (if step \<ge> st_sec then None else Some (st_last, NGX_MAX_INT_T_VALUE, 1, p))
     else None)"

text \<open>After the loop: the last term has no unit.\<close>

definition parse_time_end :: "bool \<Rightarrow> int \<Rightarrow> int \<Rightarrow> bool \<Rightarrow> int" where
  "parse_time_end is_sec value tot valid =
    (if \<not> valid then NGX_ERROR_INT
     else if \<not> is_sec \<and> value > NGX_MAX_INT_T_VALUE div 1000 then NGX_ERROR_INT
     else let value = (if is_sec then value else value * 1000) in
          if tot > NGX_MAX_INT_T_VALUE - value then NGX_ERROR_INT else tot + value)"

lemma parse_time_unit_rest: "parse_time_unit is_sec step c p = Some (st, mx, sc, q) \<Longrightarrow> length q \<le> length p"
  by (auto simp: parse_time_unit_def split: if_splits)

lemma parse_time_unit_drop:
  "parse_time_unit is_sec step c p = Some (st, mx, sc, q) \<Longrightarrow> length (dropWhile P q) \<le> length p"
  using parse_time_unit_rest[of is_sec step c p st mx sc q] length_dropWhile_le[of P q] by simp

function parse_time_loop :: "bool \<Rightarrow> nat \<Rightarrow> int \<Rightarrow> int \<Rightarrow> bool \<Rightarrow> bytes \<Rightarrow> int" where
  "parse_time_loop is_sec step value tot valid [] = parse_time_end is_sec value tot valid"
| "parse_time_loop is_sec step value tot valid (c # p) =
    (if ch_0 \<le> c \<and> c \<le> ch_9 then
       (if value \<ge> NGX_MAX_INT_T_VALUE div 10 \<and>
           (value > NGX_MAX_INT_T_VALUE div 10 \<or> uint c - 48 > NGX_MAX_INT_T_VALUE mod 10)
        then NGX_ERROR_INT
        else parse_time_loop is_sec step (value * 10 + (uint c - 48)) tot True p)
     else
       (case parse_time_unit is_sec step c p of
          None \<Rightarrow> NGX_ERROR_INT
        | Some (step, mx, scale, p) \<Rightarrow>
            (let (scale, mx) = (if step \<noteq> st_msec \<and> \<not> is_sec then (scale * 1000, mx div 1000) else (scale, mx)) in
             if value > mx then NGX_ERROR_INT
             else let value = value * scale in
                  if tot > NGX_MAX_INT_T_VALUE - value then NGX_ERROR_INT
                  else parse_time_loop is_sec step 0 (tot + value) valid (dropWhile (\<lambda>c. c = ch_space) p))))"
  by pat_completeness auto
termination
  by (relation "measure (\<lambda>(is_sec, step, value, tot, valid, p). length p)")
    (auto dest: parse_time_unit_drop simp: less_Suc_eq_le)

definition ngx_parse_time :: "bytes \<Rightarrow> bool \<Rightarrow> int" where
  "ngx_parse_time line is_sec = parse_time_loop is_sec (if is_sec then st_start else st_month) 0 0 False line"

section \<open>The reference without guards\<close>

text \<open>
  The same grammar over unbounded integers, with no test for overflow: None when the text is not a
  time, otherwise the sum of its terms.
\<close>

function time_ref :: "bool \<Rightarrow> nat \<Rightarrow> int \<Rightarrow> int \<Rightarrow> bool \<Rightarrow> bytes \<Rightarrow> int option" where
  "time_ref is_sec step value tot valid [] =
     (if valid then Some (tot + (if is_sec then value else value * 1000)) else None)"
| "time_ref is_sec step value tot valid (c # p) =
    (if is_digit c then time_ref is_sec step (value * 10 + (uint c - 48)) tot True p
     else
       (case parse_time_unit is_sec step c p of
          None \<Rightarrow> None
        | Some (step, mx, scale, p) \<Rightarrow>
            time_ref is_sec step 0
              (tot + value * (if step \<noteq> st_msec \<and> \<not> is_sec then scale * 1000 else scale)) valid
              (dropWhile (\<lambda>c. c = ch_space) p)))"
  by pat_completeness auto
termination
  by (relation "measure (\<lambda>(is_sec, step, value, tot, valid, p). length p)")
    (auto dest: parse_time_unit_drop simp: less_Suc_eq_le)

section \<open>The guards are exact\<close>

lemma le_div_int: "0 < s \<Longrightarrow> (v :: int) \<le> m div s \<longleftrightarrow> v * s \<le> m"
proof
  assume s: "0 < s" and "v * s \<le> m"
  then have "(v * s) div s \<le> m div s" by (intro zdiv_mono1) simp_all
  then show "v \<le> m div s" using s by simp
next
  assume s: "0 < s" and "v \<le> m div s"
  then have "v * s \<le> m div s * s" by (simp add: mult_right_mono)
  also have "\<dots> \<le> m" using s div_mult_mod_eq[of m s] pos_mod_sign[of s m] by linarith
  finally show "v * s \<le> m" .
qed

text \<open>The scale in effect: milliseconds unless the result is in seconds or the unit is \<open>ms\<close>.\<close>

definition term_scale :: "bool \<Rightarrow> nat \<Rightarrow> int \<Rightarrow> int" where
  "term_scale is_sec step scale = (if step \<noteq> st_msec \<and> \<not> is_sec then scale * 1000 else scale)"

lemma parse_time_unit_scale:
  assumes "parse_time_unit is_sec step c p = Some (st, mx, sc, q)"
  shows "1 \<le> term_scale is_sec st sc"
    and "(if st \<noteq> st_msec \<and> \<not> is_sec then mx div 1000 else mx) = NGX_MAX_INT_T_VALUE div term_scale is_sec st sc"
  using assms by (auto simp: parse_time_unit_def term_scale_def split: if_splits)

lemma time_ref_unit:
  "\<not> is_digit c \<Longrightarrow> parse_time_unit is_sec step c p = Some (st, mx, sc, q) \<Longrightarrow>
     time_ref is_sec step w tot valid (c # p) =
     time_ref is_sec st 0 (tot + w * term_scale is_sec st sc) valid (dropWhile (\<lambda>c. c = ch_space) q)"
  by (simp add: term_scale_def)

lemma parse_time_loop_unit:
  assumes "\<not> is_digit c" and "parse_time_unit is_sec step c p = Some (st, mx, sc, q)"
  shows "parse_time_loop is_sec step w tot valid (c # p) =
    (if w * term_scale is_sec st sc > NGX_MAX_INT_T_VALUE \<or>
        tot + w * term_scale is_sec st sc > NGX_MAX_INT_T_VALUE then NGX_ERROR_INT
     else parse_time_loop is_sec st 0 (tot + w * term_scale is_sec st sc) valid
            (dropWhile (\<lambda>c. c = ch_space) q))"
proof -
  let ?t = "term_scale is_sec st sc"
  have t: "0 < ?t" using parse_time_unit_scale(1)[OF assms(2)] by simp
  have "w > NGX_MAX_INT_T_VALUE div ?t \<longleftrightarrow> w * ?t > NGX_MAX_INT_T_VALUE"
    using le_div_int[OF t, of w NGX_MAX_INT_T_VALUE] by linarith
  moreover have "tot > NGX_MAX_INT_T_VALUE - w * ?t \<longleftrightarrow> tot + w * ?t > NGX_MAX_INT_T_VALUE" by linarith
  moreover have "(if st \<noteq> st_msec \<and> \<not> is_sec then (sc * 1000, mx div 1000) else (sc, mx)) =
      (?t, NGX_MAX_INT_T_VALUE div ?t)"
    using parse_time_unit_scale(2)[OF assms(2)] by (auto simp: term_scale_def)
  moreover have "\<not> (ch_0 \<le> c \<and> c \<le> ch_9)" using assms(1) by (simp add: is_digit_def)
  ultimately show ?thesis
    by (simp only: parse_time_loop.simps if_False assms(2) option.case prod.case Let_def) simp
qed

lemma parse_time_loop_digit:
  assumes "is_digit c"
  shows "parse_time_loop is_sec step w tot valid (c # p) =
    (if w * 10 + (uint c - 48) > NGX_MAX_INT_T_VALUE then NGX_ERROR_INT
     else parse_time_loop is_sec step (w * 10 + (uint c - 48)) tot True p)"
proof -
  have "ch_0 \<le> c \<and> c \<le> ch_9" "0 \<le> uint c - 48 \<and> uint c - 48 \<le> 9"
    using assms dec_digit_bounds[of c] by (simp_all add: is_digit_def dec_digit_def)
  then show ?thesis by (simp only: parse_time_loop.simps) auto
qed

declare parse_time_loop.simps(2) [simp del] time_ref.simps(2) [simp del]

lemma parse_time_loop_bad:
  "\<not> is_digit c \<Longrightarrow> parse_time_unit is_sec step c p = None \<Longrightarrow>
     parse_time_loop is_sec step w tot valid (c # p) = NGX_ERROR_INT"
  unfolding is_digit_def by (simp only: parse_time_loop.simps if_False option.case)

lemma time_ref_digit:
  "is_digit c \<Longrightarrow> time_ref is_sec step w tot valid (c # p) = time_ref is_sec step (w * 10 + (uint c - 48)) tot True p"
  by (simp add: time_ref.simps)

lemma time_ref_grows:
  "0 \<le> w \<Longrightarrow> time_ref is_sec step w tot valid p = Some t \<Longrightarrow> tot + w \<le> t"
proof (induction is_sec step w tot valid p rule: time_ref.induct)
  case (2 is_sec step w tot valid c p)
  show ?case
  proof (cases "is_digit c")
    case True
    then show ?thesis using 2 digit_grows[OF True, of w] dec_digit_bounds[of c] by (auto simp: dec_digit_def time_ref_digit)
  next
    case False
    then obtain st mx sc q where u: "parse_time_unit is_sec step c p = Some (st, mx, sc, q)"
      using 2(4) by (auto simp: time_ref.simps split: option.splits)
    have "tot + w * term_scale is_sec st sc \<le> t"
      using 2(2)[OF False u refl refl refl] 2(4) False u by (simp add: term_scale_def time_ref_unit)
    moreover have "w * 1 \<le> w * term_scale is_sec st sc"
      using parse_time_unit_scale(1)[OF u] 2(3) by (intro mult_left_mono)
    ultimately show ?thesis by simp
  qed
qed (auto split: if_splits)

lemma parse_time_loop_exact:
  "0 \<le> w \<Longrightarrow> w \<le> NGX_MAX_INT_T_VALUE \<Longrightarrow> 0 \<le> tot \<Longrightarrow> tot \<le> NGX_MAX_INT_T_VALUE \<Longrightarrow>
   parse_time_loop is_sec step w tot valid p =
     (case time_ref is_sec step w tot valid p of
        None \<Rightarrow> NGX_ERROR_INT
      | Some t \<Rightarrow> if t \<le> NGX_MAX_INT_T_VALUE then t else NGX_ERROR_INT)"
proof (induction is_sec step w tot valid p rule: time_ref.induct)
  case (1 is_sec step w tot valid)
  then show ?case by (auto simp: parse_time_end_def Let_def)
next
  case (2 is_sec step w tot valid c p)
  show ?case
  proof (cases "is_digit c")
    case True
    show ?thesis
    proof (cases "w * 10 + (uint c - 48) \<le> NGX_MAX_INT_T_VALUE")
      case fits: True
      then show ?thesis
        using 2(1)[OF True] 2(3-) digit_grows[OF True, of w] True by (simp add: parse_time_loop_digit time_ref_digit)
    next
      case False
      then show ?thesis
        using time_ref_grows[OF digit_grows[OF True 2(3)], of is_sec step tot True p] 2(5) True
        by (auto simp: parse_time_loop_digit time_ref_digit split: option.split)
    qed
  next
    case False
    show ?thesis
    proof (cases "parse_time_unit is_sec step c p")
      case None
      then show ?thesis using False parse_time_loop_bad[OF False None] by (simp add: time_ref.simps)
    next
      case (Some u)
      then obtain st mx sc q where u: "parse_time_unit is_sec step c p = Some (st, mx, sc, q)"
        by (cases u) auto
      let ?v = "w * term_scale is_sec st sc" and ?q = "dropWhile (\<lambda>c. c = ch_space) q"
      have v: "0 \<le> ?v" using parse_time_unit_scale(1)[OF u] 2(3) by simp
      show ?thesis
      proof (cases "tot + ?v \<le> NGX_MAX_INT_T_VALUE")
        case fits: True
        then show ?thesis
          using 2(2)[OF False u refl refl refl] 2(5) v
          by (simp add: parse_time_loop_unit[OF False u] time_ref_unit[OF False u] term_scale_def)
      next
        case big: False
        then show ?thesis
          using time_ref_grows[of 0 is_sec st "tot + ?v" valid ?q]
          by (auto simp: parse_time_loop_unit[OF False u] time_ref_unit[OF False u]
              split: option.split)
      qed
    qed
  qed
qed

section \<open>Properties\<close>

text \<open>The suffix of a size: what is left of the digits, and the scale.\<close>

definition size_suffix :: "bytes \<Rightarrow> bytes \<times> int" where
  "size_suffix line =
    (if line = [] then (line, 1)
     else if last line \<in> {ch_K, ch_k} then (butlast line, 1024)
     else if last line \<in> {ch_M, ch_m} then (butlast line, 1048576)
     else (line, 1))"

definition offset_suffix :: "bytes \<Rightarrow> bytes \<times> int" where
  "offset_suffix line =
    (if line \<noteq> [] \<and> last line \<in> {ch_G, ch_g} then (butlast line, 1073741824) else size_suffix line)"

definition scaled_value :: "bytes \<times> int \<Rightarrow> int" where
  "scaled_value t =
    (case t of (s, scale) \<Rightarrow>
       if s \<noteq> [] \<and> list_all is_digit s \<and> dec_value s * scale \<le> NGX_MAX_INT_T_VALUE
       then dec_value s * scale else NGX_ERROR_INT)"

lemma dec_value_nonneg: "list_all is_digit s \<Longrightarrow> 0 \<le> dec_value s"
  using dec_fold_grows[of 0 s] by (simp add: dec_value_def)

lemma ato_exact:
  "f \<in> {ngx_atosz, ngx_atoof} \<Longrightarrow> f s =
     (if s \<noteq> [] \<and> list_all is_digit s \<and> dec_value s \<le> NGX_MAX_INT_T_VALUE
      then dec_value s else NGX_ERROR_INT)"
  using decimal.loop_exact[of 0 s]
  by (auto simp: ngx_atosz_def ngx_atoof_def all_dec_digit dec_fold dec_value_def)

lemma scaled_exact:
  assumes "1 \<le> scale" and "f \<in> {ngx_atosz, ngx_atoof}"
  shows "(if f s = NGX_ERROR_INT \<or> f s > NGX_MAX_INT_T_VALUE div scale then NGX_ERROR_INT else f s * scale) =
    scaled_value (s, scale)"
proof -
  have "0 < scale" using assms(1) by simp
  have "dec_value s \<le> NGX_MAX_INT_T_VALUE div scale \<longleftrightarrow> dec_value s * scale \<le> NGX_MAX_INT_T_VALUE"
    using \<open>0 < scale\<close> by (rule le_div_int)
  moreover have "list_all is_digit s \<Longrightarrow> dec_value s * scale \<le> NGX_MAX_INT_T_VALUE \<Longrightarrow> dec_value s \<le> NGX_MAX_INT_T_VALUE"
    using dec_value_nonneg[of s] assms(1) mult_left_mono[of 1 scale "dec_value s"] by simp
  moreover have "list_all is_digit s \<Longrightarrow> dec_value s \<noteq> NGX_ERROR_INT" using dec_value_nonneg[of s] by auto
  ultimately show ?thesis by (auto simp: ato_exact[OF assms(2)] scaled_value_def)
qed

text \<open>
  Sizes and offsets are exact: the digits times the suffix's scale, if that fits in the result, and
  NGX_ERROR otherwise. The guard before the multiplication refuses exactly the products that would
  overflow.
\<close>

theorem parse_size_offset_exact:
  "ngx_parse_size line = scaled_value (size_suffix line) \<and>
   ngx_parse_offset line = scaled_value (offset_suffix line)"
proof (cases "line = []")
  case True
  then show ?thesis
    by (simp add: ngx_parse_size_def ngx_parse_offset_def size_suffix_def offset_suffix_def scaled_value_def)
next
  case False
  have cut: "take (length line - 1) line = butlast line" by (simp add: butlast_conv_take)
  have size: "ngx_parse_size line = (case size_suffix line of (s, scale) \<Rightarrow>
      if ngx_atosz s = NGX_ERROR_INT \<or> ngx_atosz s > NGX_MAX_INT_T_VALUE div scale then NGX_ERROR_INT
      else ngx_atosz s * scale)"
    using False cut by (simp add: ngx_parse_size_def size_suffix_def Let_def)
  have offset: "ngx_parse_offset line = (case offset_suffix line of (s, scale) \<Rightarrow>
      if ngx_atoof s = NGX_ERROR_INT \<or> ngx_atoof s > NGX_MAX_INT_T_VALUE div scale then NGX_ERROR_INT
      else ngx_atoof s * scale)"
    using False cut by (simp add: ngx_parse_offset_def offset_suffix_def size_suffix_def Let_def)
  have "1 \<le> snd (size_suffix line)" "1 \<le> snd (offset_suffix line)"
    by (simp_all add: size_suffix_def offset_suffix_def)
  then show ?thesis
    unfolding size offset by (simp add: scaled_exact case_prod_beta)
qed

text \<open>
  Times are exact: the parser returns the sum the grammar defines over unbounded integers whenever
  that sum fits in the signed 64-bit result, and NGX_ERROR when the text is not a time or the sum is
  too large. None of the four overflow guards refuses a time that would fit.
\<close>

theorem parse_time_exact:
  "ngx_parse_time line is_sec =
    (case time_ref is_sec (if is_sec then st_start else st_month) 0 0 False line of
       None \<Rightarrow> NGX_ERROR_INT
     | Some t \<Rightarrow> if t \<le> NGX_MAX_INT_T_VALUE then t else NGX_ERROR_INT)"
  by (simp add: ngx_parse_time_def parse_time_loop_exact)

end
