(* ===== verification/NgxPrintf.thy ===== *)
theory NgxPrintf
  imports NgxCodec
begin

text \<open>
  The formatted output of \<^verbatim>\<open>src/core/ngx_string.c\<close>: \<^verbatim>\<open>ngx_vslprintf\<close> with its directives, flags and widths, the
  printing of numbers and strings it uses, and the copy of a UTF-8 string by characters. The output is the list of the
  octets written from \<^verbatim>\<open>buf\<close> on, \<open>room\<close> is \<^verbatim>\<open>last - buf\<close>; several stores are made without a test, and the result says
  nothing of the room unless it is proved. The result None is what C leaves undefined: an argument that is missing or of
  another type, a read past the end of the format or of a string.
\<close>

section \<open>Numbers\<close>

text \<open>The digits are stored from the end of \<^verbatim>\<open>temp\<close> downwards; \<open>p\<close> is what is stored so far.\<close>

function dec_loop :: "nat \<Rightarrow> bytes \<Rightarrow> bytes" where
  "dec_loop n p =
    (let p = (word_of_nat (n mod 10) + ch_0) # p in if n div 10 \<noteq> 0 then dec_loop (n div 10) p else p)"
  by pat_completeness auto

termination dec_loop by (relation "measure fst") auto

function hex_loop :: "bytes \<Rightarrow> u64 \<Rightarrow> bytes \<Rightarrow> bytes" where
  "hex_loop HEX n p =
    (let p = HEX ! unat (n AND 0xf) # p in if drop_bit 4 n \<noteq> 0 then hex_loop HEX (drop_bit 4 n) p else p)"
  by pat_completeness auto

lemma unat_shift4: "unat (drop_bit 4 n) = unat (n :: u64) div 16"
  by (subst unat_drop_bit_eq) (simp add: drop_bit_eq_div)

lemma unat_low4: "unat (n AND 0xf) = unat (n :: u64) mod 16"
proof -
  have "n AND 0xf = take_bit 4 n" by (simp add: take_bit_eq_mask mask_numeral)
  then have "unat (n AND 0xf) = take_bit 4 (unat n)" by (simp only: unsigned_take_bit_eq)
  then show ?thesis by (simp only: take_bit_eq_mod) simp
qed

lemma shift4_zero: "drop_bit 4 n = 0 \<longleftrightarrow> unat (n :: u64) div 16 = 0"
  by (simp add: word_unat_eq_iff unat_shift4)

termination hex_loop
  by (relation "measure (\<lambda>(HEX, n, p). unat n)") (auto simp: shift4_zero unat_shift4)

declare dec_loop.simps [simp del] hex_loop.simps [simp del]

abbreviation NGX_MAX_UINT32_VALUE :: u64 where "NGX_MAX_UINT32_VALUE \<equiv> 0xffffffff"
abbreviation NGX_INT64_LEN :: nat where "NGX_INT64_LEN \<equiv> 20"

definition num_digits :: "u64 \<Rightarrow> nat \<Rightarrow> bytes" where
  "num_digits ui64 hexadecimal =
    (if hexadecimal = 0 then
       if ui64 \<le> NGX_MAX_UINT32_VALUE then dec_loop (unat (ucast ui64 :: u32)) [] else dec_loop (unat ui64) []
     else if hexadecimal = 1 then hex_loop hex_lower ui64 []
     else hex_loop hex_upper ui64 [])"

function num_pad :: "nat \<Rightarrow> nat \<Rightarrow> nat \<Rightarrow> u_char \<Rightarrow> bytes" where
  "num_pad len width room zero =
    (if len < width \<and> 0 < room then zero # num_pad (len + 1) width (room - 1) zero else [])"
  by pat_completeness auto

termination num_pad by (relation "measure (\<lambda>(len, width, room, zero). room)") auto

declare num_pad.simps [simp del]

definition ngx_sprintf_num :: "nat \<Rightarrow> u64 \<Rightarrow> u_char \<Rightarrow> nat \<Rightarrow> nat \<Rightarrow> bytes" where
  "ngx_sprintf_num room ui64 zero hexadecimal width =
    (let p = num_digits ui64 hexadecimal;
         pad = num_pad (length p) width room zero
     in pad @ take (room - length pad) p)"

section \<open>Strings\<close>

text \<open>
  A string argument is the memory it points to; a length of \<^verbatim>\<open>(size_t) -1\<close> asks for the octets up to the zero, which
  follows the list when it holds none.
\<close>

fun str_hex :: "bytes \<Rightarrow> nat \<Rightarrow> bytes \<Rightarrow> bytes" where
  "str_hex HEX room [] = []"
| "str_hex HEX room (c # src) =
    (if c \<noteq> ch_NUL \<and> 1 < room
     then HEX ! unat (drop_bit 4 c) # HEX ! unat (c AND 0xf) # str_hex HEX (room - 2) src else [])"

fun mem_hex :: "bytes \<Rightarrow> nat \<Rightarrow> nat \<Rightarrow> bytes \<Rightarrow> bytes option" where
  "mem_hex HEX room 0 src = Some []"
| "mem_hex HEX room (Suc len) src =
    (if 1 < room
     then case src of
            [] \<Rightarrow> None
          | c # src \<Rightarrow> map_option (\<lambda>out. HEX ! unat (drop_bit 4 c) # HEX ! unat (c AND 0xf) # out)
              (mem_hex HEX (room - 2) len src)
     else Some [])"

definition ngx_sprintf_str :: "nat \<Rightarrow> bytes \<Rightarrow> u64 \<Rightarrow> nat \<Rightarrow> bytes option" where
  "ngx_sprintf_str room src len hexadecimal =
    (let HEX = (if hexadecimal = 1 then hex_lower else hex_upper) in
     if hexadecimal = 0 then
       if len = - 1 then Some (take room (takeWhile (\<lambda>c. c \<noteq> ch_NUL) src))
       else let len = min room (unat len) in if len \<le> length src then Some (take len src) else None
     else if len = - 1 then Some (str_hex HEX room src)
     else mem_hex HEX room (unat len) src)"

section \<open>The directives\<close>

text \<open>
  An argument as \<^verbatim>\<open>va_arg\<close> finds it: a 64-bit slot, a pointer to octets, to an \<^verbatim>\<open>ngx_str_t\<close> or \<^verbatim>\<open>ngx_variable_value_t\<close> with
  its length, or a double. Floating-point arithmetic is the machine's: a double comes as its sign, the integer part
  \<^verbatim>\<open>(int64_t) f\<close> of its absolute value, and \<^verbatim>\<open>(uint64_t) ((f - (double) ui64) * scale + 0.5)\<close> as a function of \<^verbatim>\<open>scale\<close>.
\<close>

datatype print_arg =
    Arg_int u64
  | Arg_str bytes
  | Arg_ngx_str bytes u64
  | Arg_double bool u64 "u64 \<Rightarrow> u64"

record print_conv =
  pc_zero :: u_char
  pc_width :: u64
  pc_sign :: bool
  pc_hex :: nat
  pc_max_width :: bool
  pc_frac_width :: u64
  pc_slen :: u64

fun print_width :: "bytes \<Rightarrow> u64 \<Rightarrow> bytes \<times> u64" where
  "print_width [] width = ([], width)"
| "print_width (c # fmt) width =
    (if is_digit c then print_width fmt (width * 10 + ucast (c - ch_0)) else (c # fmt, width))"

fun print_flags :: "bytes \<Rightarrow> print_arg list \<Rightarrow> print_conv \<Rightarrow> (bytes \<times> print_arg list \<times> print_conv) option" where
  "print_flags [] args cv = Some ([], args, cv)"
| "print_flags (c # fmt) args cv =
    (if c = 0x75 then print_flags fmt args (cv\<lparr>pc_sign := False\<rparr>)
     else if c = 0x6d then print_flags fmt args (cv\<lparr>pc_max_width := True\<rparr>)
     else if c = 0x58 then print_flags fmt args (cv\<lparr>pc_hex := 2, pc_sign := False\<rparr>)
     else if c = 0x78 then print_flags fmt args (cv\<lparr>pc_hex := 1, pc_sign := False\<rparr>)
     else if c = ch_dot then
       (case print_width fmt 0 of (fmt, n) \<Rightarrow> Some (fmt, args, cv\<lparr>pc_frac_width := n\<rparr>))
     else if c = ch_star then
       (case args of Arg_int n # args \<Rightarrow> print_flags fmt args (cv\<lparr>pc_slen := n\<rparr>) | _ \<Rightarrow> None)
     else Some (c # fmt, args, cv))"

abbreviation NGX_INT_T_LEN :: u64 where "NGX_INT_T_LEN \<equiv> 20"
abbreviation NGX_ATOMIC_T_LEN :: u64 where "NGX_ATOMIC_T_LEN \<equiv> 20"

text \<open>
  The integer directives: what they set of the conversion, and the 64 bits to print. \<^verbatim>\<open>int\<close> and \<^verbatim>\<open>ngx_pid_t\<close> have 32 bits,
  which are extended by their sign; \<^verbatim>\<open>u_int\<close> is extended by zeros.
\<close>

definition sint32 :: "u64 \<Rightarrow> u64" where
  "sint32 n = scast (ucast n :: u32)"

definition print_int :: "u_char \<Rightarrow> print_conv \<Rightarrow> u64 \<Rightarrow> print_conv \<times> u64" where
  "print_int c cv n =
    (if c \<in> {0x4f, 0x54, 0x72} then (cv\<lparr>pc_sign := True\<rparr>, n)
     else if c = 0x50 then (cv\<lparr>pc_sign := True\<rparr>, sint32 n)
     else if c = 0x4d then (cv\<lparr>pc_sign := (n = - 1)\<rparr>, n)
     else if c \<in> {0x7a, 0x6c, 0x4c} then (cv, n)
     else if c = 0x69 then (if pc_max_width cv then cv\<lparr>pc_width := NGX_INT_T_LEN\<rparr> else cv, n)
     else if c = 0x41 then (if pc_max_width cv then cv\<lparr>pc_width := NGX_ATOMIC_T_LEN\<rparr> else cv, n)
     else if c \<in> {0x64, 0x44} then (cv, if pc_sign cv then sint32 n else ucast (ucast n :: u32))
     else (cv\<lparr>pc_hex := 2, pc_sign := False, pc_zero := ch_0, pc_width := 16\<rparr>, n))"

definition int_directives :: bytes where
  "int_directives = octets ''OTrPMzlLiAdDp''"

definition print_signed :: "nat \<Rightarrow> print_conv \<Rightarrow> u64 \<Rightarrow> bytes" where
  "print_signed room cv i64 =
    (if pc_sign cv \<and> sint i64 < 0
     then ch_minus # ngx_sprintf_num (room - 1) (- i64) (pc_zero cv) (pc_hex cv) (unat (pc_width cv))
     else ngx_sprintf_num room i64 (pc_zero cv) (pc_hex cv) (unat (pc_width cv)))"

definition print_double :: "nat \<Rightarrow> print_conv \<Rightarrow> bool \<Rightarrow> u64 \<Rightarrow> (u64 \<Rightarrow> u64) \<Rightarrow> bytes" where
  "print_double room cv neg ui64 frac_of =
    (let minus = (if neg then [ch_minus] else []);
         scale = 10 ^ unat (pc_frac_width cv);
         frac = (if pc_frac_width cv = 0 then 0 else frac_of scale);
         (ui64, frac) = (if pc_frac_width cv \<noteq> 0 \<and> frac = scale then (ui64 + 1, 0) else (ui64, frac));
         num = ngx_sprintf_num (room - length minus) ui64 (pc_zero cv) 0 (unat (pc_width cv));
         out = minus @ num
     in if pc_frac_width cv = 0 then out
        else let out = out @ (if length out < room then [ch_dot] else [])
             in out @ ngx_sprintf_num (room - length out) frac ch_0 0 (unat (pc_frac_width cv)))"

text \<open>One directive, after its flags: what is written and the arguments left.\<close>

definition print_conversion ::
  "nat \<Rightarrow> u_char \<Rightarrow> print_conv \<Rightarrow> print_arg list \<Rightarrow> (bytes \<times> print_arg list) option" where
  "print_conversion room c cv args =
    (if c \<in> {0x56, 0x76} then
       (case args of Arg_ngx_str src len # args \<Rightarrow>
          map_option (\<lambda>out. (out, args)) (ngx_sprintf_str room src len (pc_hex cv)) | _ \<Rightarrow> None)
     else if c = 0x73 then
       (case args of Arg_str src # args \<Rightarrow>
          map_option (\<lambda>out. (out, args)) (ngx_sprintf_str room src (pc_slen cv) (pc_hex cv)) | _ \<Rightarrow> None)
     else if c \<in> set int_directives then
       (case args of Arg_int n # args \<Rightarrow>
          (case print_int c cv n of (cv, i64) \<Rightarrow> Some (print_signed room cv i64, args)) | _ \<Rightarrow> None)
     else if c = 0x66 then
       (case args of Arg_double neg ui64 frac_of # args \<Rightarrow>
          Some (print_double room cv neg ui64 frac_of, args) | _ \<Rightarrow> None)
     else if c = 0x63 then
       (case args of Arg_int d # args \<Rightarrow> Some ([ucast d], args) | _ \<Rightarrow> None)
     else if c = ch_Z then Some ([ch_NUL], args)
     else if c = 0x4e then Some ([LF], args)
     else Some ([c], args))"

text \<open>A directive from the octet after the percent sign on. The default case copies an octet of the format and steps over it.\<close>

definition print_directive ::
  "nat \<Rightarrow> bytes \<Rightarrow> print_arg list \<Rightarrow> (bytes \<times> bytes \<times> print_arg list) option" where
  "print_directive room fmt args =
    (let zero = (if fmt \<noteq> [] \<and> hd fmt = ch_0 then ch_0 else ch_space);
         (fmt, width) = print_width fmt 0
     in case print_flags fmt args \<lparr>pc_zero = zero, pc_width = width, pc_sign = True, pc_hex = 0,
            pc_max_width = False, pc_frac_width = 0, pc_slen = - 1\<rparr> of
          Some (c # fmt, args, cv) \<Rightarrow>
            if c = ch_NUL then None
            else map_option (\<lambda>(out, args). (out, fmt, args)) (print_conversion room c cv args)
        | _ \<Rightarrow> None)"

function ngx_vslprintf :: "nat \<Rightarrow> bytes \<Rightarrow> print_arg list \<Rightarrow> bytes option" where
  "ngx_vslprintf room [] args = Some []"
| "ngx_vslprintf room (c # fmt) args =
    (if c = ch_NUL \<or> room = 0 then Some []
     else if c = ch_percent then
       (case print_directive room fmt args of
          None \<Rightarrow> None
        | Some (out, fmt, args) \<Rightarrow> map_option (\<lambda>rest. out @ rest) (ngx_vslprintf (room - length out) fmt args))
     else map_option (\<lambda>rest. c # rest) (ngx_vslprintf (room - 1) fmt args))"
  by pat_completeness auto

lemma print_width_shrinks: "print_width fmt w = (fmt', w') \<Longrightarrow> length fmt' \<le> length fmt"
  by (induction fmt w rule: print_width.induct) (auto split: if_splits)

lemma print_flags_shrinks: "print_flags fmt args cv = Some (fmt', r) \<Longrightarrow> length fmt' \<le> length fmt"
  by (induction fmt args cv rule: print_flags.induct)
    (auto split: if_splits prod.splits list.splits print_arg.splits dest!: print_width_shrinks)

lemma print_directive_shrinks: "print_directive room fmt args = Some (out, fmt', args') \<Longrightarrow> length fmt' < length fmt"
  by (auto simp: print_directive_def Let_def split: prod.splits option.splits list.splits if_splits
      dest!: print_flags_shrinks print_width_shrinks)

termination ngx_vslprintf
  by (relation "measure (\<lambda>(room, fmt, args). length fmt)") (auto dest: print_directive_shrinks)

definition ngx_slprintf :: "nat \<Rightarrow> nat \<Rightarrow> bytes \<Rightarrow> print_arg list \<Rightarrow> bytes option" where
  "ngx_slprintf buf lst fmt args = ngx_vslprintf (lst - buf) fmt args"

definition ngx_snprintf :: "nat \<Rightarrow> bytes \<Rightarrow> print_arg list \<Rightarrow> bytes option" where
  "ngx_snprintf room fmt args = ngx_vslprintf room fmt args"

definition ngx_sprintf :: "u64 \<Rightarrow> bytes \<Rightarrow> print_arg list \<Rightarrow> bytes option" where
  "ngx_sprintf buf fmt args = ngx_vslprintf (unat (- 1 - buf)) fmt args"

section \<open>Copying UTF-8 by characters\<close>

text \<open>
  The copy of at most \<open>n - 1\<close> characters and the final zero. \<open>len\<close>, a \<^verbatim>\<open>size_t\<close> that may wrap below zero, is only tested by
  \<^verbatim>\<open>ngx_utf8_decode\<close>, for which 0 is no limit, as the large values after a wrap are.
\<close>

fun utf8_cpystrn_loop :: "nat \<Rightarrow> bytes \<Rightarrow> nat \<Rightarrow> bytes" where
  "utf8_cpystrn_loop 0 src len = [ch_NUL]"
| "utf8_cpystrn_loop (Suc n) src len =
    (let c = c_head src in
     if c < 0x80 then if c \<noteq> ch_NUL then c # utf8_cpystrn_loop n (tl src) (len - 1) else [ch_NUL]
     else case ngx_utf8_decode src len of
            (u, k) \<Rightarrow> if u > 0x10ffff then [ch_NUL] else take k src @ utf8_cpystrn_loop n (drop k src) (len - k))"

definition ngx_utf8_cpystrn :: "bytes \<Rightarrow> nat \<Rightarrow> nat \<Rightarrow> bytes" where
  "ngx_utf8_cpystrn src n len = (if n = 0 then [] else utf8_cpystrn_loop (n - 1) src len)"

section \<open>What is written fits\<close>

lemma length_num_pad [simp]: "length (num_pad len width room zero) = min (width - len) room"
  by (induction len width room zero rule: num_pad.induct) (subst num_pad.simps, auto)

lemma num_pad_replicate: "num_pad len width room zero = replicate (min (width - len) room) zero"
proof (induction len width room zero rule: num_pad.induct)
  case (1 len width room zero)
  show ?case
  proof (cases "len < width \<and> 0 < room")
    case True
    then have "min (width - len) room = Suc (min (width - (len + 1)) (room - 1))" by auto
    then show ?thesis using 1 True by (subst num_pad.simps) simp
  qed (subst num_pad.simps, auto)
qed

lemma length_sprintf_num:
  "length (ngx_sprintf_num room n zero hex width) = min room (max width (length (num_digits n hex)))"
  by (auto simp: ngx_sprintf_num_def Let_def)

lemma str_hex_fits: "length (str_hex HEX room src) \<le> room"
  by (induction HEX room src rule: str_hex.induct) auto

lemma mem_hex_fits: "mem_hex HEX room len src = Some out \<Longrightarrow> length out \<le> room"
  by (induction HEX room len src arbitrary: out rule: mem_hex.induct) (fastforce split: if_splits list.splits)+

lemma sprintf_str_fits: "ngx_sprintf_str room src len hex = Some out \<Longrightarrow> length out \<le> room"
  by (auto simp: ngx_sprintf_str_def Let_def str_hex_fits split: if_splits dest: mem_hex_fits)

lemma print_signed_fits: "0 < room \<Longrightarrow> length (print_signed room cv n) \<le> room"
  by (simp add: print_signed_def length_sprintf_num) arith

lemma append_num_fits:
  "length out \<le> room \<Longrightarrow> length (out @ ngx_sprintf_num (room - length out) n zero hex width) \<le> room"
  by (simp add: length_sprintf_num)

lemma append_dot_fits: "length out \<le> room \<Longrightarrow> length (out @ (if length out < room then [c] else [])) \<le> room"
  by simp

lemma if_fits: "length a \<le> room \<Longrightarrow> length b \<le> room \<Longrightarrow> length (if c then a else b) \<le> room"
  by simp

lemma print_double_fits: "0 < room \<Longrightarrow> length (print_double room cv neg ui64 frac_of) \<le> room"
  unfolding print_double_def Let_def
  by (split prod.split, intro allI impI if_fits append_num_fits append_dot_fits) simp_all

lemma print_conversion_fits:
  "0 < room \<Longrightarrow> print_conversion room c cv args = Some (out, args') \<Longrightarrow> length out \<le> room"
  by (auto simp: print_conversion_def print_signed_fits print_double_fits
      split: if_splits list.splits print_arg.splits prod.splits dest: sprintf_str_fits)

lemma print_directive_fits:
  "0 < room \<Longrightarrow> print_directive room fmt args = Some (out, fmt', args') \<Longrightarrow> length out \<le> room"
  by (auto simp: print_directive_def Let_def split: prod.splits option.splits list.splits if_splits
      dest: print_conversion_fits)

lemma vslprintf_fits: "ngx_vslprintf room fmt args = Some out \<Longrightarrow> length out \<le> room"
proof (induction room fmt args arbitrary: out rule: ngx_vslprintf.induct)
  case (2 room c fmt args)
  show ?case
  proof (cases "c = ch_NUL \<or> room = 0")
    case False
    then have room: "0 < room" by simp
    show ?thesis
    proof (cases "c = ch_percent")
      case True
      with "2.prems" False obtain d fmt' args' rest where d: "print_directive room fmt args = Some (d, fmt', args')"
        and rest: "ngx_vslprintf (room - length d) fmt' args' = Some rest" "out = d @ rest"
        by (auto split: option.splits prod.splits)
      have "length rest \<le> room - length d" using "2.IH"(1) False True d rest(1) by auto
      then show ?thesis using print_directive_fits[OF room d] rest(2) by simp
    next
      case other: False
      then obtain rest where rest: "ngx_vslprintf (room - 1) fmt args = Some rest" "out = c # rest"
        using "2.prems" False by auto
      have "length rest \<le> room - 1" using "2.IH"(2)[OF False other] rest(1) by blast
      then show ?thesis using rest(2) room by simp
    qed
  qed (use "2.prems" in auto)
qed simp

section \<open>The arguments of a format\<close>

text \<open>
  What a format asks for: an integer, a double, a string up to its zero, a length and a string of at least that length, or
  a string with its length. The flags are read as the program reads them, the stars being counted.
\<close>

datatype arg_type = T_int | T_double | T_str | T_len_str | T_ngx_str

fun skip_digits :: "bytes \<Rightarrow> bytes" where
  "skip_digits [] = []"
| "skip_digits (c # fmt) = (if is_digit c then skip_digits fmt else c # fmt)"

fun skip_flags :: "bytes \<Rightarrow> nat \<times> bytes" where
  "skip_flags [] = (0, [])"
| "skip_flags (c # fmt) =
    (if c \<in> set (octets ''umXx'') then skip_flags fmt
     else if c = ch_star then (case skip_flags fmt of (stars, fmt) \<Rightarrow> (stars + 1, fmt))
     else if c = ch_dot then (0, skip_digits fmt) else (0, c # fmt))"

definition argument_of :: "u_char \<Rightarrow> arg_type list" where
  "argument_of c =
    (if c \<in> {0x56, 0x76} then [T_ngx_str] else if c = 0x73 then [T_str] else if c = 0x66 then [T_double]
     else if c \<in> set int_directives \<or> c = 0x63 then [T_int] else [])"

definition directive_types :: "nat \<Rightarrow> u_char \<Rightarrow> arg_type list" where
  "directive_types stars c =
    (if c = 0x73 \<and> 0 < stars then replicate (stars - 1) T_int @ [T_len_str]
     else replicate stars T_int @ argument_of c)"

lemma skip_digits_shrinks: "length (skip_digits fmt) \<le> length fmt"
  by (induction fmt) auto

lemma skip_flags_shrinks: "skip_flags fmt = (stars, fmt') \<Longrightarrow> length fmt' \<le> length fmt"
  by (induction fmt arbitrary: stars fmt' rule: skip_flags.induct)
    (auto split: if_splits prod.splits intro: le_SucI skip_digits_shrinks)

lemma skip_shrinks: "skip_flags (skip_digits fmt) = (stars, c # fmt') \<Longrightarrow> length fmt' < length fmt"
  using skip_flags_shrinks[of "skip_digits fmt" stars "c # fmt'"] skip_digits_shrinks[of fmt] by simp

function format_types :: "bytes \<Rightarrow> arg_type list option" where
  "format_types [] = Some []"
| "format_types (c # fmt) =
    (if c = ch_NUL then Some []
     else if c = ch_percent then
       (case skip_flags (skip_digits fmt) of
          (stars, c # fmt) \<Rightarrow>
            if c = ch_NUL then None else map_option (\<lambda>tys. directive_types stars c @ tys) (format_types fmt)
        | _ \<Rightarrow> None)
     else format_types fmt)"
  by pat_completeness auto

termination format_types
  by (relation "measure length") (auto dest!: skip_shrinks[OF sym])

fun args_match :: "arg_type list \<Rightarrow> print_arg list \<Rightarrow> bool" where
  "args_match [] args = True"
| "args_match (T_int # tys) (Arg_int n # args) = args_match tys args"
| "args_match (T_double # tys) (Arg_double neg n frac # args) = args_match tys args"
| "args_match (T_str # tys) (Arg_str s # args) = args_match tys args"
| "args_match (T_len_str # tys) (Arg_int n # Arg_str s # args) =
     ((n = - 1 \<or> unat n \<le> length s) \<and> args_match tys args)"
| "args_match (T_ngx_str # tys) (Arg_ngx_str s n # args) =
     ((n = - 1 \<or> unat n \<le> length s) \<and> args_match tys args)"
| "args_match tys args = False"

section \<open>Formats and their arguments agree\<close>

lemma print_width_skips: "fst (print_width fmt w) = skip_digits fmt"
  by (induction fmt w rule: print_width.induct) auto

lemma print_flags_skips:
  "skip_flags fmt = (length ns, fmt') \<Longrightarrow>
     \<exists>cv'. print_flags fmt (map Arg_int ns @ args) cv = Some (fmt', args, cv') \<and>
       pc_slen cv' = (if ns = [] then pc_slen cv else last ns)"
proof (induction fmt arbitrary: ns cv rule: skip_flags.induct)
  case (2 c fmt)
  consider "c \<in> set (octets ''umXx'')" | "c = ch_star" | "c = ch_dot"
    | "c \<notin> set (octets ''umXx'')" "c \<noteq> ch_star" "c \<noteq> ch_dot" by blast
  then show ?case
  proof cases
    case 1
    then have IH: "\<exists>cv'. print_flags fmt (map Arg_int ns @ args) cv = Some (fmt', args, cv') \<and>
        pc_slen cv' = (if ns = [] then pc_slen cv else last ns)" for cv
      using "2.IH"(1)[of ns cv] "2.prems" by simp
    show ?thesis
      using IH[of "cv\<lparr>pc_sign := False\<rparr>"] IH[of "cv\<lparr>pc_max_width := True\<rparr>"] IH[of "cv\<lparr>pc_hex := 2, pc_sign := False\<rparr>"]
        IH[of "cv\<lparr>pc_hex := 1, pc_sign := False\<rparr>"] 1 by auto
  next
    case 2
    then obtain n ns' where ns: "ns = n # ns'" "skip_flags fmt = (length ns', fmt')"
      using "2.prems" by (cases ns) (auto split: prod.splits)
    then show ?thesis using "2.IH"(2)[of ns' "cv\<lparr>pc_slen := n\<rparr>"] 2 by auto
  next
    case 3
    then show ?thesis using "2.prems" print_width_skips[of fmt 0] by (auto split: prod.splits)
  qed (use "2.prems" in auto)
qed auto

lemma args_match_ints:
  "args_match (replicate k T_int @ tys) args \<Longrightarrow>
     \<exists>ns rest. args = map Arg_int ns @ rest \<and> length ns = k \<and> args_match tys rest"
proof (induction k arbitrary: args)
  case (Suc k)
  then obtain n as where as: "args = Arg_int n # as" "args_match (replicate k T_int @ tys) as"
    by (cases args; cases "hd args") auto
  from Suc.IH[OF this(2)] obtain ns rest where "as = map Arg_int ns @ rest" "length ns = k" "args_match tys rest"
    by blast
  then show ?case using as by (intro exI[of _ "n # ns"]) simp
qed simp

lemma mem_hex_some: "len \<le> length src \<Longrightarrow> \<exists>out. mem_hex HEX room len src = Some out"
  by (induction HEX room len src rule: mem_hex.induct) (auto split: list.splits)

lemma sprintf_str_some: "n = - 1 \<or> unat n \<le> length s \<Longrightarrow> \<exists>out. ngx_sprintf_str room s n hex = Some out"
  by (auto simp: ngx_sprintf_str_def Let_def intro: mem_hex_some)

text \<open>The conversion of a directive whose stars have been read.\<close>

lemma print_conversion_some:
  assumes "args_match (argument_of c @ tys) args"
    and "c = 0x73 \<Longrightarrow> pc_slen cv = - 1"
  shows "\<exists>out args'. print_conversion room c cv args = Some (out, args') \<and> args_match tys args'"
proof -
  have ints: "0x73 \<notin> set int_directives" "0x66 \<notin> set int_directives" "0x56 \<notin> set int_directives"
    "0x76 \<notin> set int_directives" "0x63 \<notin> set int_directives" by (simp_all add: int_directives_def)
  consider (V) "c \<in> {0x56, 0x76}" | (S) "c = 0x73" | (F) "c = 0x66" | (I) "c \<in> set int_directives" | (C) "c = 0x63"
    | (other) "c \<notin> {0x56, 0x76}" "c \<noteq> 0x73" "c \<noteq> 0x66" "c \<notin> set int_directives" "c \<noteq> 0x63" by blast
  then show ?thesis
  proof cases
    case V
    then obtain s n as where "args = Arg_ngx_str s n # as" "n = - 1 \<or> unat n \<le> length s" "args_match tys as"
      using assms(1) ints by (cases "(T_ngx_str # tys, args)" rule: args_match.cases) (auto simp: argument_of_def)
    then show ?thesis using V sprintf_str_some[of n s room "pc_hex cv"] by (auto simp: print_conversion_def)
  next
    case S
    then obtain s as where "args = Arg_str s # as" "args_match tys as"
      using assms(1) ints by (cases "(T_str # tys, args)" rule: args_match.cases) (auto simp: argument_of_def)
    then show ?thesis
      using S assms(2) sprintf_str_some[of "- 1" s room "pc_hex cv"] by (auto simp: print_conversion_def)
  next
    case F
    then obtain neg n frac as where "args = Arg_double neg n frac # as" "args_match tys as"
      using assms(1) ints by (cases "(T_double # tys, args)" rule: args_match.cases) (auto simp: argument_of_def)
    then show ?thesis using F ints by (simp add: print_conversion_def)
  next
    case I
    then have "c \<notin> {0x56, 0x76}" "c \<noteq> 0x73" "c \<noteq> 0x66" using ints by auto
    moreover from this I obtain n as where "args = Arg_int n # as" "args_match tys as"
      using assms(1) ints by (cases "(T_int # tys, args)" rule: args_match.cases) (auto simp: argument_of_def)
    ultimately show ?thesis using I by (auto simp: print_conversion_def split: prod.split)
  next
    case C
    then obtain n as where "args = Arg_int n # as" "args_match tys as"
      using assms(1) ints by (cases "(T_int # tys, args)" rule: args_match.cases) (auto simp: argument_of_def)
    then show ?thesis using C ints by (simp add: print_conversion_def)
  next
    case other
    then show ?thesis using assms(1) by (simp add: print_conversion_def argument_of_def)
  qed
qed

lemma print_directive_some:
  assumes "skip_flags (skip_digits fmt) = (stars, c # fmt')" and "c \<noteq> ch_NUL"
    and "args_match (directive_types stars c @ tys) args"
  shows "\<exists>out args'. print_directive room fmt args = Some (out, fmt', args') \<and> args_match tys args'"
proof (cases "c = 0x73 \<and> 0 < stars")
  case True
  then have "args_match (replicate (stars - 1) T_int @ T_len_str # tys) args"
    using assms(3) by (auto simp: directive_types_def)
  then obtain ns rest where ns: "args = map Arg_int ns @ rest" "length ns = stars - 1" "args_match (T_len_str # tys) rest"
    using args_match_ints by blast
  obtain n s as where as: "rest = Arg_int n # Arg_str s # as" "n = - 1 \<or> unat n \<le> length s" "args_match tys as"
    using ns(3) by (cases "(T_len_str # tys, rest)" rule: args_match.cases) auto
  have "skip_flags (skip_digits fmt) = (length (ns @ [n]), c # fmt')" using assms(1) ns(2) True by simp
  from print_flags_skips[OF this, of "Arg_str s # as"] obtain f where f: "\<And>cv. print_flags (skip_digits fmt) args cv = Some (c # fmt', Arg_str s # as, f cv)"
    "\<And>cv. pc_slen (f cv) = n" using ns(1) as(1) by simp metis
  show ?thesis
    using f sprintf_str_some[OF as(2)] as(3) True print_width_skips[of fmt 0]
    by (auto simp: print_directive_def Let_def print_conversion_def split: prod.splits)
next
  case False
  then have m: "args_match (replicate stars T_int @ (argument_of c @ tys)) args"
    using assms(3) by (auto simp: directive_types_def)
  from args_match_ints[OF this] obtain ns rest where ns: "args = map Arg_int ns @ rest" "length ns = stars"
    and rest: "args_match (argument_of c @ tys) rest"
    by blast
  have "skip_flags (skip_digits fmt) = (length ns, c # fmt')" using assms(1) ns(2) by simp
  from print_flags_skips[OF this, of rest] obtain f where f: "\<And>cv. print_flags (skip_digits fmt) args cv = Some (c # fmt', rest, f cv)"
    "\<And>cv. pc_slen (f cv) = (if ns = [] then pc_slen cv else last ns)" using ns(1) by metis
  have some: "\<exists>out args'. print_conversion room c (f cv) rest = Some (out, args') \<and> args_match tys args'"
    if "pc_slen cv = - 1" for cv
    using print_conversion_some[OF rest, of "f cv" room] f(2) False ns(2) that by auto
  obtain w where w: "print_width fmt 0 = (skip_digits fmt, w)" using print_width_skips[of fmt 0] by (metis prod.collapse)
  show ?thesis
    using some[of "\<lparr>pc_zero = if fmt \<noteq> [] \<and> hd fmt = ch_0 then ch_0 else ch_space, pc_width = w, pc_sign = True, pc_hex = 0,
            pc_max_width = False, pc_frac_width = 0, pc_slen = - 1\<rparr>"] assms(2)
    by (auto simp: print_directive_def Let_def w f(1))
qed

section \<open>Printed numbers\<close>

lemma dec_loop_acc: "dec_loop n p = dec_loop n [] @ p"
proof (induction n arbitrary: p rule: less_induct)
  case (less n)
  let ?d = "word_of_nat (n mod 10) + ch_0 :: u_char"
  show ?case
    using less[of "n div 10" "?d # p"] less[of "n div 10" "[?d]"]
    by (subst (1 2) dec_loop.simps) (simp add: Let_def)
qed

lemma dec_loop_snoc:
  "dec_loop n [] = (if n < 10 then [] else dec_loop (n div 10) []) @ [word_of_nat (n mod 10) + ch_0]"
  by (subst dec_loop.simps) (simp add: Let_def dec_loop_acc[of "n div 10" "[_]"] div_eq_0_iff)

lemma digit_octet:
  assumes "n < 10"
  shows "is_digit (word_of_nat n + ch_0)" "uint (word_of_nat n + ch_0 :: u_char) - 48 = int n"
    "hex_digit (word_of_nat n + ch_0) = Some (int n)"
proof -
  have "is_digit (word_of_nat n + ch_0) \<and> uint (word_of_nat n + ch_0 :: u_char) - 48 = int n \<and>
      hex_digit (word_of_nat n + ch_0) = Some (int n)"
    by (rule below_16[of n "\<lambda>n. n < 10 \<longrightarrow> is_digit (word_of_nat n + ch_0) \<and> uint (word_of_nat n + ch_0 :: u_char) - 48 = int n \<and>
        hex_digit (word_of_nat n + ch_0) = Some (int n)", THEN mp])
      (use assms in \<open>simp_all add: is_digit_def hex_digit_def word_le_nat_alt\<close>)
  then show "is_digit (word_of_nat n + ch_0)" "uint (word_of_nat n + ch_0 :: u_char) - 48 = int n"
    "hex_digit (word_of_nat n + ch_0) = Some (int n)" by simp_all
qed

lemma dec_loop_digits: "list_all is_digit (dec_loop n [])"
proof (induction n rule: less_induct)
  case (less n)
  then show ?case by (subst dec_loop_snoc) (auto simp: digit_octet)
qed

lemma dec_loop_value: "dec_value (dec_loop n []) = int n"
proof (induction n rule: less_induct)
  case (less n)
  then have "10 \<le> n \<Longrightarrow> dec_value (dec_loop (n div 10) []) = int (n div 10)" by simp
  then show ?case
    by (subst dec_loop_snoc) (auto simp: dec_value_def digit_octet zdiv_int zmod_int)
qed

lemma dec_loop_not_Nil: "dec_loop n [] \<noteq> []"
  by (subst dec_loop_snoc) simp

lemma dec_loop_length: "n < 10 ^ Suc k \<Longrightarrow> length (dec_loop n []) \<le> Suc k"
proof (induction k arbitrary: n)
  case (Suc k)
  then have "n div 10 < 10 ^ Suc k" by (simp add: div_less_iff_less_mult)
  then show ?case using Suc.IH[of "n div 10"] by (subst dec_loop_snoc) simp
qed (subst dec_loop_snoc, simp)

lemma hex_loop_acc: "hex_loop H n p = hex_loop H n [] @ p"
proof (induction "unat n" arbitrary: n p rule: less_induct)
  case less
  have "unat (drop_bit 4 n) < unat n" if "drop_bit 4 n \<noteq> 0" using that by (auto simp: shift4_zero unat_shift4)
  then show ?case
    using less[of "drop_bit 4 n" "H ! unat (n AND 0xf) # p"] less[of "drop_bit 4 n" "[H ! unat (n AND 0xf)]"]
    by (subst (1 2) hex_loop.simps) (simp add: Let_def)
qed

lemma hex_loop_snoc:
  "hex_loop H n [] = (if drop_bit 4 n = 0 then [] else hex_loop H (drop_bit 4 n) []) @ [H ! (unat n mod 16)]"
  by (subst hex_loop.simps) (simp add: Let_def hex_loop_acc[of H "drop_bit 4 n" "[_]"] unat_low4)

lemma hex_upper_digit: "n < 16 \<Longrightarrow> hex_digit (hex_upper ! n) = Some (int n)"
  by (erule below_16) (simp add: hex_upper_def hex_digit_def is_digit_def word_le_nat_alt)

lemma hex_loop_reads:
  assumes "\<And>n. n < 16 \<Longrightarrow> hex_digit (H ! n) = Some (int n)"
  shows "list_all (\<lambda>c. hex_digit c \<noteq> None) (hex_loop H n []) \<and>
     foldl (\<lambda>v c. v * 16 + the (hex_digit c)) 0 (hex_loop H n []) = uint n"
proof (induction "unat n" arbitrary: n rule: less_induct)
  case less
  have small: "unat (drop_bit 4 n) < unat n" if "drop_bit 4 n \<noteq> 0" using that by (auto simp: shift4_zero unat_shift4)
  have uint: "uint n = int (unat n)" for n :: u64 by simp
  have "int (unat (drop_bit 4 n)) * 16 + int (unat n mod 16) = int (unat n)" by (simp add: unat_shift4 zdiv_int zmod_int)
  moreover have "the (hex_digit (H ! (unat n mod 16))) = int (unat n mod 16)" "hex_digit (H ! (unat n mod 16)) \<noteq> None"
    using assms[of "unat n mod 16"] by simp_all
  ultimately show ?case
    using less[of "drop_bit 4 n", OF small]
    by (cases "drop_bit 4 n = 0"; subst (1 2) hex_loop_snoc) (simp_all only: uint, simp_all add: shift4_zero)
qed

lemma hex_loop_length: "unat n < 16 ^ Suc k \<Longrightarrow> length (hex_loop H n []) \<le> Suc k"
proof (induction k arbitrary: n)
  case 0
  then have "drop_bit 4 n = 0" by (simp add: shift4_zero)
  then show ?case by (subst hex_loop_snoc) simp
next
  case (Suc k)
  then have "unat (drop_bit 4 n) < 16 ^ Suc k" by (simp add: unat_shift4 div_less_iff_less_mult)
  then show ?case using Suc.IH[of "drop_bit 4 n"] by (subst hex_loop_snoc) simp
qed

lemma hex_loop_not_Nil: "hex_loop H n [] \<noteq> []"
  by (subst hex_loop_snoc) simp

text \<open>The digits stored in \<^verbatim>\<open>temp\<close> are at most as many as it holds.\<close>

lemma num_digits_dec: "num_digits n 0 = dec_loop (unat n) []"
proof (cases "n \<le> NGX_MAX_UINT32_VALUE")
  case True
  then have "unat n < 2 ^ 32" by (simp add: word_le_nat_alt)
  then have "unat (ucast n :: u32) = unat n" by (simp add: unsigned_ucast_eq take_bit_nat_eq_self)
  then show ?thesis using True by (simp add: num_digits_def)
qed (simp add: num_digits_def)

lemma num_digits_temp: "length (num_digits n hex) \<le> NGX_INT64_LEN"
proof -
  have "unat n < 10 ^ Suc 19" "unat n < 16 ^ Suc 15" using unsigned_less[of n, where ?'a = nat] by simp_all
  from dec_loop_length[OF this(1)] hex_loop_length[OF this(2)] show ?thesis
    by (cases "hex = 0") (auto simp: num_digits_dec, auto simp: num_digits_def intro: le_trans[of _ 16])
qed

lemma all_replicate: "P c \<Longrightarrow> list_all P (replicate k c)"
  by (induction k) simp_all

lemma zero_digit: "is_digit ch_0" "hex_digit ch_0 = Some 0"
  by (simp_all add: is_digit_def hex_digit_def)

lemma dec_value_zeros: "dec_value (replicate k ch_0 @ s) = dec_value s"
  by (induction k) (simp_all add: dec_value_def)

lemma hex_value_zeros:
  "foldl (\<lambda>v c. v * 16 + the (hex_digit c)) 0 (replicate k ch_0 @ s) = foldl (\<lambda>v c. v * 16 + the (hex_digit c)) (0 :: int) s"
  by (induction k) (simp_all add: hex_digit_def is_digit_def)

text \<open>With enough room a number is its digits behind the padding.\<close>

lemma sprintf_num_full:
  "max width 20 \<le> room \<Longrightarrow> ngx_sprintf_num room n zero hex width =
     replicate (width - length (num_digits n hex)) zero @ num_digits n hex"
  using num_digits_temp[of n hex] by (auto simp: ngx_sprintf_num_def Let_def num_pad_replicate min_absorb1)

lemma ato_printed:
  "max width 20 \<le> room \<Longrightarrow>
     ngx_atoi (ngx_sprintf_num room n ch_0 0 width) = (if uint n \<le> NGX_MAX_INT_T_VALUE then uint n else NGX_ERROR_INT)"
  using decimal.loop_exact[of 0 "ngx_sprintf_num room n ch_0 0 width"] dec_loop_digits[of "unat n"] dec_loop_not_Nil[of "unat n"]
    dec_value_zeros[of "width - length (dec_loop (unat n) [])" "dec_loop (unat n) []"] dec_loop_value[of "unat n"]
  by (auto simp: ngx_atoi_def sprintf_num_full num_digits_dec all_dec_digit dec_fold dec_value_def all_replicate zero_digit
      simp del: foldl_append split: if_splits)

lemma hextoi_printed:
  assumes "max width 20 \<le> room" and "hex \<noteq> 0"
  shows "ngx_hextoi (ngx_sprintf_num room n ch_0 hex width) =
     (if uint n \<le> NGX_MAX_INT_T_VALUE then uint n else NGX_ERROR_INT)"
proof -
  define H where "H = (if hex = 1 then hex_lower else hex_upper)"
  have d: "num_digits n hex = hex_loop H n []" using assms(2) by (simp add: num_digits_def H_def)
  have H: "hex_digit (H ! k) = Some (int k)" if "k < 16" for k using that by (simp add: H_def hex_lower_digit hex_upper_digit)
  show ?thesis
    using hex_loop_reads[OF H, of n] hex_loop_not_Nil[of H n]
    by (auto simp: hextoi_exact sprintf_num_full[OF assms(1)] d hex_value_zeros Let_def all_replicate zero_digit
        simp del: foldl_append)
qed

text \<open>The width of a directive is read as it was printed.\<close>

lemma print_width_digits:
  "list_all is_digit ds \<Longrightarrow> print_width (ds @ rest) w = print_width rest (foldl (\<lambda>w c. w * 10 + ucast (c - ch_0)) w ds)"
  by (induction ds arbitrary: w) simp_all

lemma uint_sub_digit: "is_digit c \<Longrightarrow> uint (c - ch_0) = uint c - 48"
  by (induction c rule: all_octets) (simp add: octet_list_eq is_digit_def word_le_nat_alt)

lemma width_fold:
  "list_all is_digit ds \<Longrightarrow> foldl (\<lambda>w c. w * 10 + ucast (c - ch_0)) (word_of_int v :: u64) ds =
     word_of_int (foldl (\<lambda>v c. v * 10 + (uint c - 48)) v ds)"
proof (induction ds arbitrary: v)
  case (Cons c ds)
  have "uint (c - ch_0) = uint c - 48"
    using Cons.prems by (intro uint_sub_digit) simp
  then have "(ucast (c - ch_0) :: u64) = word_of_int (uint c - 48)"
    by (simp only: ucast_eq)
  then have "word_of_int v * 10 + ucast (c - ch_0) = (word_of_int (v * 10 + (uint c - 48)) :: u64)"
    by (simp only: of_int_add of_int_mult of_int_numeral)
  then show ?case using Cons.IH[of "v * 10 + (uint c - 48)"] Cons.prems by (simp only: list.pred_inject foldl.simps simp_thms)
qed (simp only: foldl.simps)

lemma print_width_printed:
  assumes "fmt = [] \<or> \<not> is_digit (hd fmt)"
  shows "print_width (dec_loop (unat w) [] @ fmt) 0 = (fmt, w)"
proof -
  have "print_width fmt x = (fmt, x)" for x using assms by (cases fmt) auto
  then show ?thesis
    using print_width_digits[OF dec_loop_digits, of "unat w" fmt 0] width_fold[OF dec_loop_digits, of 0 "unat w"]
      dec_loop_value[of "unat w"]
    by (simp add: dec_value_def)
qed

section \<open>Formats, directive by directive\<close>

text \<open>What the octets and directives of a literal format print, when there is room.\<close>

lemma vsl_end [simp]: "ngx_vslprintf room [] args = Some []"
  by simp

lemma vsl_plain:
  "c \<noteq> ch_NUL \<Longrightarrow> c \<noteq> ch_percent \<Longrightarrow> 0 < room \<Longrightarrow>
     ngx_vslprintf room (c # fmt) args = map_option (\<lambda>rest. c # rest) (ngx_vslprintf (room - 1) fmt args)"
  by simp

lemma takeWhile_no_NUL: "ch_NUL \<notin> set s \<Longrightarrow> takeWhile (\<lambda>c. c \<noteq> ch_NUL) s = s"
  by (induction s) auto

lemma vsl_s:
  "ch_NUL \<notin> set s \<Longrightarrow> length s \<le> room \<Longrightarrow> 0 < room \<Longrightarrow> ngx_vslprintf room (ch_percent # 0x73 # fmt) (Arg_str s # args) =
     map_option (\<lambda>rest. s @ rest) (ngx_vslprintf (room - length s) fmt args)"
  by (simp add: print_directive_def print_conversion_def ngx_sprintf_str_def is_digit_def Let_def takeWhile_no_NUL)

lemma vsl_V:
  "len = word_of_nat (length s) \<Longrightarrow> length s < 2 ^ 64 - 1 \<Longrightarrow> length s \<le> room \<Longrightarrow> 0 < room \<Longrightarrow>
     ngx_vslprintf room (ch_percent # 0x56 # fmt) (Arg_ngx_str s len # args) =
     map_option (\<lambda>rest. s @ rest) (ngx_vslprintf (room - length s) fmt args)"
proof -
  assume s: "len = word_of_nat (length s)" "length s < 2 ^ 64 - 1" "length s \<le> room" "0 < room"
  then have u: "unat len = length s" by (simp add: unsigned_of_nat take_bit_nat_eq_self)
  moreover have "unat (- 1 :: u64) = 2 ^ 64 - 1" by (simp add: unsigned_minus_1_eq_mask mask_eq_exp_minus_1)
  ultimately have "len \<noteq> - 1" using s(2) by (metis less_irrefl)
  then show ?thesis
    using s(2-) u by (simp add: print_directive_def print_conversion_def ngx_sprintf_str_def is_digit_def Let_def)
qed

lemma unat_small: "n < 2 ^ 63 \<Longrightarrow> unat (word_of_nat n :: u64) = n"
  by (simp add: unsigned_of_nat take_bit_nat_eq_self)

lemma sint_small: "n < 2 ^ 63 \<Longrightarrow> \<not> sint (word_of_nat n :: u64) < 0"
  by (simp add: signed_of_nat signed_take_bit_int_eq_self)

lemma print_signed_small:
  "n < 2 ^ 63 \<Longrightarrow> pc_hex cv = 0 \<Longrightarrow> max (unat (pc_width cv)) (length (dec_loop n [])) \<le> room \<Longrightarrow>
     print_signed room cv (word_of_nat n) =
       replicate (unat (pc_width cv) - length (dec_loop n [])) (pc_zero cv) @ dec_loop n []"
  using sint_small[of n] unat_small[of n]
  by (auto simp: print_signed_def ngx_sprintf_num_def Let_def num_pad_replicate num_digits_dec min_absorb1)

lemma vsl_O:
  "n < 2 ^ 63 \<Longrightarrow> length (dec_loop n []) \<le> room \<Longrightarrow> ngx_vslprintf room (ch_percent # 0x4f # fmt) (Arg_int (word_of_nat n) # args) =
     map_option (\<lambda>rest. dec_loop n [] @ rest) (ngx_vslprintf (room - length (dec_loop n [])) fmt args)"
  using dec_loop_not_Nil[of n] print_signed_small[of n _ room]
  by (cases "room = 0") (simp_all add: print_directive_def print_conversion_def print_int_def int_directives_def is_digit_def Let_def)

lemma sint32_small: "n < 2 ^ 31 \<Longrightarrow> sint32 (word_of_nat n) = word_of_nat n"
proof -
  assume "n < 2 ^ 31"
  then have "sint (word_of_nat n :: u32) = int n" by (simp add: signed_of_nat signed_take_bit_int_eq_self)
  moreover have "(ucast (word_of_nat n :: u64) :: u32) = word_of_nat n"
    using \<open>n < 2 ^ 31\<close> by (simp add: word_unat_eq_iff unsigned_ucast_eq unsigned_of_nat take_bit_nat_eq_self)
  ultimately show ?thesis by (simp add: sint32_def scast_eq)
qed

text \<open>A decimal digit and numbers of two and of four digits.\<close>

definition digit :: "nat \<Rightarrow> u_char" where
  "digit n = word_of_nat (n mod 10) + ch_0"

abbreviation two_digits :: "nat \<Rightarrow> bytes" where
  "two_digits n \<equiv> [digit (n div 10), digit n]"

abbreviation four_digits :: "nat \<Rightarrow> bytes" where
  "four_digits n \<equiv> [digit (n div 1000), digit (n div 100), digit (n div 10), digit n]"

lemma dec_loop_digit: "dec_loop n [] = (if n < 10 then [] else dec_loop (n div 10) []) @ [digit n]"
  by (subst dec_loop_snoc) (simp add: digit_def)

lemma dec_loop_two: "n < 100 \<Longrightarrow> replicate (2 - length (dec_loop n [])) ch_0 @ dec_loop n [] = two_digits n"
  by (subst (1 2) dec_loop_digit, subst (1 2) dec_loop_digit) (auto simp: digit_def)

lemma dec_loop_four: "1000 \<le> n \<Longrightarrow> n < 10000 \<Longrightarrow> dec_loop n [] = four_digits n"
  by (subst dec_loop_digit, subst dec_loop_digit, subst dec_loop_digit, subst dec_loop_digit)
    (auto simp flip: div_mult2_eq)

lemma vsl_directive:
  "0 < room \<Longrightarrow> print_directive room fmt args = Some (out, fmt', args') \<Longrightarrow> length out = k \<Longrightarrow>
     ngx_vslprintf room (ch_percent # fmt) args = map_option (\<lambda>rest. out @ rest) (ngx_vslprintf (room - k) fmt' args')"
  by simp

lemma vsl_02d:
  assumes "n < 100" and "2 \<le> room"
  shows "ngx_vslprintf room (ch_percent # ch_0 # 0x32 # 0x64 # fmt) (Arg_int (word_of_nat n) # args) =
     map_option (\<lambda>rest. two_digits n @ rest) (ngx_vslprintf (room - 2) fmt args)"
proof (rule vsl_directive)
  have "length (dec_loop n []) \<le> 2" using dec_loop_length[of n 1] assms(1) by simp
  then have "print_signed room cv (word_of_nat n) = two_digits n" if "pc_hex cv = 0" "pc_width cv = 2" "pc_zero cv = ch_0" for cv
    using print_signed_small[of n cv room] dec_loop_two[OF assms(1)] assms that by simp
  then show "print_directive room (ch_0 # 0x32 # 0x64 # fmt) (Arg_int (word_of_nat n) # args) = Some (two_digits n, fmt, args)"
    using sint32_small[of n] assms(1)
    by (simp add: print_directive_def print_conversion_def print_int_def int_directives_def is_digit_def Let_def)
qed (use assms in simp_all)

lemma vsl_4d:
  assumes "1000 \<le> n" and "n < 10000" and "4 \<le> room"
  shows "ngx_vslprintf room (ch_percent # 0x34 # 0x64 # fmt) (Arg_int (word_of_nat n) # args) =
     map_option (\<lambda>rest. four_digits n @ rest) (ngx_vslprintf (room - 4) fmt args)"
proof (rule vsl_directive)
  have "print_signed room cv (word_of_nat n) = four_digits n" if "pc_hex cv = 0" "pc_width cv = 4" for cv
    using print_signed_small[of n cv room] dec_loop_four[OF assms(1,2)] assms that by simp
  then show "print_directive room (0x34 # 0x64 # fmt) (Arg_int (word_of_nat n) # args) = Some (four_digits n, fmt, args)"
    using sint32_small[of n] assms(2)
    by (simp add: print_directive_def print_conversion_def print_int_def int_directives_def is_digit_def Let_def)
qed (use assms in simp_all)

lemmas vsl_formats = vsl_plain vsl_s vsl_V vsl_O vsl_02d vsl_4d

section \<open>Properties\<close>

text \<open>
  C37: Formatted output cannot go wrong when the arguments are those the format asks for, one for each directive and one more
  for each star, every string being as long as is asked: a result exists (no argument is taken as another type, neither the
  format nor a string is read past its end), and whatever the room, also none, the octets written fit in it,
  although the sign, the single characters and the plain octets are stored without a test of their own.
\<close>

theorem vslprintf_well_typed:
  assumes "format_types fmt = Some tys" and "args_match tys args"
  shows "\<exists>out. ngx_vslprintf room fmt args = Some out \<and> length out \<le> room"
proof -
  have "\<exists>out. ngx_vslprintf room fmt args = Some out" using assms
  proof (induction room fmt args arbitrary: tys rule: ngx_vslprintf.induct)
    case (2 room c fmt args)
    consider "c = ch_NUL \<or> room = 0" | "c = ch_percent" "\<not> (c = ch_NUL \<or> room = 0)"
      | "c \<noteq> ch_percent" "\<not> (c = ch_NUL \<or> room = 0)" by blast
    then show ?case
    proof cases
      case 2
      then obtain stars d fmt' tys' where f: "skip_flags (skip_digits fmt) = (stars, d # fmt')" "d \<noteq> ch_NUL"
        and tys: "format_types fmt' = Some tys'" "tys = directive_types stars d @ tys'"
        using "2.prems"(1) by (auto split: prod.splits list.splits if_splits)
      then obtain out args' where "print_directive room fmt args = Some (out, fmt', args')" "args_match tys' args'"
        using print_directive_some "2.prems"(2) by blast
      then show ?thesis using "2.IH"(1)[OF 2(2,1)] tys(1) 2 by fastforce
    next
      case 3
      then show ?thesis using "2.IH"(2)[OF 3(2,1)] "2.prems" by auto
    qed auto
  qed simp
  then show ?thesis using vslprintf_fits by blast
qed

theorem vslprintf_well_typed_witness:
  "\<exists>out. ngx_vslprintf 10 (octets ''%V: %*s, %05ui'')
     [Arg_ngx_str (octets ''abc'') 3, Arg_int 2, Arg_str (octets ''xyz''), Arg_int 42] = Some out \<and> length out \<le> 10"
  using vslprintf_well_typed[of "octets ''%V: %*s, %05ui''" "[T_ngx_str, T_len_str, T_int]"
      "[Arg_ngx_str (octets ''abc'') 3, Arg_int 2, Arg_str (octets ''xyz''), Arg_int 42]" 10]
  by (simp add: directive_types_def argument_of_def int_directives_def is_digit_def word_le_nat_alt)

text \<open>
  C38: Numbers survive printing: the decimal and both hexadecimal forms, zero-padded to any width that is itself printed
  into the format, have at least that width and are read back as the same number by ngx_atoi and ngx_hextoi, or
  refused when they exceed the signed 64-bit range of those.
\<close>

theorem printed_number_reads_back:
  fixes w n :: u64
  assumes "max (unat w) 20 \<le> room" and "(directive, reader) \<in> {(''ui'', ngx_atoi), (''xi'', ngx_hextoi), (''Xi'', ngx_hextoi)}"
  shows "\<exists>s. ngx_snprintf room (octets ''%0'' @ dec_loop (unat w) [] @ octets directive) [Arg_int n] = Some s \<and>
     unat w \<le> length s \<and> reader s = (if uint n \<le> NGX_MAX_INT_T_VALUE then uint n else NGX_ERROR_INT)"
proof -
  obtain hex :: nat where hex: "(directive, reader, hex) \<in> {(''ui'', ngx_atoi, 0), (''xi'', ngx_hextoi, 1), (''Xi'', ngx_hextoi, 2)}"
    using assms(2) by auto
  have "\<not> is_digit (hd (octets directive))" using hex by (auto simp: is_digit_def word_le_nat_alt)
  from print_width_printed[OF disjI2[OF this]]
  have w: "print_width (dec_loop (unat w) [] @ octets directive) 0 = (octets directive, w)" .
  have out: "ngx_snprintf room (octets ''%0'' @ dec_loop (unat w) [] @ octets directive) [Arg_int n] =
      Some (ngx_sprintf_num room n ch_0 hex (unat w))"
    using hex assms(1) w
    by (auto simp: zero_digit ngx_snprintf_def print_directive_def Let_def print_conversion_def int_directives_def print_int_def
        print_signed_def)
  show ?thesis
    unfolding out using hex ato_printed[OF assms(1), of n] hextoi_printed[OF assms(1), of hex n] assms(1)
    by (auto simp: length_sprintf_num)
qed

theorem printed_number_reads_back_witness:
  "\<exists>s. ngx_snprintf 30 (octets ''%08xi'') [Arg_int 48879] = Some s \<and> 8 \<le> length s \<and> ngx_hextoi s = 48879"
proof -
  have "octets ''%0'' @ dec_loop (unat (8 :: u64)) [] @ octets ''xi'' = octets ''%08xi''" by (simp add: dec_loop.simps)
  then show ?thesis using printed_number_reads_back[of 8 30 "''xi''" ngx_hextoi 48879] by simp
qed


text \<open>The copy of a UTF-8 string writes at most four octets for each character it may take, and the zero.\<close>

lemma utf8_tail_most: "snd (utf8_tail u p len k) \<le> k + len"
proof (induction u p len k rule: utf8_tail.induct)
  case (2 u p len k)
  then show ?case by (auto simp: Let_def)
qed simp

lemma utf8_decode_most: "snd (ngx_utf8_decode p n) \<le> 4"
  using utf8_tail_most[of "ucast (c_head p) AND 7" "tl p" 3 1] utf8_tail_most[of "ucast (c_head p) AND 0xf" "tl p" 2 1]
    utf8_tail_most[of "ucast (c_head p) AND 0x1f" "tl p" 1 1]
  by (auto simp: ngx_utf8_decode_def Let_def split: prod.splits option.splits)

theorem utf8_cpystrn_fits: "length (ngx_utf8_cpystrn src n len) \<le> 4 * (n - 1) + 1"
proof -
  have "length (utf8_cpystrn_loop k src len) \<le> 4 * k + 1" for k
  proof (induction k src len rule: utf8_cpystrn_loop.induct)
    case (2 k src len)
    obtain u m where "ngx_utf8_decode src len = (u, m)" by fastforce
    then show ?case using 2 utf8_decode_most[of src len] by (fastforce simp: Let_def)
  qed simp
  from this[of "n - 1"] show ?thesis by (simp add: ngx_utf8_cpystrn_def)
qed

end
