(* ===== verification/NgxTime.thy ===== *)
theory NgxTime
  imports NgxPrintf
begin

text \<open>
  Times of HTTP: \<^verbatim>\<open>ngx_parse_http_time\<close> of \<^verbatim>\<open>src/core/ngx_parse_time.c\<close>, which reads the three formats of RFC 7231, and
  \<^verbatim>\<open>ngx_gmtime\<close>, \<^verbatim>\<open>ngx_http_time\<close> and \<^verbatim>\<open>ngx_http_cookie_time\<close> of \<^verbatim>\<open>src/core/ngx_times.c\<close>, which write two of them. Both
  directions use Gauss' formula with a year that begins in March; they are compared with a calendar that counts days year by
  year and month by month.
\<close>

section \<open>Reading octets\<close>

text \<open>A read past the end of the value is a result of its own, an early return of \<open>NGX_ERROR\<close> another.\<close>

datatype 'a read = Past_end | Bad | Got 'a

fun bind_read :: "'a read \<Rightarrow> ('a \<Rightarrow> 'b read) \<Rightarrow> 'b read" where
  "bind_read Past_end f = Past_end"
| "bind_read Bad f = Bad"
| "bind_read (Got x) f = f x"

definition read_at :: "bytes \<Rightarrow> nat \<Rightarrow> u_char read" where
  "read_at v p = (if p < length v then Got (v ! p) else Past_end)"

definition expect :: "bytes \<Rightarrow> nat \<Rightarrow> u_char \<Rightarrow> unit read" where
  "expect v p c = bind_read (read_at v p) (\<lambda>x. if x = c then Got () else Bad)"

fun read_digits :: "bytes \<Rightarrow> nat \<Rightarrow> nat \<Rightarrow> nat \<Rightarrow> nat read" where
  "read_digits v p 0 n = Got n"
| "read_digits v p (Suc k) n =
    bind_read (read_at v p) (\<lambda>c. if is_digit c then read_digits v (p + 1) k (n * 10 + (unat c - 48)) else Bad)"

section \<open>The parser\<close>

datatype time_fmt = fmt_no | rfc822 | rfc850 | isoc

fun time_format :: "bytes \<Rightarrow> nat \<Rightarrow> time_fmt \<times> nat" where
  "time_format [] p = (fmt_no, p)"
| "time_format (c # v) p =
    (if c = ch_comma then (fmt_no, p) else if c = ch_space then (isoc, p) else time_format v (p + 1))"

fun time_spaces :: "bytes \<Rightarrow> nat \<Rightarrow> nat" where
  "time_spaces [] p = p"
| "time_spaces (c # v) p = (if c \<noteq> ch_space then p else time_spaces v (p + 1))"

definition parse_month :: "bytes \<Rightarrow> nat \<Rightarrow> nat read" where
  "parse_month v p = bind_read (read_at v p) (\<lambda>c.
    if c = 0x4a then bind_read (read_at v (p + 1)) (\<lambda>c1.
         if c1 = ch_a then Got 0 else bind_read (read_at v (p + 2)) (\<lambda>c2. Got (if c2 = 0x6e then 5 else 6)))
    else if c = 0x46 then Got 1
    else if c = 0x4d then bind_read (read_at v (p + 2)) (\<lambda>c2. Got (if c2 = 0x72 then 2 else 4))
    else if c = ch_A then bind_read (read_at v (p + 1)) (\<lambda>c1. Got (if c1 = 0x70 then 3 else 7))
    else if c = 0x53 then Got 8
    else if c = 0x4f then Got 9
    else if c = 0x4e then Got 10
    else if c = 0x44 then Got 11
    else Bad)"

definition mday :: "nat list" where
  "mday = [31, 28, 31, 30, 31, 30, 31, 31, 30, 31, 30, 31]"

text \<open>
  From the test of the fields to the end. The arithmetic is that of \<^verbatim>\<open>uint64_t\<close>, as \<^verbatim>\<open>year\<close> and \<^verbatim>\<open>day\<close> are \<^verbatim>\<open>ngx_uint_t\<close>; the result
  is converted to \<^verbatim>\<open>time_t\<close>.
\<close>

definition http_time_value :: "nat \<Rightarrow> nat \<Rightarrow> nat \<Rightarrow> nat \<Rightarrow> nat \<Rightarrow> nat \<Rightarrow> int read" where
  "http_time_value year month day hour minute sec =
    (if hour > 23 \<or> minute > 59 \<or> sec > 59 then Bad
     else if (if day = 29 \<and> month = 1 then year mod 4 \<noteq> 0 \<or> (year mod 100 = 0 \<and> year mod 400 \<noteq> 0)
              else day > mday ! month) then Bad
     else
       let month' = int month - 1;
           (month', year') = (if month' \<le> 0 then (month' + 12, word_of_nat year - 1) else (month', word_of_nat year)) :: int \<times> u64;
           time = (365 * year' + year' div 4 - year' div 100 + year' div 400
                   + word_of_int (367 * month' div 12 - 30)
                   + word_of_nat day - 1
                   - 719527 + 31 + 28) * 86400
                  + word_of_nat hour * 3600 + word_of_nat minute * 60 + word_of_nat sec
       in Got (sint time))"

text \<open>
  The fields after the month, in the order of each format. \<open>p\<close> is the octet after the month's three letters, \<open>day\<close> what has been read
  before the month.
\<close>

definition read_clock :: "bytes \<Rightarrow> nat \<Rightarrow> (nat \<times> nat \<times> nat) read" where
  "read_clock v p =
    bind_read (expect v p ch_space) (\<lambda>_.
    bind_read (read_digits v (p + 1) 2 0) (\<lambda>hour.
    bind_read (expect v (p + 3) ch_colon) (\<lambda>_.
    bind_read (read_digits v (p + 4) 2 0) (\<lambda>minute.
    bind_read (expect v (p + 6) ch_colon) (\<lambda>_.
    bind_read (read_digits v (p + 7) 2 0) (\<lambda>sec. Got (hour, minute, sec)))))))"

definition parse_rfc822 :: "bytes \<Rightarrow> nat \<Rightarrow> nat \<Rightarrow> nat \<Rightarrow> int read" where
  "parse_rfc822 v p month day =
    bind_read (expect v p ch_space) (\<lambda>_.
    bind_read (read_digits v (p + 1) 4 0) (\<lambda>year.
    bind_read (read_clock v (p + 5)) (\<lambda>(hour, minute, sec).
    http_time_value year month day hour minute sec)))"

definition parse_rfc850 :: "bytes \<Rightarrow> nat \<Rightarrow> nat \<Rightarrow> nat \<Rightarrow> int read" where
  "parse_rfc850 v p month day =
    bind_read (expect v p ch_minus) (\<lambda>_.
    bind_read (read_digits v (p + 1) 2 0) (\<lambda>year.
    bind_read (read_clock v (p + 3)) (\<lambda>(hour, minute, sec).
    http_time_value (year + (if year < 70 then 2000 else 1900)) month day hour minute sec)))"

definition parse_isoc :: "bytes \<Rightarrow> nat \<Rightarrow> nat \<Rightarrow> int read" where
  "parse_isoc v p month =
    bind_read (read_at v (p + 1)) (\<lambda>c.
    let p = (if c = ch_space then p + 2 else p + 1) in
    bind_read (read_digits v p 1 0) (\<lambda>day.
    bind_read (read_at v (p + 1)) (\<lambda>c.
    bind_read (if c \<noteq> ch_space then bind_read (read_digits v (p + 1) 1 day) (\<lambda>day. Got (day, p + 2))
               else Got (day, p + 1)) (\<lambda>(day, p).
    if length v < p + 14 then Bad
    else
      bind_read (read_clock v p) (\<lambda>(hour, minute, sec).
      bind_read (expect v (p + 9) ch_space) (\<lambda>_.
      bind_read (read_digits v (p + 10) 4 0) (\<lambda>year.
      http_time_value year month day hour minute sec)))))))"

definition ngx_parse_http_time :: "bytes \<Rightarrow> int read" where
  "ngx_parse_http_time v =
    (let (fmt, p) = time_format v 0;
         p = time_spaces (drop (p + 1) v) (p + 1) in
     if length v < p + 18 then Bad
     else if fmt = isoc then bind_read (parse_month v p) (\<lambda>month. parse_isoc v (p + 3) month)
     else
       bind_read (read_digits v p 2 0) (\<lambda>day.
       bind_read (read_at v (p + 2)) (\<lambda>c.
       if c = ch_space then
         if length v < p + 2 + 18 then Bad
         else bind_read (parse_month v (p + 3)) (\<lambda>month. parse_rfc822 v (p + 6) month day)
       else if c = ch_minus then bind_read (parse_month v (p + 3)) (\<lambda>month. parse_rfc850 v (p + 6) month day)
       else Bad)))"

section \<open>The calendar of the clock\<close>

record ngx_tm =
  tm_sec :: nat
  tm_min :: nat
  tm_hour :: nat
  tm_mday :: nat
  tm_mon :: nat
  tm_year :: nat
  tm_wday :: nat

definition ngx_gmtime :: "int \<Rightarrow> ngx_tm" where
  "ngx_gmtime t =
    (let t = (if t < 0 then 0 else t);
         days = nat (t div 86400);
         sec = nat (t mod 86400);
         (days, sec) = (if days > 2932896 then (2932896, 86399) else (days, sec));
         wday = (4 + days) mod 7;
         hour = sec div 3600;
         sec = sec mod 3600;
         minute = sec div 60;
         sec = sec mod 60;
         days = days + 719527 - (31 + 28);
         year = (days + 2) * 400 div (365 * 400 + 100 - 4 + 1);
         yday = int days - int (365 * year + year div 4 - year div 100 + year div 400);
         (yday, year) =
           (if yday < 0
            then (365 + (if year mod 4 = 0 \<and> (year mod 100 \<noteq> 0 \<or> year mod 400 = 0) then 1 else 0) + yday, year - 1)
            else (yday, year));
         yday = nat yday;
         mon = (yday + 31) * 10 div 306;
         day = yday + 1 - (367 * mon div 12 - 30);
         (year, mon) = (if yday \<ge> 306 then (year + 1, mon - 10) else (year, mon + 2))
     in \<lparr>tm_sec = sec, tm_min = minute, tm_hour = hour, tm_mday = day, tm_mon = mon, tm_year = year, tm_wday = wday\<rparr>)"

definition week :: "bytes list" where
  "week = map octets [''Sun'', ''Mon'', ''Tue'', ''Wed'', ''Thu'', ''Fri'', ''Sat'']"

definition months :: "bytes list" where
  "months = map octets [''Jan'', ''Feb'', ''Mar'', ''Apr'', ''May'', ''Jun'', ''Jul'', ''Aug'', ''Sep'', ''Oct'', ''Nov'', ''Dec'']"

abbreviation int_arg :: "nat \<Rightarrow> print_arg" where
  "int_arg n \<equiv> Arg_int (word_of_nat n)"

definition ngx_http_time :: "u64 \<Rightarrow> int \<Rightarrow> bytes option" where
  "ngx_http_time buf t =
    (let tm = ngx_gmtime t in
     ngx_sprintf buf (octets ''%s, %02d %s %4d %02d:%02d:%02d GMT'')
       [Arg_str (week ! tm_wday tm), int_arg (tm_mday tm), Arg_str (months ! (tm_mon tm - 1)), int_arg (tm_year tm),
        int_arg (tm_hour tm), int_arg (tm_min tm), int_arg (tm_sec tm)])"

definition ngx_http_cookie_time :: "u64 \<Rightarrow> int \<Rightarrow> bytes option" where
  "ngx_http_cookie_time buf t =
    (let tm = ngx_gmtime t in
     ngx_sprintf buf
       (octets (if tm_year tm > 2037 then ''%s, %02d-%s-%d %02d:%02d:%02d GMT''
                else ''%s, %02d-%s-%02d %02d:%02d:%02d GMT''))
       [Arg_str (week ! tm_wday tm), int_arg (tm_mday tm), Arg_str (months ! (tm_mon tm - 1)),
        int_arg (if tm_year tm > 2037 then tm_year tm else tm_year tm mod 100),
        int_arg (tm_hour tm), int_arg (tm_min tm), int_arg (tm_sec tm)])"

section \<open>A calendar that counts days\<close>

definition leap :: "nat \<Rightarrow> bool" where
  "leap y \<longleftrightarrow> y mod 4 = 0 \<and> (y mod 100 = 0 \<longrightarrow> y mod 400 = 0)"

definition month_len :: "nat \<Rightarrow> nat \<Rightarrow> nat" where
  "month_len y m = (if m = 1 \<and> leap y then 29 else mday ! m)"

fun year_days :: "nat \<Rightarrow> nat" where
  "year_days 0 = 0"
| "year_days (Suc y) = year_days y + (if leap y then 366 else 365)"

fun month_days :: "nat \<Rightarrow> nat \<Rightarrow> nat" where
  "month_days y 0 = 0"
| "month_days y (Suc m) = month_days y m + month_len y m"

text \<open>Days since January 1, 1970 of the day \<open>d\<close> of the month \<open>m\<close>, which counts from 0, and seconds since then.\<close>

definition civil_day :: "nat \<Rightarrow> nat \<Rightarrow> nat \<Rightarrow> int" where
  "civil_day y m d = int (year_days y + month_days y m + d) - 1 - int (year_days 1970)"

definition civil_time :: "nat \<Rightarrow> nat \<Rightarrow> nat \<Rightarrow> nat \<Rightarrow> nat \<Rightarrow> nat \<Rightarrow> int" where
  "civil_time y m d hour minute sec = civil_day y m d * 86400 + int (hour * 3600 + minute * 60 + sec)"

definition gauss :: "nat \<Rightarrow> int" where
  "gauss y = int (365 * y + y div 4 + y div 400) - int (y div 100)"

lemma gauss_Suc: "gauss (Suc y) = gauss y + 365 + of_bool (leap (Suc y))"
proof -
  have "100 dvd n \<Longrightarrow> 4 dvd n" "400 dvd n \<Longrightarrow> 100 dvd n" for n :: nat
    using dvd_trans[of 4 100 n] dvd_trans[of 100 400 n] by simp_all
  then have d: "Suc y mod 100 = 0 \<Longrightarrow> Suc y mod 4 = 0" "Suc y mod 400 = 0 \<Longrightarrow> Suc y mod 100 = 0"
    by (simp_all add: mod_eq_0_iff_dvd)
  have s: "Suc y div k = y div k + of_bool (Suc y mod k = 0)" for k by (simp add: div_Suc)
  have "gauss (Suc y) = gauss y + 365 + of_bool (Suc y mod 4 = 0) + of_bool (Suc y mod 400 = 0) - of_bool (Suc y mod 100 = 0)"
    unfolding gauss_def s by simp
  then show ?thesis using d unfolding leap_def by (cases "Suc y mod 400 = 0"; cases "Suc y mod 100 = 0"; cases "Suc y mod 4 = 0") simp_all
qed

lemma year_days_gauss: "int (year_days (Suc y)) = gauss y + 366"
proof (induction y)
  case 0
  then show ?case by (simp add: gauss_def leap_def)
next
  case (Suc y)
  then show ?case by (simp only: year_days.simps(2)[of "Suc y"]) (simp add: gauss_Suc)
qed

lemma year_days_mono: "y \<le> y' \<Longrightarrow> year_days y \<le> year_days y'"
  by (rule lift_Suc_mono_le) simp_all

lemma epoch_days: "int (year_days 1970) = 719528"
  using year_days_gauss[of 1969] by (simp add: gauss_def)

lemma below_12: "m < 12 \<Longrightarrow> list_all P [0, 1, 2, 3, 4, 5, 6, 7, 8, 9, 10, 11] \<Longrightarrow> P (m :: nat)"
  by (auto simp: numeral_eq_Suc less_Suc_eq)

lemma month_len_31: "m < 12 \<Longrightarrow> month_len y m \<le> 31"
  by (erule below_12) (simp add: month_len_def mday_def)

lemma month_days_numeral: "month_days y (numeral k) = month_days y (pred_numeral k) + month_len y (pred_numeral k)"
  by (simp add: numeral_eq_Suc)

lemma march_month_days:
  assumes "2 \<le> m" and "m < 12"
  shows "int (month_days y m) = 59 + of_bool (leap y) + (367 * (int m - 1) div 12 - 30)"
proof -
  have "2 \<le> m \<longrightarrow> int (month_days y m) = 59 + of_bool (leap y) + (367 * (int m - 1) div 12 - 30)"
    by (rule below_12[OF assms(2), of "\<lambda>m. 2 \<le> m \<longrightarrow>
          int (month_days y m) = 59 + of_bool (leap y) + (367 * (int m - 1) div 12 - 30)"])
      (simp add: month_days_numeral month_len_def mday_def)
  then show ?thesis using assms(1) by blast
qed

text \<open>Gauss' formula, with the year and the month of the code, counts as the calendar does.\<close>

lemma civil_gauss:
  assumes "1 \<le> y" and "m < 12"
  shows "civil_day y m d =
    (if m < 2 then gauss (y - 1) + (367 * (int m + 11) div 12 - 30) else gauss y + (367 * (int m - 1) div 12 - 30)) +
    int d - 1 - 719468"
proof (cases "m < 2")
  case True
  obtain y' where y: "y = Suc y'" using assms(1) by (cases y) auto
  have "m = 0 \<or> m = 1" using True by auto
  then show ?thesis
    using year_days_gauss[of y'] epoch_days by (auto simp: civil_day_def y month_len_def mday_def)
next
  case False
  have "int (year_days y) + 365 + of_bool (leap y) = gauss y + 366" using year_days_gauss[of y] by auto
  then show ?thesis
    using False march_month_days[of m y] assms(2) epoch_days by (simp add: civil_day_def)
qed

section \<open>The value of an accepted time\<close>

lemma gauss_word:
  assumes "y \<le> 9999"
  shows "365 * word_of_nat y + word_of_nat y div 4 - word_of_nat y div 100 + word_of_nat y div 400 = (word_of_int (gauss y) :: u64)"
proof -
  have "word_of_nat y div 4 = (word_of_nat (y div 4) :: u64)" "word_of_nat y div 100 = (word_of_nat (y div 100) :: u64)"
    "word_of_nat y div 400 = (word_of_nat (y div 400) :: u64)"
    using assms by (simp_all add: word_unat_eq_iff unat_div unsigned_of_nat take_bit_nat_eq_self)
  then show ?thesis by (simp add: gauss_def)
qed

lemma gauss_bounds: "0 \<le> gauss y" "gauss y \<le> 367 * int y"
  by (simp_all add: gauss_def)

lemma time_word:
  "(word_of_int g + word_of_int x + word_of_nat d - 1 - 719527 + 31 + 28) * 86400 +
     word_of_nat hour * 3600 + word_of_nat minute * 60 + word_of_nat sec =
   (word_of_int ((g + x + int d - 1 - 719468) * 86400 + int hour * 3600 + int minute * 60 + int sec) :: u64)"
  by (simp add: algebra_simps)

lemma http_time_value_word:
  assumes "http_time_value y m d hour minute sec = Got t" and "1 \<le> y" and "y \<le> 9999"
  shows "t = sint (word_of_int ((gauss (if m < 2 then y - 1 else y) +
     (367 * (if m < 2 then int m - 1 + 12 else int m - 1) div 12 - 30) + int d - 1 - 719468) * 86400 +
     int hour * 3600 + int minute * 60 + int sec) :: u64)"
proof -
  have y: "word_of_nat y - 1 = (word_of_nat (y - 1) :: u64)" using assms(2) by (simp add: of_nat_diff)
  have c: "int m - 1 \<le> 0 \<longleftrightarrow> m < 2" by auto
  have "y - 1 \<le> 9999" using assms(3) by simp
  note gauss = gauss_word[OF this] gauss_word[OF assms(3)]
  define bad where "bad \<longleftrightarrow> (if d = 29 \<and> m = 1 then y mod 4 \<noteq> 0 \<or> (y mod 100 = 0 \<and> y mod 400 \<noteq> 0) else d > mday ! m)"
  show ?thesis
    using assms(1) unfolding http_time_value_def Let_def y c bad_def[symmetric]
    by (cases "m < 2"; cases "hour > 23 \<or> minute > 59 \<or> sec > 59"; cases bad)
      (simp_all only: if_True if_False prod.case gauss time_word read.inject read.distinct)
qed

lemma http_time_value_exact:
  assumes "http_time_value y m d hour minute sec = Got t" and "1 \<le> y" and "y \<le> 9999" and "m < 12"
  shows "hour < 24 \<and> minute < 60 \<and> sec < 60 \<and> d \<le> month_len y m \<and> t = civil_time y m d hour minute sec"
proof -
  define y' where "y' = (if m < 2 then y - 1 else y)"
  define m' where "m' = (if m < 2 then int m - 1 + 12 else int m - 1)"
  define e where "e = (gauss y' + (367 * m' div 12 - 30) + int d - 1 - 719468) * 86400 + int hour * 3600 + int minute * 60 + int sec"
  have ranges: "hour < 24" "minute < 60" "sec < 60" "d \<le> month_len y m"
    using assms(1) by (auto simp: http_time_value_def month_len_def leap_def mday_def split: if_splits)
  have t: "t = sint (word_of_int e :: u64)"
    using http_time_value_word[OF assms(1-3)] by (simp only: e_def y'_def m'_def)
  have "d \<le> 31" using ranges(4) month_len_31[OF assms(4), of y] by simp
  moreover have "0 \<le> 367 * m' div 12 \<and> 367 * m' div 12 \<le> 367" using assms(4) by (auto simp: m'_def)
  moreover have "int y' \<le> 9999" using assms(3) by (auto simp: y'_def)
  ultimately have "- (2 ^ 63) \<le> e \<and> e < 2 ^ 63"
    using gauss_bounds[of y'] ranges unfolding e_def by (intro conjI; simp)
  then have "sint (word_of_int e :: u64) = e" by (simp add: signed_of_int signed_take_bit_int_eq_self)
  moreover have "e = civil_time y m d hour minute sec"
    using civil_gauss[OF assms(2,4)] by (simp add: e_def civil_time_def y'_def m'_def add.commute)
  ultimately show ?thesis using ranges t by simp
qed

section \<open>The calendar of the clock counts the days\<close>

text \<open>The estimate of the year is right or one too large, as Gauss' formula and the mean year of 365.2425 days are close.\<close>

lemma gauss_scaled:
  "146097 * int y - 699 \<le> 400 * gauss y" "400 * gauss y \<le> 146097 * int y + 396"
proof -
  have q: "int (y div k) * int k + int (y mod k) = int y" for k by (metis div_mult_mod_eq of_nat_add of_nat_mult)
  have "int (y div 4) * 4 + int (y mod 4) = int y" "int (y div 100) * 100 + int (y mod 100) = int y"
    "int (y div 400) * 400 + int (y mod 400) = int y" using q[of 4] q[of 100] q[of 400] by simp_all
  moreover have "int (y mod 4) < 4" "int (y mod 100) < 100" "int (y mod 400) < 400" by simp_all
  moreover have "0 \<le> int (y mod 4)" "0 \<le> int (y mod 100)" "0 \<le> int (y mod 400)" by simp_all
  moreover have "gauss y = 365 * int y + int (y div 4) + int (y div 400) - int (y div 100)" by (simp add: gauss_def)
  ultimately have "146097 * int y - 699 \<le> 400 * gauss y \<and> 400 * gauss y \<le> 146097 * int y + 396" by (intro conjI; linarith)
  then show "146097 * int y - 699 \<le> 400 * gauss y" "400 * gauss y \<le> 146097 * int y + 396" by simp_all
qed

lemma year_estimate:
  assumes "y = (n + 2) * 400 div 146097"
  shows "int n < gauss (Suc y)" and "1 \<le> y \<Longrightarrow> gauss (y - 1) \<le> int n"
proof -
  have "146097 * y \<le> (n + 2) * 400" "(n + 2) * 400 < 146097 + 146097 * y"
    using times_div_less_eq_dividend[of 146097 "(n + 2) * 400"] dividend_less_times_div[of 146097 "(n + 2) * 400"]
    by (simp_all add: assms)
  then have y: "146097 * int y \<le> (int n + 2) * 400" "(int n + 2) * 400 < 146097 + 146097 * int y" by simp_all
  show "int n < gauss (Suc y)" using y(2) gauss_scaled(1)[of "Suc y"] by simp
  show "gauss (y - 1) \<le> int n" if "1 \<le> y" using y(1) gauss_scaled(2)[of "y - 1"] that by (simp add: of_nat_diff)
qed

text \<open>The day of the March year gives the month and the day: a fact about 366 numbers.\<close>

definition march_ok :: "nat \<Rightarrow> bool" where
  "march_ok yday \<longleftrightarrow>
    (let mon = (yday + 31) * 10 div 306; day = yday + 1 - (367 * mon div 12 - 30) in
     1 \<le> mon \<and> mon \<le> 12 \<and> 1 \<le> day \<and> yday + 1 = day + (367 * mon div 12 - 30) \<and> 30 \<le> 367 * mon div 12 \<and>
     (mon \<ge> 11 \<longleftrightarrow> yday \<ge> 306) \<and>
     (if mon = 12 then day \<le> 29 \<and> (day = 29 \<longrightarrow> yday = 365) else day \<le> mday ! ((mon + 1) mod 12)))"

lemma march_ok:
  assumes "yday < 366"
  shows "march_ok yday"
proof -
  define mon where "mon = (yday + 31) * 10 div 306"
  have b: "306 * mon \<le> (yday + 31) * 10" "(yday + 31) * 10 < 306 + 306 * mon"
    using times_div_less_eq_dividend[of 306 "(yday + 31) * 10"] dividend_less_times_div[of 306 "(yday + 31) * 10"]
    by (simp_all add: mon_def)
  then have m: "mon \<noteq> 0" by (cases "mon = 0") simp_all
  moreover have "mon < 13" using b(1) assms by (cases "13 \<le> mon") simp_all
  ultimately have m: "mon - 1 < 12" "mon \<noteq> 0" by simp_all
  define P where "P k \<longleftrightarrow> (306 * (k + 1) \<le> (yday + 31) * 10 \<longrightarrow> (yday + 31) * 10 < 306 + 306 * (k + 1) \<longrightarrow>
    (let mon = k + 1; day = yday + 1 - (367 * mon div 12 - 30) in
     1 \<le> mon \<and> mon \<le> 12 \<and> 1 \<le> day \<and> yday + 1 = day + (367 * mon div 12 - 30) \<and> 30 \<le> 367 * mon div 12 \<and>
     (mon \<ge> 11 \<longleftrightarrow> yday \<ge> 306) \<and>
     (if mon = 12 then day \<le> 29 \<and> (day = 29 \<longrightarrow> yday = 365) else day \<le> mday ! ((mon + 1) mod 12))))" for k
  have P: "P (mon - 1)"
    using assms
    by (rule_tac below_12[OF m(1)]) (unfold list.pred_inject P_def Let_def mday_def, intro conjI TrueI impI; simp?; linarith?)
  have "mon - 1 + 1 = mon" using m(2) by simp
  from P[unfolded P_def this, rule_format, OF b] show ?thesis unfolding march_ok_def mon_def[symmetric] .
qed

definition tm_valid :: "ngx_tm \<Rightarrow> bool" where
  "tm_valid tm \<longleftrightarrow> 1 \<le> tm_mon tm \<and> tm_mon tm \<le> 12 \<and> 1 \<le> tm_mday tm \<and> tm_mday tm \<le> month_len (tm_year tm) (tm_mon tm - 1) \<and>
     tm_hour tm < 24 \<and> tm_min tm < 60 \<and> tm_sec tm < 60"

abbreviation tm_time :: "ngx_tm \<Rightarrow> int" where
  "tm_time tm \<equiv> civil_time (tm_year tm) (tm_mon tm - 1) (tm_mday tm) (tm_hour tm) (tm_min tm) (tm_sec tm)"

lemma march_civil:
  assumes "yday < 366" and "int yday < 365 + of_bool (leap (Suc y))" and "1 \<le> y"
    and "mon = (yday + 31) * 10 div 306" and "day = yday + 1 - (367 * mon div 12 - 30)"
    and "(y', m) = (if yday \<ge> 306 then (y + 1, mon - 10) else (y, mon + 2))"
  shows "1 \<le> m \<and> m \<le> 12 \<and> 1 \<le> day \<and> day \<le> month_len y' (m - 1) \<and>
     civil_day y' (m - 1) day = gauss y + int yday - 719468"
proof -
  have ok: "1 \<le> mon \<and> mon \<le> 12 \<and> 1 \<le> day \<and> yday + 1 = day + (367 * mon div 12 - 30) \<and> 30 \<le> 367 * mon div 12 \<and>
     (mon \<ge> 11 \<longleftrightarrow> yday \<ge> 306) \<and>
     (if mon = 12 then day \<le> 29 \<and> (day = 29 \<longrightarrow> yday = 365) else day \<le> mday ! ((mon + 1) mod 12))"
    using march_ok[OF assms(1)] unfolding march_ok_def Let_def assms(4,5) .
  have x: "int day + (367 * int mon div 12 - 30) = int yday + 1" using ok by (simp add: zdiv_int) linarith
  show ?thesis
  proof (cases "yday \<ge> 306")
    case True
    then have m: "mon = 11 \<and> m = 1 \<and> y' = Suc y \<or> mon = 12 \<and> m = 2 \<and> y' = Suc y" using ok assms(6) by auto
    then have "civil_day y' (m - 1) day = gauss y + (367 * int mon div 12 - 30) + int day - 1 - 719468"
      by (auto simp: civil_gauss)
    moreover have "day \<le> month_len y' (m - 1)" using m ok assms(2) by (auto simp: month_len_def mday_def)
    ultimately show ?thesis using m ok x by auto
  next
    case False
    then have m: "m = mon + 2" "y' = y" "mon < 11" using ok assms(6) by auto
    then have "civil_day y' (m - 1) day = gauss y + (367 * int mon div 12 - 30) + int day - 1 - 719468"
      using assms(3) ok by (simp add: civil_gauss)
    moreover have "day \<le> month_len y' (m - 1)" using m ok by (auto simp: month_len_def)
    ultimately show ?thesis using m ok x by auto
  qed
qed

lemma gmtime_days:
  assumes "days \<le> 2932896" and "n = days + 719527 - (31 + 28)" and "y = (n + 2) * 400 div (365 * 400 + 100 - 4 + 1)"
    and "yd = int n - int (365 * y + y div 4 - y div 100 + y div 400)"
    and "(yday, y2) = (if yd < 0 then (365 + (if y mod 4 = 0 \<and> (y mod 100 \<noteq> 0 \<or> y mod 400 = 0) then 1 else 0) + yd, y - 1) else (yd, y))"
  shows "0 \<le> yday \<and> yday < 366 \<and> yday < 365 + of_bool (leap (Suc y2)) \<and> 1 \<le> y2 \<and> int n = gauss y2 + yday"
proof -
  have y: "y = (n + 2) * 400 div 146097" using assms(3) by simp
  have "(719468 + 2) * 400 div 146097 \<le> y" unfolding y by (rule div_le_mono) (simp add: assms(2))
  then have "1969 \<le> y" by simp
  have "y div 100 \<le> 365 * y" by simp
  then have yd: "yd = int n - gauss y" using assms(4) by (simp add: gauss_def of_nat_diff)
  note e = year_estimate[OF y]
  show ?thesis
  proof (cases "yd < 0")
    case True
    obtain y'' where y'': "y = Suc y''" using \<open>1969 \<le> y\<close> by (cases y) auto
    have "(if y mod 4 = 0 \<and> (y mod 100 \<noteq> 0 \<or> y mod 400 = 0) then 1 else 0) = (of_bool (leap y) :: int)" by (auto simp: leap_def)
    then have "yday = 365 + of_bool (leap y) + yd" "y2 = y''" using True assms(5) y'' by simp_all
    then show ?thesis using True e(2) yd \<open>1969 \<le> y\<close> y'' gauss_Suc[of y''] by (auto simp: of_bool_def split: if_splits)
  next
    case False
    then have "yday = yd" "y2 = y" using assms(5) by simp_all
    then show ?thesis using False e(1) yd \<open>1969 \<le> y\<close> gauss_Suc[of y] by (auto simp: of_bool_def split: if_splits)
  qed
qed

lemma gmtime_exact:
  assumes "0 \<le> t"
  shows "tm_valid (ngx_gmtime t) \<and> tm_time (ngx_gmtime t) = min t 253402300799 \<and>
     1970 \<le> tm_year (ngx_gmtime t) \<and> tm_year (ngx_gmtime t) \<le> 9999 \<and>
     int (tm_wday (ngx_gmtime t)) = (4 + min t 253402300799 div 86400) mod 7"
proof -
  define days where "days = (if nat (t div 86400) > 2932896 then 2932896 else nat (t div 86400))"
  define sec where "sec = (if nat (t div 86400) > 2932896 then 86399 else nat (t mod 86400))"
  have ds: "days \<le> 2932896" "sec < 86400" "int days * 86400 + int sec = min t 253402300799"
    using assms by (auto simp: days_def sec_def not_less)
  define n where "n = days + 719527 - (31 + 28)"
  define y where "y = (n + 2) * 400 div (365 * 400 + 100 - 4 + 1)"
  define yd where "yd = int n - int (365 * y + y div 4 - y div 100 + y div 400)"
  obtain yday y2 where yy: "(yday, y2) =
      (if yd < 0 then (365 + (if y mod 4 = 0 \<and> (y mod 100 \<noteq> 0 \<or> y mod 400 = 0) then 1 else 0) + yd, y - 1) else (yd, y))"
    by (metis surj_pair)
  define mon where "mon = (nat yday + 31) * 10 div 306"
  define day where "day = nat yday + 1 - (367 * mon div 12 - 30)"
  obtain y3 m where ym: "(y3, m) = (if nat yday \<ge> 306 then (y2 + 1, mon - 10) else (y2, mon + 2))" by (metis surj_pair)
  have tm: "ngx_gmtime t = \<lparr>tm_sec = sec mod 3600 mod 60, tm_min = sec mod 3600 div 60, tm_hour = sec div 3600,
      tm_mday = day, tm_mon = m, tm_year = y3, tm_wday = (4 + days) mod 7\<rparr>"
  proof -
    have "(if t < 0 then 0 else t) = t" using assms by simp
    moreover have "(if 2932896 < nat (t div 86400) then (2932896, 86399) else (nat (t div 86400), nat (t mod 86400))) = (days, sec)"
      by (simp add: days_def sec_def)
    ultimately show ?thesis
      unfolding ngx_gmtime_def Let_def
      by (simp only: prod.case n_def[symmetric] y_def[symmetric] yd_def[symmetric] yy[symmetric]
          mon_def[symmetric] day_def[symmetric] ym[symmetric])
  qed
  note g = gmtime_days[OF ds(1) n_def y_def yd_def yy]
  have c: "1 \<le> m \<and> m \<le> 12 \<and> 1 \<le> day \<and> day \<le> month_len y3 (m - 1) \<and> civil_day y3 (m - 1) day = gauss y2 + yday - 719468"
    using march_civil[OF _ _ _ mon_def day_def ym] g by (simp add: nat_less_iff)
  have n: "int n = int days + 719468" by (simp add: n_def)
  have "sec div 3600 * 3600 + sec mod 3600 div 60 * 60 + sec mod 3600 mod 60 = sec" by (metis div_mult_mod_eq add.assoc)
  then have time: "tm_time (ngx_gmtime t) = min t 253402300799"
    using c g n ds(3) by (simp add: tm civil_time_def del: of_nat_add of_nat_mult)
  have valid: "tm_valid (ngx_gmtime t)"
    using c ds(2) by (simp add: tm_valid_def tm less_mult_imp_div_less)
  have lower: "1970 \<le> y3"
  proof (rule ccontr)
    assume "\<not> 1970 \<le> y3"
    then have "y2 \<le> 1968 \<or> y2 = 1969 \<and> yday < 306" using ym g by (simp split: if_split_asm) linarith?
    moreover have "gauss 1969 = 719162" by (simp add: gauss_def)
    ultimately show False using gauss_scaled(2)[of y2] g n by auto
  qed
  have upper: "y3 \<le> 9999"
  proof (rule ccontr)
    assume "\<not> y3 \<le> 9999"
    then have "10000 \<le> y2 \<or> y2 = 9999 \<and> 306 \<le> yday" using ym g by (simp split: if_split_asm) linarith?
    moreover have "gauss 9999 = 3652059" by (simp add: gauss_def)
    ultimately show False using gauss_scaled(1)[of y2] g n ds(1) by auto
  qed
  have "(int days * 86400 + int sec) div 86400 = int days" using ds(2) by simp
  then have "min t 253402300799 div 86400 = int days" by (simp only: ds(3))
  then have "int ((4 + days) mod 7) = (4 + min t 253402300799 div 86400) mod 7" by (simp add: zmod_int)
  then show ?thesis using time valid lower upper by (simp add: tm)
qed

section \<open>Reading does not run past the end\<close>
















lemma time_spaces_le: "p \<le> time_spaces v p"
  by (induction v p rule: time_spaces.induct) auto

section \<open>Reading what was written\<close>

lemma time_digit_facts [simp]: "is_digit (digit n)" "unat (digit n) - 48 = n mod 10" "digit n \<noteq> ch_space" "digit n \<noteq> ch_comma"
proof -
  have "n mod 10 < 10 \<longrightarrow> is_digit (digit n) \<and> unat (digit n) - 48 = n mod 10"
    unfolding digit_def
    by (rule below_16[of "n mod 10" "\<lambda>k. k < 10 \<longrightarrow> is_digit (word_of_nat k + ch_0) \<and> unat (word_of_nat k + ch_0 :: u_char) - 48 = k"])
      (simp_all add: is_digit_def word_le_nat_alt less_trans[of _ 10])
  then have d: "is_digit (digit n)" "unat (digit n) - 48 = n mod 10" by simp_all
  then show "is_digit (digit n)" "unat (digit n) - 48 = n mod 10" by simp_all
  show "digit n \<noteq> ch_space" "digit n \<noteq> ch_comma" using d(1) by (auto simp: is_digit_def word_le_nat_alt)
qed

definition plain_name :: "bytes \<Rightarrow> bool" where
  "plain_name w \<longleftrightarrow> length w = 3 \<and> ch_NUL \<notin> set w \<and> ch_space \<notin> set w \<and> ch_comma \<notin> set w"

lemma week_names: "d < 7 \<Longrightarrow> plain_name (week ! d)"
proof -
  have "list_all plain_name week" by (simp add: week_def plain_name_def)
  then show "d < 7 \<Longrightarrow> plain_name (week ! d)" by (simp add: list_all_length week_def)
qed

lemma month_names: "m < 12 \<Longrightarrow> plain_name (months ! m)"
proof -
  have "list_all plain_name months" by (simp add: months_def plain_name_def)
  then show "m < 12 \<Longrightarrow> plain_name (months ! m)" by (simp add: list_all_length months_def)
qed

lemma plain_name_octets:
  assumes "plain_name w"
  obtains a b c where "w = [a, b, c]" "a \<notin> {ch_NUL, ch_space, ch_comma}" "b \<notin> {ch_NUL, ch_space, ch_comma}"
    "c \<notin> {ch_NUL, ch_space, ch_comma}"
  using assms by (auto simp: plain_name_def length_Suc_conv numeral_3_eq_3)

text \<open>The text of a date with its separators, and that the printers produce it.\<close>

definition date_text :: "bytes \<Rightarrow> nat \<Rightarrow> u_char \<Rightarrow> bytes \<Rightarrow> bytes \<Rightarrow> nat \<Rightarrow> nat \<Rightarrow> nat \<Rightarrow> bytes" where
  "date_text w d sep name year hour minute sec =
     w @ [ch_comma, ch_space] @ two_digits d @ [sep] @ name @ [sep] @ year @ [ch_space] @ two_digits hour @ [ch_colon] @
     two_digits minute @ [ch_colon] @ two_digits sec @ octets '' GMT''"

lemma http_time_text:
  assumes "tm_valid tm" and "1970 \<le> tm_year tm" and "tm_year tm \<le> 9999" and "tm_wday tm < 7" and "29 \<le> room"
  shows "ngx_vslprintf room (octets ''%s, %02d %s %4d %02d:%02d:%02d GMT'')
       [Arg_str (week ! tm_wday tm), int_arg (tm_mday tm), Arg_str (months ! (tm_mon tm - 1)), int_arg (tm_year tm),
        int_arg (tm_hour tm), int_arg (tm_min tm), int_arg (tm_sec tm)] =
     Some (date_text (week ! tm_wday tm) (tm_mday tm) ch_space (months ! (tm_mon tm - 1)) (four_digits (tm_year tm))
       (tm_hour tm) (tm_min tm) (tm_sec tm))"
proof -
  have mon: "tm_mon tm - 1 < 12" using assms(1) by (auto simp: tm_valid_def)
  then have m: "tm_mon tm - 1 < 12" "tm_mday tm < 100" "tm_hour tm < 100" "tm_min tm < 100" "tm_sec tm < 100"
    using assms(1) month_len_31[OF mon, of "tm_year tm"] by (simp_all add: tm_valid_def)
  obtain w1 w2 w3 where w: "week ! tm_wday tm = [w1, w2, w3]" "w1 \<notin> {ch_NUL, ch_space, ch_comma}"
    "w2 \<notin> {ch_NUL, ch_space, ch_comma}" "w3 \<notin> {ch_NUL, ch_space, ch_comma}"
    using plain_name_octets[OF week_names[OF assms(4)]] .
  obtain n1 n2 n3 where n: "months ! (tm_mon tm - 1) = [n1, n2, n3]" "n1 \<notin> {ch_NUL, ch_space, ch_comma}"
    "n2 \<notin> {ch_NUL, ch_space, ch_comma}" "n3 \<notin> {ch_NUL, ch_space, ch_comma}"
    using plain_name_octets[OF month_names[OF m(1)]] .
  show ?thesis
    using w n m assms(2,3,5)
    by (simp add: vsl_formats date_text_def del: ngx_vslprintf.simps(2))
qed

lemma http_cookie_text:
  assumes "tm_valid tm" and "1970 \<le> tm_year tm" and "tm_year tm \<le> 2037" and "tm_wday tm < 7" and "27 \<le> room"
  shows "ngx_vslprintf room (octets ''%s, %02d-%s-%02d %02d:%02d:%02d GMT'')
       [Arg_str (week ! tm_wday tm), int_arg (tm_mday tm), Arg_str (months ! (tm_mon tm - 1)), int_arg (tm_year tm mod 100),
        int_arg (tm_hour tm), int_arg (tm_min tm), int_arg (tm_sec tm)] =
     Some (date_text (week ! tm_wday tm) (tm_mday tm) ch_minus (months ! (tm_mon tm - 1)) (two_digits (tm_year tm mod 100))
       (tm_hour tm) (tm_min tm) (tm_sec tm))"
proof -
  have mon: "tm_mon tm - 1 < 12" using assms(1) by (auto simp: tm_valid_def)
  then have m: "tm_mon tm - 1 < 12" "tm_mday tm < 100" "tm_hour tm < 100" "tm_min tm < 100" "tm_sec tm < 100"
    using assms(1) month_len_31[OF mon, of "tm_year tm"] by (simp_all add: tm_valid_def)
  obtain w1 w2 w3 where w: "week ! tm_wday tm = [w1, w2, w3]" "w1 \<notin> {ch_NUL, ch_space, ch_comma}"
    "w2 \<notin> {ch_NUL, ch_space, ch_comma}" "w3 \<notin> {ch_NUL, ch_space, ch_comma}"
    using plain_name_octets[OF week_names[OF assms(4)]] .
  obtain n1 n2 n3 where n: "months ! (tm_mon tm - 1) = [n1, n2, n3]" "n1 \<notin> {ch_NUL, ch_space, ch_comma}"
    "n2 \<notin> {ch_NUL, ch_space, ch_comma}" "n3 \<notin> {ch_NUL, ch_space, ch_comma}"
    using plain_name_octets[OF month_names[OF m(1)]] .
  show ?thesis
    using w n m assms(2,3,5)
    by (simp add: vsl_formats date_text_def del: ngx_vslprintf.simps(2))
qed

lemma parse_month_name:
  assumes "m < 12" and "p + 2 < length v" and "[v ! p, v ! (p + 1), v ! (p + 2)] = months ! m"
  shows "parse_month v p = Got m"
proof -
  have "[v ! p, v ! (p + 1), v ! (p + 2)] = months ! m \<longrightarrow> parse_month v p = Got m"
    by (rule below_12[OF assms(1)]) (use assms(2) in \<open>simp add: months_def parse_month_def read_at_def\<close>)
  then show ?thesis using assms(3) by blast
qed

lemma read_two:
  "p + 1 < length v \<Longrightarrow> v ! p = digit (n div 10) \<Longrightarrow> v ! (p + 1) = digit n \<Longrightarrow> n < 100 \<Longrightarrow> read_digits v p 2 0 = Got n"
  by (simp add: numeral_2_eq_2 read_at_def)

lemma read_digits_num:
  "read_digits v p (numeral k) n = bind_read (read_at v p)
     (\<lambda>c. if is_digit c then read_digits v (p + 1) (pred_numeral k) (n * 10 + (unat c - 48)) else Bad)"
  by (simp add: numeral_eq_Suc)

lemma read_four:
  "p + 3 < length v \<Longrightarrow> v ! p = digit (n div 1000) \<Longrightarrow> v ! (p + 1) = digit (n div 100) \<Longrightarrow> v ! (p + 2) = digit (n div 10) \<Longrightarrow>
     v ! (p + 3) = digit n \<Longrightarrow> n < 10000 \<Longrightarrow> read_digits v p 4 0 = Got n"
proof -
  assume *: "p + 3 < length v" "v ! p = digit (n div 1000)" "v ! (p + 1) = digit (n div 100)" "v ! (p + 2) = digit (n div 10)"
    "v ! (p + 3) = digit n" "n < 10000"
  have q: "n div 100 * 10 + n div 10 mod 10 = n div 10" "n div 1000 * 10 + n div 100 mod 10 = n div 100"
    using div_mult_mod_eq[of "n div 10" 10] div_mult_mod_eq[of "n div 100" 10] by (simp_all flip: div_mult2_eq)
  have "n div 1000 * 1000 + n div 100 mod 10 * 100 + n div 10 mod 10 * 10 + n mod 10 = n"
    using q div_mult_mod_eq[of n 10] by linarith
  moreover have "n div 1000 < 10" using *(6) by (simp add: div_less_iff_less_mult)
  ultimately show ?thesis using *(1-5) by (simp add: read_digits_num read_at_def numeral_2_eq_2 numeral_3_eq_3)
qed

lemma parse_date_text:
  assumes "plain_name w" and "m < 12" and "d < 100" and "hour < 100" and "minute < 100" and "sec < 100"
  shows "y < 10000 \<Longrightarrow> ngx_parse_http_time (date_text w d ch_space (months ! m) (four_digits y) hour minute sec) =
      http_time_value y m d hour minute sec"
    and "y < 100 \<Longrightarrow> ngx_parse_http_time (date_text w d ch_minus (months ! m) (two_digits y) hour minute sec) =
      http_time_value (y + (if y < 70 then 2000 else 1900)) m d hour minute sec"
proof -
  obtain w1 w2 w3 where w: "w = [w1, w2, w3]" "w1 \<notin> {ch_NUL, ch_space, ch_comma}"
    "w2 \<notin> {ch_NUL, ch_space, ch_comma}" "w3 \<notin> {ch_NUL, ch_space, ch_comma}"
    using plain_name_octets[OF assms(1)] .
  obtain n1 n2 n3 where n: "months ! m = [n1, n2, n3]" using plain_name_octets[OF month_names[OF assms(2)]] .
  note read = read_two read_four read_at_def expect_def
  show "ngx_parse_http_time (date_text w d ch_space (months ! m) (four_digits y) hour minute sec) =
      http_time_value y m d hour minute sec" if "y < 10000"
  proof -
    let ?v = "date_text w d ch_space (months ! m) (four_digits y) hour minute sec"
    have "parse_month ?v 8 = Got m" by (rule parse_month_name[OF assms(2)]) (simp_all add: date_text_def w(1) n)
    then show ?thesis
      using w assms that unfolding n
      by (simp add: ngx_parse_http_time_def parse_rfc822_def read_clock_def date_text_def read)
  qed
  show "ngx_parse_http_time (date_text w d ch_minus (months ! m) (two_digits y) hour minute sec) =
      http_time_value (y + (if y < 70 then 2000 else 1900)) m d hour minute sec" if "y < 100"
  proof -
    let ?v = "date_text w d ch_minus (months ! m) (two_digits y) hour minute sec"
    have "parse_month ?v 8 = Got m" by (rule parse_month_name[OF assms(2)]) (simp_all add: date_text_def w(1) n)
    then show ?thesis
      using w assms that unfolding n
      by (simp add: ngx_parse_http_time_def parse_rfc850_def read_clock_def date_text_def read)
  qed
qed

lemma valid_value:
  assumes "tm_valid tm" and "1970 \<le> tm_year tm" and "tm_year tm \<le> 9999"
  shows "http_time_value (tm_year tm) (tm_mon tm - 1) (tm_mday tm) (tm_hour tm) (tm_min tm) (tm_sec tm) = Got (tm_time tm)"
proof -
  have "\<exists>t. http_time_value (tm_year tm) (tm_mon tm - 1) (tm_mday tm) (tm_hour tm) (tm_min tm) (tm_sec tm) = Got t"
    using assms(1) by (auto simp: tm_valid_def http_time_value_def month_len_def leap_def mday_def Let_def split: prod.split if_splits)
  moreover have "1 \<le> tm_year tm" "tm_mon tm - 1 < 12" using assms by (auto simp: tm_valid_def)
  ultimately show ?thesis using http_time_value_exact assms(3) by blast
qed

section \<open>Properties\<close>


text \<open>
  C36: A time that is written as an HTTP date (Last-Modified, Date) is read back as the same time, over the whole range that
  has four-digit years; an earlier or later time is written, and read back, as the first or last of the range. The date
  of a cookie, with its two-digit year, is read back as the same time until the end of 2037.
\<close>

theorem http_time_roundtrip:
  assumes "29 \<le> unat (- 1 - buf)"
  shows "(\<exists>s. ngx_http_time buf t = Some s \<and> length s = 29 \<and> ngx_parse_http_time s = Got (min (max t 0) 253402300799)) \<and>
    (t < 2145916800 \<longrightarrow> (\<exists>s. ngx_http_cookie_time buf t = Some s \<and> ngx_parse_http_time s = Got (max t 0)))"
proof -
  define tm where "tm = ngx_gmtime t"
  have "(if t < 0 then 0 else t) = (if max t 0 < 0 then 0 else max t 0)" by simp
  then have "tm = ngx_gmtime (max t 0)" unfolding tm_def ngx_gmtime_def by (rule arg_cong)
  from gmtime_exact[of "max t 0", folded this]
  have tm: "tm_valid tm" "tm_time tm = min (max t 0) 253402300799" "1970 \<le> tm_year tm" "tm_year tm \<le> 9999"
    and wday: "int (tm_wday tm) = (4 + min (max t 0) 253402300799 div 86400) mod 7" by auto
  have wd: "tm_wday tm < 7" using wday pos_mod_bound[of 7 "4 + min (max t 0) 253402300799 div 86400"] by linarith
  have mon: "tm_mon tm - 1 < 12" using tm(1) by (auto simp: tm_valid_def)
  have fields: "tm_mday tm < 100" "tm_hour tm < 100" "tm_min tm < 100" "tm_sec tm < 100"
    using tm(1) month_len_31[OF mon, of "tm_year tm"] by (simp_all add: tm_valid_def)
  note parse = parse_date_text[OF week_names[OF wd] mon fields]
  note printed = http_time_text[OF tm(1,3,4) wd assms]
  have len: "length (date_text (week ! tm_wday tm) (tm_mday tm) ch_space (months ! (tm_mon tm - 1)) (four_digits (tm_year tm))
       (tm_hour tm) (tm_min tm) (tm_sec tm)) = 29"
    using week_names[OF wd] month_names[OF mon] by (simp add: date_text_def plain_name_def)
  have one: "\<exists>s. ngx_http_time buf t = Some s \<and> length s = 29 \<and> ngx_parse_http_time s = Got (min (max t 0) 253402300799)"
    using printed len parse(1)[of "tm_year tm"] valid_value[OF tm(1,3,4)] tm(2,4)
    by (simp add: ngx_http_time_def Let_def ngx_sprintf_def tm_def[symmetric])
  have "\<exists>s. ngx_http_cookie_time buf t = Some s \<and> ngx_parse_http_time s = Got (max t 0)" if t: "t < 2145916800"
  proof -
    have y: "tm_year tm \<le> 2037"
    proof (rule ccontr)
      assume "\<not> tm_year tm \<le> 2037"
      then have "int (year_days 2038) \<le> int (year_days (tm_year tm))" by (simp add: year_days_mono)
      moreover have "int (year_days 2038) = 719528 + 24837" using year_days_gauss[of 2037] by (simp add: gauss_def)
      moreover have "1 \<le> tm_mday tm" using tm(1) by (simp add: tm_valid_def)
      ultimately have "24837 \<le> civil_day (tm_year tm) (tm_mon tm - 1) (tm_mday tm)"
        using epoch_days by (simp add: civil_day_def)
      then show False using tm(2) t by (simp add: civil_time_def)
    qed
    have "tm_year tm mod 100 + (if tm_year tm mod 100 < 70 then 2000 else 1900) = tm_year tm"
    proof (cases "tm_year tm < 2000")
      case True
      then have "tm_year tm mod 100 = tm_year tm - 1900" using tm(3) by (intro mod_nat_eqI) simp_all
      then show ?thesis using True tm(3) by simp
    next
      case False
      then have "tm_year tm mod 100 = tm_year tm - 2000" using y by (intro mod_nat_eqI) simp_all
      then show ?thesis using False y by simp
    qed
    with parse(2)[of "tm_year tm mod 100"] valid_value[OF tm(1,3,4)] tm(2) t http_cookie_text[OF tm(1,3) y wd, of "unat (- 1 - buf)"]
      assms y
    show ?thesis by (simp add: ngx_http_cookie_time_def Let_def ngx_sprintf_def tm_def[symmetric])
  qed
  with one show ?thesis by blast
qed

theorem http_time_roundtrip_witness:
  "\<exists>s. ngx_http_cookie_time 0 951782400 = Some s \<and> ngx_parse_http_time s = Got 951782400"
  using http_time_roundtrip[of 0 951782400] by (simp add: unsigned_minus_1_eq_mask mask_eq_exp_minus_1)

text \<open>
  C0: The clock's calendar is right: the broken-down time has a month, day and clock that exist, they count back to the same
  number of seconds, and the day of the week is the one that makes January 1, 1970 a Thursday.
\<close>

theorem gmtime_counts:
  assumes "0 \<le> t" and "t \<le> 253402300799"
  shows "tm_valid (ngx_gmtime t) \<and> tm_time (ngx_gmtime t) = t \<and> int (tm_wday (ngx_gmtime t)) = (4 + t div 86400) mod 7"
  using gmtime_exact[OF assms(1)] assms(2) by (simp add: min_absorb1)

theorem gmtime_counts_witness:
  "tm_valid (ngx_gmtime 951782400) \<and> tm_time (ngx_gmtime 951782400) = 951782400"
  using gmtime_counts[of 951782400] by simp
end
