(* ===== verification/HttpRange.thy ===== *)
theory HttpRange
  imports NgxPrintf
begin

text \<open>
  Byte ranges, \<^verbatim>\<open>src/http/modules/ngx_http_range_filter_module.c\<close>: the parser of the Range header, the header filter, which
  answers with one part, with several, or that the range is not satisfiable, and the body filter, which cuts the parts out of
  the buffers of the body. Offsets are \<^verbatim>\<open>off_t\<close>; they are integers here, with the code's tests against overflow, and stay
  within the type. Allocations that may fail and the addresses they return are parameters.
\<close>

section \<open>Parsing the Range header\<close>

record http_range =
  rg_start :: int
  rg_end :: int
  rg_content_range :: bytes

datatype range_rc = RANGE_OK | RANGE_ERROR | RANGE_DECLINED | NGX_HTTP_RANGE_NOT_SATISFIABLE

definition skip_spaces :: "bytes \<Rightarrow> bytes" where
  "skip_spaces p = dropWhile (\<lambda>c. c = ch_space) p"

text \<open>The digits of an offset; None is the early return for a number above the maximum.\<close>

fun range_number :: "int \<Rightarrow> bytes \<Rightarrow> (int \<times> bytes) option" where
  "range_number v [] = Some (v, [])"
| "range_number v (c # p) =
    (if is_digit c then
       if v \<ge> max_cutoff \<and> (v > max_cutoff \<or> uint c - 48 > max_cutlim) then None
       else range_number (v * 10 + (uint c - 48)) p
     else Some (v, c # p))"

text \<open>From the first octet of the last position to the label \<^verbatim>\<open>found\<close>.\<close>

definition range_last :: "int \<Rightarrow> int \<Rightarrow> bool \<Rightarrow> bytes \<Rightarrow> (int \<times> int \<times> bytes) option" where
  "range_last content_length start from_end p =
    (if \<not> is_digit (c_head p) then None
     else case range_number 0 p of
       None \<Rightarrow> None
     | Some (fin, p) \<Rightarrow>
         let p = skip_spaces p in
         if c_head p \<noteq> ch_comma \<and> c_head p \<noteq> ch_NUL then None
         else
           let (start, fin) =
                 (if from_end then (if fin < content_length then content_length - fin else 0, content_length - 1)
                  else (start, fin));
               fin = (if fin \<ge> content_length then content_length else fin + 1)
           in Some (start, fin, p))"

text \<open>One range of the list, up to \<^verbatim>\<open>found\<close>: its start, its end and what is left.\<close>

definition range_spec :: "int \<Rightarrow> bytes \<Rightarrow> (int \<times> int \<times> bytes) option" where
  "range_spec content_length p =
    (let p = skip_spaces p in
     if c_head p \<noteq> ch_minus then
       if \<not> is_digit (c_head p) then None
       else case range_number 0 p of
         None \<Rightarrow> None
       | Some (start, p) \<Rightarrow>
           let p = skip_spaces p in
           if c_head p \<noteq> ch_minus then None
           else let p = skip_spaces (tl p) in
             if c_head p = ch_comma \<or> c_head p = ch_NUL then Some (start, content_length, p)
             else range_last content_length start False p
     else range_last content_length 0 True (tl p))"

lemma range_number_moves: "range_number v p = Some (w, q) \<Longrightarrow> length q \<le> length p"
  by (induction v p rule: range_number.induct) (auto split: if_splits)

lemma skip_spaces_moves: "n \<le> length (skip_spaces p) \<Longrightarrow> n \<le> length p"
  using length_dropWhile_le[of "\<lambda>c. c = ch_space" p] by (simp add: skip_spaces_def)

lemma tl_moves: "n \<le> length (tl p) \<Longrightarrow> n \<le> length p"
  by simp

lemma skip_spaces_le: "length p \<le> k \<Longrightarrow> length (skip_spaces p) \<le> k"
  by (rule le_trans[OF skip_spaces_moves[OF order_refl]])

lemma tl_le: "length p \<le> k \<Longrightarrow> length (tl p) \<le> k"
  by simp

lemma range_last_moves: "range_last cl start from_end p = Some (s, e, q) \<Longrightarrow> length q \<le> length p"
  by (auto simp: range_last_def Let_def split: if_splits option.splits dest!: range_number_moves intro: skip_spaces_le)

lemma range_spec_moves: "range_spec cl p = Some (s, e, q) \<Longrightarrow> length q \<le> length p"
  by (auto simp: range_spec_def Let_def split: if_splits option.splits simp del: length_tl
      dest!: range_number_moves range_last_moves skip_spaces_moves tl_moves intro!: skip_spaces_le tl_le)

lemma range_spec_next:
  assumes "range_spec cl p = Some (s, e, q)" and "c_head q = ch_comma"
  shows "length (tl q) < length p"
proof -
  have "q \<noteq> []" using assms(2) by (auto simp: c_head_def)
  then have "length (tl q) < length q" by simp
  then show ?thesis using range_spec_moves[OF assms(1)] by (rule less_le_trans)
qed

text \<open>
  The loop over the list. \<open>push\<close> tells whether \<^verbatim>\<open>ngx_array_push\<close> has room for another range when there are as many as given;
  the ranges pushed so far stay in the context also when the return code is no success.
\<close>

function range_loop ::
  "(nat \<Rightarrow> bool) \<Rightarrow> int \<Rightarrow> nat \<Rightarrow> int \<Rightarrow> http_range list \<Rightarrow> bytes \<Rightarrow> range_rc \<times> http_range list" where
  "range_loop push content_length ranges got rs p =
    (case range_spec content_length p of
       None \<Rightarrow> (NGX_HTTP_RANGE_NOT_SATISFIABLE, rs)
     | Some (start, fin, p) \<Rightarrow>
         let finish = (\<lambda>got rs.
               if rs = [] then (NGX_HTTP_RANGE_NOT_SATISFIABLE, rs)
               else if got > content_length then (RANGE_DECLINED, rs)
               else (RANGE_OK, rs)) in
         if start < fin then
           if \<not> push (length rs) then (RANGE_ERROR, rs)
           else
             let rs = rs @ [\<lparr>rg_start = start, rg_end = fin, rg_content_range = []\<rparr>] in
             if got > NGX_MAX_OFF_T_VALUE - (fin - start) then (NGX_HTTP_RANGE_NOT_SATISFIABLE, rs)
             else if ranges = 0 then (RANGE_DECLINED, rs)
             else if c_head p \<noteq> ch_comma then finish (got + (fin - start)) rs
             else range_loop push content_length (ranges - 1) (got + (fin - start)) rs (tl p)
         else if start = 0 then (RANGE_DECLINED, rs)
         else if c_head p \<noteq> ch_comma then finish got rs
         else range_loop push content_length ranges got rs (tl p))"
  by pat_completeness auto

termination range_loop
  by (relation "measure (\<lambda>(push, cl, ranges, got, rs, p). length p)")
    (auto intro: range_spec_next[unfolded length_tl, OF sym, simplified] range_spec_next[unfolded length_tl, simplified])

declare range_loop.simps [simp del]

text \<open>
  The value of the header begins with the six octets \<^verbatim>\<open>bytes=\<close>. A subrequest takes over the ranges of the main request, when
  that one has a context.
\<close>

definition ngx_http_range_parse ::
  "bool \<Rightarrow> (nat \<Rightarrow> bool) \<Rightarrow> http_range list option \<Rightarrow> bytes \<Rightarrow> int \<Rightarrow> nat \<Rightarrow> range_rc \<times> http_range list" where
  "ngx_http_range_parse init push mctx value content_length ranges =
    (case mctx of
       Some rs \<Rightarrow> (RANGE_OK, rs)
     | None \<Rightarrow>
         if \<not> init then (RANGE_ERROR, [])
         else range_loop push content_length ranges 0 [] (drop 6 value))"

section \<open>What the parser accepts\<close>

abbreviation rg_len :: "http_range \<Rightarrow> int" where
  "rg_len r \<equiv> rg_end r - rg_start r"

definition range_ok :: "int \<Rightarrow> http_range \<Rightarrow> bool" where
  "range_ok content_length r \<longleftrightarrow> 0 \<le> rg_start r \<and> rg_start r < rg_end r \<and> rg_end r \<le> content_length"

lemma range_number_bounds:
  "range_number v p = Some (w, q) \<Longrightarrow> 0 \<le> v \<Longrightarrow> v \<le> NGX_MAX_OFF_T_VALUE \<Longrightarrow> 0 \<le> w \<and> w \<le> NGX_MAX_OFF_T_VALUE"
proof (induction v p rule: range_number.induct)
  case (2 v c p)
  then show ?case using dec_digit_bounds[of c] by (auto simp: dec_digit_def split: if_splits)
qed simp

lemma range_spec_bounds:
  assumes "range_spec cl p = Some (s, e, q)" and "0 \<le> cl"
  shows "0 \<le> s \<and> e \<le> cl"
  using assms range_number_bounds[of 0]
  by (auto simp: range_spec_def range_last_def Let_def split: if_splits option.splits)

lemma range_loop_spec:
  "range_spec cl p = Some (s, e, q) \<Longrightarrow> range_loop push cl ranges got rs p =
    (let finish = (\<lambda>got rs.
          if rs = [] then (NGX_HTTP_RANGE_NOT_SATISFIABLE, rs)
          else if got > cl then (RANGE_DECLINED, rs) else (RANGE_OK, rs));
         rs' = rs @ [\<lparr>rg_start = s, rg_end = e, rg_content_range = []\<rparr>] in
     if s < e then
       if \<not> push (length rs) then (RANGE_ERROR, rs)
       else if got > NGX_MAX_OFF_T_VALUE - (e - s) then (NGX_HTTP_RANGE_NOT_SATISFIABLE, rs')
       else if ranges = 0 then (RANGE_DECLINED, rs')
       else if c_head q \<noteq> ch_comma then finish (got + (e - s)) rs'
       else range_loop push cl (ranges - 1) (got + (e - s)) rs' (tl q)
     else if s = 0 then (RANGE_DECLINED, rs)
     else if c_head q \<noteq> ch_comma then finish got rs
     else range_loop push cl ranges got rs (tl q))"
  by (subst range_loop.simps) (simp add: Let_def)

lemma range_loop_ok:
  assumes "range_loop push cl ranges got rs p = (RANGE_OK, rs')" and "0 \<le> cl"
    and "\<forall>r \<in> set rs. range_ok cl r" and "got = sum_list (map rg_len rs)"
  shows "rs' \<noteq> [] \<and> length rs' \<le> length rs + ranges \<and> (\<forall>r \<in> set rs'. range_ok cl r) \<and>
    sum_list (map rg_len rs') \<le> cl"
  using assms
proof (induction push cl ranges got rs p rule: range_loop.induct)
  case (1 push cl ranges got rs p)
  obtain s e q where spec: "range_spec cl p = Some (s, e, q)"
    using "1.prems"(1) by (subst (asm) range_loop.simps) (auto split: option.splits)
  note step = "1.prems"(1)[unfolded range_loop_spec[OF spec]]
  note b = range_spec_bounds[OF spec "1.prems"(2)]
  let ?r = "\<lparr>rg_start = s, rg_end = e, rg_content_range = []\<rparr>"
  show ?case
  proof (cases "s < e")
    case True
    have ok: "\<forall>r \<in> set (rs @ [?r]). range_ok cl r" using "1.prems"(3) b True by (auto simp: range_ok_def)
    have got: "got + (e - s) = sum_list (map rg_len (rs @ [?r]))" using "1.prems"(4) by simp
    have conds: "push (length rs) \<and> \<not> got > NGX_MAX_OFF_T_VALUE - (e - s) \<and> ranges \<noteq> 0"
      using step True by (auto simp: Let_def split: if_splits)
    show ?thesis
    proof (cases "c_head q = ch_comma")
      case comma: True
      then have "range_loop push cl (ranges - 1) (got + (e - s)) (rs @ [?r]) (tl q) = (RANGE_OK, rs')"
        using step True conds by (simp add: Let_def)
      with "1.IH"(1)[OF spec refl refl _ True] conds comma "1.prems"(2) ok got
      show ?thesis by auto
    next
      case False
      then show ?thesis using step True conds ok got by (auto simp: Let_def split: if_splits)
    qed
  next
    case False
    have s: "s \<noteq> 0" using step False by (auto simp: Let_def)
    show ?thesis
    proof (cases "c_head q = ch_comma")
      case comma: True
      then have "range_loop push cl ranges got rs (tl q) = (RANGE_OK, rs')" using step False s by (simp add: Let_def)
      with "1.IH"(2)[OF spec refl refl _ False s] comma "1.prems"(2-4) show ?thesis by auto
    next
      case no_comma: False
      then show ?thesis using step "1.prems"(2-4) False s by (auto simp: Let_def split: if_splits)
    qed
  qed
qed

section \<open>Range lists as they are written\<close>

text \<open>
  The three forms of RFC 7233, the numbers of spaces that may stand in and around them, and the half-open interval of offsets
  that a form selects in a representation of a length.
\<close>

datatype range_form = Range_from nat | Range_from_to nat nat | Range_last nat

record spaced =
  sp_before :: nat
  sp_dash :: nat
  sp_middle :: nat
  sp_after :: nat

abbreviation blanks :: "nat \<Rightarrow> bytes" where
  "blanks n \<equiv> replicate n ch_space"



fun form_interval :: "int \<Rightarrow> range_form \<Rightarrow> int \<times> int" where
  "form_interval len (Range_from a) = (int a, len)"
| "form_interval len (Range_from_to a b) = (int a, min (int b + 1) len)"
| "form_interval len (Range_last n) = (max 0 (len - int n), len)"


lemma skip_blanks [simp]: "skip_spaces (blanks n @ p) = skip_spaces p" "skip_spaces (ch_space # p) = skip_spaces p"
  by (induction n) (simp_all add: skip_spaces_def)


lemma c_head_Cons [simp]: "c_head (c # p) = c" "c_head [] = ch_NUL"
  by (simp_all add: c_head_def)










definition selected :: "int \<Rightarrow> (spaced \<times> range_form) list \<Rightarrow> (int \<times> int) list" where
  "selected len fs = filter (\<lambda>(s, e). s < e) (map (form_interval len) (map snd fs))"

lemma selected_simps [simp]:
  "selected len [] = []"
  "selected len ((sp, f) # fs) =
     (if fst (form_interval len f) < snd (form_interval len f) then form_interval len f # selected len fs else selected len fs)"
  by (auto simp: selected_def split: prod.split)




section \<open>Properties\<close>

text \<open>
  C0: The ranges that are accepted lie in the representation. Whatever the header says, a successful parse yields at least one
  range and at most as many as are allowed; each is nonempty and within the length, and together they are no longer than it, so
  that a client cannot make the server send more than the whole.
\<close>

theorem range_parse_ok:
  assumes "ngx_http_range_parse ini push None v len ranges = (RANGE_OK, rs)" and "0 \<le> len"
  shows "rs \<noteq> [] \<and> length rs \<le> ranges \<and> (\<forall>rng \<in> set rs. range_ok len rng) \<and> sum_list (map rg_len rs) \<le> len"
  using assms range_loop_ok[of push len ranges 0 "[]" "drop 6 v" rs]
  by (auto simp: ngx_http_range_parse_def split: if_splits)

theorem range_parse_ok_witness:
  "\<forall>rng \<in> {\<lparr>rg_start = 1, rg_end = 3, rg_content_range = []\<rparr>, \<lparr>rg_start = 4, rg_end = 5, rg_content_range = []\<rparr>}. range_ok 5 rng"
proof -
  have "ngx_http_range_parse True (\<lambda>_. True) None (octets ''bytes=1-2, 4-'') 5 3 =
      (RANGE_OK, [\<lparr>rg_start = 1, rg_end = 3, rg_content_range = []\<rparr>, \<lparr>rg_start = 4, rg_end = 5, rg_content_range = []\<rparr>])" by code_simp
  from range_parse_ok[OF this] show ?thesis by simp
qed



end
