(* ===== verification/HttpRangeFilter.thy ===== *)
theory HttpRangeFilter
  imports HttpRange NgxTime
begin

text \<open>
  The header filter and the body filter of \<^verbatim>\<open>src/http/modules/ngx_http_range_filter_module.c\<close>. The header filter decides
  whether a response becomes partial and writes its headers; the body filter cuts the ranges out of the buffers of
  the body. What the filters call next is given the request, or the output chain, that the functions return.
\<close>

section \<open>The request and the context\<close>

text \<open>What the filter reads and writes of \<^verbatim>\<open>ngx_http_request_t\<close>; a header is its value, None when it is absent or deleted.\<close>

record range_request =
  rq_version :: nat
  rq_main :: bool
  rq_subrequest_ranges :: bool
  rq_allow_ranges :: bool
  rq_single_range :: bool
  rq_max_ranges :: nat
  rq_range :: "bytes option"
  rq_if_range :: "bytes option"
  rq_etag :: "bytes option"
  rq_last_modified :: int
  rq_status :: nat
  rq_status_line :: bytes
  rq_content_length :: int
  rq_content_offset :: int
  rq_length_header :: "bytes option"
  rq_content_range :: "bytes option"
  rq_accept_ranges :: "bytes option"
  rq_content_type :: bytes
  rq_content_type_len :: nat
  rq_charset :: bytes
  rq_main_ranges :: "http_range list option"

record range_ctx =
  rc_offset :: int
  rc_boundary_header :: bytes
  rc_ranges :: "http_range list"

text \<open>
  What the system answers: the allocations of the context, the array, its elements and the headers, the blocks of
  \<^verbatim>\<open>ngx_pnalloc\<close> by the number of the call and the size, and the number for the boundary.
\<close>

record range_io =
  io_ctx :: bool
  io_array :: bool
  io_push :: "nat \<Rightarrow> bool"
  io_header :: bool
  io_pnalloc :: "nat \<Rightarrow> nat \<Rightarrow> u64 option"
  io_number :: u64

text \<open>The filter hands the request on, or returns a code itself.\<close>

datatype filter_end = Next_filter | Return_error | Return_not_satisfiable

abbreviation NGX_HTTP_OK :: nat where "NGX_HTTP_OK \<equiv> 200"
abbreviation NGX_HTTP_PARTIAL_CONTENT :: nat where "NGX_HTTP_PARTIAL_CONTENT \<equiv> 206"
abbreviation NGX_HTTP_VERSION_10 :: nat where "NGX_HTTP_VERSION_10 \<equiv> 1000"
abbreviation NGX_OFF_T_LEN :: nat where "NGX_OFF_T_LEN \<equiv> 20"

abbreviation off_arg :: "int \<Rightarrow> print_arg" where
  "off_arg n \<equiv> Arg_int (word_of_int n)"

abbreviation str_arg :: "bytes \<Rightarrow> print_arg" where
  "str_arg s \<equiv> Arg_ngx_str s (word_of_nat (length s))"

section \<open>The headers of a partial response\<close>

text \<open>The result None is undefined behaviour of the formatted output.\<close>

definition ngx_http_range_singlepart_header ::
  "range_io \<Rightarrow> range_request \<Rightarrow> range_ctx \<Rightarrow> (filter_end \<times> range_request \<times> range_ctx) option" where
  "ngx_http_range_singlepart_header io r ctx =
    (if \<not> rq_main r then Some (Next_filter, r, ctx)
     else if \<not> io_header io then Some (Return_error, r, ctx)
     else case io_pnalloc io 0 (8 + 3 * NGX_OFF_T_LEN) of
       None \<Rightarrow> Some (Return_error, r\<lparr>rq_content_range := None\<rparr>, ctx)
     | Some data \<Rightarrow>
         let rng = hd (rc_ranges ctx) in
         case ngx_sprintf data (octets ''bytes %O-%O/%O'')
                [off_arg (rg_start rng), off_arg (rg_end rng - 1), off_arg (rq_content_length r)] of
           None \<Rightarrow> None
         | Some value \<Rightarrow>
             Some (Next_filter,
               r\<lparr>rq_content_range := Some value, rq_content_length := rg_end rng - rg_start rng,
                 rq_content_offset := rg_start rng, rq_length_header := None\<rparr>, ctx))"

text \<open>
  The loop over the ranges: their \<^verbatim>\<open>content_range\<close> and the length of the body. When an allocation fails the request
  ends, so the ranges written before it are not kept.
\<close>

fun multipart_ranges ::
  "range_io \<Rightarrow> int \<Rightarrow> nat \<Rightarrow> nat \<Rightarrow> http_range list \<Rightarrow> int \<Rightarrow> ((http_range list \<times> int) option) option" where
  "multipart_ranges io content_length header_len i [] len = Some (Some ([], len))"
| "multipart_ranges io content_length header_len i (rng # rs) len =
    (case io_pnalloc io i (3 * NGX_OFF_T_LEN + 2 + 4) of
       None \<Rightarrow> Some None
     | Some data \<Rightarrow>
         case ngx_sprintf data (octets ''%O-%O/%O'' @ [CR, LF, CR, LF])
                [off_arg (rg_start rng), off_arg (rg_end rng - 1), off_arg content_length] of
           None \<Rightarrow> None
         | Some value \<Rightarrow>
             let rng = rng\<lparr>rg_content_range := value\<rparr>;
                 len = len + int header_len + int (length value) + (rg_end rng - rg_start rng)
             in case multipart_ranges io content_length header_len (i + 1) rs len of
                  None \<Rightarrow> None
                | Some None \<Rightarrow> Some None
                | Some (Some (rs, len)) \<Rightarrow> Some (Some (rng # rs, len)))"

text \<open>The size of the block for the boundary header, and the header itself.\<close>

definition boundary_size :: "range_request \<Rightarrow> nat" where
  "boundary_size r =
    4 + 20 + 16 + length (rq_content_type r) + 23 +
    (if rq_content_type_len r = length (rq_content_type r) \<and> length (rq_charset r) \<noteq> 0
     then 10 + length (rq_charset r) else 0)"

definition boundary_header :: "range_request \<Rightarrow> u64 \<Rightarrow> u64 \<Rightarrow> bytes option" where
  "boundary_header r data boundary =
    (if rq_content_type_len r = length (rq_content_type r) \<and> length (rq_charset r) \<noteq> 0 then
       ngx_sprintf data
         ([CR, LF] @ octets ''--%0muA'' @ [CR, LF] @ octets ''Content-Type: %V; charset=%V'' @ [CR, LF] @
          octets ''Content-Range: bytes '')
         [Arg_int boundary, str_arg (rq_content_type r), str_arg (rq_charset r)]
     else if length (rq_content_type r) \<noteq> 0 then
       ngx_sprintf data
         ([CR, LF] @ octets ''--%0muA'' @ [CR, LF] @ octets ''Content-Type: %V'' @ [CR, LF] @
          octets ''Content-Range: bytes '')
         [Arg_int boundary, str_arg (rq_content_type r)]
     else
       ngx_sprintf data ([CR, LF] @ octets ''--%0muA'' @ [CR, LF] @ octets ''Content-Range: bytes '') [Arg_int boundary])"

definition ngx_http_range_multipart_header ::
  "range_io \<Rightarrow> range_request \<Rightarrow> range_ctx \<Rightarrow> (filter_end \<times> range_request \<times> range_ctx) option" where
  "ngx_http_range_multipart_header io r ctx =
    (case io_pnalloc io 0 (boundary_size r) of
       None \<Rightarrow> Some (Return_error, r, ctx)
     | Some data \<Rightarrow>
         let boundary = io_number io in
         case boundary_header r data boundary of
           None \<Rightarrow> None
         | Some header \<Rightarrow>
             let ctx = ctx\<lparr>rc_boundary_header := header\<rparr> in
             case io_pnalloc io 1 (45 + 20) of
               None \<Rightarrow> Some (Return_error, r, ctx)
             | Some data \<Rightarrow>
                 case ngx_sprintf data (octets ''multipart/byteranges; boundary=%0muA'') [Arg_int boundary] of
                   None \<Rightarrow> None
                 | Some content_type \<Rightarrow>
                     let r = r\<lparr>rq_content_type := content_type, rq_content_type_len := length content_type, rq_charset := []\<rparr> in
                     case multipart_ranges io (rq_content_length r) (length header) 2 (rc_ranges ctx) (4 + 20 + 4) of
                       None \<Rightarrow> None
                     | Some None \<Rightarrow> Some (Return_error, r, ctx)
                     | Some (Some (rs, len)) \<Rightarrow>
                         Some (Next_filter,
                           r\<lparr>rq_content_length := len, rq_length_header := None, rq_content_range := None\<rparr>,
                           ctx\<lparr>rc_ranges := rs\<rparr>))"

definition ngx_http_range_not_satisfiable :: "range_io \<Rightarrow> range_request \<Rightarrow> (filter_end \<times> range_request) option" where
  "ngx_http_range_not_satisfiable io r =
    (let r = r\<lparr>rq_status := 416\<rparr> in
     if \<not> io_header io then Some (Return_error, r)
     else case io_pnalloc io 0 (8 + NGX_OFF_T_LEN) of
       None \<Rightarrow> Some (Return_error, r\<lparr>rq_content_range := None\<rparr>)
     | Some data \<Rightarrow>
         map_option (\<lambda>value. (Return_not_satisfiable,
             r\<lparr>rq_content_range := Some value, rq_content_length := - 1, rq_length_header := None\<rparr>))
           (ngx_sprintf data (octets ''bytes */%O'') [off_arg (rq_content_length r)]))"

section \<open>The header filter\<close>

text \<open>\<^verbatim>\<open>strncmp\<close> on octets, as far as its being zero is concerned.\<close>

fun strncmp_equal :: "bytes \<Rightarrow> bytes \<Rightarrow> nat \<Rightarrow> bool" where
  "strncmp_equal s1 s2 0 = True"
| "strncmp_equal s1 s2 (Suc n) =
    (c_head s1 = c_head s2 \<and> (c_head s1 = ch_NUL \<or> strncmp_equal (tl s1) (tl s2) n))"

text \<open>Whether the If-Range header lets the range be served; the result None is a date that is read past its end.\<close>

definition if_range_passes :: "range_request \<Rightarrow> bool option" where
  "if_range_passes r =
    (case rq_if_range r of
       None \<Rightarrow> Some True
     | Some if_range \<Rightarrow>
         if length if_range \<ge> 2 \<and> if_range ! (length if_range - 1) = ch_dquote then
           (case rq_etag r of
              None \<Rightarrow> Some False
            | Some etag \<Rightarrow> Some (length if_range = length etag \<and> strncmp_equal if_range etag (length etag)))
         else if rq_last_modified r = - 1 then Some False
         else case ngx_parse_http_time if_range of
           Past_end \<Rightarrow> None
         | Bad \<Rightarrow> Some (NGX_ERROR_INT = rq_last_modified r)
         | Got t \<Rightarrow> Some (t = rq_last_modified r))"

definition range_next_filter :: "range_io \<Rightarrow> range_request \<Rightarrow> filter_end \<times> range_request" where
  "range_next_filter io r =
    (if \<not> io_header io then (Return_error, r) else (Next_filter, r\<lparr>rq_accept_ranges := Some (octets ''bytes'')\<rparr>))"

definition ngx_http_range_header_filter ::
  "range_io \<Rightarrow> range_request \<Rightarrow> (filter_end \<times> range_request \<times> range_ctx option) option" where
  "ngx_http_range_header_filter io r =
    (if rq_version r < NGX_HTTP_VERSION_10 \<or> rq_status r \<noteq> NGX_HTTP_OK \<or> (\<not> rq_main r \<and> \<not> rq_subrequest_ranges r) \<or>
        rq_content_length r = - 1 \<or> \<not> rq_allow_ranges r
     then Some (Next_filter, r, None)
     else if rq_max_ranges r = 0 then Some (Next_filter, r, None)
     else
       let next_filter = (case range_next_filter io r of (e, r) \<Rightarrow> Some (e, r, None)) in
       case rq_range r of
         None \<Rightarrow> next_filter
       | Some value \<Rightarrow>
           if length value < 7 \<or> ngx_strncasecmp value (octets ''bytes='') 6 \<noteq> 0 then next_filter
           else case if_range_passes r of
             None \<Rightarrow> None
           | Some False \<Rightarrow> next_filter
           | Some True \<Rightarrow>
               if \<not> io_ctx io then Some (Return_error, r, None)
               else
                 let ranges = (if rq_single_range r then 1 else rq_max_ranges r) in
                 case ngx_http_range_parse (io_array io) (io_push io) (if rq_main r then None else rq_main_ranges r)
                        value (rq_content_length r) ranges of
                   (RANGE_OK, rs) \<Rightarrow>
                     let ctx = \<lparr>rc_offset = rq_content_offset r, rc_boundary_header = [], rc_ranges = rs\<rparr>;
                         r = r\<lparr>rq_status := NGX_HTTP_PARTIAL_CONTENT, rq_status_line := []\<rparr>
                     in map_option (\<lambda>(e, r, ctx). (e, r, Some ctx))
                          (if length rs = 1 then ngx_http_range_singlepart_header io r ctx
                           else ngx_http_range_multipart_header io r ctx)
                 | (NGX_HTTP_RANGE_NOT_SATISFIABLE, rs) \<Rightarrow>
                     map_option (\<lambda>(e, r). (e, r, None)) (ngx_http_range_not_satisfiable io r)
                 | (RANGE_ERROR, rs) \<Rightarrow> Some (Return_error, r, None)
                 | (RANGE_DECLINED, rs) \<Rightarrow> next_filter)"

section \<open>The buffers of the body\<close>

text \<open>
  A buffer is in memory, in a file, in both, or only carries flags. Positions are indices into its block and offsets in
  its file.
\<close>

record range_buf =
  bf_in_memory :: bool
  bf_in_file :: bool
  bf_mem :: bytes
  bf_pos :: nat
  bf_last :: nat
  bf_file_pos :: int
  bf_file_last :: int
  bf_flush :: bool
  bf_sync :: bool
  bf_last_buf :: bool
  bf_last_in_chain :: bool

definition ngx_buf_special :: "range_buf \<Rightarrow> bool" where
  "ngx_buf_special b \<longleftrightarrow> (bf_flush b \<or> bf_last_buf b \<or> bf_sync b) \<and> \<not> bf_in_memory b \<and> \<not> bf_in_file b"

definition ngx_buf_size :: "range_buf \<Rightarrow> int" where
  "ngx_buf_size b = (if bf_in_memory b then int (bf_last b) - int (bf_pos b) else bf_file_last b - bf_file_pos b)"

section \<open>One part\<close>

definition skip_buf :: "range_buf \<Rightarrow> range_buf" where
  "skip_buf b =
    (let b = (if bf_in_file b then b\<lparr>bf_file_pos := bf_file_last b\<rparr> else b)
     in b\<lparr>bf_pos := bf_last b, bf_sync := True\<rparr>)"

definition cut_front :: "int \<Rightarrow> range_buf \<Rightarrow> range_buf" where
  "cut_front n b =
    (let b = (if bf_in_file b then b\<lparr>bf_file_pos := bf_file_pos b + n\<rparr> else b)
     in if bf_in_memory b then b\<lparr>bf_pos := bf_pos b + nat n\<rparr> else b)"

definition cut_back :: "int \<Rightarrow> range_buf \<Rightarrow> range_buf" where
  "cut_back n b =
    (let b = (if bf_in_file b then b\<lparr>bf_file_last := bf_file_last b - n\<rparr> else b)
     in if bf_in_memory b then b\<lparr>bf_last := bf_last b - nat n\<rparr> else b)"

text \<open>
  The loop over the chain. Every buffer is returned as the call leaves it, with a flag that tells whether it is linked into
  the output; \<open>alloc\<close> tells whether the link of a number can be allocated, the result None is \<open>NGX_ERROR\<close>.
\<close>

fun singlepart_loop ::
  "(nat \<Rightarrow> bool) \<Rightarrow> bool \<Rightarrow> http_range \<Rightarrow> nat \<Rightarrow> int \<Rightarrow> range_buf list \<Rightarrow> ((bool \<times> range_buf) list \<times> int) option" where
  "singlepart_loop alloc main rng k offset [] = Some ([], offset)"
| "singlepart_loop alloc main rng k offset (buf # cl) =
    (let start = offset;
         lst = offset + ngx_buf_size buf;
         link = (\<lambda>buf. if \<not> alloc k then None
                       else map_option (\<lambda>(bufs, off). ((True, buf) # bufs, off)) (singlepart_loop alloc main rng (k + 1) lst cl));
         skip = (\<lambda>buf. map_option (\<lambda>(bufs, off). ((False, buf) # bufs, off)) (singlepart_loop alloc main rng k lst cl)) in
     if ngx_buf_special buf then if rg_end rng \<le> start then skip buf else link buf
     else if rg_end rng \<le> start \<or> rg_start rng \<ge> lst then skip (skip_buf buf)
     else
       let buf = (if rg_start rng > start then cut_front (rg_start rng - start) buf else buf) in
       if rg_end rng \<le> lst then
         link ((cut_back (lst - rg_end rng) buf)\<lparr>bf_last_buf := main, bf_last_in_chain := True\<rparr>)
       else link buf)"

definition linked :: "(bool \<times> range_buf) list \<Rightarrow> range_buf list" where
  "linked bufs = map snd (filter fst bufs)"

definition ngx_http_range_singlepart_body ::
  "(nat \<Rightarrow> bool) \<Rightarrow> bool \<Rightarrow> range_ctx \<Rightarrow> range_buf list \<Rightarrow> (range_buf list \<times> range_ctx) option" where
  "ngx_http_range_singlepart_body alloc main ctx chain =
    map_option (\<lambda>(bufs, off). (linked bufs, ctx\<lparr>rc_offset := off\<rparr>))
      (singlepart_loop alloc main (hd (rc_ranges ctx)) 0 (rc_offset ctx) chain)"

section \<open>Several parts\<close>

definition ngx_http_range_test_overlapped :: "range_ctx \<Rightarrow> range_buf \<Rightarrow> range_ctx option" where
  "ngx_http_range_test_overlapped ctx buf =
    (if rc_offset ctx \<noteq> 0 then None
     else if \<not> bf_last_buf buf \<and>
             list_ex (\<lambda>rng. rc_offset ctx > rg_start rng \<or> rc_offset ctx + ngx_buf_size buf < rg_end rng) (rc_ranges ctx)
     then None
     else Some (ctx\<lparr>rc_offset := ngx_buf_size buf\<rparr>))"

definition memory_buf :: "bytes \<Rightarrow> range_buf" where
  "memory_buf s = \<lparr>bf_in_memory = True, bf_in_file = False, bf_mem = s, bf_pos = 0, bf_last = length s, bf_file_pos = 0,
     bf_file_last = 0, bf_flush = False, bf_sync = False, bf_last_buf = False, bf_last_in_chain = False\<rparr>"

definition part_buf :: "range_buf \<Rightarrow> http_range \<Rightarrow> range_buf" where
  "part_buf buf rng =
    \<lparr>bf_in_memory = bf_in_memory buf, bf_in_file = bf_in_file buf, bf_mem = bf_mem buf,
     bf_pos = (if bf_in_memory buf then bf_pos buf + nat (rg_start rng) else 0),
     bf_last = (if bf_in_memory buf then bf_pos buf + nat (rg_end rng) else 0),
     bf_file_pos = (if bf_in_file buf then bf_file_pos buf + rg_start rng else 0),
     bf_file_last = (if bf_in_file buf then bf_file_pos buf + rg_end rng else 0),
     bf_flush = False, bf_sync = False, bf_last_buf = False, bf_last_in_chain = False\<rparr>"

text \<open>Six allocations for each range and three for the last boundary; \<open>alloc\<close> is asked in their order.\<close>

fun multipart_loop :: "(nat \<Rightarrow> bool) \<Rightarrow> bytes \<Rightarrow> range_buf \<Rightarrow> nat \<Rightarrow> http_range list \<Rightarrow> (range_buf list \<times> nat) option" where
  "multipart_loop alloc header buf k [] = Some ([], k)"
| "multipart_loop alloc header buf k (rng # rs) =
    (if list_all alloc [k..<k + 6]
     then map_option (\<lambda>(bufs, k). (memory_buf header # memory_buf (rg_content_range rng) # part_buf buf rng # bufs, k))
            (multipart_loop alloc header buf (k + 6) rs)
     else None)"

definition last_boundary :: "bytes \<Rightarrow> bytes" where
  "last_boundary header = take (4 + 20) header @ octets ''--'' @ [CR, LF]"

definition ngx_http_range_multipart_body ::
  "(nat \<Rightarrow> bool) \<Rightarrow> range_ctx \<Rightarrow> range_buf \<Rightarrow> range_buf list option" where
  "ngx_http_range_multipart_body alloc ctx buf =
    (case multipart_loop alloc (rc_boundary_header ctx) buf 0 (rc_ranges ctx) of
       None \<Rightarrow> None
     | Some (bufs, k) \<Rightarrow>
         if list_all alloc [k..<k + 3]
         then Some (bufs @ [(memory_buf (last_boundary (rc_boundary_header ctx)))\<lparr>bf_last_buf := True\<rparr>])
         else None)"

section \<open>The body filter\<close>

text \<open>The output chain for the next filter and the context; None is \<open>NGX_ERROR\<close>.\<close>

definition ngx_http_range_body_filter ::
  "(nat \<Rightarrow> bool) \<Rightarrow> bool \<Rightarrow> range_ctx option \<Rightarrow> range_buf list \<Rightarrow> (range_buf list \<times> range_ctx option) option" where
  "ngx_http_range_body_filter alloc main ctx chain =
    (case (chain, ctx) of
       ([], ctx) \<Rightarrow> Some ([], ctx)
     | (buf # cl, None) \<Rightarrow> Some (buf # cl, None)
     | (buf # cl, Some ctx) \<Rightarrow>
         if length (rc_ranges ctx) = 1 then
           map_option (\<lambda>(out, ctx). (out, Some ctx)) (ngx_http_range_singlepart_body alloc main ctx (buf # cl))
         else if ngx_buf_special buf then Some (buf # cl, Some ctx)
         else case ngx_http_range_test_overlapped ctx buf of
           None \<Rightarrow> None
         | Some ctx \<Rightarrow> map_option (\<lambda>out. (out, Some ctx)) (ngx_http_range_multipart_body alloc ctx buf))"

section \<open>What a buffer holds\<close>

text \<open>The octets of a buffer, in each of its places: its block and the file.\<close>

definition holds :: "bytes \<Rightarrow> range_buf \<Rightarrow> bytes \<Rightarrow> bool" where
  "holds fl b xs \<longleftrightarrow>
    (bf_in_memory b \<longrightarrow> bf_pos b \<le> bf_last b \<and> bf_last b \<le> length (bf_mem b) \<and> slice (bf_mem b) (bf_pos b) (bf_last b) = xs) \<and>
    (bf_in_file b \<longrightarrow> 0 \<le> bf_file_pos b \<and> bf_file_pos b \<le> bf_file_last b \<and> bf_file_last b \<le> int (length fl) \<and>
       slice fl (nat (bf_file_pos b)) (nat (bf_file_last b)) = xs) \<and>
    (\<not> bf_in_memory b \<and> \<not> bf_in_file b \<longrightarrow> xs = [] \<and> bf_file_pos b = bf_file_last b)"

lemma length_slice [simp]: "j \<le> length b \<Longrightarrow> length (slice b i j) = j - i"
  by (auto simp: slice_def)

lemma holds_length:
  assumes "holds fl b xs"
  shows "bf_in_memory b \<Longrightarrow> length xs = bf_last b - bf_pos b \<and> bf_pos b \<le> bf_last b"
    and "bf_in_file b \<Longrightarrow> int (length xs) = bf_file_last b - bf_file_pos b"
    and "\<not> bf_in_memory b \<Longrightarrow> \<not> bf_in_file b \<Longrightarrow> xs = [] \<and> bf_file_pos b = bf_file_last b"
proof -
  show "bf_in_memory b \<Longrightarrow> length xs = bf_last b - bf_pos b \<and> bf_pos b \<le> bf_last b" using assms by (auto simp: holds_def)
  show "int (length xs) = bf_file_last b - bf_file_pos b" if "bf_in_file b"
  proof -
    have "nat (bf_file_last b) \<le> length fl" using assms that by (auto simp: holds_def)
    then have "length (slice fl (nat (bf_file_pos b)) (nat (bf_file_last b))) = nat (bf_file_last b) - nat (bf_file_pos b)" by simp
    then show ?thesis using assms that by (auto simp: holds_def)
  qed
qed (use assms in \<open>auto simp: holds_def\<close>)

lemma holds_size: "holds fl b xs \<Longrightarrow> ngx_buf_size b = int (length xs)"
  using holds_length[of fl b xs] by (cases "bf_in_memory b"; cases "bf_in_file b") (simp_all add: ngx_buf_size_def of_nat_diff)



lemma holds_split:
  "holds fl b xs \<longleftrightarrow>
     (bf_in_memory b \<longrightarrow> bf_pos b \<le> bf_last b \<and> bf_last b \<le> length (bf_mem b) \<and> slice (bf_mem b) (bf_pos b) (bf_last b) = xs) \<and>
     (bf_in_file b \<longrightarrow> (\<exists>i j. bf_file_pos b = int i \<and> bf_file_last b = int j \<and> i \<le> j \<and> j \<le> length fl \<and> slice fl i j = xs)) \<and>
     (\<not> bf_in_memory b \<and> \<not> bf_in_file b \<longrightarrow> xs = [] \<and> bf_file_pos b = bf_file_last b)"
proof -
  have "(0 \<le> p \<and> p \<le> q \<and> q \<le> int (length fl) \<and> slice fl (nat p) (nat q) = xs) \<longleftrightarrow>
      (\<exists>i j. p = int i \<and> q = int j \<and> i \<le> j \<and> j \<le> length fl \<and> slice fl i j = xs)" for p q
    by (cases p; cases q) auto
  then show ?thesis unfolding holds_def by simp
qed



lemma holds_flags [simp]: "holds fl (b\<lparr>bf_last_buf := x, bf_last_in_chain := y\<rparr>) xs \<longleftrightarrow> holds fl b xs"
  by (simp add: holds_def)





lemma holds_special: "holds fl b xs \<Longrightarrow> ngx_buf_special b \<Longrightarrow> xs = []"
  by (auto simp: holds_def ngx_buf_special_def)





section \<open>The headers that are written\<close>

text \<open>A block lies within the address space.\<close>

definition blocks_ok :: "range_io \<Rightarrow> bool" where
  "blocks_ok io \<longleftrightarrow> (\<forall>k n a. io_pnalloc io k n = Some a \<longrightarrow> n \<le> unat (- 1 - a))"

definition padded_number :: "u64 \<Rightarrow> bytes" where
  "padded_number n = replicate (20 - length (dec_loop (unat n) [])) ch_0 @ dec_loop (unat n) []"

lemma length_padded_number [simp]: "length (padded_number n) = 20"
  using num_digits_temp[of n 0] by (simp add: padded_number_def num_digits_dec)

lemma vsl_0muA:
  assumes "20 \<le> room"
  shows "ngx_vslprintf room (ch_percent # ch_0 # 0x6d # 0x75 # ch_A # fmt) (Arg_int n # args) =
     map_option (\<lambda>rest. padded_number n @ rest) (ngx_vslprintf (room - 20) fmt args)"
proof (rule vsl_directive)
  have "ngx_sprintf_num room n ch_0 0 20 = padded_number n"
    using assms by (simp add: sprintf_num_full padded_number_def num_digits_dec)
  then show "print_directive room (ch_0 # 0x6d # 0x75 # ch_A # fmt) (Arg_int n # args) = Some (padded_number n, fmt, args)"
    by (simp add: print_directive_def print_conversion_def print_int_def int_directives_def is_digit_def Let_def print_signed_def)
qed (use assms in simp_all)

text \<open>The texts of the two Content-Range forms and of the boundary header.\<close>

definition content_range_text :: "int \<Rightarrow> http_range \<Rightarrow> bytes" where
  "content_range_text len rng =
     dec_loop (nat (rg_start rng)) [] @ [ch_minus] @ dec_loop (nat (rg_end rng - 1)) [] @ [ch_slash] @ dec_loop (nat len) []"

definition boundary_text :: "range_request \<Rightarrow> u64 \<Rightarrow> bytes" where
  "boundary_text r n =
     [CR, LF] @ octets ''--'' @ padded_number n @ [CR, LF] @
     (if length (rq_content_type r) = 0 \<and> \<not> (rq_content_type_len r = length (rq_content_type r) \<and> length (rq_charset r) \<noteq> 0) then []
      else octets ''Content-Type: '' @ rq_content_type r @
        (if rq_content_type_len r = length (rq_content_type r) \<and> length (rq_charset r) \<noteq> 0
         then octets ''; charset='' @ rq_charset r else []) @ [CR, LF]) @
     octets ''Content-Range: bytes ''"

lemma off_arg_nat: "0 \<le> n \<Longrightarrow> (word_of_int n :: u64) = word_of_nat (nat n)"
  by (metis of_int_of_nat_eq nat_0_le)

lemma off_digits: "n \<le> NGX_MAX_OFF_T_VALUE \<Longrightarrow> length (dec_loop (nat n) []) \<le> 19"
  using dec_loop_length[of "nat n" 18] by (simp add: nat_less_iff)

lemma range_digits:
  assumes "range_ok len rng" and "len \<le> NGX_MAX_OFF_T_VALUE"
  shows "length (dec_loop (nat (rg_start rng)) []) \<le> 19" "length (dec_loop (nat (rg_end rng - 1)) []) \<le> 19"
    "length (dec_loop (nat len) []) \<le> 19" "nat (rg_start rng) < 2 ^ 63" "nat (rg_end rng - 1) < 2 ^ 63" "nat len < 2 ^ 63"
    "0 \<le> rg_start rng" "0 \<le> rg_end rng - 1" "0 \<le> len"
  using assms by (auto simp: range_ok_def nat_less_iff intro!: off_digits)

lemma off_printed:
  assumes "s < 2 ^ 63" and "e < 2 ^ 63" and "n < 2 ^ 63"
    and "length (dec_loop s []) \<le> 19" and "length (dec_loop e []) \<le> 19" and "length (dec_loop n []) \<le> 19"
  shows "68 \<le> room \<Longrightarrow> ngx_vslprintf room (octets ''bytes %O-%O/%O'')
        [Arg_int (word_of_nat s), Arg_int (word_of_nat e), Arg_int (word_of_nat n)] =
      Some (octets ''bytes '' @ dec_loop s [] @ [ch_minus] @ dec_loop e [] @ [ch_slash] @ dec_loop n [])"
    and "66 \<le> room \<Longrightarrow> ngx_vslprintf room (octets ''%O-%O/%O'' @ [CR, LF, CR, LF])
        [Arg_int (word_of_nat s), Arg_int (word_of_nat e), Arg_int (word_of_nat n)] =
      Some (dec_loop s [] @ [ch_minus] @ dec_loop e [] @ [ch_slash] @ dec_loop n [] @ [CR, LF, CR, LF])"
  using assms by (simp_all add: vsl_formats del: ngx_vslprintf.simps(2))

lemma content_range_printed:
  assumes "range_ok len rng" and "len \<le> NGX_MAX_OFF_T_VALUE"
  shows "68 \<le> room \<Longrightarrow> ngx_vslprintf room (octets ''bytes %O-%O/%O'') [off_arg (rg_start rng), off_arg (rg_end rng - 1), off_arg len] =
      Some (octets ''bytes '' @ content_range_text len rng)"
    and "66 \<le> room \<Longrightarrow> ngx_vslprintf room (octets ''%O-%O/%O'' @ [CR, LF, CR, LF])
        [off_arg (rg_start rng), off_arg (rg_end rng - 1), off_arg len] =
      Some (content_range_text len rng @ [CR, LF, CR, LF])"
    and "length (content_range_text len rng) \<le> 59"
proof -
  note d = range_digits[OF assms]
  note arg = off_arg_nat[OF d(7)] off_arg_nat[OF d(8)] off_arg_nat[OF d(9)]
  note printed = off_printed[OF d(4-6,1-3)]
  show "68 \<le> room \<Longrightarrow> ngx_vslprintf room (octets ''bytes %O-%O/%O'') [off_arg (rg_start rng), off_arg (rg_end rng - 1), off_arg len] =
      Some (octets ''bytes '' @ content_range_text len rng)"
    unfolding arg content_range_text_def using printed(1) by simp
  show "66 \<le> room \<Longrightarrow> ngx_vslprintf room (octets ''%O-%O/%O'' @ [CR, LF, CR, LF])
        [off_arg (rg_start rng), off_arg (rg_end rng - 1), off_arg len] =
      Some (content_range_text len rng @ [CR, LF, CR, LF])"
    unfolding arg content_range_text_def using printed(2) by simp
  show "length (content_range_text len rng) \<le> 59" using d(1-3) by (simp add: content_range_text_def)
qed

lemma boundary_printed:
  assumes "boundary_size r \<le> room" and "room < 2 ^ 64" and "data = - 1 - word_of_nat room"
  shows "boundary_header r data n = Some (boundary_text r n) \<and> length (boundary_text r n) \<le> boundary_size r"
proof -
  have room: "unat (- 1 - data) = room" using assms(2,3) by (simp add: unsigned_of_nat take_bit_nat_eq_self)
  have ct: "length (rq_content_type r) < 2 ^ 64 - 1" "length (rq_charset r) \<noteq> 0 \<and> rq_content_type_len r = length (rq_content_type r) \<Longrightarrow>
      length (rq_charset r) < 2 ^ 64 - 1"
    using assms(1,2) by (auto simp: boundary_size_def)
  show ?thesis
    using ct assms(1)
    by (auto simp: boundary_header_def boundary_text_def boundary_size_def ngx_sprintf_def room vsl_0muA vsl_formats
        simp del: ngx_vslprintf.simps(2))
qed

lemma blocks_room:
  assumes "blocks_ok io" and "io_pnalloc io k n = Some a"
  obtains room where "n \<le> room" "room < 2 ^ 64" "unat (- 1 - a) = room" "a = - 1 - word_of_nat room"
proof (rule that[of "unat (- 1 - a)"])
  show "n \<le> unat (- 1 - a)" using assms by (auto simp: blocks_ok_def)
  show "unat (- 1 - a) < 2 ^ 64" using unsigned_less[of "- 1 - a"] by simp
qed simp_all

text \<open>What the loop over the ranges leaves: their texts, and the length of the parts.\<close>

definition with_text :: "int \<Rightarrow> http_range \<Rightarrow> http_range" where
  "with_text len rng = rng\<lparr>rg_content_range := content_range_text len rng @ [CR, LF, CR, LF]\<rparr>"

definition part_len :: "int \<Rightarrow> nat \<Rightarrow> http_range \<Rightarrow> int" where
  "part_len len header_len rng = int header_len + int (length (content_range_text len rng)) + 4 + (rg_end rng - rg_start rng)"

lemma multipart_ranges_result:
  assumes "blocks_ok io" and "len \<le> NGX_MAX_OFF_T_VALUE" and "\<forall>rng \<in> set rs. range_ok len rng"
  shows "multipart_ranges io len hl i rs acc =
    (if list_all (\<lambda>k. io_pnalloc io k 66 \<noteq> None) [i..<i + length rs]
     then Some (Some (map (with_text len) rs, acc + sum_list (map (part_len len hl) rs))) else Some None)"
  using assms(3)
proof (induction rs arbitrary: i acc)
  case (Cons rng rs)
  show ?case
  proof (cases "io_pnalloc io i 66")
    case None
    then show ?thesis by (simp add: upt_rec)
  next
    case (Some a)
    obtain room where "66 \<le> room" "unat (- 1 - a) = room" using blocks_room[OF assms(1) Some] .
    then have p: "ngx_sprintf a (octets ''%O-%O/%O'' @ [CR, LF, CR, LF]) [off_arg (rg_start rng), off_arg (rg_end rng - 1), off_arg len] =
        Some (content_range_text len rng @ [CR, LF, CR, LF])"
      using content_range_printed(2)[of len rng] Cons.prems assms(2) by (simp add: ngx_sprintf_def)
    have upt: "[i..<i + length (rng # rs)] = i # [i + 1..<i + 1 + length rs]" by (simp add: upt_rec)
    show ?thesis
      unfolding multipart_ranges.simps upt using Cons.IH[of "i + 1"] Cons.prems Some p
      by (simp add: Let_def with_text_def[of len rng] part_len_def[of len hl rng] algebra_simps)
  qed
qed simp

section \<open>A response in one part\<close>

lemma header_filter_partial:
  assumes "ngx_http_range_header_filter io r = Some (Next_filter, r', Some ctx)"
  obtains v rs where "rq_range r = Some v"
    and "ngx_http_range_parse (io_array io) (io_push io) (if rq_main r then None else rq_main_ranges r) v (rq_content_length r)
           (if rq_single_range r then 1 else rq_max_ranges r) = (RANGE_OK, rs)"
    and "(if length rs = 1 then ngx_http_range_singlepart_header io else ngx_http_range_multipart_header io)
           (r\<lparr>rq_status := NGX_HTTP_PARTIAL_CONTENT, rq_status_line := []\<rparr>)
           \<lparr>rc_offset = rq_content_offset r, rc_boundary_header = [], rc_ranges = rs\<rparr> = Some (Next_filter, r', ctx)"
  using assms
  by (auto simp: ngx_http_range_header_filter_def range_next_filter_def Let_def
      split: if_split_asm option.split_asm bool.split_asm prod.split_asm range_rc.split_asm)

lemma parse_ranges_ok:
  "ngx_http_range_parse ini push None v len ranges = (RANGE_OK, rs) \<Longrightarrow> 0 \<le> len \<Longrightarrow>
     rs \<noteq> [] \<and> length rs \<le> ranges \<and> (\<forall>rng \<in> set rs. range_ok len rng) \<and> sum_list (map rg_len rs) \<le> len"
  using range_loop_ok[of push len ranges 0 "[]" "drop 6 v" rs]
  by (auto simp: ngx_http_range_parse_def split: if_splits)

lemma multipart_header_result:
  assumes "ngx_http_range_multipart_header io r ctx = Some (Next_filter, r', ctx')" and "blocks_ok io"
    and "rq_content_length r \<le> NGX_MAX_OFF_T_VALUE" and "\<forall>rng \<in> set (rc_ranges ctx). range_ok (rq_content_length r) rng"
  shows "rc_boundary_header ctx' = boundary_text r (io_number io) \<and> length (rc_boundary_header ctx') \<le> boundary_size r \<and>
     rc_ranges ctx' = map (with_text (rq_content_length r)) (rc_ranges ctx) \<and> rc_offset ctx' = rc_offset ctx \<and>
     rq_status r' = rq_status r \<and> rq_content_type r' = octets ''multipart/byteranges; boundary='' @ padded_number (io_number io) \<and>
     rq_content_length r' =
       28 + sum_list (map (part_len (rq_content_length r) (length (boundary_text r (io_number io)))) (rc_ranges ctx))"
proof -
  let ?n = "io_number io"
  obtain a where a: "io_pnalloc io 0 (boundary_size r) = Some a"
    using assms(1) unfolding ngx_http_range_multipart_header_def by (cases "io_pnalloc io 0 (boundary_size r)") simp_all
  obtain room where "boundary_size r \<le> room" "room < 2 ^ 64" "a = - 1 - word_of_nat room" using blocks_room[OF assms(2) a] .
  note bt = boundary_printed[OF this, of ?n]
  obtain c where c: "io_pnalloc io 1 65 = Some c"
    using assms(1) bt unfolding ngx_http_range_multipart_header_def a by (cases "io_pnalloc io 1 65") (simp_all add: Let_def)
  obtain room' where "65 \<le> room'" "unat (- 1 - c) = room'" using blocks_room[OF assms(2) c] .
  then have ct: "ngx_sprintf c (octets ''multipart/byteranges; boundary=%0muA'') [Arg_int ?n] =
      Some (octets ''multipart/byteranges; boundary='' @ padded_number ?n)"
    by (simp add: ngx_sprintf_def vsl_0muA vsl_formats del: ngx_vslprintf.simps(2))
  show ?thesis
    using assms(1) bt multipart_ranges_result[OF assms(2-4), of "length (boundary_text r ?n)" 2 28]
    unfolding ngx_http_range_multipart_header_def a
    by (simp add: Let_def c[simplified] ct del: octets_Cons split: if_split_asm) auto
qed




section \<open>A response in several parts\<close>

lemma holds_memory_buf [simp]: "holds fl (memory_buf s) s" "holds fl (memory_buf s\<lparr>bf_last_buf := x\<rparr>) s"
  by (simp_all add: holds_def memory_buf_def slice_def)

lemma slice_slice: "i + e \<le> j \<Longrightarrow> slice (slice b i j) s e = slice b (i + s) (i + e)"
  by (simp add: slice_def drop_take min_def add.commute)

lemma holds_part:
  assumes "holds fl b body" and "range_ok (int (length body)) rng"
  shows "holds fl (part_buf b rng) (slice body (nat (rg_start rng)) (nat (rg_end rng)))"
proof -
  obtain s e where se: "rg_start rng = int s" "rg_end rng = int e" "s < e" "e \<le> length body"
    using assms(2) by (cases "rg_start rng"; cases "rg_end rng") (auto simp: range_ok_def)
  have mem: "bf_in_memory b \<Longrightarrow> bf_pos b + e \<le> bf_last b" using holds_length(1)[OF assms(1)] se(4) by linarith
  have "\<exists>i' j'. int i + int s = int i' \<and> int i + int e = int j' \<and> i' \<le> j' \<and> j' \<le> length fl \<and> slice fl i' j' = slice body s e"
    if "i \<le> j" "j \<le> length fl" "slice fl i j = body" for i j
  proof -
    have "i + e \<le> j" using that se(4) by auto
    then show ?thesis using that se(3) slice_slice[of i e j fl s] by (intro exI[of _ "i + s"] exI[of _ "i + e"]) auto
  qed
  then show ?thesis
    using assms(1) mem se slice_slice[of "bf_pos b" e "bf_last b" "bf_mem b" s]
    unfolding holds_split by (auto simp: part_buf_def)
qed

lemma multipart_loop_result:
  "multipart_loop (\<lambda>_. True) header b k rs =
     Some (concat (map (\<lambda>rng. [memory_buf header, memory_buf (rg_content_range rng), part_buf b rng]) rs), k + 6 * length rs)"
  by (induction rs arbitrary: k) (simp_all add: list_all_iff)

text \<open>The body as it is sent: the parts, and the boundary that closes it.\<close>

definition part_text :: "bytes \<Rightarrow> bytes \<Rightarrow> http_range \<Rightarrow> bytes" where
  "part_text header body rng =
     header @ content_range_text (int (length body)) rng @ [CR, LF, CR, LF] @ slice body (nat (rg_start rng)) (nat (rg_end rng))"

definition closing_text :: "u64 \<Rightarrow> bytes" where
  "closing_text n = [CR, LF] @ octets ''--'' @ padded_number n @ octets ''--'' @ [CR, LF]"

lemma last_boundary_text: "last_boundary (boundary_text r n) = closing_text n"
proof -
  have "take 24 ([CR, LF] @ octets ''--'' @ padded_number n @ xs) = [CR, LF] @ octets ''--'' @ padded_number n" for xs
    by simp
  then show ?thesis unfolding last_boundary_def closing_text_def boundary_text_def by simp
qed

lemma length_part_text:
  assumes "range_ok (int (length body)) rng"
  shows "int (length (part_text header body rng)) = part_len (int (length body)) (length header) rng"
proof -
  have "nat (rg_end rng) \<le> length body" using assms by (simp add: range_ok_def nat_le_iff)
  then show ?thesis using assms unfolding range_ok_def part_text_def part_len_def by simp linarith
qed

lemma length_parts:
  "\<forall>rng \<in> set rs. range_ok (int (length body)) rng \<Longrightarrow>
     int (length (concat (map (part_text header body) rs))) = sum_list (map (part_len (int (length body)) (length header)) rs)"
  by (induction rs) (simp_all add: length_part_text)

lemma holds_parts:
  assumes "holds fl b body" and "\<forall>rng \<in> set rs. range_ok (int (length body)) rng"
    and "\<forall>rng \<in> set rs. rg_content_range rng = content_range_text (int (length body)) rng @ [CR, LF, CR, LF]"
  shows "\<exists>yss. list_all2 (holds fl) (concat (map (\<lambda>rng. [memory_buf header, memory_buf (rg_content_range rng), part_buf b rng]) rs)) yss \<and>
     concat yss = concat (map (part_text header body) rs)"
  using assms(2,3)
proof (induction rs)
  case (Cons rng rs)
  then obtain yss where IH:
    "list_all2 (holds fl) (concat (map (\<lambda>rng. [memory_buf header, memory_buf (rg_content_range rng), part_buf b rng]) rs)) yss"
    "concat yss = concat (map (part_text header body) rs)" by auto
  have pt: "part_text header body rng = header @ rg_content_range rng @ slice body (nat (rg_start rng)) (nat (rg_end rng))"
    using Cons.prems by (simp add: part_text_def)
  have hp: "holds fl (part_buf b rng) (slice body (nat (rg_start rng)) (nat (rg_end rng)))"
    using holds_part[OF assms(1)] Cons.prems by simp
  show ?case
    using IH hp
    by (intro exI[of _ "header # rg_content_range rng # slice body (nat (rg_start rng)) (nat (rg_end rng)) # yss"])
      (simp add: pt)
qed simp

section \<open>When the filter answers with ranges\<close>

lemma singlepart_header_answers:
  assumes "blocks_ok io" and "io_pnalloc io 0 68 = Some a" and "io_header io" and "rq_main r" and "rc_ranges ctx = [rng]"
    and "range_ok (rq_content_length r) rng" and "rq_content_length r \<le> NGX_MAX_OFF_T_VALUE"
  shows "\<exists>r'. ngx_http_range_singlepart_header io r ctx = Some (Next_filter, r', ctx)"
proof -
  obtain room where "68 \<le> room" "unat (- 1 - a) = room" using blocks_room[OF assms(1,2)] .
  then have "ngx_sprintf a (octets ''bytes %O-%O/%O'') [off_arg (rg_start rng), off_arg (rg_end rng - 1), off_arg (rq_content_length r)] =
      Some (octets ''bytes '' @ content_range_text (rq_content_length r) rng)"
    unfolding ngx_sprintf_def using content_range_printed(1)[OF assms(6,7)] by simp
  then show ?thesis
    using assms(2-5) by (simp add: ngx_http_range_singlepart_header_def Let_def del: octets_Cons)
qed

lemma multipart_header_answers:
  assumes "blocks_ok io" and "\<And>k n. n \<le> 66 \<or> n = boundary_size r \<Longrightarrow> io_pnalloc io k n \<noteq> None"
    and "\<forall>rng \<in> set (rc_ranges ctx). range_ok (rq_content_length r) rng" and "rq_content_length r \<le> NGX_MAX_OFF_T_VALUE"
  shows "\<exists>r' ctx'. ngx_http_range_multipart_header io r ctx = Some (Next_filter, r', ctx') \<and>
     length (rc_ranges ctx') = length (rc_ranges ctx)"
proof -
  let ?n = "io_number io"
  obtain a where a: "io_pnalloc io 0 (boundary_size r) = Some a" using assms(2)[of "boundary_size r" 0] by auto
  obtain room where "boundary_size r \<le> room" "room < 2 ^ 64" "a = - 1 - word_of_nat room" using blocks_room[OF assms(1) a] .
  note bt = boundary_printed[OF this, of ?n]
  obtain c where c: "io_pnalloc io 1 65 = Some c" using assms(2)[of 65 1] by auto
  obtain room' where "65 \<le> room'" "unat (- 1 - c) = room'" using blocks_room[OF assms(1) c] .
  then have ct: "ngx_sprintf c (octets ''multipart/byteranges; boundary=%0muA'') [Arg_int ?n] =
      Some (octets ''multipart/byteranges; boundary='' @ padded_number ?n)"
    by (simp add: ngx_sprintf_def vsl_0muA vsl_formats del: ngx_vslprintf.simps(2))
  have "list_all (\<lambda>k. io_pnalloc io k 66 \<noteq> None) ks" for ks using assms(2)[of 66] by (simp add: list_all_iff)
  then show ?thesis
    using bt multipart_ranges_result[OF assms(1,4,3), of "length (boundary_text r ?n)" 2 28]
    unfolding ngx_http_range_multipart_header_def a
    by (simp add: Let_def c[simplified] ct del: octets_Cons)
qed

lemma header_filter_answers:
  assumes "rq_version r = 1001" "rq_status r = NGX_HTTP_OK" "rq_main r" "rq_allow_ranges r" "rq_max_ranges r \<noteq> 0"
    "\<not> rq_single_range r" "rq_if_range r = None" "rq_range r = Some v" "7 \<le> length v" "ngx_strncasecmp v (octets ''bytes='') 6 = 0"
    and "io_ctx io" "io_array io" "io_header io" "blocks_ok io" "\<And>k n. n \<le> 68 \<or> n = boundary_size r \<Longrightarrow> io_pnalloc io k n \<noteq> None"
    and "ngx_http_range_parse True (io_push io) None v (rq_content_length r) (rq_max_ranges r) = (RANGE_OK, rs)"
    and "0 \<le> rq_content_length r" "rq_content_length r \<le> NGX_MAX_OFF_T_VALUE"
  shows "\<exists>r' ctx. ngx_http_range_header_filter io r = Some (Next_filter, r', Some ctx) \<and> length (rc_ranges ctx) = length rs"
proof -
  let ?r = "r\<lparr>rq_status := NGX_HTTP_PARTIAL_CONTENT, rq_status_line := []\<rparr>"
  let ?ctx = "\<lparr>rc_offset = rq_content_offset r, rc_boundary_header = [], rc_ranges = rs\<rparr>"
  have rok: "\<forall>rng \<in> set rs. range_ok (rq_content_length r) rng" using parse_ranges_ok[OF assms(16,17)] by simp
  have size: "boundary_size ?r = boundary_size r" by (simp add: boundary_size_def)
  have filt: "ngx_http_range_header_filter io r = map_option (\<lambda>(e, r, ctx). (e, r, Some ctx))
      (if length rs = 1 then ngx_http_range_singlepart_header io ?r ?ctx else ngx_http_range_multipart_header io ?r ?ctx)"
    using assms(1-13,16,17) by (simp add: ngx_http_range_header_filter_def if_range_passes_def Let_def del: octets_Cons)
  show ?thesis
  proof (cases "length rs = 1")
    case True
    then obtain rng where rs: "rs = [rng]" by (auto simp: length_Suc_conv)
    obtain a where "io_pnalloc io 0 68 = Some a" using assms(15)[of 68 0] by auto
    from singlepart_header_answers[OF assms(14) this assms(13), of ?r ?ctx rng] rok rs assms(3,18) filt
    show ?thesis by auto
  next
    case False
    have "n \<le> 66 \<or> n = boundary_size ?r \<Longrightarrow> io_pnalloc io k n \<noteq> None" for k n using assms(15)[of n k] size by auto
    from multipart_header_answers[OF assms(14) this, where ctx = ?ctx] rok assms(18) filt False
    show ?thesis by auto
  qed
qed

text \<open>A system and a request that the filter answers.\<close>

definition sample_io :: range_io where
  "sample_io = \<lparr>io_ctx = True, io_array = True, io_push = (\<lambda>_. True), io_header = True,
     io_pnalloc = (\<lambda>_ n. if n \<le> 100 then Some 0 else None), io_number = 7\<rparr>"

definition sample_request :: "bytes \<Rightarrow> range_request" where
  "sample_request v = \<lparr>rq_version = 1001, rq_main = True, rq_subrequest_ranges = False, rq_allow_ranges = True,
     rq_single_range = False, rq_max_ranges = 3, rq_range = Some v, rq_if_range = None, rq_etag = None, rq_last_modified = - 1,
     rq_status = 200, rq_status_line = [], rq_content_length = 5, rq_content_offset = 0, rq_length_header = None,
     rq_content_range = None, rq_accept_ranges = None, rq_content_type = [], rq_content_type_len = 0, rq_charset = [],
     rq_main_ranges = None\<rparr>"

lemma sample_answers:
  assumes "ngx_http_range_parse True (\<lambda>_. True) None v 5 3 = (RANGE_OK, rs)" and "7 \<le> length v"
    and "ngx_strncasecmp v (octets ''bytes='') 6 = 0"
  shows "\<exists>r' ctx. ngx_http_range_header_filter sample_io (sample_request v) = Some (Next_filter, r', Some ctx) \<and>
     length (rc_ranges ctx) = length rs" and "blocks_ok sample_io"
proof -
  show b: "blocks_ok sample_io" by (simp add: blocks_ok_def sample_io_def unsigned_minus_1_eq_mask mask_eq_exp_minus_1)
  show "\<exists>r' ctx. ngx_http_range_header_filter sample_io (sample_request v) = Some (Next_filter, r', Some ctx) \<and>
     length (rc_ranges ctx) = length rs"
    by (rule header_filter_answers[OF _ _ _ _ _ _ _ _ assms(2,3)])
      (use assms(1) b in \<open>auto simp: sample_request_def sample_io_def boundary_size_def\<close>)
qed

section \<open>When the filter refuses\<close>






section \<open>Properties\<close>



text \<open>
  C21: A response of several parts is right. When the header filter makes a response with a whole body partial and keeps
  more than one range, each lies in the body, and the body filter, given the body in one buffer in memory or in a file,
  passes on the parts in the order of the request, each with the boundary, the type and its own Content-Range before the
  octets of the range, then the closing boundary: as many octets as the header filter announced.
\<close>

theorem multipart_response:
  assumes "ngx_http_range_header_filter io r = Some (Next_filter, r', Some ctx)" and "length (rc_ranges ctx) \<noteq> 1"
    and "blocks_ok io" and "rq_main r" and "rq_content_offset r = 0"
    and "rq_content_length r = int (length body)" and "rq_content_length r \<le> NGX_MAX_OFF_T_VALUE"
    and "holds fl b body"
  shows "(\<forall>rng \<in> set (rc_ranges ctx). range_ok (int (length body)) rng) \<and> rq_status r' = NGX_HTTP_PARTIAL_CONTENT \<and>
     rq_content_type r' = octets ''multipart/byteranges; boundary='' @ padded_number (io_number io) \<and>
     (\<exists>out ctx' yss. ngx_http_range_body_filter (\<lambda>_. True) True (Some ctx) [b] = Some (out, ctx') \<and> list_all2 (holds fl) out yss \<and>
        concat yss = concat (map (part_text (boundary_text r (io_number io)) body) (rc_ranges ctx)) @ closing_text (io_number io) \<and>
        int (length (concat yss)) = rq_content_length r' \<and> bf_last_buf (last out))"
proof -
  let ?n = "io_number io"
  let ?len = "int (length body)"
  from header_filter_partial[OF assms(1)] obtain v rs where
    "ngx_http_range_parse (io_array io) (io_push io) (if rq_main r then None else rq_main_ranges r) v (rq_content_length r)
           (if rq_single_range r then 1 else rq_max_ranges r) = (RANGE_OK, rs)"
    and hdr: "(if length rs = 1 then ngx_http_range_singlepart_header io else ngx_http_range_multipart_header io)
           (r\<lparr>rq_status := NGX_HTTP_PARTIAL_CONTENT, rq_status_line := []\<rparr>)
           \<lparr>rc_offset = rq_content_offset r, rc_boundary_header = [], rc_ranges = rs\<rparr> = Some (Next_filter, r', ctx)" .
  then have parse: "ngx_http_range_parse (io_array io) (io_push io) None v (rq_content_length r)
           (if rq_single_range r then 1 else rq_max_ranges r) = (RANGE_OK, rs)" using assms(4) by simp
  have rok: "rs \<noteq> []" "\<forall>rng \<in> set rs. range_ok ?len rng" using parse_ranges_ok[OF parse] assms(6) by simp_all
  have no: "length rs \<noteq> 1"
    using hdr assms(2) by (auto simp: ngx_http_range_singlepart_header_def Let_def split: if_splits option.splits)
  have bt: "boundary_text (r\<lparr>rq_status := NGX_HTTP_PARTIAL_CONTENT, rq_status_line := []\<rparr>) ?n = boundary_text r ?n"
    by (auto simp: boundary_text_def)
  from multipart_header_result[OF hdr[unfolded if_not_P[OF no]] assms(3)] rok assms(6,7)
  have h: "rc_boundary_header ctx = boundary_text r ?n" "rc_ranges ctx = map (with_text ?len) rs" "rc_offset ctx = 0"
    "rq_status r' = NGX_HTTP_PARTIAL_CONTENT" "rq_content_type r' = octets ''multipart/byteranges; boundary='' @ padded_number ?n"
    "rq_content_length r' = 28 + sum_list (map (part_len ?len (length (boundary_text r ?n))) rs)"
    by (simp_all add: bt assms(5) del: octets_Cons)
  have ok: "\<forall>rng \<in> set (rc_ranges ctx). range_ok ?len rng"
    and crt: "\<forall>rng \<in> set (rc_ranges ctx). rg_content_range rng = content_range_text ?len rng @ [CR, LF, CR, LF]"
    using rok(2) by (auto simp: h(2) with_text_def range_ok_def content_range_text_def)
  have "body \<noteq> []" using rok by (cases rs) (auto simp: range_ok_def)
  then have special: "\<not> ngx_buf_special b" using holds_special[OF assms(8)] by blast
  have overlap: "ngx_http_range_test_overlapped ctx b = Some (ctx\<lparr>rc_offset := ?len\<rparr>)"
    using ok h(3) holds_size[OF assms(8)] by (auto simp: ngx_http_range_test_overlapped_def list_ex_iff range_ok_def)
  let ?bufs = "concat (map (\<lambda>rng. [memory_buf (boundary_text r ?n), memory_buf (rg_content_range rng), part_buf b rng]) (rc_ranges ctx))"
  from holds_parts[OF assms(8) ok crt] obtain yss where yss: "list_all2 (holds fl) ?bufs yss"
    "concat yss = concat (map (part_text (boundary_text r ?n) body) (rc_ranges ctx))" by blast
  have run: "ngx_http_range_body_filter (\<lambda>_. True) True (Some ctx) [b] =
      Some (?bufs @ [memory_buf (closing_text ?n)\<lparr>bf_last_buf := True\<rparr>], Some (ctx\<lparr>rc_offset := ?len\<rparr>))"
    using assms(2) special overlap
    by (simp add: ngx_http_range_body_filter_def ngx_http_range_multipart_body_def multipart_loop_result h(1) last_boundary_text list_all_iff)
  have "map (part_len ?len (length (boundary_text r ?n))) (rc_ranges ctx) = map (part_len ?len (length (boundary_text r ?n))) rs"
    by (simp add: h(2) part_len_def with_text_def content_range_text_def)
  with length_parts[OF ok, of "boundary_text r ?n"] yss(2) h(6)
  have len: "int (length (concat (yss @ [closing_text ?n]))) = rq_content_length r'" by (simp add: closing_text_def)
  have all: "list_all2 (holds fl) (?bufs @ [memory_buf (closing_text ?n)\<lparr>bf_last_buf := True\<rparr>]) (yss @ [closing_text ?n])"
    using yss(1) by (intro list_all2_appendI) simp_all
  show ?thesis
    using ok h(4,5) run len all yss(2)
    by (intro conjI exI[of _ "?bufs @ [memory_buf (closing_text ?n)\<lparr>bf_last_buf := True\<rparr>]"] exI[of _ "Some (ctx\<lparr>rc_offset := ?len\<rparr>)"]
        exI[of _ "yss @ [closing_text ?n]"]) (simp_all del: octets_Cons)
qed

theorem multipart_response_witness:
  "\<exists>r' ctx out ctx' yss.
     ngx_http_range_header_filter sample_io (sample_request (octets ''bytes=1-2,4-'')) = Some (Next_filter, r', Some ctx) \<and>
     ngx_http_range_body_filter (\<lambda>_. True) True (Some ctx) [memory_buf (octets ''abcde'')] = Some (out, ctx') \<and>
     list_all2 (holds []) out yss \<and> int (length (concat yss)) = rq_content_length r'"
proof -
  have "ngx_http_range_parse True (\<lambda>_. True) None (octets ''bytes=1-2,4-'') 5 3 =
      (RANGE_OK, [\<lparr>rg_start = 1, rg_end = 3, rg_content_range = []\<rparr>, \<lparr>rg_start = 4, rg_end = 5, rg_content_range = []\<rparr>])" by code_simp
  moreover have "ngx_strncasecmp (octets ''bytes=1-2,4-'') (octets ''bytes='') 6 = 0" by code_simp
  ultimately obtain r' ctx where
    h: "ngx_http_range_header_filter sample_io (sample_request (octets ''bytes=1-2,4-'')) = Some (Next_filter, r', Some ctx)"
      "length (rc_ranges ctx) \<noteq> 1" and b: "blocks_ok sample_io" using sample_answers[of "octets ''bytes=1-2,4-''"] by auto
  have "rq_main (sample_request v) \<and> rq_content_offset (sample_request v) = 0 \<and> rq_content_length (sample_request v) = 5" for v
    by (simp add: sample_request_def)
  with multipart_response[OF h b, where body = "octets ''abcde''" and fl = "[]" and b = "memory_buf (octets ''abcde'')"] h(1)
  show ?thesis by fastforce
qed



end
