(* ===== verification/UpstreamRR.thy ===== *)
theory UpstreamRR
  imports Prelude
begin

text \<open>
  The load balancers of \<^verbatim>\<open>src/http/ngx_http_upstream_round_robin.c\<close> and
  \<^verbatim>\<open>src/http/modules/ngx_http_upstream_least_conn_module.c\<close>, with the health-check test that the build
  patches into them (\<^verbatim>\<open>NGX_HTTP_UPSTREAM_CHECK\<close>). A group of peers is the list behind
  \<^verbatim>\<open>peers->peer\<close>, the chain \<^verbatim>\<open>peers->next\<close> is a list of groups (the second one holds the backup servers), a
  pointer to a peer is the pair of its group's and its own index. Weights and times are integers; the
  balancer runs under the lock of the group, so each operation is one step. \<open>check_down\<close> is
  \<^verbatim>\<open>ngx_http_upstream_check_peer_down\<close>, \<open>now\<close> is \<^verbatim>\<open>ngx_time()\<close>.
\<close>

section \<open>State\<close>

record rr_peer =
  current_weight :: int
  effective_weight :: int
  weight :: int
  conns :: nat
  max_conns :: nat
  fails :: nat
  accessed :: int
  checked :: int
  max_fails :: nat
  fail_timeout :: int
  check_index :: nat
  down :: bool

record rr_peers =
  number :: nat
  total_weight :: int
  tries :: nat
  single :: bool
  weighted :: bool
  peer_list :: "rr_peer list"

type_synonym peer_ptr = "nat \<times> nat"

record rr_peer_data =
  rr_group :: nat                    \<comment> \<open>\<^verbatim>\<open>rrp->peers\<close>\<close>
  rr_current :: "peer_ptr option"
  tried :: "u64 list"

text \<open>\<^verbatim>\<open>rrp->tried[n] & m\<close> and \<^verbatim>\<open>rrp->tried[n] |= m\<close> for the peer at \<open>i\<close>.\<close>

definition tried_test :: "u64 list \<Rightarrow> nat \<Rightarrow> bool" where
  "tried_test ts i \<longleftrightarrow> ts ! (i div 64) AND push_bit (i mod 64) 1 \<noteq> 0"

definition tried_mark :: "u64 list \<Rightarrow> nat \<Rightarrow> u64 list" where
  "tried_mark ts i = ts[i div 64 := ts ! (i div 64) OR push_bit (i mod 64) 1]"

section \<open>Configuration\<close>

record upstream_server =
  srv_naddrs :: nat
  srv_weight :: int
  srv_max_conns :: nat
  srv_max_fails :: nat
  srv_fail_timeout :: int
  srv_down :: bool
  srv_backup :: bool

definition new_rr_peer :: "int \<Rightarrow> nat \<Rightarrow> nat \<Rightarrow> int \<Rightarrow> bool \<Rightarrow> nat \<Rightarrow> rr_peer" where
  "new_rr_peer w mc mf ft dn idx =
    \<lparr> current_weight = 0, effective_weight = w, weight = w, conns = 0, max_conns = mc, fails = 0, accessed = 0,
      checked = 0, max_fails = mf, fail_timeout = ft, check_index = idx, down = dn \<rparr>"

text \<open>
  \<open>add_peer\<close> is \<^verbatim>\<open>ngx_http_upstream_check_add_peer\<close>: it registers an address with the health checks (the
  state \<open>c\<close>) and gives its index. \<open>NO_CHECK\<close> is \<^verbatim>\<open>(ngx_uint_t) NGX_ERROR\<close>.
\<close>

definition NO_CHECK :: nat where "NO_CHECK = 2 ^ 64 - 1"

fun init_addrs :: "('c \<Rightarrow> nat \<times> 'c) \<Rightarrow> upstream_server \<Rightarrow> nat \<Rightarrow> 'c \<Rightarrow> rr_peer list \<times> 'c" where
  "init_addrs add_peer s 0 c = ([], c)"
| "init_addrs add_peer s (Suc n) c =
    (let (idx, c) = (if \<not> srv_down s then add_peer c else (NO_CHECK, c));
         (ps, c) = init_addrs add_peer s n c
     in (new_rr_peer (srv_weight s) (srv_max_conns s) (srv_max_fails s) (srv_fail_timeout s) (srv_down s) idx # ps, c))"

fun init_servers :: "('c \<Rightarrow> nat \<times> 'c) \<Rightarrow> upstream_server list \<Rightarrow> 'c \<Rightarrow> rr_peer list \<times> 'c" where
  "init_servers add_peer [] c = ([], c)"
| "init_servers add_peer (s # ss) c =
    (let (ps, c) = init_addrs add_peer s (srv_naddrs s) c; (qs, c) = init_servers add_peer ss c in (ps @ qs, c))"

definition init_group :: "upstream_server list \<Rightarrow> rr_peer list \<Rightarrow> bool \<Rightarrow> rr_peers" where
  "init_group ss ps sgl =
    (let n = sum_list (map srv_naddrs ss); w = sum_list (map (\<lambda>s. int (srv_naddrs s) * srv_weight s) ss)
     in \<lparr> number = n, total_weight = w,
          tries = sum_list (map srv_naddrs (filter (\<lambda>s. \<not> srv_down s) ss)),
          single = sgl, weighted = (w \<noteq> int n), peer_list = ps \<rparr>)"

text \<open>\<^verbatim>\<open>us->servers\<close> given; None is the error "no servers in upstream".\<close>

definition ngx_http_upstream_init_round_robin ::
    "('c \<Rightarrow> nat \<times> 'c) \<Rightarrow> upstream_server list \<Rightarrow> 'c \<Rightarrow> (rr_peers list \<times> 'c) option" where
  "ngx_http_upstream_init_round_robin add_peer servers c =
    (let prim = filter (\<lambda>s. \<not> srv_backup s) servers; back = filter srv_backup servers;
         n = sum_list (map srv_naddrs prim); m = sum_list (map srv_naddrs back)
     in if n = 0 then None
        else let (ps, c) = init_servers add_peer prim c
             in if m = 0 then Some ([init_group prim ps (n = 1)], c)
                else let (qs, c) = init_servers add_peer back c
                     in Some ([init_group prim ps False, init_group back qs False], c))"

text \<open>A request's own data; the bitmap covers the larger of the two groups.\<close>

definition tried_words :: "nat \<Rightarrow> nat" where
  "tried_words n = (n + 63) div 64"

definition ngx_http_upstream_init_round_robin_peer :: "rr_peers list \<Rightarrow> rr_peer_data \<times> nat" where
  "ngx_http_upstream_init_round_robin_peer gs =
    (let n = (if length gs > 1 \<and> number (gs ! 1) > number (gs ! 0) then number (gs ! 1) else number (gs ! 0))
     in (\<lparr> rr_group = 0, rr_current = None, tried = (if n \<le> 64 then [0] else replicate (tried_words n) 0) \<rparr>,
         tries (gs ! 0) + (if length gs > 1 then tries (gs ! 1) else 0)))"

section \<open>Round robin\<close>

text \<open>The tests that skip a peer, in the order of the code.\<close>

definition rr_skip :: "(nat \<Rightarrow> bool) \<Rightarrow> int \<Rightarrow> u64 list \<Rightarrow> nat \<Rightarrow> rr_peer \<Rightarrow> bool" where
  "rr_skip check_down now ts i peer \<longleftrightarrow>
     tried_test ts i \<or> down peer \<or> check_down (check_index peer) \<or>
     (max_fails peer \<noteq> 0 \<and> fails peer \<ge> max_fails peer \<and> now - checked peer \<le> fail_timeout peer) \<or>
     (max_conns peer \<noteq> 0 \<and> conns peer \<ge> max_conns peer)"

definition rr_bump :: "rr_peer \<Rightarrow> rr_peer" where
  "rr_bump peer = peer\<lparr>current_weight := current_weight peer + effective_weight peer,
     effective_weight := (if effective_weight peer < weight peer then effective_weight peer + 1 else effective_weight peer)\<rparr>"

text \<open>
  The loop: \<open>best\<close> is the index of the best peer so far with its current weight. It gives the peers as they
  are afterwards, the sum of the weights added and the best peer.
\<close>

fun rr_loop :: "(nat \<Rightarrow> rr_peer \<Rightarrow> bool) \<Rightarrow> nat \<Rightarrow> rr_peer list \<Rightarrow> int \<Rightarrow> (nat \<times> int) option \<Rightarrow>
    rr_peer list \<times> int \<times> nat option" where
  "rr_loop skip i [] tot best = ([], tot, map_option fst best)"
| "rr_loop skip i (peer # ps) tot best =
    (if skip i peer then (case rr_loop skip (Suc i) ps tot best of (qs, r) \<Rightarrow> (peer # qs, r))
     else
       let peer' = rr_bump peer;
           best' = (case best of
               None \<Rightarrow> Some (i, current_weight peer')
             | Some (p, w) \<Rightarrow> if current_weight peer' > w then Some (i, current_weight peer') else best)
       in case rr_loop skip (Suc i) ps (tot + effective_weight peer) best' of (qs, r) \<Rightarrow> (peer' # qs, r))"

text \<open>What is done to the chosen peer.\<close>

definition rr_take :: "int \<Rightarrow> int \<Rightarrow> rr_peer \<Rightarrow> rr_peer" where
  "rr_take now tot peer =
    peer\<lparr>current_weight := current_weight peer - tot,
         checked := (if now - checked peer > fail_timeout peer then now else checked peer)\<rparr>"

text \<open>The result is the index of the chosen peer in the group, None for NULL.\<close>

definition ngx_http_upstream_get_peer ::
    "(nat \<Rightarrow> bool) \<Rightarrow> int \<Rightarrow> rr_peers \<Rightarrow> u64 list \<Rightarrow> nat option \<times> rr_peers \<times> u64 list" where
  "ngx_http_upstream_get_peer check_down now peers ts =
    (case rr_loop (rr_skip check_down now ts) 0 (peer_list peers) 0 None of
       (ps, tot, None) \<Rightarrow> (None, peers\<lparr>peer_list := ps\<rparr>, ts)
     | (ps, tot, Some p) \<Rightarrow>
         (Some p, peers\<lparr>peer_list := ps[p := rr_take now tot (ps ! p)]\<rparr>, tried_mark ts p))"

definition rr_connect :: "rr_peers \<Rightarrow> nat \<Rightarrow> rr_peers" where
  "rr_connect peers p =
     peers\<lparr>peer_list := (peer_list peers)[p := (peer_list peers ! p)\<lparr>conns := conns (peer_list peers ! p) + 1\<rparr>]\<rparr>"

text \<open>The test of the only peer of a group; it does not look at the failures.\<close>

definition single_failed :: "(nat \<Rightarrow> bool) \<Rightarrow> rr_peer \<Rightarrow> bool" where
  "single_failed check_down peer \<longleftrightarrow>
     down peer \<or> (max_conns peer \<noteq> 0 \<and> conns peer \<ge> max_conns peer) \<or> check_down (check_index peer)"

definition tried_clear :: "rr_peers \<Rightarrow> u64 list \<Rightarrow> u64 list" where
  "tried_clear peers ts = map (\<lambda>_. 0) (take (tried_words (number peers)) ts) @ drop (tried_words (number peers)) ts"

text \<open>What a group offers: its only peer, or the best of several.\<close>

definition rr_choice :: "(nat \<Rightarrow> bool) \<Rightarrow> int \<Rightarrow> rr_peers \<Rightarrow> u64 list \<Rightarrow> nat option \<times> rr_peers \<times> u64 list" where
  "rr_choice check_down now peers ts =
    (if single peers then (if single_failed check_down (peer_list peers ! 0) then None else Some 0, peers, ts)
     else ngx_http_upstream_get_peer check_down now peers ts)"

text \<open>\<^verbatim>\<open>rrp->peers = peers->next\<close>, with the bitmap cleared for the new group.\<close>

definition next_group :: "rr_peers list \<Rightarrow> rr_peer_data \<Rightarrow> rr_peer_data" where
  "next_group gs d = d\<lparr>rr_group := rr_group d + 1, tried := tried_clear (gs ! (rr_group d + 1)) (tried d)\<rparr>"

text \<open>
  \<^verbatim>\<open>ngx_http_upstream_get_round_robin_peer\<close>: a request whose group has no peer to offer goes on to the next
  group, and stays there.
\<close>

function ngx_http_upstream_get_round_robin_peer ::
    "(nat \<Rightarrow> bool) \<Rightarrow> int \<Rightarrow> rr_peers list \<Rightarrow> rr_peer_data \<Rightarrow> ngx_rc \<times> rr_peers list \<times> rr_peer_data" where
  "ngx_http_upstream_get_round_robin_peer check_down now gs d =
    (let g = rr_group d in
     case rr_choice check_down now (gs ! g) (tried d) of
       (Some p, peers, ts) \<Rightarrow> (NGX_OK, gs[g := rr_connect peers p], d\<lparr>tried := ts, rr_current := Some (g, p)\<rparr>)
     | (None, peers, ts) \<Rightarrow>
         if g + 1 < length gs
         then ngx_http_upstream_get_round_robin_peer check_down now (gs[g := peers]) (next_group gs (d\<lparr>tried := ts\<rparr>))
         else (NGX_BUSY, gs[g := peers], d\<lparr>tried := ts\<rparr>))"
  by pat_completeness auto
termination
  by (relation "measure (\<lambda>(c, now, gs, d). length gs - rr_group d)") (auto simp: next_group_def)

declare ngx_http_upstream_get_round_robin_peer.simps [simp del]

section \<open>Freeing a peer\<close>

text \<open>\<^verbatim>\<open>peer->conns--\<close> on \<^verbatim>\<open>ngx_uint_t\<close>.\<close>

definition uint_dec :: "nat \<Rightarrow> nat" where
  "uint_dec n = (n + (2 ^ 64 - 1)) mod 2 ^ 64"

definition rr_fail :: "int \<Rightarrow> rr_peer \<Rightarrow> rr_peer" where
  "rr_fail now peer =
    (let peer = peer\<lparr>fails := fails peer + 1, accessed := now, checked := now\<rparr>;
         ew = (if max_fails peer \<noteq> 0 then effective_weight peer - weight peer div int (max_fails peer)
               else effective_weight peer)
     in peer\<lparr>effective_weight := (if ew < 0 then 0 else ew)\<rparr>)"

definition rr_live :: "rr_peer \<Rightarrow> rr_peer" where
  "rr_live peer = (if accessed peer < checked peer then peer\<lparr>fails := 0\<rparr> else peer)"

definition rr_release :: "rr_peer \<Rightarrow> rr_peer" where
  "rr_release peer = peer\<lparr>conns := uint_dec (conns peer)\<rparr>"

definition update_peer :: "rr_peers list \<Rightarrow> peer_ptr \<Rightarrow> (rr_peer \<Rightarrow> rr_peer) \<Rightarrow> rr_peers list" where
  "update_peer gs ptr f =
    (case ptr of (g, p) \<Rightarrow> gs[g := (gs ! g)\<lparr>peer_list := (peer_list (gs ! g))[p := f (peer_list (gs ! g) ! p)]\<rparr>])"

text \<open>\<open>failed\<close> is \<^verbatim>\<open>state & NGX_PEER_FAILED\<close>; the number is \<^verbatim>\<open>pc->tries\<close>.\<close>

definition ngx_http_upstream_free_round_robin_peer ::
    "int \<Rightarrow> bool \<Rightarrow> rr_peers list \<Rightarrow> rr_peer_data \<Rightarrow> nat \<Rightarrow> rr_peers list \<times> nat" where
  "ngx_http_upstream_free_round_robin_peer now failed gs d pc_tries =
    (let ptr = the (rr_current d) in
     if single (gs ! rr_group d) then (update_peer gs ptr rr_release, 0)
     else (update_peer gs ptr (\<lambda>peer. rr_release (if failed then rr_fail now peer else rr_live peer)), pc_tries - 1))"


section \<open>Least connections\<close>

text \<open>The least loaded peer so far, and whether another one is loaded as much.\<close>

fun lc_best :: "(nat \<Rightarrow> rr_peer \<Rightarrow> bool) \<Rightarrow> nat \<Rightarrow> rr_peer list \<Rightarrow> (nat \<times> rr_peer) option \<Rightarrow> bool \<Rightarrow>
    (nat \<times> rr_peer) option \<times> bool" where
  "lc_best skip i [] best many = (best, many)"
| "lc_best skip i (peer # ps) best many =
    (if skip i peer then lc_best skip (Suc i) ps best many
     else case best of
         None \<Rightarrow> lc_best skip (Suc i) ps (Some (i, peer)) False
       | Some (p, b) \<Rightarrow>
           if int (conns peer) * weight b < int (conns b) * weight peer then lc_best skip (Suc i) ps (Some (i, peer)) False
           else if int (conns peer) * weight b = int (conns b) * weight peer then lc_best skip (Suc i) ps best True
           else lc_best skip (Suc i) ps best many)"

text \<open>
  Round robin among the peers that are loaded as much as the best one, which stands at \<open>p\<close>; \<open>b\<close> is
  \<^verbatim>\<open>*best\<close>, which is changed when the loop passes it.
\<close>

fun lc_loop :: "(nat \<Rightarrow> rr_peer \<Rightarrow> bool) \<Rightarrow> nat \<Rightarrow> rr_peer list \<Rightarrow> int \<Rightarrow> nat \<Rightarrow> rr_peer \<Rightarrow>
    rr_peer list \<times> int \<times> nat" where
  "lc_loop skip i [] tot p b = ([], tot, p)"
| "lc_loop skip i (peer # ps) tot p b =
    (if skip i peer \<or> int (conns peer) * weight b \<noteq> int (conns b) * weight peer
     then (case lc_loop skip (Suc i) ps tot p b of (qs, r) \<Rightarrow> (peer # qs, r))
     else
       let peer' = rr_bump peer; b = (if i = p then peer' else b);
           (p, b) = (if current_weight peer' > current_weight b then (i, peer') else (p, b))
       in case lc_loop skip (Suc i) ps (tot + effective_weight peer) p b of (qs, r) \<Rightarrow> (peer' # qs, r))"

definition lc_get_peer :: "(nat \<Rightarrow> bool) \<Rightarrow> int \<Rightarrow> rr_peers \<Rightarrow> u64 list \<Rightarrow> nat option \<times> rr_peers \<times> u64 list" where
  "lc_get_peer check_down now peers ts =
    (let skip = rr_skip check_down now ts; ps = peer_list peers in
     case lc_best skip 0 ps None False of
       (None, many) \<Rightarrow> (None, peers, ts)
     | (Some (p, b), many) \<Rightarrow>
         let (qs, tot, p') = (if many then lc_loop skip p (drop p ps) 0 p b else (drop p ps, 0, p));
             ps' = take p ps @ qs
         in (Some p', peers\<lparr>peer_list := ps'[p' := rr_take now tot (ps' ! p')]\<rparr>, tried_mark ts p'))"

function ngx_http_upstream_get_least_conn_peer ::
    "(nat \<Rightarrow> bool) \<Rightarrow> int \<Rightarrow> rr_peers list \<Rightarrow> rr_peer_data \<Rightarrow> ngx_rc \<times> rr_peers list \<times> rr_peer_data" where
  "ngx_http_upstream_get_least_conn_peer check_down now gs d =
    (let g = rr_group d in
     if single (gs ! g) then ngx_http_upstream_get_round_robin_peer check_down now gs d
     else
       case lc_get_peer check_down now (gs ! g) (tried d) of
         (Some p, peers, ts) \<Rightarrow> (NGX_OK, gs[g := rr_connect peers p], d\<lparr>tried := ts, rr_current := Some (g, p)\<rparr>)
       | (None, peers, ts) \<Rightarrow>
           if g + 1 < length gs
           then ngx_http_upstream_get_least_conn_peer check_down now (gs[g := peers]) (next_group gs (d\<lparr>tried := ts\<rparr>))
           else (NGX_BUSY, gs[g := peers], d\<lparr>tried := ts\<rparr>))"
  by pat_completeness auto
termination
  by (relation "measure (\<lambda>(c, now, gs, d). length gs - rr_group d)") (auto simp: next_group_def)

declare ngx_http_upstream_get_least_conn_peer.simps [simp del]

section \<open>The loop\<close>

lemma rr_bump_simps [simp]:
  "current_weight (rr_bump peer) = current_weight peer + effective_weight peer"
  "weight (rr_bump peer) = weight peer" "conns (rr_bump peer) = conns peer" "max_conns (rr_bump peer) = max_conns peer"
  "down (rr_bump peer) = down peer" "check_index (rr_bump peer) = check_index peer"
  "fails (rr_bump peer) = fails peer" "max_fails (rr_bump peer) = max_fails peer"
  "checked (rr_bump peer) = checked peer" "fail_timeout (rr_bump peer) = fail_timeout peer"
  "accessed (rr_bump peer) = accessed peer"
  by (simp_all add: rr_bump_def)

definition rr_updated :: "(nat \<Rightarrow> rr_peer \<Rightarrow> bool) \<Rightarrow> nat \<Rightarrow> rr_peer \<Rightarrow> rr_peer" where
  "rr_updated skip i peer = (if skip i peer then peer else rr_bump peer)"

lemma rr_loop_list:
  "rr_loop skip i ps tot best = (qs, t, b) \<Longrightarrow>
     length qs = length ps \<and> (\<forall>k < length ps. qs ! k = rr_updated skip (i + k) (ps ! k))"
proof (induction skip i ps tot best arbitrary: qs rule: rr_loop.induct)
  case (2 skip i peer ps tot best)
  then show ?case
    by (auto simp: rr_updated_def Let_def nth_Cons split: if_splits prod.splits nat.splits)
qed (simp add: rr_updated_def)

lemma rr_loop_sum:
  "rr_loop skip i ps tot best = (qs, t, b) \<Longrightarrow>
     sum_list (map current_weight qs) - t = sum_list (map current_weight ps) - tot"
proof (induction skip i ps tot best arbitrary: qs rule: rr_loop.induct)
  case (2 skip i peer ps tot best)
  then show ?case by (force simp: Let_def split: if_splits prod.splits)
qed simp

text \<open>\<open>leads\<close>: the index and the weight of the best peer, the first of several.\<close>

definition leads :: "(nat \<Rightarrow> rr_peer \<Rightarrow> bool) \<Rightarrow> nat \<Rightarrow> rr_peer list \<Rightarrow> (nat \<times> int) option \<Rightarrow> nat \<Rightarrow> int \<Rightarrow> bool" where
  "leads skip i ps best p w \<longleftrightarrow>
     (best = Some (p, w) \<or> (\<exists>k < length ps. p = i + k \<and> \<not> skip p (ps ! k) \<and> w = current_weight (rr_bump (ps ! k)))) \<and>
     (\<forall>q v. best = Some (q, v) \<longrightarrow> v \<le> w \<and> (q \<noteq> p \<longrightarrow> v < w)) \<and>
     (\<forall>k < length ps. \<not> skip (i + k) (ps ! k) \<longrightarrow>
        current_weight (rr_bump (ps ! k)) \<le> w \<and> (i + k < p \<longrightarrow> current_weight (rr_bump (ps ! k)) < w))"

lemma rr_loop_best:
  "rr_loop skip i ps tot best = (qs, t, b) \<Longrightarrow> (\<forall>q v. best = Some (q, v) \<longrightarrow> q < i) \<Longrightarrow>
     (case b of
        None \<Rightarrow> best = None \<and> (\<forall>k < length ps. skip (i + k) (ps ! k))
      | Some p \<Rightarrow> \<exists>w. leads skip i ps best p w)"
proof (induction skip i ps tot best arbitrary: qs rule: rr_loop.induct)
  case (1 skip i tot best)
  then show ?case by (auto simp: leads_def split: option.splits)
next
  case (2 skip i peer ps tot best)
  show ?case
  proof (cases "skip i peer")
    case True
    then obtain qs' where "rr_loop skip (Suc i) ps tot best = (qs', t, b)" using "2.prems" by (auto split: prod.splits)
    then have IH: "case b of None \<Rightarrow> best = None \<and> (\<forall>k < length ps. skip (Suc i + k) (ps ! k))
        | Some p \<Rightarrow> \<exists>w. leads skip (Suc i) ps best p w"
      using "2.IH"(1)[OF True] "2.prems"(2) by fastforce
    show ?thesis
    proof (cases b)
      case None
      then show ?thesis using IH True by (simp add: All_less_Suc2)
    next
      case (Some p)
      then obtain w where "leads skip (Suc i) ps best p w" using IH by auto
      then have "leads skip i (peer # ps) best p w" using True
        by (simp add: leads_def All_less_Suc2 Ex_less_Suc2; blast)
      then show ?thesis using Some by auto
    qed
  next
    case False
    let ?w = "current_weight (rr_bump peer)"
    let ?best = "case best of None \<Rightarrow> Some (i, ?w) | Some (p, w) \<Rightarrow> if ?w > w then Some (i, ?w) else best"
    obtain qs' where "rr_loop skip (Suc i) ps (tot + effective_weight peer) ?best = (qs', t, b)"
      using "2.prems" False by (auto simp: Let_def split: prod.splits)
    moreover have "\<forall>q v. ?best = Some (q, v) \<longrightarrow> q < Suc i" using "2.prems"(2) by (auto split: option.splits if_splits)
    ultimately have IH: "case b of None \<Rightarrow> ?best = None \<and> (\<forall>k < length ps. skip (Suc i + k) (ps ! k))
        | Some p \<Rightarrow> \<exists>w. leads skip (Suc i) ps ?best p w"
      using "2.IH"(2)[OF False refl refl] by blast
    show ?thesis
    proof (cases b)
      case None
      then show ?thesis using IH by (auto split: option.splits if_splits)
    next
      case (Some p)
      then obtain w where w: "leads skip (Suc i) ps ?best p w" using IH by auto
      have "leads skip i (peer # ps) best p w"
      proof (cases best)
        case None
        then show ?thesis using w False by (simp add: leads_def All_less_Suc2 Ex_less_Suc2) (auto 0 3)
      next
        case (Some qv)
        then show ?thesis using w False "2.prems"(2)
          by (cases qv) (simp add: leads_def All_less_Suc2 Ex_less_Suc2 split: if_split_asm; auto 0 3)
      qed
      then show ?thesis using Some by auto
    qed
  qed
qed

section \<open>The bitmap of tried peers\<close>

lemma tried_test_bit: "tried_test ts i \<longleftrightarrow> bit (ts ! (i div 64)) (i mod 64)"
  by (simp add: tried_test_def bit_iff_and_push_bit_not_eq_0)

lemma tried_mark_test:
  "p div 64 < length ts \<Longrightarrow> i div 64 < length ts \<Longrightarrow> tried_test (tried_mark ts p) i \<longleftrightarrow> i = p \<or> tried_test ts i"
proof -
  assume len: "p div 64 < length ts" "i div 64 < length ts"
  show ?thesis
  proof (cases "i div 64 = p div 64")
    case True
    then have "i = p \<longleftrightarrow> i mod 64 = p mod 64" by (metis div_mult_mod_eq)
    then show ?thesis using len True by (auto simp: tried_test_bit tried_mark_def bit_simps)
  next
    case False
    then show ?thesis using len by (auto simp: tried_test_bit tried_mark_def)
  qed
qed

lemma length_tried_mark [simp]: "length (tried_mark ts p) = length ts"
  by (simp add: tried_mark_def)

lemma tried_zero: "i div 64 < n \<Longrightarrow> \<not> tried_test (replicate n 0) i"
  by (simp add: tried_test_bit)

lemma tried_words_enough: "i < n \<Longrightarrow> i div 64 < tried_words n"
  by (simp add: tried_words_def)

section \<open>Effects on a group\<close>

text \<open>
  What an offer does to a group, whichever balancer makes it: peer \<open>p\<close> was free to take and has one more
  connection, nobody's limits change, effective weights stay within their bounds and the current
  weights keep their sum.
\<close>

definition weights_ok :: "rr_peer \<Rightarrow> bool" where
  "weights_ok peer \<longleftrightarrow> 0 \<le> effective_weight peer \<and> effective_weight peer \<le> weight peer"

definition same_peer :: "rr_peer \<Rightarrow> rr_peer \<Rightarrow> bool" where
  "same_peer a b \<longleftrightarrow> weight b = weight a \<and> max_conns b = max_conns a \<and> conns b = conns a \<and> (weights_ok a \<longrightarrow> weights_ok b)"

definition weight_sum :: "rr_peer list \<Rightarrow> int" where
  "weight_sum ps = sum_list (map current_weight ps)"

definition same_peers :: "rr_peer list \<Rightarrow> rr_peer list \<Rightarrow> bool" where
  "same_peers ps qs \<longleftrightarrow> list_all2 same_peer ps qs \<and> weight_sum qs = weight_sum ps"

definition offerable :: "(nat \<Rightarrow> bool) \<Rightarrow> rr_peer \<Rightarrow> bool" where
  "offerable check_down peer \<longleftrightarrow> \<not> down peer \<and> \<not> check_down (check_index peer) \<and>
     (max_conns peer \<noteq> 0 \<longrightarrow> conns peer < max_conns peer)"

lemma offerable_skip: "\<not> rr_skip check_down now ts i peer \<Longrightarrow> offerable check_down peer"
  by (auto simp: rr_skip_def offerable_def)

lemma offerable_single: "\<not> single_failed check_down peer \<Longrightarrow> offerable check_down peer"
  by (auto simp: single_failed_def offerable_def)

lemma same_peer_bump: "same_peer peer (rr_bump peer)"
  by (auto simp: same_peer_def weights_ok_def rr_bump_def)

lemma same_peer_refl [simp]: "same_peer peer peer"
  by (simp add: same_peer_def)

lemma same_peer_take: "same_peer a b \<Longrightarrow> same_peer a (rr_take now tot b)"
  by (auto simp: same_peer_def rr_take_def weights_ok_def)

lemma sum_list_set:
  "p < length xs \<Longrightarrow> sum_list (map f (xs[p := y])) = sum_list (map f xs) - f (xs ! p) + (f y :: int)"
  by (induction xs arbitrary: p) (auto simp: nth_Cons split: nat.splits)

lemma weight_sum_take:
  "p < length ps \<Longrightarrow> weight_sum (ps[p := rr_take now tot (ps ! p)]) = weight_sum ps - tot"
  by (simp add: weight_sum_def sum_list_set rr_take_def)

lemma same_peers_take:
  assumes "list_all2 same_peer ps qs" and "weight_sum qs = weight_sum ps + tot" and "p < length qs"
  shows "same_peers ps (qs[p := rr_take now tot (qs ! p)])"
  using assms by (auto simp: same_peers_def weight_sum_take list_all2_conv_all_nth nth_list_update intro: same_peer_take)

text \<open>The choice of the round robin.\<close>

lemma rr_loop_same: "rr_loop skip i ps tot best = (qs, t, b) \<Longrightarrow> list_all2 same_peer ps qs"
  by (drule rr_loop_list) (auto simp: list_all2_conv_all_nth rr_updated_def intro: same_peer_bump)

lemma rr_loop_skipped:
  assumes "rr_loop skip i ps tot None = (qs, t, None)"
  shows "qs = ps \<and> (\<forall>k < length ps. skip (i + k) (ps ! k))"
  using rr_loop_list[OF assms] rr_loop_best[OF assms] by (auto intro: nth_equalityI simp: rr_updated_def)

lemma rr_loop_choice:
  assumes "rr_loop skip 0 ps tot None = (qs, t, Some p)"
  shows "p < length ps \<and> \<not> skip p (ps ! p) \<and>
    (\<forall>k < length ps. \<not> skip k (ps ! k) \<longrightarrow>
       current_weight (rr_bump (ps ! k)) \<le> current_weight (rr_bump (ps ! p)) \<and>
       (k < p \<longrightarrow> current_weight (rr_bump (ps ! k)) < current_weight (rr_bump (ps ! p))))"
  using rr_loop_best[OF assms] by (auto simp: leads_def)

lemma get_peer_None:
  assumes "ngx_http_upstream_get_peer check_down now peers ts = (None, peers', ts')"
  shows "peers' = peers \<and> ts' = ts \<and> (\<forall>k < length (peer_list peers). rr_skip check_down now ts k (peer_list peers ! k))"
  using assms rr_loop_skipped by (fastforce simp: ngx_http_upstream_get_peer_def split: prod.splits option.splits)

lemma get_peer_Some:
  assumes "ngx_http_upstream_get_peer check_down now peers ts = (Some p, peers', ts')"
  shows "p < length (peer_list peers) \<and> offerable check_down (peer_list peers ! p) \<and> ts' = tried_mark ts p \<and>
    same_peers (peer_list peers) (peer_list peers') \<and> (\<exists>qs. peers' = peers\<lparr>peer_list := qs\<rparr>)"
proof -
  obtain qs tot where l: "rr_loop (rr_skip check_down now ts) 0 (peer_list peers) 0 None = (qs, tot, Some p)"
    and r: "peers' = peers\<lparr>peer_list := qs[p := rr_take now tot (qs ! p)]\<rparr>" "ts' = tried_mark ts p"
    using assms by (auto simp: ngx_http_upstream_get_peer_def split: prod.splits option.splits)
  have "list_all2 same_peer (peer_list peers) qs" by (rule rr_loop_same) (rule l)
  moreover have "weight_sum qs = weight_sum (peer_list peers) + tot" using rr_loop_sum[OF l] by (simp add: weight_sum_def)
  moreover have "p < length qs" using rr_loop_choice[OF l] rr_loop_list[OF l] by simp
  ultimately show ?thesis using r rr_loop_choice[OF l] by (auto intro: same_peers_take dest: offerable_skip)
qed

text \<open>
  The choice of the least loaded. Loads are compared as fractions of connections over weight, by cross
  multiplication.
\<close>

definition load_le :: "rr_peer \<Rightarrow> rr_peer \<Rightarrow> bool" where
  "load_le a b \<longleftrightarrow> int (conns a) * weight b \<le> int (conns b) * weight a"

lemma load_le_refl [simp]: "load_le a a"
  by (simp add: load_le_def)

lemma load_le_trans:
  assumes "0 < weight a" "0 < weight b" "0 < weight c" and "load_le a b" "load_le b c"
  shows "load_le a c"
proof -
  have "int (conns a) * weight b * weight c \<le> int (conns b) * weight a * weight c"
    using assms by (simp add: load_le_def mult_right_mono)
  also have "\<dots> = (int (conns b) * weight c) * weight a" by (simp add: mult.commute mult.left_commute)
  also have "\<dots> \<le> (int (conns c) * weight b) * weight a"
    using assms by (intro mult_right_mono) (simp_all add: load_le_def)
  finally have "(int (conns a) * weight c) * weight b \<le> (int (conns c) * weight a) * weight b"
    by (simp add: mult.commute mult.left_commute)
  then show ?thesis using assms(2) by (simp add: load_le_def)
qed

lemma lc_best_choice:
  "lc_best skip i ps best many = (r, m) \<Longrightarrow>
     (case r of
        None \<Rightarrow> best = None \<and> (\<forall>k < length ps. skip (i + k) (ps ! k))
      | Some (p, b) \<Rightarrow> best = Some (p, b) \<or> (\<exists>k < length ps. p = i + k \<and> b = ps ! k \<and> \<not> skip p b))"
proof (induction ps arbitrary: i best many)
  case (Cons peer ps)
  obtain best' many' where n: "lc_best skip (Suc i) ps best' many' = (r, m)"
    and b: "(best' = best \<and> (best = None \<longrightarrow> skip i peer)) \<or> (best' = Some (i, peer) \<and> \<not> skip i peer)"
    using Cons.prems by (cases best) (auto split: if_splits)
  show ?case using Cons.IH[OF n] b
    by (cases r) (auto simp: All_less_Suc2 Ex_less_Suc2)
qed (auto split: option.splits)

lemma lc_best_least:
  "lc_best skip i ps best many = (Some (p, b), m) \<Longrightarrow> (\<forall>peer \<in> set ps. 0 < weight peer) \<Longrightarrow>
     (\<forall>q c. best = Some (q, c) \<longrightarrow> 0 < weight c) \<Longrightarrow>
     0 < weight b \<and> (\<forall>q c. best = Some (q, c) \<longrightarrow> load_le b c) \<and>
     (\<forall>k < length ps. \<not> skip (i + k) (ps ! k) \<longrightarrow> load_le b (ps ! k))"
proof (induction ps arbitrary: i best many)
  case (Cons peer ps)
  obtain best' many' where n: "lc_best skip (Suc i) ps best' many' = (Some (p, b), m)"
    and b: "(best' = best \<and> (skip i peer \<or> (\<exists>q c. best = Some (q, c) \<and> load_le c peer))) \<or>
            (best' = Some (i, peer) \<and> (\<forall>q c. best = Some (q, c) \<longrightarrow> load_le peer c))"
    using Cons.prems(1) by (cases best) (auto simp: load_le_def split: if_splits)
  have pos: "0 < weight peer" "\<forall>peer \<in> set ps. 0 < weight peer" "\<forall>q c. best' = Some (q, c) \<longrightarrow> 0 < weight c"
    using Cons.prems b by auto
  note IH = Cons.IH[OF n pos(2,3)]
  then have wb: "0 < weight b" by simp
  have "skip i peer \<or> load_le b peer" "\<forall>q c. best = Some (q, c) \<longrightarrow> load_le b c"
    using IH b wb pos Cons.prems(3) by (auto intro: load_le_trans)
  then show ?case using IH by (auto simp: All_less_Suc2)
qed auto

lemma lc_loop_same:
  "lc_loop skip i ps tot p b = (qs, t, p') \<Longrightarrow> list_all2 same_peer ps qs \<and> weight_sum qs = weight_sum ps + (t - tot)"
proof (induction ps arbitrary: i tot p b qs)
  case (Cons peer ps)
  show ?case
  proof (cases "skip i peer \<or> int (conns peer) * weight b \<noteq> int (conns b) * weight peer")
    case True
    then show ?thesis using Cons by (fastforce simp: weight_sum_def split: prod.splits)
  next
    case False
    then obtain b' p'' qs' where "lc_loop skip (Suc i) ps (tot + effective_weight peer) p'' b' = (qs', t, p')" "qs = rr_bump peer # qs'"
      using Cons.prems by (auto simp: Let_def split: prod.splits)
    then show ?thesis using Cons.IH by (fastforce simp: weight_sum_def intro: same_peer_bump)
  qed
qed simp

definition load_eq :: "rr_peer \<Rightarrow> rr_peer \<Rightarrow> bool" where
  "load_eq a b \<longleftrightarrow> load_le a b \<and> load_le b a"

lemma lc_loop_choice:
  "lc_loop skip i ps tot p b = (qs, t, p') \<Longrightarrow> 0 < weight b \<Longrightarrow> (\<forall>peer \<in> set ps. 0 < weight peer) \<Longrightarrow>
     p' = p \<or> (\<exists>k < length ps. p' = i + k \<and> \<not> skip p' (ps ! k) \<and> load_eq (ps ! k) b)"
proof (induction ps arbitrary: i tot p b qs)
  case (Cons peer ps)
  show ?case
  proof (cases "skip i peer \<or> int (conns peer) * weight b \<noteq> int (conns b) * weight peer")
    case True
    then obtain qs' where "lc_loop skip (Suc i) ps tot p b = (qs', t, p')" using Cons.prems(1) by (auto split: prod.splits)
    from Cons.IH[OF this] Cons.prems(2,3) show ?thesis by (auto simp: Ex_less_Suc2)
  next
    case False
    then have eq: "load_eq peer b" by (simp add: load_eq_def load_le_def)
    obtain b' q qs' where n: "lc_loop skip (Suc i) ps (tot + effective_weight peer) q b' = (qs', t, p')"
      and q: "q = p \<or> q = i" "weight b' = weight b \<and> conns b' = conns b \<or> weight b' = weight peer \<and> conns b' = conns peer"
      using Cons.prems(1) False by (auto simp: Let_def split: prod.splits if_splits)
    have wb: "0 < weight b'" using q(2) Cons.prems(2,3) by auto
    have "load_eq c b" if "load_eq c b'" "0 < weight c" for c
    proof -
      have "load_eq c b \<or> load_eq c peer" using q(2) that(1) by (auto simp: load_eq_def load_le_def)
      then show ?thesis using eq that(2) Cons.prems(2,3) by (auto simp: load_eq_def intro: load_le_trans)
    qed
    moreover have "p' = q \<or> (\<exists>k < length ps. p' = Suc i + k \<and> \<not> skip p' (ps ! k) \<and> load_eq (ps ! k) b')"
      using Cons.IH[OF n wb] Cons.prems(3) by simp
    ultimately show ?thesis using q(1) eq False Cons.prems(3) by (auto simp: Ex_less_Suc2)
  qed
qed simp

lemma peer_list_update: "peer_list (P\<lparr>peer_list := qs\<rparr>) = qs"
  by simp

lemma lc_get_peer_None:
  assumes "lc_get_peer check_down now peers ts = (None, peers', ts')"
  shows "peers' = peers \<and> ts' = ts \<and> (\<forall>k < length (peer_list peers). rr_skip check_down now ts k (peer_list peers ! k))"
proof -
  obtain m where "lc_best (rr_skip check_down now ts) 0 (peer_list peers) None False = (None, m)" "peers' = peers" "ts' = ts"
    using assms by (auto simp: lc_get_peer_def Let_def split: prod.splits option.splits)
  then show ?thesis using lc_best_choice[of "rr_skip check_down now ts" 0 "peer_list peers" None False None m] by simp
qed

lemma lc_get_peer_Some:
  assumes "lc_get_peer check_down now peers ts = (Some p, peers', ts')" and pos: "\<forall>peer \<in> set (peer_list peers). 0 < weight peer"
  shows "p < length (peer_list peers) \<and> \<not> rr_skip check_down now ts p (peer_list peers ! p) \<and> ts' = tried_mark ts p \<and>
    same_peers (peer_list peers) (peer_list peers') \<and> (\<exists>qs. peers' = peers\<lparr>peer_list := qs\<rparr>) \<and>
    (\<forall>k < length (peer_list peers). \<not> rr_skip check_down now ts k (peer_list peers ! k) \<longrightarrow>
       load_le (peer_list peers ! p) (peer_list peers ! k))"
proof -
  let ?ps = "peer_list peers" and ?skip = "rr_skip check_down now ts"
  obtain q b many where l: "lc_best ?skip 0 ?ps None False = (Some (q, b), many)"
    using assms(1) by (auto simp: lc_get_peer_def Let_def split: prod.splits option.splits)
  have q: "q < length ?ps" "b = ?ps ! q" "\<not> ?skip q (?ps ! q)" using lc_best_choice[OF l] by auto
  have least: "0 < weight b" "\<forall>k < length ?ps. \<not> ?skip k (?ps ! k) \<longrightarrow> load_le b (?ps ! k)"
    using lc_best_least[OF l pos] by simp_all
  define R where "R = (if many then lc_loop ?skip q (drop q ?ps) 0 q b else (drop q ?ps, 0, q))"
  obtain qs tot p' where R: "R = (qs, tot, p')" by (cases R)
  let ?qs = "take q ?ps @ qs"
  have r: "p = p'" "peers' = peers\<lparr>peer_list := ?qs[p := rr_take now tot (?qs ! p)]\<rparr>" "ts' = tried_mark ts p"
    using assms(1) l R by (auto simp: lc_get_peer_def Let_def R_def)
  have same: "list_all2 same_peer (drop q ?ps) qs \<and> weight_sum qs = weight_sum (drop q ?ps) + tot"
    using lc_loop_same[of ?skip q "drop q ?ps" 0 q b qs tot p'] R
    by (auto simp: R_def list_all2_refl split: if_splits)
  have "weight_sum ?ps = weight_sum (take q ?ps) + weight_sum (drop q ?ps)"
    by (simp add: weight_sum_def flip: sum_list_append map_append)
  then have ws: "weight_sum ?qs = weight_sum ?ps + tot" using same by (simp add: weight_sum_def)
  have la: "list_all2 same_peer ?ps ?qs"
    using same list_all2_appendI[of same_peer "take q ?ps" "take q ?ps" "drop q ?ps" qs] by (simp add: list_all2_refl)
  have dpos: "\<forall>peer \<in> set (drop q ?ps). 0 < weight peer" using pos by (auto dest: in_set_dropD)
  have "p' = q \<or> (\<exists>k < length ?ps - q. p' = q + k \<and> \<not> ?skip p' (?ps ! p') \<and> load_eq (?ps ! p') b)"
    using lc_loop_choice[of ?skip q "drop q ?ps" 0 q b qs tot p'] R least(1) dpos
    by (auto simp: R_def split: if_splits)
  then have p: "p < length ?ps" "\<not> ?skip p (?ps ! p)" "load_le (?ps ! p) b"
    using q r(1) by (auto simp: load_eq_def)
  have least': "load_le (?ps ! p) (?ps ! k)" if "k < length ?ps" "\<not> ?skip k (?ps ! k)" for k
  proof (rule load_le_trans[OF _ least(1) _ p(3)])
    show "0 < weight (?ps ! p)" "0 < weight (?ps ! k)" using pos p(1) that(1) by simp_all
    show "load_le b (?ps ! k)" using least(2) that by blast
  qed
  have len: "p < length ?qs" using p(1) list_all2_lengthD[OF la] by (simp only:)
  have "same_peers ?ps (peer_list peers')"
    unfolding r(2) peer_list_update by (rule same_peers_take[OF la ws len])
  moreover have "\<exists>qs. peers' = peers\<lparr>peer_list := qs\<rparr>" using r(2) by blast
  ultimately show ?thesis using p(1,2) r(3) least' by blast
qed


section \<open>Offers\<close>

definition rr_unfit :: "(nat \<Rightarrow> bool) \<Rightarrow> int \<Rightarrow> rr_peer \<Rightarrow> bool" where
  "rr_unfit check_down now peer \<longleftrightarrow>
     down peer \<or> check_down (check_index peer) \<or>
     (max_fails peer \<noteq> 0 \<and> fails peer \<ge> max_fails peer \<and> now - checked peer \<le> fail_timeout peer) \<or>
     (max_conns peer \<noteq> 0 \<and> conns peer \<ge> max_conns peer)"

lemma rr_skip_iff: "rr_skip check_down now ts i peer \<longleftrightarrow> tried_test ts i \<or> rr_unfit check_down now peer"
  by (simp add: rr_skip_def rr_unfit_def)

definition group_unfit :: "(nat \<Rightarrow> bool) \<Rightarrow> int \<Rightarrow> rr_peers \<Rightarrow> bool" where
  "group_unfit check_down now P \<longleftrightarrow>
     (if single P then single_failed check_down (peer_list P ! 0) else list_all (rr_unfit check_down now) (peer_list P))"

definition offers :: "(nat \<Rightarrow> bool) \<Rightarrow> rr_peers \<Rightarrow> nat \<Rightarrow> rr_peers \<Rightarrow> bool" where
  "offers check_down P p P' \<longleftrightarrow> p < length (peer_list P) \<and> offerable check_down (peer_list P ! p) \<and>
     (\<exists>qs. same_peers (peer_list P) qs \<and> P' = rr_connect (P\<lparr>peer_list := qs\<rparr>) p)"

definition group_ok :: "nat \<Rightarrow> rr_peers \<Rightarrow> bool" where
  "group_ok words P \<longleftrightarrow> number P = length (peer_list P) \<and> number P \<noteq> 0 \<and> tried_words (number P) \<le> words \<and>
     (\<forall>peer \<in> set (peer_list P). 0 < weight peer)"

lemma length_tried_clear [simp]: "length (tried_clear P ts) = length ts"
  by (auto simp: tried_clear_def)

lemma tried_clear_test:
  "group_ok (length ts) P \<Longrightarrow> i < length (peer_list P) \<Longrightarrow> \<not> tried_test (tried_clear P ts) i"
  using tried_words_enough[of i "number P"]
  by (auto simp: group_ok_def tried_clear_def tried_test_bit nth_append)

text \<open>A request's data fit the groups.\<close>

definition data_ok :: "rr_peers list \<Rightarrow> rr_peer_data \<Rightarrow> bool" where
  "data_ok gs d \<longleftrightarrow> rr_group d < length gs \<and> (\<forall>P \<in> set gs. group_ok (length (tried d)) P)"

definition first_unfit :: "(nat \<Rightarrow> bool) \<Rightarrow> int \<Rightarrow> rr_peers \<Rightarrow> u64 list \<Rightarrow> bool" where
  "first_unfit check_down now P ts \<longleftrightarrow>
    (if single P then single_failed check_down (peer_list P ! 0)
     else \<forall>k < length (peer_list P). rr_skip check_down now ts k (peer_list P ! k))"

text \<open>What a balancer gives: a peer of a group from the request's own on, or no peer.\<close>

definition balanced :: "(nat \<Rightarrow> bool) \<Rightarrow> int \<Rightarrow> rr_peers list \<Rightarrow> rr_peer_data \<Rightarrow> ngx_rc \<times> rr_peers list \<times> rr_peer_data \<Rightarrow> bool" where
  "balanced check_down now gs d r \<longleftrightarrow>
    (case r of (rc, gs', d') \<Rightarrow>
       length (tried d') = length (tried d) \<and>
       ((rc = NGX_BUSY \<and> gs' = gs \<and> rr_current d' = rr_current d \<and> rr_group d' = length gs - 1 \<and>
         first_unfit check_down now (gs ! rr_group d) (tried d) \<and>
         (\<forall>g. rr_group d < g \<and> g < length gs \<longrightarrow> group_unfit check_down now (gs ! g))) \<or>
        (rc = NGX_OK \<and> rr_group d \<le> rr_group d' \<and> rr_group d' < length gs \<and>
         (\<exists>p P. rr_current d' = Some (rr_group d', p) \<and> offers check_down (gs ! rr_group d') p P \<and> gs' = gs[rr_group d' := P]))))"

lemma next_group_unfit:
  assumes "data_ok gs d" and "rr_group d + 1 < length gs"
  shows "first_unfit check_down now (gs ! rr_group (next_group gs d)) (tried (next_group gs d)) \<longleftrightarrow>
    group_unfit check_down now (gs ! (rr_group d + 1))"
proof -
  let ?P = "gs ! (rr_group d + 1)"
  have "group_ok (length (tried d)) ?P" using assms by (auto simp: data_ok_def)
  then have "\<not> tried_test (tried_clear ?P (tried d)) k" if "k < length (peer_list ?P)" for k
    using tried_clear_test that by blast
  then show ?thesis
    by (auto simp: first_unfit_def group_unfit_def next_group_def rr_skip_iff list_all_length)
qed

lemma data_ok_next: "data_ok gs d \<Longrightarrow> rr_group d + 1 < length gs \<Longrightarrow> data_ok gs (next_group gs d)"
  by (simp add: data_ok_def next_group_def)

lemma next_group_simps [simp]:
  "rr_group (next_group gs d) = rr_group d + 1" "rr_current (next_group gs d) = rr_current d"
  "length (tried (next_group gs d)) = length (tried d)"
  by (simp_all add: next_group_def)

lemma balanced_next:
  assumes "data_ok gs d" and "rr_group d + 1 < length gs" and "first_unfit check_down now (gs ! rr_group d) (tried d)"
    and "balanced check_down now gs (next_group gs d) r"
  shows "balanced check_down now gs d r"
proof -
  obtain rc gs' d' where r: "r = (rc, gs', d')" by (rule prod_cases3)
  have "group_unfit check_down now (gs ! g)"
    if "rr_group d < g" "g < length gs" "first_unfit check_down now (gs ! (rr_group d + 1)) (tried (next_group gs d))"
      "\<forall>g. rr_group d + 1 < g \<and> g < length gs \<longrightarrow> group_unfit check_down now (gs ! g)" for g
    using next_group_unfit[OF assms(1,2)] that by (cases "g = rr_group d + 1") auto
  then show ?thesis using assms(3,4) unfolding r balanced_def prod.case next_group_simps by (elim conjE disjE) auto
qed

text \<open>
  The contract of a choice within a group, and what follows for the walk over the groups.
\<close>

locale peer_choice =
  fixes check_down :: "nat \<Rightarrow> bool" and now :: int
    and choice :: "rr_peers \<Rightarrow> u64 list \<Rightarrow> nat option \<times> rr_peers \<times> u64 list"
  assumes choice_None: "group_ok (length ts) P \<Longrightarrow> choice P ts = (None, P', ts') \<Longrightarrow>
      P' = P \<and> ts' = ts \<and> first_unfit check_down now P ts"
    and choice_Some: "group_ok (length ts) P \<Longrightarrow> choice P ts = (Some p, P', ts') \<Longrightarrow>
      offers check_down P p (rr_connect P' p) \<and> length ts' = length ts"
begin

lemma walk:
  assumes ok: "data_ok gs d"
    and further: "rr_group d + 1 < length gs \<Longrightarrow> balanced check_down now gs (next_group gs d) (rest gs (next_group gs d))"
  shows "balanced check_down now gs d
    (case choice (gs ! rr_group d) (tried d) of
       (Some p, peers, ts) \<Rightarrow>
         (NGX_OK, gs[rr_group d := rr_connect peers p], d\<lparr>tried := ts, rr_current := Some (rr_group d, p)\<rparr>)
     | (None, peers, ts) \<Rightarrow>
         if rr_group d + 1 < length gs then rest (gs[rr_group d := peers]) (next_group gs (d\<lparr>tried := ts\<rparr>))
         else (NGX_BUSY, gs[rr_group d := peers], d\<lparr>tried := ts\<rparr>))"
proof -
  have g: "rr_group d < length gs" "group_ok (length (tried d)) (gs ! rr_group d)" using ok by (auto simp: data_ok_def)
  obtain c P ts where c: "choice (gs ! rr_group d) (tried d) = (c, P, ts)" by (rule prod_cases3)
  show ?thesis
  proof (cases c)
    case None
    then have n: "P = gs ! rr_group d" "ts = tried d" "first_unfit check_down now (gs ! rr_group d) (tried d)"
      using choice_None[OF g(2)] c by auto
    show ?thesis
    proof (cases "rr_group d + 1 < length gs")
      case True
      then show ?thesis using balanced_next[OF ok True n(3) further[OF True]] c None n(1,2) by simp
    next
      case False
      then show ?thesis using c None n g(1) by (auto simp: balanced_def)
    qed
  next
    case (Some p)
    then have "offers check_down (gs ! rr_group d) p (rr_connect P p)" "length ts = length (tried d)"
      using choice_Some[OF g(2)] c by auto
    then show ?thesis using c Some g(1) by (auto simp: balanced_def)
  qed
qed

end

lemma offers_same: "p < length (peer_list P) \<Longrightarrow> offerable check_down (peer_list P ! p) \<Longrightarrow> offers check_down P p (rr_connect P p)"
  by (auto simp: offers_def same_peers_def list_all2_refl intro!: exI[of _ "peer_list P"])

interpretation rr: peer_choice check_down now "rr_choice check_down now" for check_down now
proof
  fix P P' :: rr_peers and ts ts' :: "u64 list" and p :: nat
  assume ok: "group_ok (length ts) P"
  show "rr_choice check_down now P ts = (None, P', ts') \<Longrightarrow> P' = P \<and> ts' = ts \<and> first_unfit check_down now P ts"
    using get_peer_None[of check_down now P ts P' ts'] by (auto simp: rr_choice_def first_unfit_def split: if_splits)
  assume c: "rr_choice check_down now P ts = (Some p, P', ts')"
  show "offers check_down P p (rr_connect P' p) \<and> length ts' = length ts"
  proof (cases "single P")
    case True
    then show ?thesis using c ok offers_same[of 0 P check_down]
      by (auto simp: rr_choice_def group_ok_def offerable_single split: if_splits)
  next
    case False
    then show ?thesis using c get_peer_Some[of check_down now P ts p P' ts'] by (auto simp: rr_choice_def offers_def)
  qed
qed

definition lc_choice :: "(nat \<Rightarrow> bool) \<Rightarrow> int \<Rightarrow> rr_peers \<Rightarrow> u64 list \<Rightarrow> nat option \<times> rr_peers \<times> u64 list" where
  "lc_choice check_down now P ts = (if single P then rr_choice check_down now P ts else lc_get_peer check_down now P ts)"

interpretation lc: peer_choice check_down now "lc_choice check_down now" for check_down now
proof
  fix P P' :: rr_peers and ts ts' :: "u64 list" and p :: nat
  assume ok: "group_ok (length ts) P"
  show "lc_choice check_down now P ts = (None, P', ts') \<Longrightarrow> P' = P \<and> ts' = ts \<and> first_unfit check_down now P ts"
    using lc_get_peer_None[of check_down now P ts P' ts'] rr.choice_None[OF ok, of check_down now P' ts']
    by (auto simp: lc_choice_def first_unfit_def split: if_splits)
  assume c: "lc_choice check_down now P ts = (Some p, P', ts')"
  show "offers check_down P p (rr_connect P' p) \<and> length ts' = length ts"
  proof (cases "single P")
    case True
    then show ?thesis using c rr.choice_Some[OF ok] by (auto simp: lc_choice_def)
  next
    case False
    then show ?thesis using c ok lc_get_peer_Some[of check_down now P ts p P' ts']
      by (auto simp: lc_choice_def offers_def group_ok_def offerable_skip)
  qed
qed

lemma get_round_robin_balanced:
  "data_ok gs d \<Longrightarrow> balanced check_down now gs d (ngx_http_upstream_get_round_robin_peer check_down now gs d)"
proof (induction "length gs - rr_group d" arbitrary: d rule: less_induct)
  case less
  show ?case
    by (subst ngx_http_upstream_get_round_robin_peer.simps, unfold Let_def, rule rr.walk[OF less.prems], rule less.hyps)
      (use less.prems in \<open>auto intro: data_ok_next\<close>)
qed

lemma get_least_conn_balanced:
  "data_ok gs d \<Longrightarrow> balanced check_down now gs d (ngx_http_upstream_get_least_conn_peer check_down now gs d)"
proof (induction "length gs - rr_group d" arbitrary: d rule: less_induct)
  case less
  show ?case
  proof (cases "single (gs ! rr_group d)")
    case True
    then show ?thesis
      using get_round_robin_balanced[OF less.prems] by (subst ngx_http_upstream_get_least_conn_peer.simps) simp
  next
    case False
    have "balanced check_down now gs (next_group gs d) (ngx_http_upstream_get_least_conn_peer check_down now gs (next_group gs d))"
      if "rr_group d + 1 < length gs"
      by (rule less.hyps) (use less.prems that in \<open>auto intro: data_ok_next\<close>)
    from lc.walk[where rest = "ngx_http_upstream_get_least_conn_peer check_down now", OF less.prems this] False show ?thesis
      by (subst ngx_http_upstream_get_least_conn_peer.simps) (simp add: Let_def lc_choice_def)
  qed
qed

end
