(* ===== verification/UpstreamSystem.thy ===== *)
theory UpstreamSystem
  imports UpstreamRR
begin

text \<open>
  The balancers of UpstreamRR at work. A transition system of requests that take peers and give them back
  carries the invariant on connections and weights; a group that only serves healthy peers is shown to
  share its requests in proportion to the weights. The properties are at the end.
\<close>

section \<open>The system\<close>

text \<open>
  The balancer under load: requests arrive, take a peer, and give it back, in any order and with any clock
  and any state of the health checks. \<open>sys_reqs\<close> holds each request's data and whether it has a
  connection to its current peer.
\<close>

record rr_sys =
  sys_groups :: "rr_peers list"
  sys_reqs :: "(rr_peer_data \<times> bool) list"

inductive rr_step :: "rr_sys \<Rightarrow> rr_sys \<Rightarrow> bool" where
  arrive: "length (sys_reqs s) < 2 ^ 64 \<Longrightarrow>
    rr_step s (s\<lparr>sys_reqs := sys_reqs s @ [(fst (ngx_http_upstream_init_round_robin_peer (sys_groups s)), False)]\<rparr>)"
| get: "i < length (sys_reqs s) \<Longrightarrow> sys_reqs s ! i = (d, False) \<Longrightarrow>
    ngx_http_upstream_get_round_robin_peer check_down now (sys_groups s) d = (rc, gs, d') \<Longrightarrow>
    rr_step s (s\<lparr>sys_groups := gs, sys_reqs := (sys_reqs s)[i := (d', rc = NGX_OK)]\<rparr>)"
| get_least: "i < length (sys_reqs s) \<Longrightarrow> sys_reqs s ! i = (d, False) \<Longrightarrow>
    ngx_http_upstream_get_least_conn_peer check_down now (sys_groups s) d = (rc, gs, d') \<Longrightarrow>
    rr_step s (s\<lparr>sys_groups := gs, sys_reqs := (sys_reqs s)[i := (d', rc = NGX_OK)]\<rparr>)"
| free: "i < length (sys_reqs s) \<Longrightarrow> sys_reqs s ! i = (d, True) \<Longrightarrow>
    ngx_http_upstream_free_round_robin_peer now failed (sys_groups s) d pc_tries = (gs, n) \<Longrightarrow>
    rr_step s (s\<lparr>sys_groups := gs, sys_reqs := (sys_reqs s)[i := (d, False)]\<rparr>)"

inductive_cases rr_stepE: "rr_step s s'"

definition holders :: "(rr_peer_data \<times> bool) list \<Rightarrow> peer_ptr \<Rightarrow> nat" where
  "holders reqs ptr = length (filter (\<lambda>(d, h). h \<and> rr_current d = Some ptr) reqs)"

lemma length_filter_set:
  "i < length xs \<Longrightarrow> length (filter P (xs[i := x])) + of_bool (P (xs ! i)) = length (filter P xs) + of_bool (P x)"
proof (induction xs arbitrary: i)
  case (Cons y xs)
  then show ?case by (cases i) (use Cons.IH in fastforce)+
qed simp

lemma holders_set:
  "i < length reqs \<Longrightarrow> reqs ! i = (d, h) \<Longrightarrow>
     int (holders (reqs[i := (d', h')]) ptr) =
       int (holders reqs ptr) + of_bool (h' \<and> rr_current d' = Some ptr) - of_bool (h \<and> rr_current d = Some ptr)"
proof -
  assume i: "i < length reqs" and r: "reqs ! i = (d, h)"
  show ?thesis
    using arg_cong[OF length_filter_set[OF i, of "\<lambda>(d, h). h \<and> rr_current d = Some ptr" "(d', h')"], of int]
    unfolding holders_def r prod.case of_nat_add of_nat_of_bool by linarith
qed

lemma holders_le: "holders reqs ptr \<le> length reqs"
  by (simp add: holders_def)

definition peer_inv :: "(rr_peer_data \<times> bool) list \<Rightarrow> peer_ptr \<Rightarrow> rr_peer \<Rightarrow> bool" where
  "peer_inv reqs ptr peer \<longleftrightarrow> conns peer = holders reqs ptr \<and> (max_conns peer \<noteq> 0 \<longrightarrow> conns peer \<le> max_conns peer) \<and>
     weights_ok peer \<and> 0 < weight peer"

lemma peer_inv_holders: "holders reqs' ptr = holders reqs ptr \<Longrightarrow> peer_inv reqs' ptr peer = peer_inv reqs ptr peer"
  by (simp add: peer_inv_def)

definition groups_inv :: "(rr_peer_data \<times> bool) list \<Rightarrow> rr_peers list \<Rightarrow> bool" where
  "groups_inv reqs gs \<longleftrightarrow> (\<forall>g < length gs. weight_sum (peer_list (gs ! g)) = 0 \<and>
     (\<forall>p < length (peer_list (gs ! g)). peer_inv reqs (g, p) (peer_list (gs ! g) ! p)))"

definition req_inv :: "rr_peers list \<Rightarrow> rr_peer_data \<times> bool \<Rightarrow> bool" where
  "req_inv gs r \<longleftrightarrow> (case r of (d, h) \<Rightarrow> data_ok gs d \<and>
     (h \<longrightarrow> (\<exists>p < length (peer_list (gs ! rr_group d)). rr_current d = Some (rr_group d, p))))"

definition rr_inv :: "rr_sys \<Rightarrow> bool" where
  "rr_inv s \<longleftrightarrow> sys_groups s \<noteq> [] \<and> length (sys_groups s) \<le> 2 \<and> length (sys_reqs s) \<le> 2 ^ 64 \<and>
     (\<forall>P \<in> set (sys_groups s). group_ok (tried_words (number P)) P) \<and>
     list_all (req_inv (sys_groups s)) (sys_reqs s) \<and> groups_inv (sys_reqs s) (sys_groups s)"

text \<open>What a step does to one group: the connections of one peer change by \<open>k\<close>.\<close>

definition moves :: "rr_peers \<Rightarrow> nat \<Rightarrow> int \<Rightarrow> rr_peers \<Rightarrow> bool" where
  "moves P p k P' \<longleftrightarrow> number P' = number P \<and> weight_sum (peer_list P') = weight_sum (peer_list P) \<and>
     list_all2 (\<lambda>a b. weight b = weight a \<and> max_conns b = max_conns a \<and> (weights_ok a \<longrightarrow> weights_ok b)) (peer_list P) (peer_list P') \<and>
     (\<forall>j < length (peer_list P). int (conns (peer_list P' ! j)) = int (conns (peer_list P ! j)) + (if j = p then k else 0))"

lemma moves_group_ok: "moves P p k P' \<Longrightarrow> group_ok n P \<Longrightarrow> group_ok n P'"
  by (auto simp: moves_def group_ok_def list_all2_conv_all_nth all_set_conv_all_nth)

lemma groups_set_ok:
  "moves (gs ! g) p k P' \<Longrightarrow> g < length gs \<Longrightarrow> data_ok gs d \<Longrightarrow> data_ok (gs[g := P']) d"
  using moves_group_ok by (fastforce simp: data_ok_def dest!: set_update_subset_insert[THEN subsetD])

lemma moves_length: "moves P p k P' \<Longrightarrow> length (peer_list P') = length (peer_list P)"
  by (auto simp: moves_def dest: list_all2_lengthD)

lemma req_inv_set:
  "moves (gs ! g) p k P' \<Longrightarrow> g < length gs \<Longrightarrow> req_inv gs r \<Longrightarrow> req_inv (gs[g := P']) r"
  using groups_set_ok moves_length
  by (cases r) (fastforce simp: req_inv_def nth_list_update data_ok_def)

lemma groups_inv_set:
  assumes mv: "moves (gs ! g) p k P'" and g: "g < length gs" and inv: "groups_inv reqs gs"
    and h: "\<And>ptr. int (holders reqs' ptr) = int (holders reqs ptr) + (if ptr = (g, p) then k else 0)"
    and room: "p < length (peer_list (gs ! g)) \<Longrightarrow> max_conns (peer_list (gs ! g) ! p) \<noteq> 0 \<Longrightarrow>
       int (conns (peer_list (gs ! g) ! p)) + k \<le> int (max_conns (peer_list (gs ! g) ! p))"
  shows "groups_inv reqs' (gs[g := P'])"
  unfolding groups_inv_def
proof (intro allI impI conjI)
  fix g' assume g': "g' < length (gs[g := P'])"
  show "weight_sum (peer_list (gs[g := P'] ! g')) = 0"
    using g' g inv mv by (auto simp: groups_inv_def moves_def nth_list_update)
  fix j assume j: "j < length (peer_list (gs[g := P'] ! g'))"
  show "peer_inv reqs' (g', j) (peer_list (gs[g := P'] ! g') ! j)"
  proof (cases "g' = g")
    case True
    then have j': "j < length (peer_list (gs ! g))" using j g moves_length[OF mv] by simp
    let ?a = "peer_list (gs ! g) ! j" and ?b = "peer_list P' ! j"
    have a: "peer_inv reqs (g, j) ?a" using inv g j' by (simp add: groups_inv_def)
    have b: "weight ?b = weight ?a" "max_conns ?b = max_conns ?a" "weights_ok ?a \<longrightarrow> weights_ok ?b"
      "int (conns ?b) = int (conns ?a) + (if j = p then k else 0)"
      using mv j' by (auto simp: moves_def list_all2_conv_all_nth)
    have "int (conns ?b) = int (holders reqs' (g, j))" using a b(4) h[of "(g, j)"] by (simp add: peer_inv_def)
    moreover have "max_conns ?b \<noteq> 0 \<longrightarrow> conns ?b \<le> max_conns ?b"
      using a b(2,4) room j' by (cases "j = p") (auto simp: peer_inv_def)
    ultimately show ?thesis using a b True g by (simp add: peer_inv_def)
  next
    case False
    then have eq: "holders reqs' (g', j) = holders reqs (g', j)" using h[of "(g', j)"] by simp
    show ?thesis unfolding peer_inv_holders[OF eq] using False g' j inv by (simp add: groups_inv_def)
  qed
qed

lemma rr_inv_set:
  assumes inv: "rr_inv s" and i: "i < length (sys_reqs s)" "sys_reqs s ! i = (d, h)"
    and mv: "moves (sys_groups s ! g) p k P'" and g: "g < length (sys_groups s)" "p < length (peer_list (sys_groups s ! g))"
    and d: "data_ok (sys_groups s) d'" "h' \<longrightarrow> rr_current d' = Some (g, p) \<and> rr_group d' = g" "h \<longrightarrow> rr_current d = Some (g, p)"
    and k: "k = of_bool h' - of_bool h"
    and room: "max_conns (peer_list (sys_groups s ! g) ! p) \<noteq> 0 \<Longrightarrow>
       int (conns (peer_list (sys_groups s ! g) ! p)) + k \<le> int (max_conns (peer_list (sys_groups s ! g) ! p))"
  shows "rr_inv (s\<lparr>sys_groups := (sys_groups s)[g := P'], sys_reqs := (sys_reqs s)[i := (d', h')]\<rparr>)"
proof -
  let ?gs = "sys_groups s" and ?reqs = "sys_reqs s"
  have "int (holders (?reqs[i := (d', h')]) ptr) = int (holders ?reqs ptr) + (if ptr = (g, p) then k else 0)" for ptr
    using holders_set[OF i, of d' h' ptr] d k by auto
  then have "groups_inv (?reqs[i := (d', h')]) (?gs[g := P'])"
    using inv room by (intro groups_inv_set[OF mv g(1)]) (auto simp: rr_inv_def)
  moreover have "req_inv (?gs[g := P']) (d', h')"
    using groups_set_ok[OF mv g(1) d(1)] d(2) g moves_length[OF mv] by (auto simp: req_inv_def)
  then have "list_all (req_inv (?gs[g := P'])) (?reqs[i := (d', h')])"
    using inv req_inv_set[OF mv g(1)] i(1) by (auto simp: rr_inv_def list_all_length nth_list_update)
  moreover have "group_ok (tried_words (number Q)) Q" if "Q \<in> set (?gs[g := P'])" for Q
  proof (cases "Q \<in> set ?gs")
    case False
    then have "Q = P'" using that set_update_subset_insert by fast
    then show ?thesis using moves_group_ok[OF mv] inv g(1) mv by (auto simp: rr_inv_def moves_def)
  qed (use inv in \<open>simp add: rr_inv_def\<close>)
  ultimately show ?thesis using inv by (simp add: rr_inv_def)
qed


lemma moves_offer:
  assumes "offers check_down P p P'"
  shows "moves P p 1 P'"
proof -
  obtain qs where qs: "same_peers (peer_list P) qs" "P' = rr_connect (P\<lparr>peer_list := qs\<rparr>) p" and p: "p < length (peer_list P)"
    using assms by (auto simp: offers_def)
  have len: "length qs = length (peer_list P)" using qs(1) by (auto simp: same_peers_def dest: list_all2_lengthD)
  have l: "peer_list P' = qs[p := (qs ! p)\<lparr>conns := conns (qs ! p) + 1\<rparr>]" using qs(2) by (simp add: rr_connect_def)
  have "weight_sum (peer_list P') = weight_sum qs" using p len by (simp add: l weight_sum_def sum_list_set)
  then show ?thesis
    using qs p len by (auto simp: moves_def l rr_connect_def same_peers_def list_all2_conv_all_nth nth_list_update same_peer_def
        weights_ok_def)
qed

definition free_update :: "bool \<Rightarrow> int \<Rightarrow> bool \<Rightarrow> rr_peer \<Rightarrow> rr_peer" where
  "free_update sgl now failed peer =
     rr_release (if sgl then peer else if failed then rr_fail now peer else rr_live peer)"

lemma free_update_groups:
  "rr_current d = Some (g, p) \<Longrightarrow> rr_group d = g \<Longrightarrow>
     fst (ngx_http_upstream_free_round_robin_peer now failed gs d n) =
       gs[g := (gs ! g)\<lparr>peer_list := (peer_list (gs ! g))[p := free_update (single (gs ! g)) now failed (peer_list (gs ! g) ! p)]\<rparr>]"
  by (simp add: ngx_http_upstream_free_round_robin_peer_def update_peer_def free_update_def)

lemma uint_dec: "0 < n \<Longrightarrow> n \<le> 2 ^ 64 \<Longrightarrow> uint_dec n = n - 1"
proof -
  assume n: "0 < n" "n \<le> 2 ^ 64"
  then have "n + (2 ^ 64 - 1) = (n - 1) + 2 ^ 64" by simp
  then have "uint_dec n = (n - 1) mod 2 ^ 64" by (simp only: uint_dec_def mod_add_self2)
  then show ?thesis using n by simp
qed

lemma free_update_peer:
  assumes "0 < conns peer" "conns peer \<le> 2 ^ 64" and "0 < weight peer"
  shows "weight (free_update sgl now failed peer) = weight peer" "max_conns (free_update sgl now failed peer) = max_conns peer"
    "weights_ok peer \<Longrightarrow> weights_ok (free_update sgl now failed peer)"
    "int (conns (free_update sgl now failed peer)) = int (conns peer) - 1"
    "current_weight (free_update sgl now failed peer) = current_weight peer"
proof -
  have "0 \<le> weight peer div int (max_fails peer)"
    using assms(3) by (cases "max_fails peer = 0") (simp_all add: pos_imp_zdiv_nonneg_iff)
  then show "weight (free_update sgl now failed peer) = weight peer" "max_conns (free_update sgl now failed peer) = max_conns peer"
    "weights_ok peer \<Longrightarrow> weights_ok (free_update sgl now failed peer)"
    "int (conns (free_update sgl now failed peer)) = int (conns peer) - 1"
    "current_weight (free_update sgl now failed peer) = current_weight peer"
    using assms by (auto simp: free_update_def rr_release_def rr_fail_def rr_live_def weights_ok_def uint_dec Let_def)
qed

lemma moves_free:
  assumes p: "p < length (peer_list P)" and peer: "0 < conns (peer_list P ! p)" "conns (peer_list P ! p) \<le> 2 ^ 64" "0 < weight (peer_list P ! p)"
  shows "moves P p (-1) (P\<lparr>peer_list := (peer_list P)[p := free_update sgl now failed (peer_list P ! p)]\<rparr>)"
  using p free_update_peer[OF peer, of sgl now failed]
  by (auto simp: moves_def weight_sum_def sum_list_set list_all2_conv_all_nth nth_list_update)

lemma rr_inv_offer:
  assumes inv: "rr_inv s" and i: "i < length (sys_reqs s)" "sys_reqs s ! i = (d, False)"
    and bal: "balanced check_down now (sys_groups s) d (rc, gs, d')"
  shows "rr_inv (s\<lparr>sys_groups := gs, sys_reqs := (sys_reqs s)[i := (d', rc = NGX_OK)]\<rparr>)"
proof -
  have "req_inv (sys_groups s) (sys_reqs s ! i)" using inv i(1) by (simp add: rr_inv_def list_all_length)
  then have ok: "data_ok (sys_groups s) d" using i(2) by (simp add: req_inv_def)
  then have ok': "data_ok (sys_groups s) d'" using bal by (auto simp: balanced_def data_ok_def)
  have g0: "0 < length (sys_groups s)" using inv by (simp add: rr_inv_def)
  show ?thesis
  proof (cases "rc = NGX_OK")
    case True
    then obtain p P where c: "rr_current d' = Some (rr_group d', p)" "rr_group d' < length (sys_groups s)"
      "offers check_down (sys_groups s ! rr_group d') p P" "gs = (sys_groups s)[rr_group d' := P]"
      using bal by (auto simp: balanced_def)
    have p: "p < length (peer_list (sys_groups s ! rr_group d'))" using c(3) by (simp add: offers_def)
    show ?thesis
      using rr_inv_set[OF inv i moves_offer[OF c(3)] c(2) p ok', of True] True c
      by (auto simp: offers_def offerable_def)
  next
    case False
    let ?P = "sys_groups s ! 0"
    have gs: "gs = sys_groups s" using bal False by (auto simp: balanced_def)
    have mv: "moves ?P 0 0 ?P" by (simp add: moves_def list_all2_refl)
    have "group_ok (tried_words (number ?P)) ?P" using inv g0 by (simp add: rr_inv_def)
    then have p: "0 < length (peer_list ?P)" by (auto simp: group_ok_def)
    have "peer_inv (sys_reqs s) (0, 0) (peer_list ?P ! 0)" using inv g0 p by (simp add: rr_inv_def groups_inv_def)
    then show ?thesis
      using rr_inv_set[OF inv i mv g0 p ok', of False] False gs by (auto simp: peer_inv_def)
  qed
qed

lemma rr_inv_free:
  assumes inv: "rr_inv s" and i: "i < length (sys_reqs s)" "sys_reqs s ! i = (d, True)"
  shows "rr_inv (s\<lparr>sys_groups := fst (ngx_http_upstream_free_round_robin_peer now failed (sys_groups s) d n),
     sys_reqs := (sys_reqs s)[i := (d, False)]\<rparr>)"
proof -
  let ?gs = "sys_groups s"
  have "req_inv ?gs (sys_reqs s ! i)" using inv i(1) by (simp add: rr_inv_def list_all_length)
  then obtain p where d: "data_ok ?gs d" "p < length (peer_list (?gs ! rr_group d))" "rr_current d = Some (rr_group d, p)"
    using i(2) by (auto simp: req_inv_def)
  let ?g = "rr_group d" and ?peer = "peer_list (?gs ! rr_group d) ! p"
  have g: "?g < length ?gs" using d(1) by (simp add: data_ok_def)
  have peer: "peer_inv (sys_reqs s) (?g, p) ?peer" using inv g d(2) by (simp add: rr_inv_def groups_inv_def)
  have "0 < holders (sys_reqs s) (?g, p)"
    unfolding holders_def length_greater_0_conv filter_empty_conv using i d(3) nth_mem[OF i(1)] by force
  moreover have "holders (sys_reqs s) (?g, p) \<le> 2 ^ 64"
    using holders_le[of "sys_reqs s" "(?g, p)"] inv by (simp add: rr_inv_def)
  ultimately have "moves (?gs ! ?g) p (-1)
      ((?gs ! ?g)\<lparr>peer_list := (peer_list (?gs ! ?g))[p := free_update (single (?gs ! ?g)) now failed ?peer]\<rparr>)"
    using peer d(2) by (intro moves_free) (auto simp: peer_inv_def)
  from rr_inv_set[OF inv i this g d(2,1), of False] show ?thesis
    using peer d(3) by (auto simp: free_update_groups[OF d(3) refl] peer_inv_def)
qed

lemma tried_words_mono: "m \<le> n \<Longrightarrow> tried_words m \<le> (if n \<le> 64 then 1 else tried_words n)"
  by (auto simp: tried_words_def div_le_mono)

lemma group_ok_mono: "group_ok m P \<Longrightarrow> m \<le> n \<Longrightarrow> group_ok n P"
  by (auto simp: group_ok_def)

lemma init_data_ok:
  assumes "gs \<noteq> []" "length gs \<le> 2" and "\<forall>P \<in> set gs. group_ok (tried_words (number P)) P"
  shows "data_ok gs (fst (ngx_http_upstream_init_round_robin_peer gs))"
proof -
  let ?d = "fst (ngx_http_upstream_init_round_robin_peer gs)"
  define n where "n = (if length gs > 1 \<and> number (gs ! 1) > number (gs ! 0) then number (gs ! 1) else number (gs ! 0))"
  have len: "length (tried ?d) = (if n \<le> 64 then 1 else tried_words n)" and g: "rr_group ?d = 0"
    by (simp_all add: ngx_http_upstream_init_round_robin_peer_def Let_def n_def)
  have "number P \<le> n" if P: "P \<in> set gs" for P
  proof -
    obtain i where "i < length gs" "P = gs ! i" using P unfolding in_set_conv_nth by blast
    moreover have "i = 0 \<or> i = 1 \<and> 1 < length gs" using \<open>i < length gs\<close> assms(2) by linarith
    ultimately show ?thesis by (auto simp: n_def)
  qed
  then have "group_ok (length (tried ?d)) P" if "P \<in> set gs" for P
    using group_ok_mono[OF _ tried_words_mono[of "number P" n]] assms(3) that unfolding len by blast
  then show ?thesis using g assms(1) by (simp add: data_ok_def)
qed

lemma holders_snoc [simp]: "holders (reqs @ [(d, False)]) ptr = holders reqs ptr"
  by (simp add: holders_def)

lemma rr_inv_arrive:
  assumes "rr_inv s" and "length (sys_reqs s) < 2 ^ 64"
  shows "rr_inv (s\<lparr>sys_reqs := sys_reqs s @ [(fst (ngx_http_upstream_init_round_robin_peer (sys_groups s)), False)]\<rparr>)"
proof -
  have "data_ok (sys_groups s) (fst (ngx_http_upstream_init_round_robin_peer (sys_groups s)))"
    using assms(1) by (intro init_data_ok) (simp_all add: rr_inv_def)
  moreover have "groups_inv (sys_reqs s @ [(d, False)]) gs = groups_inv (sys_reqs s) gs" for d gs
    by (simp add: groups_inv_def peer_inv_holders[OF holders_snoc])
  ultimately show ?thesis using assms by (auto simp: rr_inv_def req_inv_def)
qed

lemma rr_inv_step: "rr_step s s' \<Longrightarrow> rr_inv s \<Longrightarrow> rr_inv s'"
proof (induction rule: rr_step.induct)
  case (arrive s)
  then show ?case by (rule rr_inv_arrive[rotated])
next
  case (get i s d check_down now rc gs d')
  then have "data_ok (sys_groups s) d" by (auto simp: rr_inv_def list_all_length req_inv_def)
  from get_round_robin_balanced[OF this, of check_down now] get show ?case by (auto intro: rr_inv_offer)
next
  case (get_least i s d check_down now rc gs d')
  then have "data_ok (sys_groups s) d" by (auto simp: rr_inv_def list_all_length req_inv_def)
  from get_least_conn_balanced[OF this, of check_down now] get_least show ?case by (auto intro: rr_inv_offer)
next
  case (free i s d now failed pc_tries gs n)
  then show ?case using rr_inv_free[OF free(4,1,2), of now failed pc_tries] by simp
qed

section \<open>Fairness\<close>

datatype rr_event = Request int | Finish nat

text \<open>
  A group with several peers serves fresh requests, interleaved with ends of connections that went
  well. The result lists the peers chosen.
\<close>

fun serve :: "(nat \<Rightarrow> bool) \<Rightarrow> rr_peers list \<Rightarrow> rr_event list \<Rightarrow> nat list \<times> rr_peers list" where
  "serve check_down gs [] = ([], gs)"
| "serve check_down gs (Request now # es) =
    (case ngx_http_upstream_get_round_robin_peer check_down now gs (fst (ngx_http_upstream_init_round_robin_peer gs)) of
       (rc, gs', d) \<Rightarrow>
         (case serve check_down gs' es of (picks, gs'') \<Rightarrow>
            (if rc = NGX_OK then snd (the (rr_current d)) # picks else picks, gs'')))"
| "serve check_down gs (Finish p # es) =
    serve check_down
      (fst (ngx_http_upstream_free_round_robin_peer 0 False gs
         \<lparr>rr_group = 0, rr_current = Some (0, p), tried = []\<rparr> 0)) es"

definition healthy :: "(nat \<Rightarrow> bool) \<Rightarrow> rr_peer \<Rightarrow> bool" where
  "healthy check_down peer \<longleftrightarrow> \<not> down peer \<and> \<not> check_down (check_index peer) \<and> max_conns peer = 0 \<and>
     (max_fails peer = 0 \<or> fails peer < max_fails peer) \<and> effective_weight peer = weight peer \<and> 0 < weight peer"

lemma healthy_skip: "healthy check_down peer \<Longrightarrow> \<not> tried_test ts i \<Longrightarrow> \<not> rr_skip check_down now ts i peer"
  by (auto simp: healthy_def rr_skip_def)

lemma rr_loop_all:
  assumes "rr_loop skip i ps tot best = (qs, t, b)" and "\<forall>k < length ps. \<not> skip (i + k) (ps ! k)"
  shows "qs = map rr_bump ps \<and> t = tot + sum_list (map effective_weight ps)"
  using assms
proof (induction skip i ps tot best arbitrary: qs rule: rr_loop.induct)
  case (2 skip i peer ps tot best)
  then show ?case by (auto simp: All_less_Suc2 Let_def split: prod.splits)
qed simp

text \<open>
  The state after \<open>k\<close> requests: every current weight is what the weight has added and the picks have
  subtracted, and none has fallen by the whole of \<open>W\<close>.
\<close>

definition fair_inv :: "(nat \<Rightarrow> bool) \<Rightarrow> int list \<Rightarrow> nat \<Rightarrow> nat list \<Rightarrow> rr_peer list \<Rightarrow> bool" where
  "fair_inv check_down ws k picks ps \<longleftrightarrow> map weight ps = ws \<and> list_all (healthy check_down) ps \<and> weight_sum ps = 0 \<and>
     (\<forall>i < length ws. current_weight (ps ! i) = int k * ws ! i - sum_list ws * int (count_list picks i) \<and>
        - sum_list ws < current_weight (ps ! i))"

lemma healthy_take: "healthy c (rr_take now tot peer) = healthy c peer" "weight (rr_take now tot peer) = weight peer"
  "current_weight (rr_take now tot peer) = current_weight peer - tot"
  by (simp_all add: healthy_def rr_take_def)

lemma healthy_bump: "healthy c peer \<Longrightarrow> healthy c (rr_bump peer)" "healthy c peer \<Longrightarrow> effective_weight peer = weight peer"
  by (auto simp: healthy_def rr_bump_def)

lemma sum_bump: "list_all (healthy c) ps \<Longrightarrow> weight_sum (map rr_bump ps) = weight_sum ps + sum_list (map weight ps)"
  by (induction ps) (auto simp: weight_sum_def healthy_bump)

lemma sum_positive:
  assumes "\<forall>x \<in> set xs. 0 < x" and "xs \<noteq> []"
  shows "0 < sum_list (xs :: int list)"
proof -
  obtain y ys where xs: "xs = y # ys" using assms(2) by (cases xs) auto
  have "0 \<le> sum_list ys" using assms(1) xs by (intro sum_list_nonneg) auto
  then show ?thesis using assms(1) xs by simp
qed

lemma some_positive: "0 < sum_list (xs :: int list) \<Longrightarrow> \<exists>i < length xs. 0 < xs ! i"
proof (rule ccontr)
  assume "0 < sum_list xs" and "\<not> (\<exists>i < length xs. 0 < xs ! i)"
  then have "\<forall>x \<in> set xs. x \<le> 0" by (metis in_set_conv_nth not_le)
  then have "sum_list xs \<le> 0" by (simp add: sum_list_nonpos)
  then show False using \<open>0 < sum_list xs\<close> by simp
qed

lemma fair_inv_pick:
  assumes inv: "fair_inv c ws k picks ps" and ne: "ps \<noteq> []"
    and l: "rr_loop (rr_skip c now ts) 0 ps 0 None = (qs, tot, b)" and fresh: "\<And>i. i < length ps \<Longrightarrow> \<not> tried_test ts i"
  shows "\<exists>p < length ps. b = Some p \<and> fair_inv c ws (Suc k) (picks @ [p]) (qs[p := rr_take now tot (qs ! p)])"
proof -
  let ?W = "sum_list ws"
  have h: "list_all (healthy c) ps" and w: "map weight ps = ws" and s: "weight_sum ps = 0" using inv by (simp_all add: fair_inv_def)
  have all: "\<forall>i < length ps. \<not> rr_skip c now ts (0 + i) (ps ! i)"
    using h fresh healthy_skip by (simp add: list_all_length)
  have q: "qs = map rr_bump ps" and t: "tot = ?W"
    using rr_loop_all[OF l all] h w by (auto simp: list_all_length healthy_bump intro!: arg_cong[of _ _ sum_list] nth_equalityI)
  obtain p where p: "b = Some p"
    using rr_loop_best[OF l] all ne by (cases b) auto
  have best: "p < length ps" "\<forall>i < length ps. current_weight (qs ! i) \<le> current_weight (qs ! p)"
    using rr_loop_choice[OF l[unfolded p]] all by (auto simp: q)
  have "weight_sum qs = ?W" using sum_bump[OF h] s w by (simp add: q)
  moreover have "0 < ?W"
  proof -
    have "\<forall>x \<in> set ws. 0 < x" using h w[symmetric] by (auto simp: healthy_def list_all_iff)
    moreover have "ws \<noteq> []" using ne w by auto
    ultimately show ?thesis by (rule sum_positive)
  qed
  ultimately obtain j where "j < length ps" "0 < current_weight (qs ! j)"
    using some_positive[of "map current_weight qs"] by (auto simp: weight_sum_def q)
  then have pos: "0 < current_weight (qs ! p)" using best by fastforce
  have "fair_inv c ws (Suc k) (picks @ [p]) (qs[p := rr_take now tot (qs ! p)])"
    unfolding fair_inv_def
  proof (intro conjI allI impI)
    show "map weight (qs[p := rr_take now tot (qs ! p)]) = ws"
      using w best(1) by (auto simp: q nth_list_update healthy_take intro!: nth_equalityI)
    show "list_all (healthy c) (qs[p := rr_take now tot (qs ! p)])"
      using h best(1) by (auto simp: q list_all_length nth_list_update healthy_take healthy_bump)
    show "weight_sum (qs[p := rr_take now tot (qs ! p)]) = 0"
    proof -
      have "p < length qs" using best(1) by (simp add: q)
      from weight_sum_take[OF this, of now tot] show ?thesis using \<open>weight_sum qs = ?W\<close> t by simp
    qed
    fix i assume i: "i < length ws"
    then have i': "i < length ps" using w by auto
    have wi: "effective_weight (ps ! i) = ws ! i" using h w i' healthy_bump(2) by (auto simp: list_all_length)
    have c: "current_weight (ps ! i) = int k * ws ! i - ?W * int (count_list picks i)" "- ?W < current_weight (ps ! i)"
      using inv i by (auto simp: fair_inv_def)
    have wpos: "0 < ws ! i" using h w i' by (auto simp: list_all_length healthy_def)
    show "current_weight (qs[p := rr_take now tot (qs ! p)] ! i) = int (Suc k) * ws ! i - ?W * int (count_list (picks @ [p]) i)"
      using i' c(1) wi t by (cases "i = p") (auto simp: q nth_list_update healthy_take algebra_simps)
    show "- ?W < current_weight (qs[p := rr_take now tot (qs ! p)] ! i)"
      using i' c(2) wi t pos wpos by (cases "i = p") (auto simp: q nth_list_update healthy_take)
  qed
  then show ?thesis using p best(1) by blast
qed


text \<open>One request and one end of a connection.\<close>

definition fair_group :: "(nat \<Rightarrow> bool) \<Rightarrow> int list \<Rightarrow> nat \<Rightarrow> nat list \<Rightarrow> rr_peers \<Rightarrow> bool" where
  "fair_group c ws k picks P \<longleftrightarrow> \<not> single P \<and> number P = length (peer_list P) \<and> peer_list P \<noteq> [] \<and>
     fair_inv c ws k picks (peer_list P)"

lemma fair_inv_conns:
  "fair_inv c ws k picks ps \<Longrightarrow> p < length ps \<Longrightarrow> fair_inv c ws k picks (ps[p := (ps ! p)\<lparr>conns := n\<rparr>])"
  by (auto simp: fair_inv_def healthy_def list_all_length nth_list_update weight_sum_def sum_list_set intro!: nth_equalityI)

lemma fresh_bits: "i < number P \<Longrightarrow> \<not> tried_test (tried (fst (ngx_http_upstream_init_round_robin_peer [P]))) i"
  using tried_zero[of i 1] tried_zero[of i "tried_words (number P)"] tried_words_enough[of i "number P"]
  by (auto simp: ngx_http_upstream_init_round_robin_peer_def Let_def)

lemma fair_request:
  assumes "fair_group c ws k picks P"
  shows "\<exists>p P' d. ngx_http_upstream_get_round_robin_peer c now [P] (fst (ngx_http_upstream_init_round_robin_peer [P])) =
      (NGX_OK, [P'], d) \<and> rr_current d = Some (0, p) \<and> fair_group c ws (Suc k) (picks @ [p]) P'"
proof -
  let ?d = "fst (ngx_http_upstream_init_round_robin_peer [P])"
  have P: "\<not> single P" "number P = length (peer_list P)" "peer_list P \<noteq> []" "fair_inv c ws k picks (peer_list P)"
    using assms by (simp_all add: fair_group_def)
  obtain qs tot b where l: "rr_loop (rr_skip c now (tried ?d)) 0 (peer_list P) 0 None = (qs, tot, b)" by (rule prod_cases3)
  obtain p where p: "p < length (peer_list P)" "b = Some p"
    and inv: "fair_inv c ws (Suc k) (picks @ [p]) (qs[p := rr_take now tot (qs ! p)])" (is "fair_inv _ _ _ _ ?ps")
    using fair_inv_pick[OF P(4,3) l] fresh_bits P(2) by auto
  have len: "length ?ps = length (peer_list P)" using rr_loop_list[OF l] by simp
  have "rr_group ?d = 0" by (simp add: ngx_http_upstream_init_round_robin_peer_def Let_def)
  then have "ngx_http_upstream_get_round_robin_peer c now [P] ?d =
      (NGX_OK, [rr_connect (P\<lparr>peer_list := ?ps\<rparr>) p], ?d\<lparr>tried := tried_mark (tried ?d) p, rr_current := Some (0, p)\<rparr>)"
    using P(1) l p(2) by (subst ngx_http_upstream_get_round_robin_peer.simps)
      (simp add: rr_choice_def ngx_http_upstream_get_peer_def)
  moreover have "fair_inv c ws (Suc k) (picks @ [p]) (peer_list (rr_connect (P\<lparr>peer_list := ?ps\<rparr>) p))"
    using fair_inv_conns[OF inv, of p] p(1) len by (simp add: rr_connect_def)
  then have "fair_group c ws (Suc k) (picks @ [p]) (rr_connect (P\<lparr>peer_list := ?ps\<rparr>) p)"
    using P len by (auto simp: fair_group_def rr_connect_def)
  ultimately show ?thesis by auto
qed

lemma fair_live: "fair_inv c ws k picks ps \<Longrightarrow> p < length ps \<Longrightarrow> fair_inv c ws k picks (ps[p := rr_live (ps ! p)])"
  by (auto simp: fair_inv_def healthy_def list_all_length nth_list_update weight_sum_def sum_list_set rr_live_def intro!: nth_equalityI)

lemma fair_finish:
  assumes "fair_group c ws k picks P" and "p < length (peer_list P)"
  shows "\<exists>P'. fst (ngx_http_upstream_free_round_robin_peer 0 False [P] \<lparr>rr_group = 0, rr_current = Some (0, p), tried = []\<rparr> 0) = [P'] \<and>
    fair_group c ws k picks P' \<and> length (peer_list P') = length (peer_list P)"
proof -
  let ?ps = "(peer_list P)[p := rr_live (peer_list P ! p)]"
  have P: "\<not> single P" "number P = length (peer_list P)" "peer_list P \<noteq> []" "fair_inv c ws k picks (peer_list P)"
    using assms(1) by (simp_all add: fair_group_def)
  have "fair_inv c ws k picks (?ps[p := (?ps ! p)\<lparr>conns := uint_dec (conns (?ps ! p))\<rparr>])"
    using assms(2) by (intro fair_inv_conns fair_live P(4)) simp_all
  then show ?thesis
    using P assms(2)
    by (auto simp: ngx_http_upstream_free_round_robin_peer_def update_peer_def rr_release_def fair_group_def)
qed

definition requests :: "rr_event list \<Rightarrow> nat" where
  "requests es = length (filter (\<lambda>e. case e of Request now \<Rightarrow> True | Finish p \<Rightarrow> False) es)"

definition finishes_in :: "nat \<Rightarrow> rr_event list \<Rightarrow> bool" where
  "finishes_in n es \<longleftrightarrow> (\<forall>p. Finish p \<in> set es \<longrightarrow> p < n)"

lemma fair_serve:
  "fair_group c ws k before P \<Longrightarrow> finishes_in (length ws) es \<Longrightarrow>
     \<exists>picks P'. serve c [P] es = (picks, [P']) \<and> fair_group c ws (k + requests es) (before @ picks) P'"
proof (induction es arbitrary: k before P)
  case Nil
  then show ?case by (simp add: requests_def)
next
  case (Cons e es)
  have f: "finishes_in (length ws) es" using Cons.prems(2) by (simp add: finishes_in_def)
  show ?case
  proof (cases e)
    case (Request now)
    obtain p P' d where g: "ngx_http_upstream_get_round_robin_peer c now [P] (fst (ngx_http_upstream_init_round_robin_peer [P])) = (NGX_OK, [P'], d)"
      "rr_current d = Some (0, p)" "fair_group c ws (Suc k) (before @ [p]) P'"
      using fair_request[OF Cons.prems(1), of now] by blast
    from Cons.IH[OF g(3) f] show ?thesis using g(1,2) Request by (auto simp: requests_def)
  next
    case (Finish p)
    have "length (peer_list P) = length ws" using Cons.prems(1) by (auto simp: fair_group_def fair_inv_def)
    then have "p < length (peer_list P)" using Cons.prems(2) Finish by (simp add: finishes_in_def)
    from fair_finish[OF Cons.prems(1) this] Cons.IH[OF _ f] show ?thesis using Finish by (auto simp: requests_def)
  qed
qed

lemma weight_sum_zero: "(\<forall>peer \<in> set ps. current_weight peer = 0) \<Longrightarrow> weight_sum ps = 0"
  by (induction ps) (simp_all add: weight_sum_def)

lemma fair_inv_start:
  "list_all (healthy c) ps \<Longrightarrow> (\<forall>peer \<in> set ps. current_weight peer = 0) \<Longrightarrow> ps \<noteq> [] \<Longrightarrow> fair_inv c (map weight ps) 0 [] ps"
proof -
  assume h: "list_all (healthy c) ps" and z: "\<forall>peer \<in> set ps. current_weight peer = 0" and ne: "ps \<noteq> []"
  have "0 < sum_list (map weight ps)"
    using h ne by (intro sum_positive) (auto simp: healthy_def list_all_iff)
  moreover have "weight_sum ps = 0" using z by (rule weight_sum_zero)
  ultimately show ?thesis using h z by (simp add: fair_inv_def)
qed

text \<open>After as many requests as the weights add up to, all current weights are zero again.\<close>

lemma fair_inv_period:
  assumes inv: "fair_inv c ws (nat (sum_list ws)) picks ps" and ws: "0 < sum_list ws" 
  shows "\<forall>i < length ws. int (count_list picks i) = ws ! i \<and> current_weight (ps ! i) = 0"
proof -
  let ?W = "sum_list ws"
  have cw: "current_weight (ps ! i) = ?W * (ws ! i - int (count_list picks i))" "- ?W < current_weight (ps ! i)" if "i < length ws" for i
    using inv ws that by (auto simp: fair_inv_def algebra_simps)
  have nonneg: "0 \<le> current_weight (ps ! i)" if "i < length ws" for i
  proof -
    have "- 1 < ws ! i - int (count_list picks i)"
    proof (rule ccontr)
      assume "\<not> - 1 < ws ! i - int (count_list picks i)"
      then have "?W * (ws ! i - int (count_list picks i)) \<le> ?W * (- 1)" using ws by (intro mult_left_mono) simp_all
      then show False using cw[OF that] by simp
    qed
    then show ?thesis using cw(1)[OF that] ws by simp
  qed
  have len: "length ps = length ws" using inv by (auto simp: fair_inv_def)
  then have "\<forall>x \<in> set (map current_weight ps). 0 \<le> x" using nonneg by (auto simp: in_set_conv_nth)
  moreover have "sum_list (map current_weight ps) = 0" using inv by (simp add: fair_inv_def weight_sum_def)
  ultimately have "\<forall>x \<in> set (map current_weight ps). x = 0" by (simp only: sum_list_nonneg_eq_0_iff)
  then have "current_weight (ps ! i) = 0" if "i < length ws" for i using that len by simp
  then show ?thesis using cw(1) ws by fastforce
qed

section \<open>The start\<close>

definition fresh_peer :: "rr_peer \<Rightarrow> bool" where
  "fresh_peer peer \<longleftrightarrow> current_weight peer = 0 \<and> effective_weight peer = weight peer \<and> 0 < weight peer \<and> conns peer = 0"

lemma init_addrs_fresh:
  "0 < srv_weight s \<Longrightarrow> init_addrs add_peer s n c = (ps, c') \<Longrightarrow> length ps = n \<and> list_all fresh_peer ps"
proof (induction add_peer s n c arbitrary: ps rule: init_addrs.induct)
  case (2 add_peer s n c)
  then show ?case
    by (auto simp: Let_def new_rr_peer_def fresh_peer_def split: prod.splits if_splits)
qed simp

lemma init_servers_fresh:
  "\<forall>s \<in> set ss. 0 < srv_weight s \<Longrightarrow> init_servers add_peer ss c = (ps, c') \<Longrightarrow>
     length ps = sum_list (map srv_naddrs ss) \<and> list_all fresh_peer ps"
proof (induction add_peer ss c arbitrary: ps rule: init_servers.induct)
  case (2 add_peer s ss c)
  then show ?case by (auto split: prod.splits dest: init_addrs_fresh)
qed simp

lemma init_group_ok:
  assumes "\<forall>s \<in> set ss. 0 < srv_weight s" and "init_servers add_peer ss c = (ps, c')" and "sum_list (map srv_naddrs ss) \<noteq> 0"
  shows "group_ok (tried_words (number (init_group ss ps sgl))) (init_group ss ps sgl)" "list_all fresh_peer (peer_list (init_group ss ps sgl))"
  using init_servers_fresh[OF assms(1,2)] assms(3)
  by (auto simp: init_group_def Let_def group_ok_def list_all_iff fresh_peer_def)

lemma init_groups:
  assumes "\<forall>s \<in> set servers. 0 < srv_weight s" and "ngx_http_upstream_init_round_robin add_peer servers c = Some (gs, c')"
  shows "gs \<noteq> [] \<and> length gs \<le> 2 \<and> (\<forall>P \<in> set gs. group_ok (tried_words (number P)) P \<and> list_all fresh_peer (peer_list P))"
proof -
  let ?a = "filter (\<lambda>s. \<not> srv_backup s) servers" and ?b = "filter srv_backup servers"
  obtain ps c1 where a: "init_servers add_peer ?a c = (ps, c1)" by (cases "init_servers add_peer ?a c")
  obtain qs c2 where b: "init_servers add_peer ?b c1 = (qs, c2)" by (cases "init_servers add_peer ?b c1")
  have w: "\<forall>s \<in> set ?a. 0 < srv_weight s" "\<forall>s \<in> set ?b. 0 < srv_weight s" using assms(1) by auto
  have n: "sum_list (map srv_naddrs ?a) \<noteq> 0"
    using assms(2) by (intro notI) (simp add: ngx_http_upstream_init_round_robin_def Let_def)
  show ?thesis
  proof (cases "sum_list (map srv_naddrs ?b) = 0")
    case True
    then have "gs = [init_group ?a ps (sum_list (map srv_naddrs ?a) = 1)]"
      using assms(2) unfolding ngx_http_upstream_init_round_robin_def Let_def a prod.case if_not_P[OF n] if_P[OF True] by simp
    then show ?thesis using init_group_ok[OF w(1) a n] by simp
  next
    case False
    then have "gs = [init_group ?a ps False, init_group ?b qs False]"
      using assms(2) unfolding ngx_http_upstream_init_round_robin_def Let_def a b prod.case if_not_P[OF n] if_not_P[OF False] by simp
    then show ?thesis using init_group_ok[OF w(1) a n] init_group_ok[OF w(2) b False] by simp
  qed
qed

definition upstream_reaches :: "('c \<Rightarrow> nat \<times> 'c) \<Rightarrow> upstream_server list \<Rightarrow> 'c \<Rightarrow> rr_sys \<Rightarrow> bool" where
  "upstream_reaches add_peer servers c s \<longleftrightarrow>
     (\<exists>gs c'. ngx_http_upstream_init_round_robin add_peer servers c = Some (gs, c') \<and>
        rr_step\<^sup>*\<^sup>* \<lparr>sys_groups = gs, sys_reqs = []\<rparr> s)"

lemma upstream_reaches_inv:
  assumes "\<forall>s \<in> set servers. 0 < srv_weight s" and "upstream_reaches add_peer servers c s"
  shows "rr_inv s"
proof -
  obtain gs c' where i: "ngx_http_upstream_init_round_robin add_peer servers c = Some (gs, c')"
    and r: "rr_step\<^sup>*\<^sup>* \<lparr>sys_groups = gs, sys_reqs = []\<rparr> s" using assms(2) by (auto simp: upstream_reaches_def)
  note g = init_groups[OF assms(1) i]
  have "weight_sum (peer_list (gs ! k)) = 0 \<and> (\<forall>p < length (peer_list (gs ! k)). peer_inv [] (k, p) (peer_list (gs ! k) ! p))"
    if "k < length gs" for k
  proof -
    have f: "list_all fresh_peer (peer_list (gs ! k))" using g that by simp
    then have "weight_sum (peer_list (gs ! k)) = 0" by (intro weight_sum_zero) (auto simp: list_all_iff fresh_peer_def)
    then show ?thesis using f by (auto simp: list_all_length fresh_peer_def peer_inv_def holders_def weights_ok_def)
  qed
  then have "rr_inv \<lparr>sys_groups = gs, sys_reqs = []\<rparr>" using g by (simp add: rr_inv_def groups_inv_def)
  with r show ?thesis by (induction rule: rtranclp_induct) (auto intro: rr_inv_step)
qed

section \<open>Properties\<close>

text \<open>
  C8: Accounting of the balancer, in every state the requests of an upstream can reach, in any order of
  arrivals, round-robin and least-connections choices and releases: a peer's connection count is the
  number of requests that hold it, so it never wraps around; it never exceeds max_conns; the
  effective weight stays between zero and the configured weight; and the current weights of a group
  add up to zero.
\<close>

theorem balancer_accounting:
  assumes "\<forall>srv \<in> set servers. 0 < srv_weight srv" and "upstream_reaches add_peer servers c s"
    and "g < length (sys_groups s)" and "p < length (peer_list (sys_groups s ! g))"
  shows "let peer = peer_list (sys_groups s ! g) ! p in
      conns peer = holders (sys_reqs s) (g, p) \<and> (max_conns peer \<noteq> 0 \<longrightarrow> conns peer \<le> max_conns peer) \<and>
      0 \<le> effective_weight peer \<and> effective_weight peer \<le> weight peer \<and>
      sum_list (map current_weight (peer_list (sys_groups s ! g))) = 0"
proof -
  have "groups_inv (sys_reqs s) (sys_groups s)" using upstream_reaches_inv[OF assms(1,2)] by (simp add: rr_inv_def)
  then have "peer_inv (sys_reqs s) (g, p) (peer_list (sys_groups s ! g) ! p)" "weight_sum (peer_list (sys_groups s ! g)) = 0"
    using assms(3,4) by (simp_all add: groups_inv_def)
  then show ?thesis by (auto simp: peer_inv_def weights_ok_def weight_sum_def Let_def)
qed

definition example_servers :: "upstream_server list" where
  "example_servers = [\<lparr> srv_naddrs = 2, srv_weight = 3, srv_max_conns = 1, srv_max_fails = 1, srv_fail_timeout = 10,
     srv_down = False, srv_backup = False \<rparr>]"

definition example_sys :: rr_sys where
  "example_sys =
    (let gs = fst (the (ngx_http_upstream_init_round_robin (\<lambda>n. (n, n + 1)) example_servers (0::nat)));
         (rc, gs', d) = ngx_http_upstream_get_round_robin_peer (\<lambda>i. i = 0) 5 gs (fst (ngx_http_upstream_init_round_robin_peer gs))
     in \<lparr>sys_groups = gs', sys_reqs = [(d, rc = NGX_OK)]\<rparr>)"

lemma example_reached: "upstream_reaches (\<lambda>n. (n, n + 1)) example_servers (0::nat) example_sys"
proof -
  let ?init = "ngx_http_upstream_init_round_robin (\<lambda>n. (n, n + 1)) example_servers (0::nat)"
  define gs where "gs = fst (the ?init)"
  have i: "?init = Some (gs, snd (the ?init))" unfolding gs_def by code_simp
  let ?d = "fst (ngx_http_upstream_init_round_robin_peer gs)"
  obtain rc gs' d where g: "ngx_http_upstream_get_round_robin_peer (\<lambda>i. i = 0) 5 gs ?d = (rc, gs', d)" by (rule prod_cases3)
  have "rr_step \<lparr>sys_groups = gs, sys_reqs = []\<rparr> \<lparr>sys_groups = gs, sys_reqs = [(?d, False)]\<rparr>"
    using rr_step.arrive[of "\<lparr>sys_groups = gs, sys_reqs = []\<rparr>"] by simp
  moreover have "rr_step \<lparr>sys_groups = gs, sys_reqs = [(?d, False)]\<rparr> \<lparr>sys_groups = gs', sys_reqs = [(d, rc = NGX_OK)]\<rparr>"
    using rr_step.get[of 0 "\<lparr>sys_groups = gs, sys_reqs = [(?d, False)]\<rparr>" ?d "\<lambda>i. i = 0" 5 rc gs' d] g by simp
  moreover have "example_sys = \<lparr>sys_groups = gs', sys_reqs = [(d, rc = NGX_OK)]\<rparr>"
    using g by (simp add: example_sys_def gs_def)
  ultimately show ?thesis unfolding upstream_reaches_def using i by (auto intro: converse_rtranclp_into_rtranclp)
qed

definition example_arrived :: rr_sys where
  "example_arrived =
    (let gs = fst (the (ngx_http_upstream_init_round_robin (\<lambda>n. (n, n + 1)) example_servers (0::nat)))
     in \<lparr>sys_groups = gs, sys_reqs = [(fst (ngx_http_upstream_init_round_robin_peer gs), False)]\<rparr>)"

lemma example_arrived_reached: "upstream_reaches (\<lambda>n. (n, n + 1)) example_servers (0::nat) example_arrived"
proof -
  let ?init = "ngx_http_upstream_init_round_robin (\<lambda>n. (n, n + 1)) example_servers (0::nat)"
  have i: "?init = Some (fst (the ?init), snd (the ?init))" by code_simp
  have "rr_step \<lparr>sys_groups = fst (the ?init), sys_reqs = []\<rparr> example_arrived"
    using rr_step.arrive[of "\<lparr>sys_groups = fst (the ?init), sys_reqs = []\<rparr>"] by (simp add: example_arrived_def Let_def)
  then show ?thesis unfolding upstream_reaches_def using i by blast
qed

lemma example_weights: "\<forall>srv \<in> set example_servers. 0 < srv_weight srv"
  by (simp add: example_servers_def)

theorem balancer_accounting_witness:
  "conns (peer_list (sys_groups example_sys ! 0) ! 1) = 1 \<and> holders (sys_reqs example_sys) (0, 1) = 1"
proof -
  have "0 < length (sys_groups example_sys)" "1 < length (peer_list (sys_groups example_sys ! 0))" by code_simp+
  note a = balancer_accounting[OF example_weights example_reached this]
  moreover have "holders (sys_reqs example_sys) (0, 1) = 1" by code_simp
  ultimately show ?thesis by (simp add: Let_def)
qed

text \<open>
  A peer the balancer offers to a request is up: it is not marked down, its health check has not failed
  and it has room for a connection. When no peer is offered, nothing has changed, every peer of the
  request's group that is fit was tried by it before, and no peer of the following group is fit.
\<close>

theorem offered_peer_up:
  assumes "\<forall>srv \<in> set servers. 0 < srv_weight srv" and "upstream_reaches add_peer servers c s"
    and "(d, False) \<in> set (sys_reqs s)" and "get \<in> {ngx_http_upstream_get_round_robin_peer, ngx_http_upstream_get_least_conn_peer}"
  shows "case get check_down now (sys_groups s) d of (rc, gs, d') \<Rightarrow>
     if rc = NGX_OK then
       (case rr_current d' of
          None \<Rightarrow> False
        | Some (g, p) \<Rightarrow> let peer = peer_list (sys_groups s ! g) ! p in
            \<not> down peer \<and> \<not> check_down (check_index peer) \<and> (max_conns peer \<noteq> 0 \<longrightarrow> conns peer < max_conns peer) \<and>
            conns (peer_list (gs ! g) ! p) = conns peer + 1)
     else rc = NGX_BUSY \<and> gs = sys_groups s \<and> first_unfit check_down now (gs ! rr_group d) (tried d) \<and>
       (\<forall>g. rr_group d < g \<and> g < length gs \<longrightarrow> group_unfit check_down now (gs ! g))"
proof -
  have ok: "data_ok (sys_groups s) d"
    using upstream_reaches_inv[OF assms(1,2)] assms(3) by (auto simp: rr_inv_def list_all_iff req_inv_def)
  obtain rc gs d' where r: "get check_down now (sys_groups s) d = (rc, gs, d')" by (rule prod_cases3)
  then have bal: "balanced check_down now (sys_groups s) d (rc, gs, d')"
    using get_round_robin_balanced[OF ok, of check_down now] get_least_conn_balanced[OF ok, of check_down now] assms(4) by auto
  show ?thesis
  proof (cases "rc = NGX_OK")
    case True
    then obtain p P where p: "rr_current d' = Some (rr_group d', p)" "offers check_down (sys_groups s ! rr_group d') p P"
      "gs = (sys_groups s)[rr_group d' := P]" "rr_group d' < length (sys_groups s)"
      using bal by (auto simp: balanced_def)
    have "int (conns (peer_list P ! p)) = int (conns (peer_list (sys_groups s ! rr_group d') ! p)) + 1"
      using moves_offer[OF p(2)] p(2) by (simp add: moves_def offers_def)
    then show ?thesis using r True p by (auto simp: offers_def offerable_def)
  next
    case False
    then show ?thesis using r bal by (auto simp: balanced_def)
  qed
qed

theorem offered_peer_up_witness:
  "first_unfit (\<lambda>i. True) 5 (sys_groups example_arrived ! 0) [0]"
proof -
  let ?d = "\<lparr>rr_group = 0, rr_current = None, tried = [0]\<rparr>"
  have m: "(?d, False) \<in> set (sys_reqs example_arrived)" by code_simp
  have r: "ngx_http_upstream_get_round_robin_peer (\<lambda>i. True) 5 (sys_groups example_arrived) ?d = (NGX_BUSY, sys_groups example_arrived, ?d)"
    by code_simp
  show ?thesis
    using offered_peer_up[OF example_weights example_arrived_reached m, of ngx_http_upstream_get_round_robin_peer "\<lambda>i. True" 5]
    by (simp add: r)
qed

text \<open>
  C9: The choice of round robin among several peers: the peer chosen is fit and untried, and has the largest
  current weight after the round's additions, the first of several; it is marked as tried, and no
  other bit changes. No choice means that every peer was tried or unfit.
\<close>

theorem round_robin_choice:
  assumes "length (peer_list P) \<le> 64 * length ts"
  shows "case ngx_http_upstream_get_peer check_down now P ts of
      (None, P', ts') \<Rightarrow> P' = P \<and> ts' = ts \<and>
        (\<forall>i < length (peer_list P). tried_test ts i \<or> rr_unfit check_down now (peer_list P ! i))
    | (Some p, P', ts') \<Rightarrow> p < length (peer_list P) \<and>
        (\<forall>i < length (peer_list P). tried_test ts' i \<longleftrightarrow> i = p \<or> tried_test ts i) \<and>
        \<not> tried_test ts p \<and> \<not> rr_unfit check_down now (peer_list P ! p) \<and>
        (\<forall>i < length (peer_list P). \<not> tried_test ts i \<and> \<not> rr_unfit check_down now (peer_list P ! i) \<longrightarrow>
           current_weight (peer_list P ! i) + effective_weight (peer_list P ! i) \<le>
             current_weight (peer_list P ! p) + effective_weight (peer_list P ! p) \<and>
           (i < p \<longrightarrow> current_weight (peer_list P ! i) + effective_weight (peer_list P ! i) <
             current_weight (peer_list P ! p) + effective_weight (peer_list P ! p)))"
proof -
  obtain qs tot b where l: "rr_loop (rr_skip check_down now ts) 0 (peer_list P) 0 None = (qs, tot, b)" by (rule prod_cases3)
  have in_ts: "i div 64 < length ts" if "i < length (peer_list P)" for i using that assms by simp
  show ?thesis
  proof (cases b)
    case None
    show ?thesis using rr_loop_skipped[OF l[unfolded None]] l None by (simp add: ngx_http_upstream_get_peer_def rr_skip_iff)
  next
    case (Some p)
    note c = rr_loop_choice[OF l[unfolded Some]]
    then have "tried_test (tried_mark ts p) i \<longleftrightarrow> i = p \<or> tried_test ts i" if "i < length (peer_list P)" for i
      using that in_ts by (simp add: tried_mark_test)
    then show ?thesis using l Some c by (simp add: ngx_http_upstream_get_peer_def rr_skip_iff)
  qed
qed

theorem round_robin_choice_witness:
  "fst (ngx_http_upstream_get_peer (\<lambda>i. False) 5 (sys_groups example_sys ! 0) [0]) = Some 0"
proof -
  have "length (peer_list (sys_groups example_sys ! 0)) \<le> 64 * length [0 :: u64]" by code_simp
  note round_robin_choice[OF this, of "\<lambda>i. False" 5]
  moreover have "\<not> rr_unfit (\<lambda>i. False) 5 (peer_list (sys_groups example_sys ! 0) ! 0)" "\<not> tried_test [0] 0"
    "0 < length (peer_list (sys_groups example_sys ! 0))" "length (peer_list (sys_groups example_sys ! 0)) = 2"
    "rr_unfit (\<lambda>i. False) 5 (peer_list (sys_groups example_sys ! 0) ! 1)" by code_simp+
  ultimately show ?thesis by (auto simp: less_2_cases_iff split: prod.splits option.splits)
qed



text \<open>
  C7: Round robin is fair, and exactly so: while all peers of a group are healthy, out of as many
  requests as the weights add up to, each peer is given exactly its weight, however ends of connections are
  interleaved, and the group is back where it began.
\<close>

theorem round_robin_fair:
  assumes "\<not> single P" and "number P = length (peer_list P)" and "peer_list P \<noteq> []"
    and "list_all (healthy check_down) (peer_list P)" and "\<forall>peer \<in> set (peer_list P). current_weight peer = 0"
    and "finishes_in (length (peer_list P)) es" and "int (requests es) = sum_list (map weight (peer_list P))"
  shows "\<exists>picks P'. serve check_down [P] es = (picks, [P']) \<and>
     (\<forall>i < length (peer_list P). int (count_list picks i) = weight (peer_list P ! i) \<and>
        current_weight (peer_list P' ! i) = 0 \<and> effective_weight (peer_list P' ! i) = weight (peer_list P ! i))"
proof -
  let ?ws = "map weight (peer_list P)"
  have "fair_group check_down ?ws 0 [] P" using assms(1-5) fair_inv_start by (auto simp: fair_group_def)
  moreover have "finishes_in (length ?ws) es" using assms(6) by simp
  ultimately obtain picks P' where s: "serve check_down [P] es = (picks, [P'])"
    and inv: "fair_group check_down ?ws (0 + requests es) ([] @ picks) P'"
    using fair_serve by blast
  have pos: "0 < sum_list ?ws" using assms(3,4) by (intro sum_positive) (auto simp: healthy_def list_all_iff)
  have inv': "fair_inv check_down ?ws (nat (sum_list ?ws)) picks (peer_list P')"
    using inv by (simp add: fair_group_def flip: assms(7))
  have "effective_weight (peer_list P' ! i) = weight (peer_list P ! i)" if "i < length (peer_list P)" for i
  proof -
    have w: "map weight (peer_list P') = ?ws" using inv' by (simp add: fair_inv_def)
    then have "i < length (peer_list P')" using that by (metis length_map)
    moreover have "map weight (peer_list P') ! i = ?ws ! i" using w by (rule arg_cong)
    ultimately show ?thesis using inv' that by (auto simp: fair_inv_def list_all_length healthy_def)
  qed
  then show ?thesis using s fair_inv_period[OF inv' pos] by auto
qed

theorem round_robin_fair_witness:
  "\<exists>picks P'. serve (\<lambda>i. False) [init_group example_servers (map (\<lambda>w. new_rr_peer w 0 0 10 False NO_CHECK) [2, 1]) False]
       [Request 1, Request 2, Finish 0, Request 3] = (picks, [P']) \<and> count_list picks 0 = 2 \<and> count_list picks 1 = 1"
proof -
  let ?P = "init_group example_servers (map (\<lambda>w. new_rr_peer w 0 0 10 False NO_CHECK) [2, 1]) False"
  let ?es = "[Request 1, Request 2, Finish 0, Request 3]"
  have P: "?P = \<lparr>number = 2, total_weight = 6, tries = 2, single = False, weighted = True,
      peer_list = map (\<lambda>w. new_rr_peer w 0 0 10 False NO_CHECK) [2, 1]\<rparr>"
    by (simp add: init_group_def Let_def example_servers_def)
  have a: "\<not> single ?P" "number ?P = length (peer_list ?P)" "peer_list ?P \<noteq> []" "list_all (healthy (\<lambda>i. False)) (peer_list ?P)"
    "\<forall>peer \<in> set (peer_list ?P). current_weight peer = 0" "int (requests ?es) = sum_list (map weight (peer_list ?P))"
    unfolding P by (simp_all add: new_rr_peer_def healthy_def requests_def)
  have f: "finishes_in (length (peer_list ?P)) ?es" by (simp add: finishes_in_def init_group_def Let_def)
  have p: "length (peer_list ?P) = 2" "weight (peer_list ?P ! 0) = 2" "weight (peer_list ?P ! 1) = 1"
    unfolding P by (simp_all add: new_rr_peer_def)
  obtain picks P' where s: "serve (\<lambda>i. False) [?P] ?es = (picks, [P'])"
    and c: "\<forall>i < length (peer_list ?P). int (count_list picks i) = weight (peer_list ?P ! i) \<and>
        current_weight (peer_list P' ! i) = 0 \<and> effective_weight (peer_list P' ! i) = weight (peer_list ?P ! i)"
    using round_robin_fair[OF a(1-5) f a(6)] by blast
  have "int (count_list picks 0) = 2" "int (count_list picks 1) = 1" using c p by simp_all
  then show ?thesis using s by simp
qed

end
