(* ===== verification/HttpStatusLine.thy ===== *)
theory HttpStatusLine
  imports Scanner
begin

text \<open>
  The two status line parsers of the program: \<^verbatim>\<open>ngx_http_parse_status_line\<close> of
  \<^verbatim>\<open>src/http/ngx_http_parse.c\<close>, which reads the answer of a proxied server, and
  \<^verbatim>\<open>ngx_http_upstream_check_parse_status_line\<close> of the health-check module, a copy of it that drops the
  version. They are modelled separately, each from its own text; their states share one enum and both
  fill an \<^verbatim>\<open>ngx_http_status_t\<close>.
\<close>

section \<open>State\<close>

datatype sl_state =
    sl_start | sl_H | sl_HT | sl_HTT | sl_HTTP | sl_first_major_digit | sl_major_digit
  | sl_first_minor_digit | sl_minor_digit | sl_status | sl_space_after_status | sl_status_text
  | sl_almost_done

record http_status =
  st_version :: nat
  st_code :: nat
  st_count :: nat
  st_start :: ptr
  st_end :: ptr

definition no_status :: http_status where
  "no_status = \<lparr> st_version = 0, st_code = 0, st_count = 0, st_start = None, st_end = None \<rparr>"

text \<open>What the proxy's parser uses of the request, with the status it is given.\<close>

record status_req =
  sr_state :: sl_state
  sr_major :: nat
  sr_minor :: nat
  sr_status :: http_status

text \<open>What the check's parser uses of the check context.\<close>

record status_ctx =
  sc_state :: sl_state
  sc_status :: http_status

definition new_status_req :: status_req where
  "new_status_req = \<lparr> sr_state = sl_start, sr_major = 0, sr_minor = 0, sr_status = no_status \<rparr>"

definition new_status_ctx :: status_ctx where
  "new_status_ctx = \<lparr> sc_state = sl_start, sc_status = no_status \<rparr>"

section \<open>The proxy's parser\<close>

definition sl_expect :: "u_char \<Rightarrow> sl_state \<Rightarrow> u_char \<Rightarrow> status_req \<Rightarrow> status_req verdict" where
  "sl_expect c st ch r = (if ch = c then Continue (r\<lparr>sr_state := st\<rparr>) else Fail r NGX_ERROR)"

definition sl_case_first_major :: "u_char \<Rightarrow> status_req \<Rightarrow> status_req verdict" where
  "sl_case_first_major ch r =
    (if ch < ch_1 \<or> ch > ch_9 then Fail r NGX_ERROR
     else Continue (r\<lparr>sr_major := unat ch - 48, sr_state := sl_major_digit\<rparr>))"

definition sl_case_major :: "u_char \<Rightarrow> status_req \<Rightarrow> status_req verdict" where
  "sl_case_major ch r =
    (if ch = ch_dot then Continue (r\<lparr>sr_state := sl_first_minor_digit\<rparr>)
     else if ch < ch_0 \<or> ch > ch_9 then Fail r NGX_ERROR
     else if sr_major r > 99 then Fail r NGX_ERROR
     else Continue (r\<lparr>sr_major := sr_major r * 10 + (unat ch - 48)\<rparr>))"

definition sl_case_first_minor :: "u_char \<Rightarrow> status_req \<Rightarrow> status_req verdict" where
  "sl_case_first_minor ch r =
    (if ch < ch_0 \<or> ch > ch_9 then Fail r NGX_ERROR
     else Continue (r\<lparr>sr_minor := unat ch - 48, sr_state := sl_minor_digit\<rparr>))"

definition sl_case_minor :: "u_char \<Rightarrow> status_req \<Rightarrow> status_req verdict" where
  "sl_case_minor ch r =
    (if ch = ch_space then Continue (r\<lparr>sr_state := sl_status\<rparr>)
     else if ch < ch_0 \<or> ch > ch_9 then Fail r NGX_ERROR
     else if sr_minor r > 99 then Fail r NGX_ERROR
     else Continue (r\<lparr>sr_minor := sr_minor r * 10 + (unat ch - 48)\<rparr>))"

definition sl_case_status :: "nat \<Rightarrow> u_char \<Rightarrow> status_req \<Rightarrow> status_req verdict" where
  "sl_case_status p ch r =
    (if ch = ch_space then Continue r
     else if ch < ch_0 \<or> ch > ch_9 then Fail r NGX_ERROR
     else
       let st = sr_status r;
           st = st\<lparr>st_code := st_code st * 10 + (unat ch - 48), st_count := st_count st + 1\<rparr>
       in if st_count st = 3
          then Continue (r\<lparr>sr_status := st\<lparr>st_start := Some (p - 2)\<rparr>, sr_state := sl_space_after_status\<rparr>)
          else Continue (r\<lparr>sr_status := st\<rparr>))"

definition sl_case_space_after :: "u_char \<Rightarrow> status_req \<Rightarrow> status_req verdict" where
  "sl_case_space_after ch r =
    (if ch = ch_space \<or> ch = ch_dot then Continue (r\<lparr>sr_state := sl_status_text\<rparr>)
     else if ch = CR then Continue (r\<lparr>sr_state := sl_almost_done\<rparr>)
     else if ch = LF then Done r NGX_OK
     else Fail r NGX_ERROR)"

definition sl_case_text :: "u_char \<Rightarrow> status_req \<Rightarrow> status_req verdict" where
  "sl_case_text ch r =
    (if ch = CR then Continue (r\<lparr>sr_state := sl_almost_done\<rparr>)
     else if ch = LF then Done r NGX_OK
     else Continue r)"

definition sl_case_almost_done :: "nat \<Rightarrow> u_char \<Rightarrow> status_req \<Rightarrow> status_req verdict" where
  "sl_case_almost_done p ch r =
    (let r = r\<lparr>sr_status := (sr_status r)\<lparr>st_end := Some (p - 1)\<rparr>\<rparr> in
     if ch = LF then Done r NGX_OK else Fail r NGX_ERROR)"

definition status_line_step :: "status_req byte_step" where
  "status_line_step buf p ch r =
    (case sr_state r of
       sl_start \<Rightarrow> sl_expect ch_H sl_H ch r
     | sl_H \<Rightarrow> sl_expect ch_T sl_HT ch r
     | sl_HT \<Rightarrow> sl_expect ch_T sl_HTT ch r
     | sl_HTT \<Rightarrow> sl_expect ch_P sl_HTTP ch r
     | sl_HTTP \<Rightarrow> sl_expect ch_slash sl_first_major_digit ch r
     | sl_first_major_digit \<Rightarrow> sl_case_first_major ch r
     | sl_major_digit \<Rightarrow> sl_case_major ch r
     | sl_first_minor_digit \<Rightarrow> sl_case_first_minor ch r
     | sl_minor_digit \<Rightarrow> sl_case_minor ch r
     | sl_status \<Rightarrow> sl_case_status p ch r
     | sl_space_after_status \<Rightarrow> sl_case_space_after ch r
     | sl_status_text \<Rightarrow> sl_case_text ch r
     | sl_almost_done \<Rightarrow> sl_case_almost_done p ch r)"

text \<open>\<^verbatim>\<open>done\<close>: the end of the line, unless a carriage return has set it, the version, the state.\<close>

definition sl_set_end :: "nat \<Rightarrow> http_status \<Rightarrow> http_status" where
  "sl_set_end p st = (if st_end st = None then st\<lparr>st_end := Some p\<rparr> else st)"

definition ngx_http_parse_status_line :: "bytes \<Rightarrow> nat \<Rightarrow> status_req \<Rightarrow> ngx_rc \<times> status_req \<times> nat" where
  "ngx_http_parse_status_line buf pos r =
    (case scan status_line_step buf pos r of
       (Continue r', p) \<Rightarrow> (NGX_AGAIN, r', p)
     | (Done r' rc, p) \<Rightarrow>
         (NGX_OK, r'\<lparr>sr_status := (sl_set_end p (sr_status r'))\<lparr>st_version := sr_major r' * 1000 + sr_minor r'\<rparr>,
                     sr_state := sl_start\<rparr>, p + 1)
     | (Fail r' rc, p) \<Rightarrow> (rc, r'\<lparr>sr_state := sr_state r\<rparr>, pos))"

section \<open>The check's parser\<close>

definition cl_expect :: "u_char \<Rightarrow> sl_state \<Rightarrow> u_char \<Rightarrow> status_ctx \<Rightarrow> status_ctx verdict" where
  "cl_expect c st ch x = (if ch \<noteq> c then Fail x NGX_ERROR else Continue (x\<lparr>sc_state := st\<rparr>))"

definition cl_first_digit :: "u_char \<Rightarrow> sl_state \<Rightarrow> u_char \<Rightarrow> status_ctx \<Rightarrow> status_ctx verdict" where
  "cl_first_digit lo st ch x =
    (if ch < lo \<or> ch > ch_9 then Fail x NGX_ERROR else Continue (x\<lparr>sc_state := st\<rparr>))"

definition cl_digit :: "u_char \<Rightarrow> sl_state \<Rightarrow> u_char \<Rightarrow> status_ctx \<Rightarrow> status_ctx verdict" where
  "cl_digit sep st ch x =
    (if ch = sep then Continue (x\<lparr>sc_state := st\<rparr>)
     else if ch < ch_0 \<or> ch > ch_9 then Fail x NGX_ERROR
     else Continue x)"

definition cl_case_status :: "nat \<Rightarrow> u_char \<Rightarrow> status_ctx \<Rightarrow> status_ctx verdict" where
  "cl_case_status p ch x =
    (if ch = ch_space then Continue x
     else if ch < ch_0 \<or> ch > ch_9 then Fail x NGX_ERROR
     else
       let st = sc_status x;
           st = st\<lparr>st_code := st_code st * 10 + unat ch - 48, st_count := st_count st + 1\<rparr>
       in if st_count st = 3
          then Continue (x\<lparr>sc_status := st\<lparr>st_start := Some (p - 2)\<rparr>, sc_state := sl_space_after_status\<rparr>)
          else Continue (x\<lparr>sc_status := st\<rparr>))"

definition cl_case_space_after :: "u_char \<Rightarrow> status_ctx \<Rightarrow> status_ctx verdict" where
  "cl_case_space_after ch x =
    (if ch = ch_space then Continue (x\<lparr>sc_state := sl_status_text\<rparr>)
     else if ch = ch_dot then Continue (x\<lparr>sc_state := sl_status_text\<rparr>)
     else if ch = CR then Continue (x\<lparr>sc_state := sl_almost_done\<rparr>)
     else if ch = LF then Done x NGX_OK
     else Fail x NGX_ERROR)"

definition cl_case_text :: "u_char \<Rightarrow> status_ctx \<Rightarrow> status_ctx verdict" where
  "cl_case_text ch x =
    (if ch = CR then Continue (x\<lparr>sc_state := sl_almost_done\<rparr>)
     else if ch = LF then Done x NGX_OK
     else Continue x)"

definition cl_case_almost_done :: "nat \<Rightarrow> u_char \<Rightarrow> status_ctx \<Rightarrow> status_ctx verdict" where
  "cl_case_almost_done p ch x =
    (let x = x\<lparr>sc_status := (sc_status x)\<lparr>st_end := Some (p - 1)\<rparr>\<rparr> in
     if ch = LF then Done x NGX_OK else Fail x NGX_ERROR)"

definition check_status_line_step :: "status_ctx byte_step" where
  "check_status_line_step buf p ch x =
    (case sc_state x of
       sl_start \<Rightarrow> cl_expect ch_H sl_H ch x
     | sl_H \<Rightarrow> cl_expect ch_T sl_HT ch x
     | sl_HT \<Rightarrow> cl_expect ch_T sl_HTT ch x
     | sl_HTT \<Rightarrow> cl_expect ch_P sl_HTTP ch x
     | sl_HTTP \<Rightarrow> cl_expect ch_slash sl_first_major_digit ch x
     | sl_first_major_digit \<Rightarrow> cl_first_digit ch_1 sl_major_digit ch x
     | sl_major_digit \<Rightarrow> cl_digit ch_dot sl_first_minor_digit ch x
     | sl_first_minor_digit \<Rightarrow> cl_first_digit ch_0 sl_minor_digit ch x
     | sl_minor_digit \<Rightarrow> cl_digit ch_space sl_status ch x
     | sl_status \<Rightarrow> cl_case_status p ch x
     | sl_space_after_status \<Rightarrow> cl_case_space_after ch x
     | sl_status_text \<Rightarrow> cl_case_text ch x
     | sl_almost_done \<Rightarrow> cl_case_almost_done p ch x)"

definition ngx_http_upstream_check_parse_status_line ::
    "bytes \<Rightarrow> nat \<Rightarrow> status_ctx \<Rightarrow> ngx_rc \<times> status_ctx \<times> nat" where
  "ngx_http_upstream_check_parse_status_line buf pos x =
    (case scan check_status_line_step buf pos x of
       (Continue x', p) \<Rightarrow> (NGX_AGAIN, x', p)
     | (Done x' rc, p) \<Rightarrow> (NGX_OK, x'\<lparr>sc_status := sl_set_end p (sc_status x'), sc_state := sl_start\<rparr>, p + 1)
     | (Fail x' rc, p) \<Rightarrow> (rc, x'\<lparr>sc_state := sc_state x\<rparr>, pos))"

section \<open>Both parsers are resumable machines\<close>

lemmas sl_case_defs = sl_expect_def sl_case_first_major_def sl_case_major_def sl_case_first_minor_def
  sl_case_minor_def sl_case_status_def sl_case_space_after_def sl_case_text_def sl_case_almost_done_def

lemmas cl_case_defs = cl_expect_def cl_first_digit_def cl_digit_def cl_case_status_def
  cl_case_space_after_def cl_case_text_def cl_case_almost_done_def

lemma sl_fail_rc: "status_line_step b p c r = Fail r' rc \<Longrightarrow> rc = NGX_ERROR \<and> sr_state r' = sr_state r"
  by (cases "sr_state r") (auto simp: status_line_step_def sl_case_defs Let_def split: if_splits)

lemma cl_fail_rc: "check_status_line_step b p c r = Fail r' rc \<Longrightarrow> rc = NGX_ERROR \<and> sc_state r' = sc_state r"
  by (cases "sc_state r") (auto simp: check_status_line_step_def cl_case_defs Let_def split: if_splits)

text \<open>What is known of the status, in either parser, before the octet at \<open>p\<close>.\<close>

definition status_read :: "bytes \<Rightarrow> nat \<Rightarrow> nat \<Rightarrow> http_status \<Rightarrow> bool" where
  "status_read b i p s \<longleftrightarrow> st_count s = 3 \<and> st_code s < 1000 \<and> st_start s = Some i \<and>
     i + 3 \<le> p \<and> slice_all (\<lambda>c. c \<noteq> LF) b (i + 3) p"

fun status_ok :: "bytes \<Rightarrow> nat \<Rightarrow> sl_state \<Rightarrow> http_status \<Rightarrow> bool" where
  "status_ok b p sl_status s \<longleftrightarrow> st_count s < 3 \<and> st_code s < 10 ^ st_count s \<and> st_count s \<le> p \<and> st_end s = None"
| "status_ok b p sl_space_after_status s \<longleftrightarrow> st_end s = None \<and> (\<exists>i. status_read b i p s)"
| "status_ok b p sl_status_text s \<longleftrightarrow> st_end s = None \<and> (\<exists>i. status_read b i p s)"
| "status_ok b p sl_almost_done s \<longleftrightarrow> st_end s = None \<and> p > 0 \<and> (\<exists>i. status_read b i (p - 1) s)"
| "status_ok b p _ s \<longleftrightarrow> st_count s = 0 \<and> st_code s = 0 \<and> st_end s = None"

definition status_done :: "bytes \<Rightarrow> nat \<Rightarrow> http_status \<Rightarrow> bool" where
  "status_done b q s \<longleftrightarrow> (\<exists>i e. st_end (sl_set_end q s) = Some e \<and> e \<le> q \<and> status_read b i e s)"

lemma status_read_frame [simp]:
  "status_read b i p (s\<lparr>st_end := x\<rparr>) = status_read b i p s"
  "status_read b i p (s\<lparr>st_version := v\<rparr>) = status_read b i p s"
  by (simp_all add: status_read_def)

lemma status_read_Suc: "status_read b i p s \<Longrightarrow> b ! p \<noteq> LF \<Longrightarrow> status_read b i (Suc p) s"
  by (simp add: status_read_def)

lemma status_read_next: "status_read b i p s \<Longrightarrow> b ! p \<noteq> LF \<Longrightarrow> \<exists>i. status_read b i (Suc p) s"
  using status_read_Suc by blast

lemma digit_minus [simp]: "\<not> c < ch_0 \<Longrightarrow> v + unat c - 48 = v + (unat c - 48)"
  by (simp add: not_less word_le_nat_alt)

lemma status_skip: "status_ok b p sl_status s \<Longrightarrow> status_ok b (Suc p) sl_status s"
  by simp

text \<open>The third digit of the status code.\<close>

lemma status_digit:
  assumes "status_ok b p sl_status s" and "\<not> c < ch_0" and "\<not> ch_9 < c"
  defines "s' \<equiv> s\<lparr>st_code := st_code s * 10 + (unat c - 48), st_count := st_count s + 1\<rparr>"
  shows "st_count s' \<noteq> 3 \<Longrightarrow> status_ok b (Suc p) sl_status s'"
    and "st_count s' = 3 \<Longrightarrow> status_ok b (Suc p) sl_space_after_status (s'\<lparr>st_start := Some (p - 2)\<rparr>)"
proof -
  have "unat c - 48 \<le> 9"
    using digit_value[of c] assms(2,3) by (simp add: is_digit_def not_less)
  moreover have "st_count s = 0 \<or> st_count s = 1 \<or> st_count s = 2" using assms(1) by auto
  ultimately show "st_count s' \<noteq> 3 \<Longrightarrow> status_ok b (Suc p) sl_status s'"
    and "st_count s' = 3 \<Longrightarrow> status_ok b (Suc p) sl_space_after_status (s'\<lparr>st_start := Some (p - 2)\<rparr>)"
    using assms(1) by (auto simp: s'_def status_read_def)
qed

interpretation sl: invariant_machine status_line_step "\<lambda>b p r. status_ok b p (sr_state r) (sr_status r)"
  "\<lambda>b q r rc. status_done b q (sr_status r)"
proof (unfold_locales, goal_cases)
  case (1 p b more s)
  then show ?case by (simp add: status_line_step_def nth_append)
next
  case (2 p b s s')
  show ?case
  proof (cases "sr_state s")
    case sl_status
    then show ?thesis
      using 2 status_digit[of b p "sr_status s" "b ! p"] status_skip[of b p "sr_status s"]
      by (auto simp: status_line_step_def sl_case_status_def Let_def simp del: status_ok.simps split: if_splits)
  qed (use 2 in \<open>auto simp: status_line_step_def sl_case_defs Let_def status_read_next split: if_splits\<close>)
next
  case (3 p b s s' rc)
  then show ?case
    by (cases "sr_state s") (auto simp: status_line_step_def sl_case_defs Let_def status_done_def
        sl_set_end_def split: if_splits)
qed

interpretation cl: invariant_machine check_status_line_step "\<lambda>b p x. status_ok b p (sc_state x) (sc_status x)"
  "\<lambda>b q x rc. status_done b q (sc_status x)"
proof (unfold_locales, goal_cases)
  case (1 p b more s)
  then show ?case by (simp add: check_status_line_step_def nth_append)
next
  case (2 p b s s')
  show ?case
  proof (cases "sc_state s")
    case sl_status
    then show ?thesis
      using 2 status_digit[of b p "sc_status s" "b ! p"] status_skip[of b p "sc_status s"]
      by (auto simp: check_status_line_step_def cl_case_status_def Let_def simp del: status_ok.simps split: if_splits)
  qed (use 2 in \<open>auto simp: check_status_line_step_def cl_case_defs Let_def status_read_next split: if_splits\<close>)
next
  case (3 p b s s' rc)
  then show ?case
    by (cases "sc_state s") (auto simp: check_status_line_step_def cl_case_defs Let_def status_done_def
        sl_set_end_def split: if_splits)
qed

section \<open>The check's parser is the proxy's without the version\<close>

definition check_view :: "status_req \<Rightarrow> status_ctx" where
  "check_view r = \<lparr> sc_state = sr_state r, sc_status = (sr_status r)\<lparr>st_version := 0\<rparr> \<rparr>"

definition version_over :: "status_req \<Rightarrow> bool" where
  "version_over r \<longleftrightarrow> 99 < sr_major r \<or> 99 < sr_minor r"

lemma check_step_sim:
  "case status_line_step b p c r of
     Continue r' \<Rightarrow> check_status_line_step b p c (check_view r) = Continue (check_view r')
   | Done r' rc \<Rightarrow> check_status_line_step b p c (check_view r) = Done (check_view r') rc
   | Fail r' rc \<Rightarrow> version_over r' \<or> check_status_line_step b p c (check_view r) = Fail (check_view r') rc"
  by (cases "sr_state r")
    (auto simp: status_line_step_def check_status_line_step_def sl_case_defs cl_case_defs Let_def check_view_def
      version_over_def split: if_splits)

definition check_sim :: "status_req verdict \<times> nat \<Rightarrow> status_ctx verdict \<times> nat \<Rightarrow> bool" where
  "check_sim v w \<longleftrightarrow>
    (case v of
       (Continue r', q) \<Rightarrow> w = (Continue (check_view r'), q)
     | (Done r' rc, q) \<Rightarrow> w = (Done (check_view r') rc, q)
     | (Fail r' rc, q) \<Rightarrow> version_over r' \<or> w = (Fail (check_view r') rc, q))"

lemma check_scan_sim:
  "check_sim (scan status_line_step b p r) (scan check_status_line_step b p (check_view r))"
proof (induction "length b - p" arbitrary: p r)
  case (Suc n)
  then have p: "p < length b" by simp
  show ?case
  proof (cases "status_line_step b p (b ! p) r")
    case (Continue r')
    then have "check_status_line_step b p (b ! p) (check_view r) = Continue (check_view r')"
      using check_step_sim[of b p "b ! p" r] by simp
    then show ?thesis using Suc.hyps(1)[of "Suc p" r'] Suc.hyps(2) p Continue by (simp add: scan_step)
  qed (use check_step_sim[of b p "b ! p" r] p in \<open>auto simp: scan_step check_sim_def\<close>)
qed (simp add: check_sim_def)

section \<open>Runs over a well-formed line\<close>

definition decimal :: "nat \<Rightarrow> bytes \<Rightarrow> nat" where
  "decimal v ds = foldl (\<lambda>v c. v * 10 + (unat c - 48)) v ds"

lemma decimal_Cons [simp]: "decimal v (c # ds) = decimal (v * 10 + (unat c - 48)) ds" "decimal v [] = v"
  by (simp_all add: decimal_def)

lemma decimal_ge: "v \<le> decimal v ds"
proof (induction ds arbitrary: v)
  case (Cons c ds)
  have "v \<le> v * 10 + (unat c - 48)" by simp
  then show ?case using Cons[of "v * 10 + (unat c - 48)"] by simp
qed simp

lemma digit_facts: "is_digit c \<Longrightarrow> \<not> c < ch_0 \<and> \<not> ch_9 < c \<and> c \<noteq> ch_dot \<and> c \<noteq> ch_space"
  by (auto simp: is_digit_def not_less)

lemma nonzero_digit: "is_digit c \<Longrightarrow> c \<noteq> ch_0 \<Longrightarrow> \<not> c < ch_1"
proof -
  assume d: "is_digit c" and "c \<noteq> ch_0"
  then have "ch_0 \<le> c" and "c \<le> ch_9" by (simp_all add: is_digit_def)
  then have "c \<noteq> ch_0 \<longrightarrow> \<not> c < ch_1" by (rule octet_range) simp
  with \<open>c \<noteq> ch_0\<close> show ?thesis by simp
qed

lemma sl_run_major:
  assumes "list_all is_digit ds" and "sr_state r = sl_major_digit" and "decimal (sr_major r) ds \<le> 999"
  shows "scan status_line_step (pre @ ds @ post) (length pre) r =
    scan status_line_step (pre @ ds @ post) (length pre + length ds) (r\<lparr>sr_major := decimal (sr_major r) ds\<rparr>)"
  using assms
proof (induction ds arbitrary: pre r)
  case (Cons c ds)
  let ?r = "r\<lparr>sr_major := sr_major r * 10 + (unat c - 48)\<rparr>"
  have "sr_major r \<le> 99"
    using decimal_ge[of "sr_major r * 10 + (unat c - 48)" ds] Cons.prems(3) by simp
  then have "status_line_step (pre @ (c # ds) @ post) (length pre) c r = Continue ?r"
    using Cons.prems digit_facts[of c] by (simp add: status_line_step_def sl_case_major_def)
  then have "scan status_line_step (pre @ (c # ds) @ post) (length pre) r =
      scan status_line_step ((pre @ [c]) @ ds @ post) (length (pre @ [c])) ?r"
    by (simp add: scan_at)
  then show ?case using Cons.IH[of ?r "pre @ [c]"] Cons.prems by simp
qed simp

lemma sl_run_minor:
  assumes "list_all is_digit ds" and "sr_state r = sl_minor_digit" and "decimal (sr_minor r) ds \<le> 999"
  shows "scan status_line_step (pre @ ds @ post) (length pre) r =
    scan status_line_step (pre @ ds @ post) (length pre + length ds) (r\<lparr>sr_minor := decimal (sr_minor r) ds\<rparr>)"
  using assms
proof (induction ds arbitrary: pre r)
  case (Cons c ds)
  let ?r = "r\<lparr>sr_minor := sr_minor r * 10 + (unat c - 48)\<rparr>"
  have "sr_minor r \<le> 99"
    using decimal_ge[of "sr_minor r * 10 + (unat c - 48)" ds] Cons.prems(3) by simp
  then have "status_line_step (pre @ (c # ds) @ post) (length pre) c r = Continue ?r"
    using Cons.prems digit_facts[of c] by (simp add: status_line_step_def sl_case_minor_def)
  then have "scan status_line_step (pre @ (c # ds) @ post) (length pre) r =
      scan status_line_step ((pre @ [c]) @ ds @ post) (length (pre @ [c])) ?r"
    by (simp add: scan_at)
  then show ?case using Cons.IH[of ?r "pre @ [c]"] Cons.prems by simp
qed simp

lemma sl_run_text:
  assumes "list_all (\<lambda>c. c \<noteq> CR \<and> c \<noteq> LF) t" and "sr_state r = sl_status_text"
  shows "scan status_line_step (pre @ t @ post) (length pre) r =
    scan status_line_step (pre @ t @ post) (length pre + length t) r"
  using assms by (intro scan_skip) (auto simp: status_line_step_def sl_case_text_def list_all_iff)

text \<open>A status line with \<open>k\<close> more spaces than needed before the code; \<open>tl\<close> is empty or starts with a
  space or a dot.\<close>

definition render_status_line :: "bytes \<Rightarrow> bytes \<Rightarrow> nat \<Rightarrow> bytes \<Rightarrow> bytes \<Rightarrow> bytes" where
  "render_status_line mj mn k code tx =
     octets ''HTTP/'' @ mj @ [ch_dot] @ mn @ [ch_space] @ replicate k ch_space @ code @ tx @ [CR, LF]"

lemma sl_run_start:
  "scan status_line_step (octets ''HTTP/'' @ post) 0 new_status_req =
   scan status_line_step (octets ''HTTP/'' @ post) 5 (new_status_req\<lparr>sr_state := sl_first_major_digit\<rparr>)"
  by (simp add: scan_step status_line_step_def sl_expect_def new_status_req_def eval_nat_numeral)

lemma sl_run_code:
  assumes "list_all is_digit code" and "length code = 3" and "sr_state r = sl_status"
    and "st_count (sr_status r) = 0" and "st_code (sr_status r) = 0"
  shows "scan status_line_step (pre @ code @ post) (length pre) r =
    scan status_line_step (pre @ code @ post) (length pre + 3)
      (r\<lparr>sr_status := (sr_status r)\<lparr>st_code := decimal 0 code, st_count := 3, st_start := Some (length pre)\<rparr>,
         sr_state := sl_space_after_status\<rparr>)"
proof -
  obtain x y z where c: "code = [x, y, z]"
    using assms(2) by (auto simp: numeral_3_eq_3 length_Suc_conv)
  have d: "\<not> x < ch_0" "\<not> ch_9 < x" "x \<noteq> ch_space" "\<not> y < ch_0" "\<not> ch_9 < y" "y \<noteq> ch_space"
    "\<not> z < ch_0" "\<not> ch_9 < z" "z \<noteq> ch_space"
    using assms(1) digit_facts[of x] digit_facts[of y] digit_facts[of z] by (simp_all add: c)
  show ?thesis
    using scan_one[of "length pre" pre status_line_step x "y # z # post" r]
      scan_one[of "length pre + 1" "pre @ [x]" status_line_step y "z # post"]
      scan_one[of "length pre + 2" "pre @ [x, y]" status_line_step z post] d assms(3-)
    by (simp add: c status_line_step_def sl_case_status_def Let_def numeral_3_eq_3)
qed

lemma sl_run_tail:
  assumes "list_all (\<lambda>c. c \<noteq> CR \<and> c \<noteq> LF) tx" and "tx \<noteq> [] \<longrightarrow> hd tx = ch_space \<or> hd tx = ch_dot"
    and "sr_state r = sl_space_after_status"
  shows "scan status_line_step (pre @ tx @ [CR, LF] @ post) (length pre) r =
    (Done (r\<lparr>sr_state := sl_almost_done,
             sr_status := (sr_status r)\<lparr>st_end := Some (length pre + length tx)\<rparr>\<rparr>) NGX_OK,
     length pre + length tx + 1)"
proof (cases tx)
  case Nil
  then show ?thesis
    using assms(3) by (simp add: scan_step nth_append status_line_step_def sl_case_space_after_def sl_case_almost_done_def)
next
  case (Cons c t)
  let ?r = "r\<lparr>sr_state := sl_status_text\<rparr>"
  have "scan status_line_step (pre @ tx @ [CR, LF] @ post) (length pre) r =
      scan status_line_step ((pre @ [c]) @ t @ [CR, LF] @ post) (length (pre @ [c])) ?r"
    using assms by (simp add: Cons scan_at status_line_step_def sl_case_space_after_def)
  also have "\<dots> = scan status_line_step ((pre @ [c]) @ t @ [CR, LF] @ post) (length (pre @ [c]) + length t) ?r"
    using assms by (intro sl_run_text) (simp_all add: Cons)
  also have "\<dots> = (Done (r\<lparr>sr_state := sl_almost_done,
             sr_status := (sr_status r)\<lparr>st_end := Some (length pre + length tx)\<rparr>\<rparr>) NGX_OK,
     length pre + length tx + 1)"
    using Cons by (simp add: scan_step nth_append status_line_step_def sl_case_text_def sl_case_almost_done_def)
  finally show ?thesis .
qed

lemma sl_scan_render:
  assumes "mj = c # mj'" and "c \<noteq> ch_0" and "list_all is_digit mj" and "decimal 0 mj \<le> 999"
    and "mn \<noteq> []" and "list_all is_digit mn" and "decimal 0 mn \<le> 999"
    and "list_all is_digit code" and "length code = 3"
    and "list_all (\<lambda>c. c \<noteq> CR \<and> c \<noteq> LF) tx" and "tx \<noteq> [] \<longrightarrow> hd tx = ch_space \<or> hd tx = ch_dot"
  shows "scan status_line_step (render_status_line mj mn k code tx @ rest) 0 new_status_req =
    (Done \<lparr> sr_state = sl_almost_done, sr_major = decimal 0 mj, sr_minor = decimal 0 mn,
        sr_status = \<lparr> st_version = 0, st_code = decimal 0 code, st_count = 3,
          st_start = Some (length mj + length mn + k + 7), st_end = Some (length mj + length mn + k + 10 + length tx) \<rparr> \<rparr> NGX_OK,
     length (render_status_line mj mn k code tx) - 1)"
proof -
  let ?b = "render_status_line mj mn k code tx @ rest"
  let ?crlf = "[CR, LF] @ rest"
  obtain d mn' where mn: "mn = d # mn'" using assms(5) by (cases mn) auto
  have c: "\<not> c < ch_1" "\<not> ch_9 < c"
    using assms(1-3) digit_facts[of c] nonzero_digit[of c] by simp_all
  have d: "\<not> d < ch_0" "\<not> ch_9 < d" using assms(6) digit_facts[of d] by (simp_all add: mn)
  define p1 where "p1 = octets ''HTTP/'' @ [c]"
  define p2 where "p2 = octets ''HTTP/'' @ mj @ [ch_dot, d]"
  define p3 where "p3 = octets ''HTTP/'' @ mj @ [ch_dot] @ mn @ [ch_space]"
  define p4 where "p4 = p3 @ replicate k ch_space"
  have b1: "?b = p1 @ mj' @ (ch_dot # mn @ [ch_space] @ replicate k ch_space @ code @ tx @ ?crlf)"
    and b2: "?b = p2 @ mn' @ (ch_space # replicate k ch_space @ code @ tx @ ?crlf)"
    and b3: "?b = p3 @ replicate k ch_space @ (code @ tx @ ?crlf)"
    and b4: "?b = p4 @ code @ (tx @ ?crlf)"
    and b5: "?b = (p4 @ code) @ tx @ [CR, LF] @ rest"
    and b0: "?b = octets ''HTTP/'' @ (mj @ [ch_dot] @ mn @ [ch_space] @ replicate k ch_space @ code @ tx @ ?crlf)"
    by (simp_all add: render_status_line_def p1_def p2_def p3_def p4_def assms(1) mn)
  define r1 where "r1 = new_status_req\<lparr>sr_major := unat c - 48, sr_state := sl_major_digit\<rparr>"
  define r2 where "r2 = r1\<lparr>sr_major := decimal 0 mj, sr_minor := unat d - 48, sr_state := sl_minor_digit\<rparr>"
  define r3 where "r3 = r2\<lparr>sr_minor := decimal 0 mn, sr_state := sl_status\<rparr>"
  define r4 where "r4 = r3\<lparr>sr_status := (sr_status r3)\<lparr>st_code := decimal 0 code,
      st_count := 3, st_start := Some (length p4)\<rparr>, sr_state := sl_space_after_status\<rparr>"
  have s0: "scan status_line_step ?b 0 new_status_req = scan status_line_step ?b (length p1) r1"
    unfolding b0 sl_run_start using c assms(1)
      scan_one[of 5 "octets ''HTTP/''" status_line_step c _ "new_status_req\<lparr>sr_state := sl_first_major_digit\<rparr>" r1]
    by (simp add: status_line_step_def sl_case_first_major_def new_status_req_def r1_def p1_def eval_nat_numeral)
  have s1: "scan status_line_step ?b (length p1) r1 =
      scan status_line_step ?b (length p1 + length mj') (r1\<lparr>sr_major := decimal 0 mj\<rparr>)"
    unfolding b1 using assms(1-4) sl_run_major[of mj' r1 p1] by (simp add: r1_def)
  have s2: "scan status_line_step ?b (length p1 + length mj') (r1\<lparr>sr_major := decimal 0 mj\<rparr>) =
      scan status_line_step ?b (length p2) r2"
    using d assms(1) scan_one[of "length p1 + length mj'" "p1 @ mj'" status_line_step ch_dot
        "mn @ [ch_space] @ replicate k ch_space @ code @ tx @ ?crlf" "r1\<lparr>sr_major := decimal 0 mj\<rparr>"
        "r1\<lparr>sr_major := decimal 0 mj, sr_state := sl_first_minor_digit\<rparr>"]
      scan_one[of "length p1 + length mj' + 1" "p1 @ mj' @ [ch_dot]" status_line_step d
        "mn' @ [ch_space] @ replicate k ch_space @ code @ tx @ ?crlf"
        "r1\<lparr>sr_major := decimal 0 mj, sr_state := sl_first_minor_digit\<rparr>" r2]
    unfolding b1
    by (simp add: status_line_step_def sl_case_major_def sl_case_first_minor_def r1_def r2_def p1_def p2_def mn)
  have s3: "scan status_line_step ?b (length p2) r2 =
      scan status_line_step ?b (length p2 + length mn') (r2\<lparr>sr_minor := decimal 0 mn\<rparr>)"
    unfolding b2 using assms(5-7) sl_run_minor[of mn' r2 p2] by (simp add: r2_def mn)
  have s4: "scan status_line_step ?b (length p2 + length mn') (r2\<lparr>sr_minor := decimal 0 mn\<rparr>) =
      scan status_line_step ?b (length p3) r3"
    using assms(1) scan_one[of "length p2 + length mn'" "p2 @ mn'" status_line_step ch_space
        "replicate k ch_space @ code @ tx @ ?crlf" "r2\<lparr>sr_minor := decimal 0 mn\<rparr>" r3]
    unfolding b2 by (simp add: status_line_step_def sl_case_minor_def r2_def r3_def p2_def p3_def mn)
  have s5: "scan status_line_step ?b (length p3) r3 = scan status_line_step ?b (length p4) r3"
    unfolding b3 using scan_skip[of "replicate k ch_space" status_line_step p3 "code @ tx @ ?crlf" r3]
    by (simp add: status_line_step_def sl_case_status_def r3_def p4_def)
  have s6: "scan status_line_step ?b (length p4) r3 = scan status_line_step ?b (length (p4 @ code)) r4"
    unfolding b4 using sl_run_code[of code r3 p4 "tx @ ?crlf"] assms(8,9)
    by (simp add: r4_def r3_def r2_def r1_def new_status_req_def no_status_def)
  have s7: "scan status_line_step ?b (length (p4 @ code)) r4 =
      (Done (r4\<lparr>sr_state := sl_almost_done, sr_status := (sr_status r4)\<lparr>st_end := Some (length (p4 @ code) + length tx)\<rparr>\<rparr>)
        NGX_OK, length (p4 @ code) + length tx + 1)"
    unfolding b5 using assms(10,11) by (intro sl_run_tail) (simp_all add: r4_def)
  show ?thesis
    unfolding s0 s1 s2 s3 s4 s5 s6 s7
    using assms(9)
    by (simp add: r4_def r3_def r2_def r1_def new_status_req_def no_status_def p4_def p3_def render_status_line_def)
qed

lemma check_parse_render:
  assumes "mj = c # mj'" and "c \<noteq> ch_0" and "list_all is_digit mj" and "decimal 0 mj \<le> 999"
    and "mn \<noteq> []" and "list_all is_digit mn" and "decimal 0 mn \<le> 999"
    and "list_all is_digit code" and "length code = 3"
    and "list_all (\<lambda>c. c \<noteq> CR \<and> c \<noteq> LF) tx" and "tx \<noteq> [] \<longrightarrow> hd tx = ch_space \<or> hd tx = ch_dot"
  shows "\<exists>x. ngx_http_upstream_check_parse_status_line (render_status_line mj mn k code tx @ rest) 0 new_status_ctx =
      (NGX_OK, x, length (render_status_line mj mn k code tx)) \<and> st_code (sc_status x) = decimal 0 code"
proof -
  have "check_view new_status_req = new_status_ctx"
    by (simp add: check_view_def new_status_req_def new_status_ctx_def no_status_def)
  then show ?thesis
    using check_scan_sim[of "render_status_line mj mn k code tx @ rest" 0 new_status_req] sl_scan_render[OF assms, of k rest]
    by (simp add: check_sim_def ngx_http_upstream_check_parse_status_line_def sl_set_end_def check_view_def
        render_status_line_def)
qed

section \<open>Properties\<close>



text \<open>
  A well-formed status line is accepted by both parsers whatever follows it and however many spaces
  precede the code: they consume exactly the line, the code is the number its three digits write, the
  version that of the version digits, and the status text, from the first digit of the code to the
  end of the line, is found where it was written. Whatever line they accept, the code is below 1000
  and the text they report is a slice of the line that starts with three octets and holds no line
  feed after them.
\<close>

theorem status_line_roundtrip:
  assumes "mj = c # mj'" and "c \<noteq> ch_0" and "list_all is_digit mj" and "decimal 0 mj \<le> 999"
    and "mn \<noteq> []" and "list_all is_digit mn" and "decimal 0 mn \<le> 999"
    and "list_all is_digit code" and "length code = 3"
    and "list_all (\<lambda>c. c \<noteq> CR \<and> c \<noteq> LF) tx" and "tx \<noteq> [] \<longrightarrow> hd tx = ch_space \<or> hd tx = ch_dot"
  shows "(\<exists>r. ngx_http_parse_status_line (render_status_line mj mn k code tx @ rest) 0 new_status_req =
      (NGX_OK, r, length (render_status_line mj mn k code tx)) \<and>
      sr_status r = \<lparr> st_version = decimal 0 mj * 1000 + decimal 0 mn, st_code = decimal 0 code, st_count = 3,
        st_start = Some (length mj + length mn + k + 7), st_end = Some (length mj + length mn + k + 10 + length tx) \<rparr>) \<and>
    (\<forall>b r pos. ngx_http_parse_status_line b 0 new_status_req = (NGX_OK, r, pos) \<longrightarrow>
       st_code (sr_status r) < 1000 \<and>
       (\<exists>i e. st_start (sr_status r) = Some i \<and> st_end (sr_status r) = Some e \<and> i + 3 \<le> e \<and> e < pos \<and>
          pos \<le> length b \<and> slice_all (\<lambda>c. c \<noteq> LF) b (i + 3) e))"
proof (intro conjI allI impI)
  show "\<exists>r. ngx_http_parse_status_line (render_status_line mj mn k code tx @ rest) 0 new_status_req =
      (NGX_OK, r, length (render_status_line mj mn k code tx)) \<and>
      sr_status r = \<lparr> st_version = decimal 0 mj * 1000 + decimal 0 mn, st_code = decimal 0 code, st_count = 3,
        st_start = Some (length mj + length mn + k + 7), st_end = Some (length mj + length mn + k + 10 + length tx) \<rparr>"
    unfolding ngx_http_parse_status_line_def sl_scan_render[OF assms]
    by (simp add: sl_set_end_def render_status_line_def)
next
  fix b r pos
  assume "ngx_http_parse_status_line b 0 new_status_req = (NGX_OK, r, pos)"
  then obtain r0 q rc where scan: "scan status_line_step b 0 new_status_req = (Done r0 rc, q)"
    and r: "sr_status r = (sl_set_end q (sr_status r0))\<lparr>st_version := sr_major r0 * 1000 + sr_minor r0\<rparr>" "pos = q + 1"
    by (auto simp: ngx_http_parse_status_line_def split: prod.splits verdict.splits dest!: scan_Fail_step sl_fail_rc)
  have "status_ok b 0 (sr_state new_status_req) (sr_status new_status_req)"
    by (simp add: new_status_req_def no_status_def)
  from sl.scan_done[OF _ this scan] have "q < length b" and "status_done b q (sr_status r0)" by simp_all
  then obtain i e where "st_end (sl_set_end q (sr_status r0)) = Some e" "e \<le> q" "status_read b i e (sr_status r0)"
    by (auto simp: status_done_def)
  with r \<open>q < length b\<close> show "st_code (sr_status r) < 1000"
    and "\<exists>i e. st_start (sr_status r) = Some i \<and> st_end (sr_status r) = Some e \<and> i + 3 \<le> e \<and> e < pos \<and>
          pos \<le> length b \<and> slice_all (\<lambda>c. c \<noteq> LF) b (i + 3) e"
    by (auto simp: status_read_def sl_set_end_def split: if_splits)
qed

theorem status_line_roundtrip_witness:
  "\<exists>r. ngx_http_parse_status_line (render_status_line (octets ''1'') (octets ''1'') 0 (octets ''404'') (octets '' Not Found'') @ [CR])
      0 new_status_req = (NGX_OK, r, 24) \<and> st_code (sr_status r) = 404 \<and> st_version (sr_status r) = 1001"
  using conjunct1[OF status_line_roundtrip[of "octets ''1''" "0x31" "[]" "octets ''1''" "octets ''404''" "octets '' Not Found''" 0 "[CR]"]]
  by (auto simp: is_digit_def render_status_line_def)

end
