(* ===== verification/UpstreamCheck.thy ===== *)
theory UpstreamCheck
  imports HttpStatusLine
begin

text \<open>
  The health checks of \<^verbatim>\<open>ngx_http_upstream_check_module.c\<close>: the shared record of a peer, the worker's
  own record of it, the parsers of the answers, and the event handlers, each of which runs to its end
  before the worker's next event. What a handler asks the system for (the outcome of \<^verbatim>\<open>connect\<close>,
  \<^verbatim>\<open>send\<close>, \<^verbatim>\<open>recv\<close>, of an allocation, of arming an event) comes in a record \<open>check_io\<close>, so the handlers
  are functions; a dereferenced null pointer is the result None. The check type \<^verbatim>\<open>fastcgi\<close> is left
  out.
\<close>

section \<open>Configuration and state\<close>

datatype check_type = CHECK_TCP | CHECK_HTTP | CHECK_SSL_HELLO | CHECK_MYSQL | CHECK_AJP

text \<open>The columns \<^verbatim>\<open>need_pool\<close>, \<^verbatim>\<open>need_keepalive\<close> and \<^verbatim>\<open>reinit != NULL\<close> of the table \<^verbatim>\<open>ngx_check_types\<close>.\<close>

definition need_pool :: "check_type \<Rightarrow> bool" where
  "need_pool t \<longleftrightarrow> t \<noteq> CHECK_TCP"

definition need_keepalive :: "check_type \<Rightarrow> bool" where
  "need_keepalive t \<longleftrightarrow> t = CHECK_TCP \<or> t = CHECK_HTTP"

definition has_ctx :: "check_type \<Rightarrow> bool" where
  "has_ctx t \<longleftrightarrow> t \<noteq> CHECK_TCP"

record check_conf =
  ck_type :: check_type
  ck_fall :: nat
  ck_rise :: nat
  ck_interval :: u64
  ck_keepalive_requests :: nat
  ck_send :: bytes
  ck_status_alive :: u64

type_synonym pid = nat

text \<open>The record in shared memory; \<^verbatim>\<open>NGX_INVALID_PID\<close> is None.\<close>

record check_shm =
  owner :: "pid option"
  access_time :: u64
  fall_count :: nat
  rise_count :: nat
  busyness :: nat
  access_count :: nat
  shm_down :: bool

definition ngx_http_upstream_check_init_shm_peer :: "check_shm option \<Rightarrow> bool \<Rightarrow> check_shm" where
  "ngx_http_upstream_check_init_shm_peer opsh init_down =
    (case opsh of
       Some o' \<Rightarrow> \<lparr> owner = None, access_time = access_time o', fall_count = fall_count o', rise_count = rise_count o',
         busyness = busyness o', access_count = access_count o', shm_down = shm_down o' \<rparr>
     | None \<Rightarrow> \<lparr> owner = None, access_time = 0, fall_count = 0, rise_count = 0, busyness = 0, access_count = 0,
         shm_down = init_down \<rparr>)"

text \<open>The receive buffer: the octets from \<^verbatim>\<open>start\<close> to \<^verbatim>\<open>last\<close>, \<^verbatim>\<open>pos - start\<close> and \<^verbatim>\<open>end - start\<close>. The
  buffer to send is the configured text, of which the context keeps \<^verbatim>\<open>pos - start\<close>.\<close>

record recv_buf =
  rb_data :: bytes
  rb_pos :: nat
  rb_cap :: nat

record check_ctx =
  cx_send_pos :: nat
  cx_recv :: "recv_buf option"
  cx_line :: status_ctx

datatype check_state =
    CHECK_STATE_NONE | CHECK_CONNECT_DONE | CHECK_SEND_DONE | CHECK_RECV_DONE | CHECK_ALL_DONE

text \<open>A connection; \<open>cc_idle\<close> tells the handlers dummy and discard from those of the check type.\<close>

record check_conn =
  cc_error :: bool
  cc_requests :: nat
  cc_idle :: bool

record check_peer =
  cp_state :: check_state
  cp_pool :: bool
  cp_ev_timer :: bool             \<comment> \<open>\<^verbatim>\<open>check_ev.timer_set\<close>\<close>
  cp_timeout :: bool              \<comment> \<open>\<^verbatim>\<open>check_timeout_ev.timer_set\<close>\<close>
  cp_conn :: "check_conn option"
  cp_data :: "check_ctx option"

text \<open>A worker's record of a peer after \<^verbatim>\<open>ngx_http_upstream_check_add_timers\<close>.\<close>

definition check_new_peer :: "check_conf \<Rightarrow> check_peer" where
  "check_new_peer conf = \<lparr> cp_state = CHECK_STATE_NONE, cp_pool = need_pool (ck_type conf), cp_ev_timer = True,
     cp_timeout = False, cp_conn = None, cp_data = None \<rparr>"

section \<open>What the balancers call\<close>

text \<open>
  Registration while the upstream is configured: the index is the position among the peers registered
  so far. A block without a check directive has a zero interval and gives \<^verbatim>\<open>(ngx_uint_t) NGX_ERROR\<close>.
\<close>

definition ngx_http_upstream_check_add_peer :: "check_conf \<Rightarrow> check_conf list \<Rightarrow> nat \<times> check_conf list" where
  "ngx_http_upstream_check_add_peer ucscf peers =
    (if ck_interval ucscf = 0 then (2 ^ 64 - 1, peers) else (length peers, peers @ [ucscf]))"

definition ngx_http_upstream_check_peer_down :: "check_shm list option \<Rightarrow> nat \<Rightarrow> bool" where
  "ngx_http_upstream_check_peer_down ctx index =
    (case ctx of
       None \<Rightarrow> False
     | Some peers \<Rightarrow> if index \<ge> length peers then False else shm_down (peers ! index))"

definition ngx_http_upstream_check_get_peer :: "check_shm list \<Rightarrow> nat \<Rightarrow> check_shm list" where
  "ngx_http_upstream_check_get_peer peers index =
    (if index \<ge> length peers then peers
     else peers[index := (peers ! index)
       \<lparr>busyness := busyness (peers ! index) + 1, access_count := access_count (peers ! index) + 1\<rparr>])"

definition ngx_http_upstream_check_free_peer :: "check_shm list \<Rightarrow> nat \<Rightarrow> check_shm list" where
  "ngx_http_upstream_check_free_peer peers index =
    (if index \<ge> length peers then peers
     else if busyness (peers ! index) > 0
     then peers[index := (peers ! index)\<lparr>busyness := busyness (peers ! index) - 1\<rparr>]
     else peers)"

section \<open>The verdict of a check\<close>

definition ngx_http_upstream_check_status_update :: "check_conf \<Rightarrow> u64 \<Rightarrow> bool \<Rightarrow> check_shm \<Rightarrow> check_shm" where
  "ngx_http_upstream_check_status_update conf now result shm =
    (let shm =
       (if result then
          let shm = shm\<lparr>rise_count := rise_count shm + 1, fall_count := 0\<rparr> in
          if shm_down shm \<and> rise_count shm \<ge> ck_rise conf then shm\<lparr>shm_down := False\<rparr> else shm
        else
          let shm = shm\<lparr>rise_count := 0, fall_count := fall_count shm + 1\<rparr> in
          if \<not> shm_down shm \<and> fall_count shm \<ge> ck_fall conf then shm\<lparr>shm_down := True\<rparr> else shm)
     in shm\<lparr>access_time := now\<rparr>)"

section \<open>The contexts of the check types\<close>

definition zero_ctx :: check_ctx where
  "zero_ctx = \<lparr> cx_send_pos = 0, cx_recv = None, cx_line = new_status_ctx \<rparr>"

text \<open>\<^verbatim>\<open>ngx_http_upstream_check_http_init\<close>, and the \<^verbatim>\<open>init\<close> functions of the other types, which leave the state
  and the status of the context, freshly zeroed.\<close>

definition check_init :: "check_type \<Rightarrow> check_ctx \<Rightarrow> check_ctx" where
  "check_init t ctx =
    (let ctx = ctx\<lparr>cx_send_pos := 0, cx_recv := None\<rparr> in
     if t = CHECK_HTTP then ctx\<lparr>cx_line := new_status_ctx\<rparr> else ctx)"

text \<open>\<^verbatim>\<open>recv.pos = recv.last = recv.start\<close>; a null buffer stays null.\<close>

definition reset_buf :: "recv_buf \<Rightarrow> recv_buf" where
  "reset_buf b = b\<lparr>rb_data := [], rb_pos := 0\<rparr>"

definition check_reinit :: "check_type \<Rightarrow> check_ctx \<Rightarrow> check_ctx" where
  "check_reinit t ctx =
    (let ctx = ctx\<lparr>cx_send_pos := 0, cx_recv := map_option reset_buf (cx_recv ctx)\<rparr> in
     if t = CHECK_HTTP then ctx\<lparr>cx_line := new_status_ctx\<rparr> else ctx)"

section \<open>The parsers of the answers\<close>

text \<open>A parser returns its code, the context, and whether it has marked the connection as failed.\<close>

definition status_class :: "nat \<Rightarrow> u64" where
  "status_class code =
    (if code \<ge> 200 \<and> code < 300 then 0x0002
     else if code \<ge> 300 \<and> code < 400 then 0x0004
     else if code \<ge> 400 \<and> code < 500 then 0x0008
     else if code \<ge> 500 \<and> code < 600 then 0x0010
     else 0x8000)"

definition class_fails :: "nat \<Rightarrow> bool" where
  "class_fails code \<longleftrightarrow> \<not> (code \<ge> 200 \<and> code < 300) \<and> \<not> (code \<ge> 300 \<and> code < 400)"

definition ngx_http_upstream_check_http_parse ::
    "check_conf \<Rightarrow> recv_buf \<Rightarrow> status_ctx \<Rightarrow> ngx_rc \<times> recv_buf \<times> status_ctx \<times> bool" where
  "ngx_http_upstream_check_http_parse conf b x =
    (if length (rb_data b) > rb_pos b then
       (case ngx_http_upstream_check_parse_status_line (rb_data b) (rb_pos b) x of
          (rc, x', pos) \<Rightarrow>
            let b' = b\<lparr>rb_pos := pos\<rparr>; code = st_code (sc_status x') in
            if rc = NGX_AGAIN then (rc, b', x', False)
            else if rc = NGX_ERROR then (rc, b', x', False)
            else ((if status_class code AND ck_status_alive conf \<noteq> 0 then NGX_OK else NGX_ERROR),
                  b', x', class_fails code))
     else (NGX_AGAIN, b, x, False))"

text \<open>The packed \<^verbatim>\<open>ngx_ssl_server_hello_t\<close> has 47 octets: its \<^verbatim>\<open>time_t\<close> has 8 on this platform.\<close>

definition ngx_http_upstream_check_ssl_hello_parse :: "bytes \<Rightarrow> ngx_rc" where
  "ngx_http_upstream_check_ssl_hello_parse resp =
    (if length resp < 47 then NGX_AGAIN
     else if resp ! 0 \<noteq> 0x16 then NGX_ERROR
     else if resp ! 5 \<noteq> 0x02 then NGX_ERROR
     else NGX_OK)"

definition ngx_http_upstream_check_mysql_parse :: "bytes \<Rightarrow> ngx_rc" where
  "ngx_http_upstream_check_mysql_parse handshake =
    (if length handshake < 5 then NGX_AGAIN
     else if handshake ! 3 \<noteq> 0 then NGX_ERROR
     else NGX_OK)"

definition ngx_ajp_cpong_packet :: bytes where
  "ngx_ajp_cpong_packet = [0x41, 0x42, 0x00, 0x01, 0x09]"

definition ngx_http_upstream_check_ajp_parse :: "bytes \<Rightarrow> ngx_rc" where
  "ngx_http_upstream_check_ajp_parse p =
    (if length p < length ngx_ajp_cpong_packet then NGX_AGAIN
     else if take (length ngx_ajp_cpong_packet) p = ngx_ajp_cpong_packet then NGX_OK
     else NGX_ERROR)"

definition check_parse :: "check_conf \<Rightarrow> recv_buf \<Rightarrow> status_ctx \<Rightarrow> ngx_rc \<times> recv_buf \<times> status_ctx \<times> bool" where
  "check_parse conf b x =
    (case ck_type conf of
       CHECK_HTTP \<Rightarrow> ngx_http_upstream_check_http_parse conf b x
     | CHECK_SSL_HELLO \<Rightarrow> (ngx_http_upstream_check_ssl_hello_parse (drop (rb_pos b) (rb_data b)), b, x, False)
     | CHECK_MYSQL \<Rightarrow> (ngx_http_upstream_check_mysql_parse (drop (rb_pos b) (rb_data b)), b, x, False)
     | CHECK_AJP \<Rightarrow> (ngx_http_upstream_check_ajp_parse (drop (rb_pos b) (rb_data b)), b, x, False)
     | CHECK_TCP \<Rightarrow> (NGX_ERROR, b, x, False))"

section \<open>What a handler asks of the system\<close>

datatype connect_answer = CONN_OK | CONN_AGAIN | CONN_FAIL   \<comment> \<open>NGX_ERROR and NGX_DECLINED\<close>

datatype send_answer = SENT nat | SEND_AGAIN | SEND_ERROR

text \<open>\<open>RECV []\<close> is the end of the stream; of a longer piece the socket gives what fits.\<close>

datatype recv_answer = RECV bytes | RECV_AGAIN | RECV_ERROR

record check_io =
  io_connect :: connect_answer
  io_peek :: bool                 \<comment> \<open>\<^verbatim>\<open>ngx_http_upstream_check_peek_one_byte\<close> returns \<^verbatim>\<open>NGX_OK\<close>\<close>
  io_write_event :: bool          \<comment> \<open>\<^verbatim>\<open>ngx_handle_write_event\<close> returns \<^verbatim>\<open>NGX_OK\<close>\<close>
  io_read_event :: bool
  io_calloc :: bool               \<comment> \<open>the pool has room for the context\<close>
  io_palloc :: "nat \<Rightarrow> bool"       \<comment> \<open>the pool has room for a buffer of this size\<close>
  io_sends :: "send_answer list"
  io_recvs :: "recv_answer list"

section \<open>The end of a check\<close>

definition clean_conn :: "check_conf \<Rightarrow> check_conn \<Rightarrow> check_conn option" where
  "clean_conn conf c =
    (if \<not> cc_error c \<and> need_keepalive (ck_type conf) \<and> cc_requests c < ck_keepalive_requests conf
     then Some (c\<lparr>cc_idle := True\<rparr>) else None)"

definition ngx_http_upstream_check_clean_event ::
    "check_conf \<Rightarrow> check_shm \<times> check_peer \<Rightarrow> check_shm \<times> check_peer" where
  "ngx_http_upstream_check_clean_event conf sp =
    (case sp of (shm, peer) \<Rightarrow>
       (shm\<lparr>owner := None\<rparr>,
        peer\<lparr>cp_conn := Option.bind (cp_conn peer) (clean_conn conf), cp_timeout := False,
             cp_state := CHECK_ALL_DONE,
             cp_data := (if has_ctx (ck_type conf) then map_option (check_reinit (ck_type conf)) (cp_data peer)
                         else cp_data peer)\<rparr>))"

text \<open>\<^verbatim>\<open>status_update\<close> and \<^verbatim>\<open>clean_event\<close>, which always come together in this order.\<close>

definition check_finish :: "check_conf \<Rightarrow> u64 \<Rightarrow> bool \<Rightarrow> check_shm \<times> check_peer \<Rightarrow> check_shm \<times> check_peer" where
  "check_finish conf now result sp =
    (case sp of (shm, peer) \<Rightarrow>
       ngx_http_upstream_check_clean_event conf (ngx_http_upstream_check_status_update conf now result shm, peer))"

definition conn_failed :: "check_peer \<Rightarrow> check_peer" where
  "conn_failed peer = peer\<lparr>cp_conn := map_option (\<lambda>c. c\<lparr>cc_error := True\<rparr>) (cp_conn peer)\<rparr>"

section \<open>The handlers of a connection\<close>

definition ngx_http_upstream_check_peek_handler ::
    "check_conf \<Rightarrow> u64 \<Rightarrow> check_io \<Rightarrow> check_shm \<times> check_peer \<Rightarrow> (check_shm \<times> check_peer) option" where
  "ngx_http_upstream_check_peek_handler conf now io sp =
    (case sp of (shm, peer) \<Rightarrow>
       if cp_conn peer = None then None
       else if io_peek io then Some (check_finish conf now True (shm, peer))
       else Some (check_finish conf now False (shm, conn_failed peer)))"

text \<open>The loop that discards what an idle connection receives: True when it ends with \<^verbatim>\<open>NGX_AGAIN\<close>.\<close>

fun discard_loop :: "recv_answer list \<Rightarrow> bool" where
  "discard_loop [] = True"
| "discard_loop (RECV bs # rest) = (if bs = [] then False else discard_loop rest)"
| "discard_loop (RECV_AGAIN # rest) = True"
| "discard_loop (RECV_ERROR # rest) = False"

definition ngx_http_upstream_check_discard_handler ::
    "check_conf \<Rightarrow> check_io \<Rightarrow> check_shm \<times> check_peer \<Rightarrow> (check_shm \<times> check_peer) option" where
  "ngx_http_upstream_check_discard_handler conf io sp =
    (case sp of (shm, peer) \<Rightarrow>
       if cp_conn peer = None then None
       else if discard_loop (io_recvs io) \<and> io_read_event io then Some (shm, peer)
       else Some (ngx_http_upstream_check_clean_event conf (shm, conn_failed peer)))"

text \<open>\<^verbatim>\<open>while (send.pos < send.last)\<close>: the position, and whether the loop ended, returned or failed.\<close>

datatype send_end = Send_all | Send_later | Send_fail

fun send_loop :: "nat \<Rightarrow> nat \<Rightarrow> send_answer list \<Rightarrow> nat \<times> send_end" where
  "send_loop pos lst [] = (pos, if pos < lst then Send_later else Send_all)"
| "send_loop pos lst (a # rest) =
    (if pos < lst then
       (case a of
          SENT n \<Rightarrow> if n > 0 then send_loop (pos + n) lst rest else (pos, Send_later)
        | SEND_AGAIN \<Rightarrow> (pos, Send_later)
        | SEND_ERROR \<Rightarrow> (pos, Send_fail))
     else (pos, Send_all))"

definition ngx_http_upstream_check_send_handler ::
    "check_conf \<Rightarrow> u64 \<Rightarrow> check_io \<Rightarrow> check_shm \<times> check_peer \<Rightarrow> (check_shm \<times> check_peer) option" where
  "ngx_http_upstream_check_send_handler conf now io sp =
    (case sp of (shm, peer) \<Rightarrow>
       case cp_conn peer of
         None \<Rightarrow> None
       | Some c \<Rightarrow>
         if \<not> cp_pool peer then Some (check_finish conf now False (shm, peer))
         else if cp_state peer \<noteq> CHECK_CONNECT_DONE then
           (if \<not> io_write_event io then Some (check_finish conf now False (shm, peer)) else Some (shm, peer))
         else if cp_data peer = None \<and> \<not> io_calloc io then Some (check_finish conf now False (shm, peer))
         else
           let ctx = (case cp_data peer of None \<Rightarrow> check_init (ck_type conf) zero_ctx | Some ctx \<Rightarrow> ctx) in
           case send_loop (cx_send_pos ctx) (length (ck_send conf)) (io_sends io) of (pos, e) \<Rightarrow>
             let peer = peer\<lparr>cp_data := Some (ctx\<lparr>cx_send_pos := pos\<rparr>)\<rparr> in
             (case e of
                Send_later \<Rightarrow> Some (shm, peer)
              | Send_fail \<Rightarrow> Some (check_finish conf now False (shm, conn_failed peer))
              | Send_all \<Rightarrow>
                  if pos = length (ck_send conf)
                  then Some (shm, peer\<lparr>cp_state := CHECK_SEND_DONE,
                                       cp_conn := Some (c\<lparr>cc_requests := cc_requests c + 1\<rparr>)\<rparr>)
                  else Some (shm, peer)))"

text \<open>
  The loop that receives: when the buffer is full it is doubled, and \<^verbatim>\<open>pos\<close> goes back to its start. A
  piece longer than the room is taken in parts.
\<close>

datatype recv_end = Recv_eof | Recv_later | Recv_fail | Recv_nomem

definition enlarge :: "recv_buf \<Rightarrow> recv_buf" where
  "enlarge b = b\<lparr>rb_pos := 0, rb_cap := rb_cap b * 2\<rparr>"

definition recv_room :: "(nat \<Rightarrow> bool) \<Rightarrow> recv_buf \<Rightarrow> recv_buf option" where
  "recv_room palloc b =
    (if rb_cap b - length (rb_data b) = 0
     then (if palloc (length (rb_data b) * 2) then Some (enlarge b) else None)
     else Some b)"

fun answer_size :: "recv_answer \<Rightarrow> nat" where
  "answer_size (RECV bs) = Suc (length bs)"
| "answer_size _ = 1"

function recv_loop :: "(nat \<Rightarrow> bool) \<Rightarrow> recv_buf \<Rightarrow> recv_answer list \<Rightarrow> recv_buf \<times> recv_end" where
  "recv_loop palloc b answers =
    (case recv_room palloc b of
       None \<Rightarrow> (b, Recv_nomem)
     | Some b \<Rightarrow>
       (case answers of
          [] \<Rightarrow> (b, Recv_later)
        | RECV_AGAIN # rest \<Rightarrow> (b, Recv_later)
        | RECV_ERROR # rest \<Rightarrow> (b, Recv_fail)
        | RECV bs # rest \<Rightarrow>
            let n = rb_cap b - length (rb_data b); got = take n bs in
            if got = [] then (b, Recv_eof)
            else recv_loop palloc (b\<lparr>rb_data := rb_data b @ got\<rparr>) (if length bs > n then RECV (drop n bs) # rest else rest)))"
  by pat_completeness auto
termination
  by (relation "measure (\<lambda>(palloc, b, answers). sum_list (map answer_size answers))") auto

declare recv_loop.simps [simp del]

text \<open>\<^verbatim>\<open>ctx->recv.start == NULL\<close>: the first buffer is half a page.\<close>

definition first_buf :: "nat \<Rightarrow> recv_buf" where
  "first_buf pagesize = \<lparr> rb_data = [], rb_pos = 0, rb_cap = pagesize div 2 \<rparr>"

definition ngx_http_upstream_check_recv_handler ::
    "nat \<Rightarrow> check_conf \<Rightarrow> u64 \<Rightarrow> check_io \<Rightarrow> check_shm \<times> check_peer \<Rightarrow> (check_shm \<times> check_peer) option" where
  "ngx_http_upstream_check_recv_handler pagesize conf now io sp =
    (case sp of (shm, peer) \<Rightarrow>
       if cp_conn peer = None then None
       else if cp_state peer \<noteq> CHECK_SEND_DONE then
         (if \<not> io_read_event io then Some (check_finish conf now False (shm, peer)) else Some (shm, peer))
       else
       (case cp_data peer of
          None \<Rightarrow> None
        | Some ctx \<Rightarrow>
          if cx_recv ctx = None \<and> \<not> io_palloc io (pagesize div 2)
          then Some (check_finish conf now False (shm, peer))
          else
            let b = (case cx_recv ctx of None \<Rightarrow> first_buf pagesize | Some b \<Rightarrow> b) in
            (case recv_loop (io_palloc io) b (io_recvs io) of (b, e) \<Rightarrow>
               let peer = peer\<lparr>cp_data := Some (ctx\<lparr>cx_recv := Some b\<rparr>)\<rparr> in
               (case e of
                  Recv_nomem \<Rightarrow> Some (check_finish conf now False (shm, peer))
                | Recv_fail \<Rightarrow> Some (check_finish conf now False (shm, conn_failed peer))
                | _ \<Rightarrow>
                  (case check_parse conf b (cx_line ctx) of (rc, b', x', failed) \<Rightarrow>
                     let peer = peer\<lparr>cp_data := Some (ctx\<lparr>cx_recv := Some b', cx_line := x'\<rparr>)\<rparr>;
                         peer = (if failed then conn_failed peer else peer)
                     in
                     if rc = NGX_AGAIN then
                       (if e = Recv_eof
                        then Some (check_finish conf now False (shm, (conn_failed peer)\<lparr>cp_state := CHECK_RECV_DONE\<rparr>))
                        else Some (shm, peer))
                     else Some (check_finish conf now (rc \<noteq> NGX_ERROR)
                                 (shm, peer\<lparr>cp_state := CHECK_RECV_DONE\<rparr>)))))))"

text \<open>The write and read handlers of a connection under check.\<close>

definition check_write_handler ::
    "check_conf \<Rightarrow> u64 \<Rightarrow> check_io \<Rightarrow> check_shm \<times> check_peer \<Rightarrow> (check_shm \<times> check_peer) option" where
  "check_write_handler conf now io sp =
    (case ck_type conf of
       CHECK_TCP \<Rightarrow> ngx_http_upstream_check_peek_handler conf now io sp
     | _ \<Rightarrow> ngx_http_upstream_check_send_handler conf now io sp)"

definition check_read_handler ::
    "nat \<Rightarrow> check_conf \<Rightarrow> u64 \<Rightarrow> check_io \<Rightarrow> check_shm \<times> check_peer \<Rightarrow> (check_shm \<times> check_peer) option" where
  "check_read_handler pagesize conf now io sp =
    (case ck_type conf of
       CHECK_TCP \<Rightarrow> ngx_http_upstream_check_peek_handler conf now io sp
     | _ \<Rightarrow> ngx_http_upstream_check_recv_handler pagesize conf now io sp)"

section \<open>The timers\<close>

definition check_new_conn :: check_conn where
  "check_new_conn = \<lparr> cc_error = False, cc_requests = 0, cc_idle = False \<rparr>"

text \<open>\<^verbatim>\<open>upstream_check_connect_done\<close>, with the connection \<open>c\<close>; \<open>ok\<close> is \<^verbatim>\<open>rc == NGX_OK\<close>.\<close>

definition connect_done ::
    "check_conf \<Rightarrow> u64 \<Rightarrow> check_io \<Rightarrow> bool \<Rightarrow> check_conn \<Rightarrow> check_shm \<times> check_peer \<Rightarrow> (check_shm \<times> check_peer) option" where
  "connect_done conf now io ok c sp =
    (case sp of (shm, peer) \<Rightarrow>
       let peer = peer\<lparr>cp_state := CHECK_CONNECT_DONE, cp_conn := Some (c\<lparr>cc_idle := False\<rparr>), cp_timeout := True\<rparr> in
       if ok then check_write_handler conf now io (shm, peer) else Some (shm, peer))"

definition ngx_http_upstream_check_connect_handler ::
    "check_conf \<Rightarrow> u64 \<Rightarrow> check_io \<Rightarrow> check_shm \<times> check_peer \<Rightarrow> (check_shm \<times> check_peer) option" where
  "ngx_http_upstream_check_connect_handler conf now io sp =
    (case sp of (shm, peer) \<Rightarrow>
       let fresh =
         (case io_connect io of
            CONN_FAIL \<Rightarrow> Some (check_finish conf now False (shm, peer\<lparr>cp_conn := None\<rparr>))
          | CONN_OK \<Rightarrow> connect_done conf now io True check_new_conn (shm, peer)
          | CONN_AGAIN \<Rightarrow> connect_done conf now io False check_new_conn (shm, peer)) in
       (case cp_conn peer of
          Some c \<Rightarrow> if io_peek io then connect_done conf now io True c (shm, peer) else fresh
        | None \<Rightarrow> fresh))"

text \<open>\<open>same_gen\<close> is \<^verbatim>\<open>peers_shm->generation == ngx_http_upstream_check_shm_generation\<close>.\<close>

definition check_takes :: "check_conf \<Rightarrow> u64 \<Rightarrow> check_shm \<Rightarrow> bool" where
  "check_takes conf now shm \<longleftrightarrow>
     now - access_time shm \<ge> ck_interval conf \<and> owner shm = None"

definition check_seizes :: "check_conf \<Rightarrow> u64 \<Rightarrow> check_shm \<Rightarrow> bool" where
  "check_seizes conf now shm \<longleftrightarrow> now - access_time shm \<ge> push_bit 4 (ck_interval conf)"

definition ngx_http_upstream_check_begin_handler ::
    "pid \<Rightarrow> bool \<Rightarrow> check_conf \<Rightarrow> u64 \<Rightarrow> check_io \<Rightarrow> check_shm \<times> check_peer \<Rightarrow> (check_shm \<times> check_peer) option" where
  "ngx_http_upstream_check_begin_handler ngx_pid same_gen conf now io sp =
    (case sp of (shm, peer) \<Rightarrow>
       let peer = peer\<lparr>cp_ev_timer := True\<rparr> in
       if owner shm = Some ngx_pid \<or> cp_conn peer \<noteq> None \<or> cp_timeout peer then Some (shm, peer)
       else if \<not> same_gen then Some (shm, peer)
       else
         let shm =
           (if check_takes conf now shm then shm\<lparr>owner := Some ngx_pid\<rparr>
            else if check_seizes conf now shm then shm\<lparr>owner := Some ngx_pid, access_time := now\<rparr>
            else shm)
         in if owner shm = Some ngx_pid then ngx_http_upstream_check_connect_handler conf now io (shm, peer)
            else Some (shm, peer))"

definition ngx_http_upstream_check_timeout_handler ::
    "check_conf \<Rightarrow> u64 \<Rightarrow> check_shm \<times> check_peer \<Rightarrow> (check_shm \<times> check_peer) option" where
  "ngx_http_upstream_check_timeout_handler conf now sp =
    (case sp of (shm, peer) \<Rightarrow>
       if cp_conn peer = None then None
       else Some (check_finish conf now False (shm, conn_failed peer)))"

section \<open>A worker's events\<close>

record check_worker =
  wk_pid :: pid
  wk_generation :: nat
  wk_exit :: bool                 \<comment> \<open>\<^verbatim>\<open>ngx_terminate || ngx_exiting || ngx_quit\<close>\<close>
  wk_cleared :: bool              \<comment> \<open>\<^verbatim>\<open>has_cleared\<close>\<close>
  wk_peers :: "check_peer list"

record check_shms =
  ps_generation :: nat
  ps_peers :: "check_shm list"

definition clear_peer :: "check_peer \<Rightarrow> check_peer" where
  "clear_peer peer = peer\<lparr>cp_ev_timer := False, cp_timeout := False, cp_conn := None, cp_pool := False\<rparr>"

definition ngx_http_upstream_check_clear_all_events :: "check_worker \<Rightarrow> check_worker" where
  "ngx_http_upstream_check_clear_all_events w =
    (if wk_cleared w then w else w\<lparr>wk_cleared := True, wk_peers := map clear_peer (wk_peers w)\<rparr>)"

datatype check_event = EvCheck nat | EvTimeout nat | EvWrite nat | EvRead nat

fun event_peer :: "check_event \<Rightarrow> nat" where
  "event_peer (EvCheck i) = i"
| "event_peer (EvTimeout i) = i"
| "event_peer (EvWrite i) = i"
| "event_peer (EvRead i) = i"

text \<open>When nginx can deliver an event: a timer that is set, an event of an open connection.\<close>

fun event_enabled :: "check_event \<Rightarrow> check_peer \<Rightarrow> bool" where
  "event_enabled (EvCheck i) peer \<longleftrightarrow> cp_ev_timer peer"
| "event_enabled (EvTimeout i) peer \<longleftrightarrow> cp_timeout peer"
| "event_enabled (EvWrite i) peer \<longleftrightarrow> cp_conn peer \<noteq> None"
| "event_enabled (EvRead i) peer \<longleftrightarrow> cp_conn peer \<noteq> None"

text \<open>A timer that expires is no longer set when its handler runs.\<close>

fun expire :: "check_event \<Rightarrow> check_peer \<Rightarrow> check_peer" where
  "expire (EvCheck i) peer = peer\<lparr>cp_ev_timer := False\<rparr>"
| "expire (EvTimeout i) peer = peer\<lparr>cp_timeout := False\<rparr>"
| "expire _ peer = peer"

text \<open>The handler of an event, when the worker is not exiting: the dummy handler does nothing.\<close>

fun check_handler ::
    "nat \<Rightarrow> pid \<Rightarrow> bool \<Rightarrow> check_conf \<Rightarrow> u64 \<Rightarrow> check_io \<Rightarrow> check_event \<Rightarrow> check_shm \<times> check_peer \<Rightarrow>
     (check_shm \<times> check_peer) option" where
  "check_handler pagesize ngx_pid same_gen conf now io (EvCheck i) sp =
     ngx_http_upstream_check_begin_handler ngx_pid same_gen conf now io sp"
| "check_handler pagesize ngx_pid same_gen conf now io (EvTimeout i) sp =
     ngx_http_upstream_check_timeout_handler conf now sp"
| "check_handler pagesize ngx_pid same_gen conf now io (EvWrite i) sp =
     (case cp_conn (snd sp) of
        None \<Rightarrow> None
      | Some c \<Rightarrow> if cc_idle c then Some sp else check_write_handler conf now io sp)"
| "check_handler pagesize ngx_pid same_gen conf now io (EvRead i) sp =
     (case cp_conn (snd sp) of
        None \<Rightarrow> None
      | Some c \<Rightarrow> if cc_idle c then ngx_http_upstream_check_discard_handler conf io sp
                  else check_read_handler pagesize conf now io sp)"

text \<open>
  Every handler starts with \<^verbatim>\<open>ngx_http_upstream_check_need_exit\<close>, which clears the events of all peers of
  the worker; the dummy handler does not.
\<close>

definition event_is_dummy :: "check_event \<Rightarrow> check_peer \<Rightarrow> bool" where
  "event_is_dummy e peer \<longleftrightarrow>
     (case e of EvWrite i \<Rightarrow> (case cp_conn peer of Some c \<Rightarrow> cc_idle c | None \<Rightarrow> False) | _ \<Rightarrow> False)"

definition handle_event ::
    "nat \<Rightarrow> check_conf list \<Rightarrow> u64 \<Rightarrow> check_io \<Rightarrow> check_event \<Rightarrow> check_shms \<times> check_worker \<Rightarrow>
     (check_shms \<times> check_worker) option" where
  "handle_event pagesize confs now io e sw =
    (case sw of (ps, w) \<Rightarrow>
       let i = event_peer e; peer = expire e (wk_peers w ! i); w = w\<lparr>wk_peers := (wk_peers w)[i := peer]\<rparr> in
       if event_is_dummy e peer then Some (ps, w)
       else if wk_exit w then Some (ps, ngx_http_upstream_check_clear_all_events w)
       else
         (case check_handler pagesize (wk_pid w) (ps_generation ps = wk_generation w) (confs ! i) now io e
                 (ps_peers ps ! i, peer) of
            None \<Rightarrow> None
          | Some (shm, peer) \<Rightarrow>
              Some (ps\<lparr>ps_peers := (ps_peers ps)[i := shm]\<rparr>, w\<lparr>wk_peers := (wk_peers w)[i := peer]\<rparr>)))"

end
