(* ===== verification/UpstreamCheckInv.thy ===== *)
theory UpstreamCheckInv
  imports UpstreamCheck
begin

text \<open>
  The health checks as a transition system: any number of workers, each running its handlers one at a
  time, share the records of the peers; workers start, exit, die and are replaced, the configuration
  is reloaded, the balancer counts its users. The invariant \<open>peer_ok\<close> ties a worker's connection to its
  handlers, its state and its timeout; every handler keeps it and dereferences no null pointer.
\<close>

section \<open>The invariant of a worker's peer\<close>

definition buf_ok :: "recv_buf \<Rightarrow> bool" where
  "buf_ok b \<longleftrightarrow> rb_pos b \<le> length (rb_data b) \<and> length (rb_data b) \<le> rb_cap b \<and> 0 < rb_cap b"

definition ctx_data_ok :: "check_conf \<Rightarrow> check_ctx option \<Rightarrow> bool" where
  "ctx_data_ok conf d \<longleftrightarrow> (\<forall>ctx. d = Some ctx \<longrightarrow> has_ctx (ck_type conf) \<and> (\<forall>b. cx_recv ctx = Some b \<longrightarrow> buf_ok b))"

definition active :: "check_peer \<Rightarrow> bool" where
  "active p \<longleftrightarrow> (\<exists>c. cp_conn p = Some c \<and> \<not> cc_idle c)"

definition active_ok :: "check_conf \<Rightarrow> check_peer \<Rightarrow> bool" where
  "active_ok conf p \<longleftrightarrow> active p \<and> (cp_state p = CHECK_CONNECT_DONE \<or> cp_state p = CHECK_SEND_DONE) \<and>
     (cp_state p = CHECK_SEND_DONE \<longrightarrow> cp_data p \<noteq> None) \<and> ctx_data_ok conf (cp_data p)"

definition rest_ok :: "check_conf \<Rightarrow> check_peer \<Rightarrow> bool" where
  "rest_ok conf p \<longleftrightarrow> (cp_state p = CHECK_STATE_NONE \<or> cp_state p = CHECK_ALL_DONE) \<and> ctx_data_ok conf (cp_data p) \<and>
     (\<forall>c. cp_conn p = Some c \<longrightarrow> cc_idle c \<and> \<not> cc_error c \<and> need_keepalive (ck_type conf) \<and>
        cc_requests c < ck_keepalive_requests conf \<and> cp_state p = CHECK_ALL_DONE)"

definition peer_ok :: "check_conf \<Rightarrow> check_peer \<Rightarrow> bool" where
  "peer_ok conf p \<longleftrightarrow> (if cp_timeout p then active_ok conf p else rest_ok conf p)"

lemma peer_ok_timeout: "peer_ok conf p \<Longrightarrow> cp_timeout p \<longleftrightarrow> active p"
  by (auto simp: peer_ok_def active_ok_def rest_ok_def active_def split: if_splits)

lemma peer_ok_data: "peer_ok conf p \<Longrightarrow> ctx_data_ok conf (cp_data p)"
  by (auto simp: peer_ok_def active_ok_def rest_ok_def split: if_splits)

lemma ctx_data_ok_simps [simp]:
  "ctx_data_ok conf None"
  "ctx_data_ok conf (Some ctx) \<longleftrightarrow> has_ctx (ck_type conf) \<and> (\<forall>b. cx_recv ctx = Some b \<longrightarrow> buf_ok b)"
  by (auto simp: ctx_data_ok_def)

lemma ctx_data_ok_reinit: "ctx_data_ok conf d \<Longrightarrow> ctx_data_ok conf (map_option (check_reinit (ck_type conf)) d)"
  by (cases d) (auto simp: check_reinit_def Let_def reset_buf_def buf_ok_def)

section \<open>The handlers\<close>

text \<open>Ending a check leaves a peer at rest, whatever its connection was.\<close>

lemma clean_event_ok:
  assumes "ctx_data_ok conf (cp_data p)"
  shows "peer_ok conf (snd (ngx_http_upstream_check_clean_event conf (shm, p)))"
  using assms by (cases "cp_conn p") (auto simp: ngx_http_upstream_check_clean_event_def peer_ok_def rest_ok_def
      clean_conn_def ctx_data_ok_reinit)

lemma check_finish_ok:
  "ctx_data_ok conf (cp_data p) \<Longrightarrow> peer_ok conf (snd (check_finish conf now r (shm, p)))"
  unfolding check_finish_def prod.case by (rule clean_event_ok)

lemma check_finish_rest:
  "cp_timeout (snd (check_finish conf now r (shm, p))) = False"
  by (simp add: check_finish_def ngx_http_upstream_check_clean_event_def)

lemma conn_failed_simps [simp]:
  "cp_data (conn_failed p) = cp_data p" "cp_state (conn_failed p) = cp_state p"
  "cp_timeout (conn_failed p) = cp_timeout p" "active (conn_failed p) = active p"
  by (auto simp: conn_failed_def active_def)

text \<open>What a handler must do: it returns, and to a state in the invariant.\<close>

definition returns_ok :: "check_conf \<Rightarrow> (check_shm \<times> check_peer) option \<Rightarrow> bool" where
  "returns_ok conf res \<longleftrightarrow> (\<exists>shm p. res = Some (shm, p) \<and> peer_ok conf p)"

lemma returns_ok_Some [simp]: "returns_ok conf (Some sp) \<longleftrightarrow> peer_ok conf (snd sp)"
  by (cases sp) (simp add: returns_ok_def)

lemma returns_ok_None [simp]: "\<not> returns_ok conf None"
  by (simp add: returns_ok_def)

lemma peek_handler_ok:
  "active p \<Longrightarrow> ctx_data_ok conf (cp_data p) \<Longrightarrow>
     returns_ok conf (ngx_http_upstream_check_peek_handler conf now io (shm, p))"
  by (auto simp: ngx_http_upstream_check_peek_handler_def active_def check_finish_ok)

lemma discard_handler_ok:
  "peer_ok conf p \<Longrightarrow> cp_conn p \<noteq> None \<Longrightarrow>
     returns_ok conf (ngx_http_upstream_check_discard_handler conf io (shm, p))"
  using peer_ok_data[of conf p] clean_event_ok[of conf "conn_failed p" shm]
  by (auto simp: ngx_http_upstream_check_discard_handler_def)

lemma timeout_handler_ok:
  "active p \<Longrightarrow> ctx_data_ok conf (cp_data p) \<Longrightarrow>
     returns_ok conf (ngx_http_upstream_check_timeout_handler conf now (shm, p))"
  by (auto simp: ngx_http_upstream_check_timeout_handler_def active_def check_finish_ok)

lemma check_init_ok: "cx_recv (check_init t ctx) = None"
  by (simp add: check_init_def Let_def)

lemma send_handler_ok:
  assumes "active_ok conf p" and "cp_timeout p" and "has_ctx (ck_type conf)"
  shows "returns_ok conf (ngx_http_upstream_check_send_handler conf now io (shm, p))"
proof -
  obtain c where c: "cp_conn p = Some c" "\<not> cc_idle c" using assms(1) by (auto simp: active_ok_def active_def)
  have d: "ctx_data_ok conf (cp_data p)" using assms(1) by (simp add: active_ok_def)
  define ctx where "ctx = (case cp_data p of None \<Rightarrow> check_init (ck_type conf) zero_ctx | Some ctx \<Rightarrow> ctx)"
  have ctx: "ctx_data_ok conf (Some (ctx\<lparr>cx_send_pos := pos\<rparr>))" for pos
    using d assms(3) by (cases "cp_data p") (simp_all add: ctx_def check_init_ok)
  have p: "peer_ok conf p" using assms(1,2) by (simp add: peer_ok_def)
  obtain pos e where loop: "send_loop (cx_send_pos ctx) (length (ck_send conf)) (io_sends io) = (pos, e)"
    by (rule prod.exhaust)
  show ?thesis
    using c d p ctx assms(1,2) loop
    by (cases e) (auto simp: ngx_http_upstream_check_send_handler_def Let_def ctx_def[symmetric] check_finish_ok
        peer_ok_def[of conf "p\<lparr>cp_data := x\<rparr>" for x] peer_ok_def[of conf "p\<lparr>cp_data := x, cp_state := y, cp_conn := z\<rparr>" for x y z]
        active_ok_def active_def)
qed

lemma buf_ok_enlarge: "buf_ok b \<Longrightarrow> buf_ok (enlarge b)"
  by (auto simp: buf_ok_def enlarge_def)

lemma recv_room_ok: "buf_ok b \<Longrightarrow> recv_room palloc b = Some b' \<Longrightarrow> buf_ok b'"
  by (auto simp: recv_room_def buf_ok_enlarge split: if_splits)

lemma recv_loop_ok: "buf_ok b \<Longrightarrow> buf_ok (fst (recv_loop palloc b answers))"
proof (induction palloc b answers rule: recv_loop.induct)
  case (1 palloc b answers)
  show ?case
  proof (cases "recv_room palloc b")
    case None
    then show ?thesis using 1(2) by (simp add: recv_loop.simps[of palloc b])
  next
    case (Some b')
    then have b': "buf_ok b'" using recv_room_ok 1(2) by blast
    show ?thesis
    proof (cases answers)
      case Nil
      then show ?thesis using Some b' by (simp add: recv_loop.simps[of palloc b])
    next
      case (Cons a rest)
      show ?thesis
      proof (cases a)
        case (RECV bs)
        define n where "n = rb_cap b' - length (rb_data b')"
        have "buf_ok (b'\<lparr>rb_data := rb_data b' @ take n bs\<rparr>)"
          using b' by (auto simp: buf_ok_def n_def)
        then show ?thesis
          using 1(1)[OF Some Cons RECV n_def refl] Some Cons RECV b'
          by (cases "take n bs = []") (simp_all add: recv_loop.simps[of palloc b] n_def[symmetric] Let_def)
      qed (use Some Cons b' in \<open>simp_all add: recv_loop.simps[of palloc b]\<close>)
    qed
  qed
qed

lemma check_line_pos:
  assumes "pos \<le> length buf"
  shows "snd (snd (ngx_http_upstream_check_parse_status_line buf pos x)) \<le> length buf"
proof -
  obtain v q where v: "scan check_status_line_step buf pos x = (v, q)" by (rule prod.exhaust)
  have "q \<le> length buf" using scan_pos_le[OF assms, of check_status_line_step x] by (simp add: v)
  moreover have "q < length buf" if "v = Done s rc" for s rc
    using scan_Done_less[of check_status_line_step buf pos x s rc q] v that by simp
  ultimately show ?thesis
    using assms by (cases v) (auto simp: ngx_http_upstream_check_parse_status_line_def v)
qed

lemma http_parse_ok:
  assumes "buf_ok b" and "ngx_http_upstream_check_http_parse conf b x = (rc, b', x', failed)"
  shows "buf_ok b'"
  using assms check_line_pos[of "rb_pos b" "rb_data b" x]
  by (auto simp: ngx_http_upstream_check_http_parse_def Let_def buf_ok_def split: if_splits prod.splits)

lemma check_parse_ok:
  "buf_ok b \<Longrightarrow> check_parse conf b x = (rc, b', x', failed) \<Longrightarrow> buf_ok b'"
  by (auto simp: check_parse_def split: check_type.splits dest: http_parse_ok)

lemma recv_handler_ok:
  assumes "active_ok conf p" and "cp_timeout p" and "2 \<le> pagesize"
  shows "returns_ok conf (ngx_http_upstream_check_recv_handler pagesize conf now io (shm, p))"
proof (cases "cp_state p = CHECK_SEND_DONE")
  case False
  have "peer_ok conf p" "ctx_data_ok conf (cp_data p)" "cp_conn p \<noteq> None"
    using assms(1,2) by (auto simp: peer_ok_def active_ok_def active_def)
  with False show ?thesis by (auto simp: ngx_http_upstream_check_recv_handler_def check_finish_ok)
next
  case True
  obtain c where c: "cp_conn p = Some c" "\<not> cc_idle c" using assms(1) by (auto simp: active_ok_def active_def)
  obtain ctx where ctx: "cp_data p = Some ctx" using assms(1) True by (auto simp: active_ok_def)
  then have d: "ctx_data_ok conf (Some ctx)" using assms(1) by (simp add: active_ok_def)
  define b where "b = (case cx_recv ctx of None \<Rightarrow> first_buf pagesize | Some b \<Rightarrow> b)"
  have "buf_ok b"
    using d assms(3) by (cases "cx_recv ctx") (auto simp: b_def buf_ok_def first_buf_def)
  obtain b1 e where loop: "recv_loop (io_palloc io) b (io_recvs io) = (b1, e)" by (rule prod.exhaust)
  have b1: "buf_ok b1" using recv_loop_ok[OF \<open>buf_ok b\<close>] loop by (metis fst_conv)
  obtain rc b2 x2 failed where parse: "check_parse conf b1 (cx_line ctx) = (rc, b2, x2, failed)"
    by (rule prod_cases4)
  have b2: "buf_ok b2" using check_parse_ok[OF b1 parse] .
  have d1: "ctx_data_ok conf (Some (ctx\<lparr>cx_recv := Some b1\<rparr>))"
    and d2: "ctx_data_ok conf (Some (ctx\<lparr>cx_recv := Some b2, cx_line := x2\<rparr>))"
    using d b1 b2 by simp_all
  let ?p2 = "p\<lparr>cp_data := Some (ctx\<lparr>cx_recv := Some b2, cx_line := x2\<rparr>)\<rparr>"
  have later: "peer_ok conf (if failed then conn_failed ?p2 else ?p2)"
    using d2 c assms(2) True by (auto simp: peer_ok_def active_ok_def active_def conn_failed_def)
  show ?thesis
    using True c ctx d d1 d2 later
    by (cases e) (simp_all add: ngx_http_upstream_check_recv_handler_def b_def[symmetric] loop parse Let_def
        check_finish_ok)
qed

lemma has_ctx_iff: "has_ctx t \<longleftrightarrow> t \<noteq> CHECK_TCP"
  by (simp add: has_ctx_def)

lemma write_handler_ok:
  assumes "active_ok conf p" and "cp_timeout p"
  shows "returns_ok conf (check_write_handler conf now io (shm, p))"
  using assms peek_handler_ok[of p conf now io shm] send_handler_ok[of conf p now io shm]
  by (cases "ck_type conf") (simp_all add: check_write_handler_def has_ctx_iff active_ok_def)

lemma read_handler_ok:
  assumes "active_ok conf p" and "cp_timeout p" and "2 \<le> pagesize"
  shows "returns_ok conf (check_read_handler pagesize conf now io (shm, p))"
  using assms peek_handler_ok[of p conf now io shm] recv_handler_ok[of conf p pagesize now io shm]
  by (cases "ck_type conf") (simp_all add: check_read_handler_def active_ok_def)

lemma connect_done_ok:
  assumes "ctx_data_ok conf (cp_data p)"
  shows "returns_ok conf (connect_done conf now io ok c (shm, p))"
proof -
  let ?p = "p\<lparr>cp_state := CHECK_CONNECT_DONE, cp_conn := Some (c\<lparr>cc_idle := False\<rparr>), cp_timeout := True\<rparr>"
  have "active_ok conf ?p" and "cp_timeout ?p" using assms by (simp_all add: active_ok_def active_def)
  then show ?thesis
    using write_handler_ok[of conf ?p now io shm] by (simp add: connect_done_def peer_ok_def Let_def)
qed

lemma connect_handler_ok:
  assumes "ctx_data_ok conf (cp_data p)"
  shows "returns_ok conf (ngx_http_upstream_check_connect_handler conf now io (shm, p))"
  using assms by (cases "io_connect io"; cases "cp_conn p")
    (simp_all add: ngx_http_upstream_check_connect_handler_def connect_done_ok check_finish_ok)

lemma peer_ok_ev [simp]: "peer_ok conf (p\<lparr>cp_ev_timer := b\<rparr>) = peer_ok conf p"
  by (simp add: peer_ok_def active_ok_def rest_ok_def active_def)

lemma begin_handler_ok:
  assumes "peer_ok conf p"
  shows "returns_ok conf (ngx_http_upstream_check_begin_handler pid gen conf now io (shm, p))"
  using assms peer_ok_data[OF assms]
  by (simp add: ngx_http_upstream_check_begin_handler_def Let_def connect_handler_ok)

text \<open>The state a peer is in when the handler of an enabled event runs.\<close>

definition ready :: "check_conf \<Rightarrow> check_event \<Rightarrow> check_peer \<Rightarrow> bool" where
  "ready conf e p \<longleftrightarrow>
     (case e of EvTimeout i \<Rightarrow> active p \<and> ctx_data_ok conf (cp_data p) | EvCheck i \<Rightarrow> peer_ok conf p
      | _ \<Rightarrow> peer_ok conf p \<and> cp_conn p \<noteq> None)"

lemma expire_ready: "peer_ok conf p \<Longrightarrow> event_enabled e p \<Longrightarrow> ready conf e (expire e p)"
  using peer_ok_timeout[of conf p] peer_ok_data[of conf p]
  by (cases e) (simp_all add: ready_def active_def)

lemma check_handler_ok:
  assumes "ready conf e p" and "2 \<le> pagesize"
  shows "returns_ok conf (check_handler pagesize pid gen conf now io e (shm, p))"
proof (cases e)
  case (EvCheck i)
  then show ?thesis using assms begin_handler_ok by (simp add: ready_def)
next
  case (EvTimeout i)
  then show ?thesis using assms timeout_handler_ok by (simp add: ready_def)
next
  case (EvWrite i)
  then obtain c where c: "cp_conn p = Some c" and p: "peer_ok conf p" using assms(1) by (auto simp: ready_def)
  then have "active_ok conf p \<and> cp_timeout p" if "\<not> cc_idle c"
    using that peer_ok_timeout[OF p] by (auto simp: active_def peer_ok_def)
  then show ?thesis using EvWrite c p write_handler_ok by (simp add: ready_def)
next
  case (EvRead i)
  then obtain c where c: "cp_conn p = Some c" and p: "peer_ok conf p" using assms(1) by (auto simp: ready_def)
  then have "active_ok conf p \<and> cp_timeout p" if "\<not> cc_idle c"
    using that peer_ok_timeout[OF p] by (auto simp: active_def peer_ok_def)
  then show ?thesis
    using EvRead c p read_handler_ok[OF _ _ assms(2)] discard_handler_ok by (simp add: ready_def)
qed

section \<open>What a handler does to the shared record\<close>

text \<open>The part of the record the verdict is made of, and what one result makes of it.\<close>

definition verdict_of :: "check_shm \<Rightarrow> nat \<times> nat \<times> bool" where
  "verdict_of shm = (rise_count shm, fall_count shm, shm_down shm)"

text \<open>A handler reports at most one result; it leaves the users' counters alone.\<close>

definition reports :: "check_conf \<Rightarrow> check_shm \<Rightarrow> check_shm \<Rightarrow> bool list \<Rightarrow> bool" where
  "reports conf shm shm' rs \<longleftrightarrow>
     length rs \<le> 1 \<and>
     verdict_of shm' = verdict_of (foldl (\<lambda>s r. ngx_http_upstream_check_status_update conf 0 r s) shm rs)"

definition reported :: "check_shm \<Rightarrow> check_shm \<Rightarrow> bool list" where
  "reported shm shm' =
    (if rise_count shm < rise_count shm' then [True]
     else if fall_count shm < fall_count shm' then [False] else [])"

lemma status_update_verdict:
  "verdict_of shm = verdict_of shm' \<Longrightarrow>
   verdict_of (ngx_http_upstream_check_status_update conf t r shm) =
   verdict_of (ngx_http_upstream_check_status_update conf t' r shm')"
  by (auto simp: verdict_of_def ngx_http_upstream_check_status_update_def Let_def)

lemma reports_same: "verdict_of shm' = verdict_of shm \<Longrightarrow> reports conf shm shm' (reported shm shm')"
  by (simp add: reports_def reported_def verdict_of_def)

lemma reports_update:
  assumes "verdict_of shm' = verdict_of (ngx_http_upstream_check_status_update conf t r shm)"
  shows "reports conf shm shm' (reported shm shm')"
  using assms by (cases r) (auto simp: reports_def reported_def verdict_of_def
      ngx_http_upstream_check_status_update_def Let_def split: if_splits)

definition one_report :: "check_conf \<Rightarrow> check_shm \<Rightarrow> (check_shm \<times> check_peer) option \<Rightarrow> bool" where
  "one_report conf shm res \<longleftrightarrow> (\<forall>shm' p. res = Some (shm', p) \<longrightarrow> reports conf shm shm' (reported shm shm'))"

lemma one_report_simps [simp]:
  "one_report conf shm None"
  "one_report conf shm (Some (shm, p))"
  by (simp_all add: one_report_def reports_same)

lemma verdict_owner [simp]:
  "verdict_of (shm\<lparr>owner := x\<rparr>) = verdict_of shm" "verdict_of (shm\<lparr>access_time := y\<rparr>) = verdict_of shm"
  by (simp_all add: verdict_of_def)

lemma finish_report:
  "verdict_of shm0 = verdict_of shm \<Longrightarrow> one_report conf shm0 (Some (check_finish conf now r (shm, p)))"
  using status_update_verdict[of shm shm0 conf now r now]
  by (simp add: one_report_def check_finish_def ngx_http_upstream_check_clean_event_def)
    (rule reports_update[where t = now and r = r], simp)

lemma one_report_case_conn:
  "(\<And>c. x = Some c \<Longrightarrow> one_report conf shm (f c)) \<Longrightarrow> one_report conf shm (case x of None \<Rightarrow> None | Some c \<Rightarrow> f c)"
  by (cases x) simp_all

lemma keeps_report: "verdict_of shm0 = verdict_of shm \<Longrightarrow> one_report conf shm0 (Some (shm, p))"
  by (simp add: one_report_def reports_same)

lemma peek_report:
  "verdict_of shm0 = verdict_of shm \<Longrightarrow> one_report conf shm0 (ngx_http_upstream_check_peek_handler conf now io (shm, p))"
  by (simp add: ngx_http_upstream_check_peek_handler_def finish_report)

lemma send_report:
  "verdict_of shm0 = verdict_of shm \<Longrightarrow> one_report conf shm0 (ngx_http_upstream_check_send_handler conf now io (shm, p))"
  by (auto simp: ngx_http_upstream_check_send_handler_def finish_report keeps_report Let_def
      split: option.split prod.split send_end.split)

lemma recv_report:
  "verdict_of shm0 = verdict_of shm \<Longrightarrow>
     one_report conf shm0 (ngx_http_upstream_check_recv_handler pagesize conf now io (shm, p))"
  by (auto simp: ngx_http_upstream_check_recv_handler_def finish_report keeps_report Let_def
      split: option.split prod.split recv_end.split)

lemmas handler_reports = peek_report send_report recv_report finish_report keeps_report

lemma write_report:
  "verdict_of shm0 = verdict_of shm \<Longrightarrow> one_report conf shm0 (check_write_handler conf now io (shm, p))"
  by (cases "ck_type conf") (simp_all add: check_write_handler_def handler_reports)

lemma read_report:
  "verdict_of shm0 = verdict_of shm \<Longrightarrow> one_report conf shm0 (check_read_handler pagesize conf now io (shm, p))"
  by (cases "ck_type conf") (simp_all add: check_read_handler_def handler_reports)

lemma connect_report:
  "verdict_of shm0 = verdict_of shm \<Longrightarrow>
     one_report conf shm0 (ngx_http_upstream_check_connect_handler conf now io (shm, p))"
  by (cases "cp_conn p"; cases "io_connect io")
    (simp_all add: ngx_http_upstream_check_connect_handler_def connect_done_def Let_def write_report handler_reports)

lemma begin_report:
  "one_report conf shm (ngx_http_upstream_check_begin_handler pid gen conf now io (shm, p))"
  by (simp add: ngx_http_upstream_check_begin_handler_def Let_def connect_report keeps_report)

lemma check_handler_report: "one_report conf shm (check_handler pagesize pid gen conf now io e (shm, p))"
proof (cases e)
  case (EvRead i)
  then show ?thesis
    by (auto simp: ngx_http_upstream_check_discard_handler_def ngx_http_upstream_check_clean_event_def
      read_report keeps_report split: option.split)
qed (auto simp: begin_report write_report ngx_http_upstream_check_timeout_handler_def finish_report
    split: option.split)

end
