(* ===== verification/UpstreamCheckSystem.thy ===== *)
theory UpstreamCheckSystem
  imports UpstreamCheckInv
begin

text \<open>
  The workers and the shared records together: the steps of the system, its invariant by rule
  induction, the meaning of the down flag in terms of the results reported so far, and what becomes
  of a check that is due and of one that hangs.
\<close>

section \<open>The transition system\<close>

record check_system =
  cs_shms :: check_shms
  cs_workers :: "check_worker list"

definition new_worker :: "check_conf list \<Rightarrow> nat \<Rightarrow> pid \<Rightarrow> check_worker" where
  "new_worker confs gen p = \<lparr> wk_pid = p, wk_generation = gen, wk_exit = False, wk_cleared = False,
     wk_peers = map check_new_peer confs \<rparr>"

text \<open>The shared records of a first start, with the configured \<^verbatim>\<open>default_down\<close> of each peer.\<close>

definition init_system :: "bool list \<Rightarrow> check_system" where
  "init_system downs = \<lparr> cs_shms = \<lparr> ps_generation = 1,
     ps_peers = map (ngx_http_upstream_check_init_shm_peer None) downs \<rparr>, cs_workers = [] \<rparr>"

text \<open>\<^verbatim>\<open>ngx_http_upstream_check_init_shm_zone\<close> on a reload that finds the same peers.\<close>

definition ngx_http_upstream_check_init_shm_zone :: "check_shms \<Rightarrow> check_shms" where
  "ngx_http_upstream_check_init_shm_zone ps =
     ps\<lparr>ps_generation := ps_generation ps + 1, ps_peers := map (\<lambda>shm. shm\<lparr>owner := None\<rparr>) (ps_peers ps)\<rparr>"

inductive check_step :: "nat \<Rightarrow> check_conf list \<Rightarrow> check_system \<Rightarrow> check_system \<Rightarrow> bool"
  for pagesize :: nat and confs :: "check_conf list" where
  event: "w < length (cs_workers s) \<Longrightarrow> event_peer e < length confs \<Longrightarrow>
     event_enabled e (wk_peers (cs_workers s ! w) ! event_peer e) \<Longrightarrow>
     handle_event pagesize confs now io e (cs_shms s, cs_workers s ! w) = Some (ps, wk) \<Longrightarrow>
     check_step pagesize confs s (s\<lparr>cs_shms := ps, cs_workers := (cs_workers s)[w := wk]\<rparr>)"
| quit: "w < length (cs_workers s) \<Longrightarrow>
     check_step pagesize confs s (s\<lparr>cs_workers := (cs_workers s)[w := (cs_workers s ! w)\<lparr>wk_exit := True\<rparr>]\<rparr>)"
| die: "check_step pagesize confs s (s\<lparr>cs_workers := take w (cs_workers s) @ drop (Suc w) (cs_workers s)\<rparr>)"
| start: "p \<notin> set (map wk_pid (cs_workers s)) \<Longrightarrow>
     check_step pagesize confs s
       (s\<lparr>cs_workers := cs_workers s @ [new_worker confs (ps_generation (cs_shms s)) p]\<rparr>)"
| reload: "check_step pagesize confs s (s\<lparr>cs_shms := ngx_http_upstream_check_init_shm_zone (cs_shms s)\<rparr>)"
| pick: "check_step pagesize confs s
     (s\<lparr>cs_shms := (cs_shms s)\<lparr>ps_peers := ngx_http_upstream_check_get_peer (ps_peers (cs_shms s)) i\<rparr>\<rparr>)"
| release: "check_step pagesize confs s
     (s\<lparr>cs_shms := (cs_shms s)\<lparr>ps_peers := ngx_http_upstream_check_free_peer (ps_peers (cs_shms s)) i\<rparr>\<rparr>)"

inductive_cases check_stepE: "check_step pagesize confs s s'"

abbreviation shm_of :: "check_system \<Rightarrow> nat \<Rightarrow> check_shm" where
  "shm_of s i \<equiv> ps_peers (cs_shms s) ! i"

text \<open>The reachable states, with the results reported so far for each peer.\<close>

inductive check_reach :: "nat \<Rightarrow> check_conf list \<Rightarrow> bool list \<Rightarrow> check_system \<Rightarrow> (nat \<Rightarrow> bool list) \<Rightarrow> bool"
  for pagesize :: nat and confs :: "check_conf list" and downs :: "bool list" where
  init: "length downs = length confs \<Longrightarrow> check_reach pagesize confs downs (init_system downs) (\<lambda>i. [])"
| step: "check_reach pagesize confs downs s h \<Longrightarrow> check_step pagesize confs s s' \<Longrightarrow>
     check_reach pagesize confs downs s' (\<lambda>i. h i @ reported (shm_of s i) (shm_of s' i))"

section \<open>The invariant\<close>

definition quiet :: "check_peer \<Rightarrow> bool" where
  "quiet p \<longleftrightarrow> \<not> cp_ev_timer p \<and> \<not> cp_timeout p \<and> cp_conn p = None"

definition worker_ok :: "check_conf list \<Rightarrow> check_worker \<Rightarrow> bool" where
  "worker_ok confs w \<longleftrightarrow> length (wk_peers w) = length confs \<and>
     (\<forall>i < length confs. if wk_cleared w then quiet (wk_peers w ! i) else peer_ok (confs ! i) (wk_peers w ! i))"

definition system_ok :: "check_conf list \<Rightarrow> check_system \<Rightarrow> bool" where
  "system_ok confs s \<longleftrightarrow> length (ps_peers (cs_shms s)) = length confs \<and> list_all (worker_ok confs) (cs_workers s)"

lemma new_peer_ok: "peer_ok conf (check_new_peer conf)"
  by (simp add: check_new_peer_def peer_ok_def rest_ok_def)

lemma new_worker_ok: "worker_ok confs (new_worker confs gen p)"
  by (simp add: new_worker_def worker_ok_def new_peer_ok)

lemma not_quiet: "event_enabled e p \<Longrightarrow> \<not> quiet p"
  by (cases e) (auto simp: quiet_def)

lemma worker_ok_cleared: "worker_ok confs w \<Longrightarrow> worker_ok confs (w\<lparr>wk_exit := True\<rparr>)"
  by (simp add: worker_ok_def)

lemma worker_ok_update:
  "worker_ok confs w \<Longrightarrow> \<not> wk_cleared w \<Longrightarrow> peer_ok (confs ! i) p \<Longrightarrow>
     worker_ok confs (w\<lparr>wk_peers := (wk_peers w)[i := p]\<rparr>)"
  by (cases "i < length (wk_peers w)") (auto simp: worker_ok_def nth_list_update list_update_beyond)

lemma clear_all_ok:
  assumes "length (wk_peers w) = length confs" and "\<not> wk_cleared w"
  shows "worker_ok confs (ngx_http_upstream_check_clear_all_events w)"
  using assms by (simp add: ngx_http_upstream_check_clear_all_events_def worker_ok_def clear_peer_def quiet_def)

text \<open>An event that nginx can deliver is handled, and the worker stays in the invariant.\<close>

lemma handle_event_ok:
  assumes "worker_ok confs w" and "event_peer e < length confs" and "event_enabled e (wk_peers w ! event_peer e)"
    and "2 \<le> pagesize"
  shows "\<exists>ps' w'. handle_event pagesize confs now io e (ps, w) = Some (ps', w') \<and> worker_ok confs w' \<and>
     length (ps_peers ps') = length (ps_peers ps)"
proof -
  let ?i = "event_peer e" and ?p = "wk_peers w ! event_peer e"
  have live: "\<not> wk_cleared w" using assms(1-3) not_quiet[of e ?p] by (auto simp: worker_ok_def)
  have i: "?i < length (wk_peers w)" using assms(1,2) by (simp add: worker_ok_def)
  have p: "peer_ok (confs ! ?i) ?p" using assms(1,2) live by (simp add: worker_ok_def)
  then have "ready (confs ! ?i) e (expire e ?p)" using assms(3) by (rule expire_ready)
  from check_handler_ok[OF this assms(4)]
  obtain shm p' where h: "check_handler pagesize (wk_pid w) (ps_generation ps = wk_generation w) (confs ! ?i) now io e
      (ps_peers ps ! ?i, expire e ?p) = Some (shm, p')" and p': "peer_ok (confs ! ?i) p'"
    unfolding returns_ok_def by blast
  have w: "worker_ok confs (w\<lparr>wk_peers := (wk_peers w)[?i := p']\<rparr>)"
    using worker_ok_update[OF assms(1) live p'] .
  have dummy: "expire e ?p = ?p" if "event_is_dummy e (expire e ?p)"
    using that by (cases e) (simp_all add: event_is_dummy_def)
  have cl: "worker_ok confs (ngx_http_upstream_check_clear_all_events (w\<lparr>wk_peers := (wk_peers w)[?i := expire e ?p]\<rparr>))"
    using assms(1) live by (intro clear_all_ok) (simp_all add: worker_ok_def)
  show ?thesis
    using h w assms(1) cl dummy by (auto simp: handle_event_def Let_def list_update_id)
qed

lemma system_ok_step:
  assumes "check_step pagesize confs s s'" and "system_ok confs s" and "2 \<le> pagesize"
  shows "system_ok confs s'"
  using assms
proof (induction rule: check_step.induct)
  case (event w s e now io ps wk)
  then have "worker_ok confs (cs_workers s ! w)" by (simp add: system_ok_def list_all_length)
  from handle_event_ok[OF this event(2,3,6), of now io "cs_shms s"] event(4)
  have "worker_ok confs wk" "length (ps_peers ps) = length (ps_peers (cs_shms s))" by auto
  with event(1,5) show ?case by (auto simp: system_ok_def list_all_length nth_list_update)
next
  case (quit w s)
  then show ?case by (auto simp: system_ok_def list_all_length nth_list_update worker_ok_cleared)
next
  case (die s w)
  then show ?case
    by (auto simp: system_ok_def list_all_iff dest: in_set_takeD in_set_dropD)
next
  case (start p s)
  then show ?case by (simp add: system_ok_def new_worker_ok)
next
  case (reload s)
  then show ?case by (simp add: system_ok_def ngx_http_upstream_check_init_shm_zone_def)
next
  case (pick s i)
  then show ?case by (simp add: system_ok_def ngx_http_upstream_check_get_peer_def)
next
  case (release s i)
  then show ?case by (simp add: system_ok_def ngx_http_upstream_check_free_peer_def)
qed

lemma reach_ok:
  "check_reach pagesize confs downs s h \<Longrightarrow> 2 \<le> pagesize \<Longrightarrow> system_ok confs s \<and> length downs = length confs"
proof (induction rule: check_reach.induct)
  case init
  then show ?case by (simp add: init_system_def system_ok_def)
next
  case (step s h s')
  then show ?case using system_ok_step by blast
qed

section \<open>The results reported and the down flag\<close>







text \<open>The specification: the length of the last streak of equal results, and the verdict as a
  statement about the history.\<close>

definition streak :: "bool \<Rightarrow> bool list \<Rightarrow> nat" where
  "streak r rs = length (takeWhile (\<lambda>x. x = r) (rev rs))"

lemma streak_simps [simp]: "streak r [] = 0" "streak r (rs @ [x]) = (if x = r then Suc (streak r rs) else 0)"
  by (simp_all add: streak_def)




section \<open>Answers that come in pieces\<close>



section \<open>Starting and ending a check\<close>





lemma conn_failed_ev [simp]: "cp_ev_timer (conn_failed p) = cp_ev_timer p"
  by (simp add: conn_failed_def)




text \<open>The timer of a peer ticking, at whatever times.\<close>

fun check_ticks :: "pid \<Rightarrow> bool \<Rightarrow> check_conf \<Rightarrow> (u64 \<times> check_io) list \<Rightarrow> check_shm \<times> check_peer \<Rightarrow>
    (check_shm \<times> check_peer) option" where
  "check_ticks p gen conf [] sp = Some sp"
| "check_ticks p gen conf ((now, io) # ts) sp =
     Option.bind (ngx_http_upstream_check_begin_handler p gen conf now io sp) (check_ticks p gen conf ts)"

lemma ticks_held:
  assumes "cp_conn p = Some c"
  shows "\<exists>p'. check_ticks pd gen conf ts (shm, p) = Some (shm, p') \<and> cp_conn p' = Some c"
  using assms
proof (induction ts arbitrary: p)
  case (Cons t ts)
  obtain now io where t: "t = (now, io)" by (cases t)
  have "ngx_http_upstream_check_begin_handler pd gen conf now io (shm, p) = Some (shm, p\<lparr>cp_ev_timer := True\<rparr>)"
    using Cons.prems by (simp add: ngx_http_upstream_check_begin_handler_def)
  then show ?case using Cons.IH[of "p\<lparr>cp_ev_timer := True\<rparr>"] Cons.prems by (simp add: t)
qed simp

section \<open>A small system\<close>

definition demo_conf :: check_conf where
  "demo_conf = \<lparr> ck_type = CHECK_TCP, ck_fall = 1, ck_rise = 2, ck_interval = 1000, ck_keepalive_requests = 1,
     ck_send = [], ck_status_alive = 0 \<rparr>"

definition demo_io :: check_io where
  "demo_io = \<lparr> io_connect = CONN_FAIL, io_peek = True, io_write_event = True, io_read_event = True, io_calloc = True,
     io_palloc = (\<lambda>_. True), io_sends = [], io_recvs = [] \<rparr>"

text \<open>One worker over one peer; then the same after a check whose connection was refused.\<close>

definition demo_system :: "bool list \<Rightarrow> check_system" where
  "demo_system downs = (init_system downs)\<lparr>cs_workers := [new_worker [demo_conf] 1 7]\<rparr>"

lemma demo_reach: "length downs = 1 \<Longrightarrow> check_reach pagesize [demo_conf] downs (demo_system downs) (\<lambda>i. [])"
proof -
  assume "length downs = 1"
  then have "check_reach pagesize [demo_conf] downs (init_system downs) (\<lambda>i. [])" by (intro check_reach.init) simp
  moreover have "check_step pagesize [demo_conf] (init_system downs) (demo_system downs)"
    using check_step.start[of 7 "init_system downs" pagesize "[demo_conf]"] by (simp add: demo_system_def init_system_def)
  ultimately have "check_reach pagesize [demo_conf] downs (demo_system downs)
      (\<lambda>i. [] @ reported (shm_of (init_system downs) i) (shm_of (demo_system downs) i))"
    by (rule check_reach.step)
  moreover have "reported (shm_of (init_system downs) i) (shm_of (demo_system downs) i) = []" for i
    by (simp add: demo_system_def reported_def)
  ultimately show ?thesis by simp
qed


section \<open>Properties\<close>

text \<open>
  C2: The handlers of the health checks never dereference a null pointer. In every reachable state of
  any number of workers, whatever the system calls return and in whatever order events come, each
  event nginx can deliver is handled to its end; and a worker's timeout is armed exactly while it
  has a connection under check, so that no check can hang.
\<close>

theorem check_handlers_safe:
  assumes "check_reach pagesize confs downs s h" and "2 \<le> pagesize" and "w < length (cs_workers s)"
  shows "(\<forall>e now io. event_peer e < length confs \<and> event_enabled e (wk_peers (cs_workers s ! w) ! event_peer e) \<longrightarrow>
       handle_event pagesize confs now io e (cs_shms s, cs_workers s ! w) \<noteq> None) \<and>
    (\<forall>i < length confs. cp_timeout (wk_peers (cs_workers s ! w) ! i) \<longleftrightarrow>
       (\<exists>c. cp_conn (wk_peers (cs_workers s ! w) ! i) = Some c \<and> \<not> cc_idle c))"
proof (intro conjI allI impI; (elim conjE)?)
  have ok: "worker_ok confs (cs_workers s ! w)"
    using reach_ok[OF assms(1,2)] assms(3) by (simp add: system_ok_def list_all_length)
  show "handle_event pagesize confs now io e (cs_shms s, cs_workers s ! w) \<noteq> None"
    if "event_peer e < length confs" and "event_enabled e (wk_peers (cs_workers s ! w) ! event_peer e)" for e now io
    using handle_event_ok[OF ok that assms(2), of now io "cs_shms s"] by auto
  show "cp_timeout (wk_peers (cs_workers s ! w) ! i) \<longleftrightarrow>
       (\<exists>c. cp_conn (wk_peers (cs_workers s ! w) ! i) = Some c \<and> \<not> cc_idle c)" if "i < length confs" for i
    using ok that peer_ok_timeout[of "confs ! i" "wk_peers (cs_workers s ! w) ! i"]
    by (auto simp: worker_ok_def quiet_def active_def split: if_splits)
qed

theorem check_handlers_safe_witness:
  "handle_event 4096 [demo_conf] 5000 demo_io (EvCheck 0) (cs_shms (demo_system [False]), cs_workers (demo_system [False]) ! 0) \<noteq> None"
  using conjunct1[OF check_handlers_safe[OF demo_reach[of "[False]" 4096], of 0]]
  by (auto simp: demo_system_def new_worker_def init_system_def check_new_peer_def dest!: spec[of _ "EvCheck 0"])





text \<open>C6: 
  A TCP check never runs again while the connection it made stays open. After the first check of a peer
  succeeds, the worker keeps the connection, whatever number of requests per connection is
  configured, since a TCP check counts none; and as long as it holds it no tick of the timer, at any
  time, starts a check or changes the shared record.
\<close>

theorem tcp_check_once:
  assumes "ck_type conf = CHECK_TCP" and "0 < ck_keepalive_requests conf" and "io_peek io"
    and "cp_conn p = Some check_new_conn"
  shows "\<exists>shm' p' c. check_write_handler conf now io (shm, p) = Some (shm', p') \<and>
     verdict_of shm' = verdict_of (ngx_http_upstream_check_status_update conf now True shm) \<and> cp_conn p' = Some c \<and>
     (\<forall>pd gen ts. \<exists>p''. check_ticks pd gen conf ts (shm', p') = Some (shm', p'') \<and> cp_conn p'' = Some c)"
proof -
  obtain shm' p' where h: "check_write_handler conf now io (shm, p) = Some (shm', p')"
      and c: "cp_conn p' = Some (check_new_conn\<lparr>cc_idle := True\<rparr>)"
      and v: "shm' = (ngx_http_upstream_check_status_update conf now True shm)\<lparr>owner := None\<rparr>"
    using assms by (simp add: check_write_handler_def ngx_http_upstream_check_peek_handler_def check_finish_def
        ngx_http_upstream_check_clean_event_def clean_conn_def check_new_conn_def need_keepalive_def)
  show ?thesis
    using h c v ticks_held[OF c] by (intro exI[of _ shm'] exI[of _ p'] exI[of _ "check_new_conn\<lparr>cc_idle := True\<rparr>"]) simp
qed

theorem tcp_check_once_witness:
  "\<exists>shm' p'. check_write_handler demo_conf 5000 demo_io
       (ngx_http_upstream_check_init_shm_peer None False, (check_new_peer demo_conf)\<lparr>cp_conn := Some check_new_conn\<rparr>) =
       Some (shm', p') \<and>
     (\<exists>p''. check_ticks 7 True demo_conf [(70000, demo_io), (100000, demo_io)] (shm', p') = Some (shm', p''))"
  using tcp_check_once[of demo_conf demo_io "(check_new_peer demo_conf)\<lparr>cp_conn := Some check_new_conn\<rparr>" 5000]
  by (fastforce simp: demo_conf_def demo_io_def)



end
