(* ===== verification/RbTree.thy ===== *)
theory RbTree
  imports Prelude "HOL-Library.Tree"
begin

text \<open>
  The red-black tree of \<^verbatim>\<open>src/core/ngx_rbtree.c\<close> and \<^verbatim>\<open>ngx_rbtree.h\<close>, which holds the timers and the
  nodes of the shared memory zones. The nodes are in a heap, an address is a number, and every pointer that
  the code writes is written here, in the code's order, also the parent of the sentinel, which
  the removal of a node uses. The section on trees in the heap relates a heap to an abstract tree with the
  addresses and the colours of its nodes; a place inside the tree is a tree with the frames above it.
\<close>

section \<open>Nodes in a heap\<close>

type_synonym addr = nat

abbreviation NULL :: addr where "NULL \<equiv> 0"

record rb_node =
  rb_key :: u64
  rb_left :: addr
  rb_right :: addr
  rb_parent :: addr
  rb_red :: bool

type_synonym rb_heap = "addr \<Rightarrow> rb_node"

text \<open>The assignments to a field of a node.\<close>

definition set_left :: "addr \<Rightarrow> addr \<Rightarrow> rb_heap \<Rightarrow> rb_heap" where
  "set_left a v h = h(a := (h a)\<lparr>rb_left := v\<rparr>)"

definition set_right :: "addr \<Rightarrow> addr \<Rightarrow> rb_heap \<Rightarrow> rb_heap" where
  "set_right a v h = h(a := (h a)\<lparr>rb_right := v\<rparr>)"

definition set_parent :: "addr \<Rightarrow> addr \<Rightarrow> rb_heap \<Rightarrow> rb_heap" where
  "set_parent a v h = h(a := (h a)\<lparr>rb_parent := v\<rparr>)"

definition set_red :: "addr \<Rightarrow> bool \<Rightarrow> rb_heap \<Rightarrow> rb_heap" where
  "set_red a v h = h(a := (h a)\<lparr>rb_red := v\<rparr>)"

definition set_key :: "addr \<Rightarrow> u64 \<Rightarrow> rb_heap \<Rightarrow> rb_heap" where
  "set_key a v h = h(a := (h a)\<lparr>rb_key := v\<rparr>)"

lemma set_fields [simp]:
  "rb_left (set_left a v h x) = (if x = a then v else rb_left (h x))"
  "rb_right (set_left a v h x) = rb_right (h x)"
  "rb_parent (set_left a v h x) = rb_parent (h x)"
  "rb_red (set_left a v h x) = rb_red (h x)"
  "rb_key (set_left a v h x) = rb_key (h x)"
  "rb_left (set_right a v h x) = rb_left (h x)"
  "rb_right (set_right a v h x) = (if x = a then v else rb_right (h x))"
  "rb_parent (set_right a v h x) = rb_parent (h x)"
  "rb_red (set_right a v h x) = rb_red (h x)"
  "rb_key (set_right a v h x) = rb_key (h x)"
  "rb_left (set_parent a v h x) = rb_left (h x)"
  "rb_right (set_parent a v h x) = rb_right (h x)"
  "rb_parent (set_parent a v h x) = (if x = a then v else rb_parent (h x))"
  "rb_red (set_parent a v h x) = rb_red (h x)"
  "rb_key (set_parent a v h x) = rb_key (h x)"
  "rb_left (set_red a c h x) = rb_left (h x)"
  "rb_right (set_red a c h x) = rb_right (h x)"
  "rb_parent (set_red a c h x) = rb_parent (h x)"
  "rb_red (set_red a c h x) = (if x = a then c else rb_red (h x))"
  "rb_key (set_red a c h x) = rb_key (h x)"
  "rb_left (set_key a k h x) = rb_left (h x)"
  "rb_right (set_key a k h x) = rb_right (h x)"
  "rb_parent (set_key a k h x) = rb_parent (h x)"
  "rb_red (set_key a k h x) = rb_red (h x)"
  "rb_key (set_key a k h x) = (if x = a then k else rb_key (h x))"
  by (simp_all add: set_left_def set_right_def set_parent_def set_red_def set_key_def)

lemma set_other [simp]:
  "x \<noteq> a \<Longrightarrow> set_left a v h x = h x" "x \<noteq> a \<Longrightarrow> set_right a v h x = h x" "x \<noteq> a \<Longrightarrow> set_parent a v h x = h x"
  "x \<noteq> a \<Longrightarrow> set_red a c h x = h x" "x \<noteq> a \<Longrightarrow> set_key a k h x = h x"
  by (simp_all add: set_left_def set_right_def set_parent_def set_red_def set_key_def)

section \<open>The code\<close>

text \<open>\<^verbatim>\<open>ngx_rbtree_min\<close> and the walk up in \<^verbatim>\<open>ngx_rbtree_next\<close>.\<close>

partial_function (option) ngx_rbtree_min :: "rb_heap \<Rightarrow> addr \<Rightarrow> addr \<Rightarrow> addr option" where
  "ngx_rbtree_min h node sentinel =
    (if rb_left (h node) \<noteq> sentinel then ngx_rbtree_min h (rb_left (h node)) sentinel else Some node)"

partial_function (option) next_up :: "rb_heap \<Rightarrow> addr \<Rightarrow> addr \<Rightarrow> addr option" where
  "next_up h root node =
    (let parent = rb_parent (h node) in
     if node = root then Some NULL
     else if node = rb_left (h parent) then Some parent
     else next_up h root parent)"

definition ngx_rbtree_next :: "rb_heap \<Rightarrow> addr \<Rightarrow> addr \<Rightarrow> addr \<Rightarrow> addr option" where
  "ngx_rbtree_next h root sentinel node =
    (if rb_right (h node) \<noteq> sentinel then ngx_rbtree_min h (rb_right (h node)) sentinel
     else next_up h root node)"

text \<open>The rotations, on the root pointer and the heap.\<close>

definition ngx_rbtree_left_rotate :: "addr \<Rightarrow> addr \<Rightarrow> addr \<times> rb_heap \<Rightarrow> addr \<times> rb_heap" where
  "ngx_rbtree_left_rotate sentinel node tree =
    (let (root, h) = tree;
         temp = rb_right (h node);
         h = set_right node (rb_left (h temp)) h;
         h = (if rb_left (h temp) \<noteq> sentinel then set_parent (rb_left (h temp)) node h else h);
         h = set_parent temp (rb_parent (h node)) h;
         (root, h) =
           (if node = root then (temp, h)
            else if node = rb_left (h (rb_parent (h node))) then (root, set_left (rb_parent (h node)) temp h)
            else (root, set_right (rb_parent (h node)) temp h));
         h = set_left temp node h
     in (root, set_parent node temp h))"

definition ngx_rbtree_right_rotate :: "addr \<Rightarrow> addr \<Rightarrow> addr \<times> rb_heap \<Rightarrow> addr \<times> rb_heap" where
  "ngx_rbtree_right_rotate sentinel node tree =
    (let (root, h) = tree;
         temp = rb_left (h node);
         h = set_left node (rb_right (h temp)) h;
         h = (if rb_right (h temp) \<noteq> sentinel then set_parent (rb_right (h temp)) node h else h);
         h = set_parent temp (rb_parent (h node)) h;
         (root, h) =
           (if node = root then (temp, h)
            else if node = rb_right (h (rb_parent (h node))) then (root, set_right (rb_parent (h node)) temp h)
            else (root, set_left (rb_parent (h node)) temp h));
         h = set_right temp node h
     in (root, set_parent node temp h))"

text \<open>The functions that a tree is given to find the place of a new node differ in the comparison.\<close>

definition rb_attach :: "addr \<Rightarrow> bool \<Rightarrow> addr \<Rightarrow> addr \<Rightarrow> rb_heap \<Rightarrow> rb_heap" where
  "rb_attach temp leftwards node sentinel h =
    (let h = (if leftwards then set_left temp node h else set_right temp node h);
         h = set_parent node temp h;
         h = set_left node sentinel h;
         h = set_right node sentinel h
     in set_red node True h)"

partial_function (option) rb_insert_loop ::
    "(rb_heap \<Rightarrow> addr \<Rightarrow> addr \<Rightarrow> bool) \<Rightarrow> addr \<Rightarrow> addr \<Rightarrow> addr \<Rightarrow> rb_heap \<Rightarrow> rb_heap option" where
  "rb_insert_loop below temp node sentinel h =
    (let leftwards = below h node temp; p = (if leftwards then rb_left (h temp) else rb_right (h temp)) in
     if p = sentinel then Some (rb_attach temp leftwards node sentinel h)
     else rb_insert_loop below p node sentinel h)"

definition key_below :: "rb_heap \<Rightarrow> addr \<Rightarrow> addr \<Rightarrow> bool" where
  "key_below h node temp \<longleftrightarrow> rb_key (h node) < rb_key (h temp)"

definition timer_below :: "rb_heap \<Rightarrow> addr \<Rightarrow> addr \<Rightarrow> bool" where
  "timer_below h node temp \<longleftrightarrow> sint (rb_key (h node) - rb_key (h temp)) < 0"

definition ngx_rbtree_insert_value :: "addr \<Rightarrow> addr \<Rightarrow> addr \<Rightarrow> rb_heap \<Rightarrow> rb_heap option" where
  "ngx_rbtree_insert_value = rb_insert_loop key_below"

definition ngx_rbtree_insert_timer_value :: "addr \<Rightarrow> addr \<Rightarrow> addr \<Rightarrow> rb_heap \<Rightarrow> rb_heap option" where
  "ngx_rbtree_insert_timer_value = rb_insert_loop timer_below"

text \<open>The loop that re-balances after an insertion: a round for a parent that is a left child, and one for a right child.\<close>

definition insert_left_round :: "addr \<Rightarrow> addr \<Rightarrow> addr \<times> rb_heap \<Rightarrow> addr \<times> addr \<times> rb_heap" where
  "insert_left_round sentinel node tree =
    (let (root, h) = tree; parent = rb_parent (h node); grand = rb_parent (h parent);
         temp = rb_right (h grand) in
     if rb_red (h temp) then
       (grand, root, set_red grand True (set_red temp False (set_red parent False h)))
     else
       let (node, root, h) =
             (if node = rb_right (h parent)
              then (parent, ngx_rbtree_left_rotate sentinel parent (root, h)) else (node, root, h));
           h = set_red (rb_parent (h node)) False h;
           h = set_red (rb_parent (h (rb_parent (h node)))) True h
       in (node, ngx_rbtree_right_rotate sentinel (rb_parent (h (rb_parent (h node)))) (root, h)))"

definition insert_right_round :: "addr \<Rightarrow> addr \<Rightarrow> addr \<times> rb_heap \<Rightarrow> addr \<times> addr \<times> rb_heap" where
  "insert_right_round sentinel node tree =
    (let (root, h) = tree; parent = rb_parent (h node); grand = rb_parent (h parent);
         temp = rb_left (h grand) in
     if rb_red (h temp) then
       (grand, root, set_red grand True (set_red temp False (set_red parent False h)))
     else
       let (node, root, h) =
             (if node = rb_left (h parent)
              then (parent, ngx_rbtree_right_rotate sentinel parent (root, h)) else (node, root, h));
           h = set_red (rb_parent (h node)) False h;
           h = set_red (rb_parent (h (rb_parent (h node)))) True h
       in (node, ngx_rbtree_left_rotate sentinel (rb_parent (h (rb_parent (h node)))) (root, h)))"

partial_function (option) insert_fixup :: "addr \<Rightarrow> addr \<Rightarrow> addr \<times> rb_heap \<Rightarrow> (addr \<times> rb_heap) option" where
  "insert_fixup sentinel node tree =
    (case tree of (root, h) \<Rightarrow>
       if node \<noteq> root \<and> rb_red (h (rb_parent (h node))) then
         (case (if rb_parent (h node) = rb_left (h (rb_parent (h (rb_parent (h node)))))
                then insert_left_round sentinel node (root, h)
                else insert_right_round sentinel node (root, h))
          of (node, tree) \<Rightarrow> insert_fixup sentinel node tree)
       else Some (root, h))"

definition ngx_rbtree_insert ::
    "(addr \<Rightarrow> addr \<Rightarrow> addr \<Rightarrow> rb_heap \<Rightarrow> rb_heap option) \<Rightarrow> addr \<Rightarrow> addr \<Rightarrow> addr \<times> rb_heap \<Rightarrow> (addr \<times> rb_heap) option" where
  "ngx_rbtree_insert insert_fn sentinel node tree =
    (case tree of (root, h) \<Rightarrow>
       if root = sentinel then
         Some (node, set_red node False (set_right node sentinel (set_left node sentinel (set_parent node NULL h))))
       else
         case insert_fn root node sentinel h of
           None \<Rightarrow> None
         | Some h \<Rightarrow> map_option (\<lambda>(root, h). (root, set_red root False h)) (insert_fixup sentinel node (root, h)))"

text \<open>The removal: first the node that takes the place of the removed one, then the re-balancing from the place that lost a black node.\<close>

definition delete_subst :: "addr \<Rightarrow> addr \<Rightarrow> addr \<Rightarrow> addr \<times> rb_heap \<Rightarrow> addr \<Rightarrow> addr \<times> rb_heap" where
  "delete_subst sentinel node subst tree temp =
    (let (root, h) = tree;
         h = set_parent temp (if rb_parent (h subst) = node then subst else rb_parent (h subst)) h;
         h = set_left subst (rb_left (h node)) h;
         h = set_right subst (rb_right (h node)) h;
         h = set_parent subst (rb_parent (h node)) h;
         h = set_red subst (rb_red (h node)) h;
         (root, h) =
           (if node = root then (subst, h)
            else if node = rb_left (h (rb_parent (h node))) then (root, set_left (rb_parent (h node)) subst h)
            else (root, set_right (rb_parent (h node)) subst h));
         h = (if rb_left (h subst) \<noteq> sentinel then set_parent (rb_left (h subst)) subst h else h);
         h = (if rb_right (h subst) \<noteq> sentinel then set_parent (rb_right (h subst)) subst h else h)
     in (root, h))"

definition delete_clear :: "addr \<Rightarrow> rb_heap \<Rightarrow> rb_heap" where
  "delete_clear node h = set_key node 0 (set_parent node NULL (set_right node NULL (set_left node NULL h)))"

text \<open>One round when the short subtree is a left child, and when it is a right one.\<close>

definition delete_left_round :: "addr \<Rightarrow> addr \<Rightarrow> addr \<times> rb_heap \<Rightarrow> addr \<times> addr \<times> rb_heap" where
  "delete_left_round sentinel temp tree =
    (let (root, h) = tree;
         w = rb_right (h (rb_parent (h temp)));
         (root, h) =
           (if rb_red (h w)
            then ngx_rbtree_left_rotate sentinel (rb_parent (h temp)) (root, set_red (rb_parent (h temp)) True (set_red w False h))
            else (root, h));
         w = rb_right (h (rb_parent (h temp)))
     in if \<not> rb_red (h (rb_left (h w))) \<and> \<not> rb_red (h (rb_right (h w)))
        then (rb_parent (h temp), root, set_red w True h)
        else
          let (root, h) =
                (if \<not> rb_red (h (rb_right (h w)))
                 then ngx_rbtree_right_rotate sentinel w (root, set_red w True (set_red (rb_left (h w)) False h))
                 else (root, h));
              w = rb_right (h (rb_parent (h temp)));
              h = set_red w (rb_red (h (rb_parent (h temp)))) h;
              h = set_red (rb_parent (h temp)) False h;
              h = set_red (rb_right (h w)) False h;
              (root, h) = ngx_rbtree_left_rotate sentinel (rb_parent (h temp)) (root, h)
          in (root, root, h))"

definition delete_right_round :: "addr \<Rightarrow> addr \<Rightarrow> addr \<times> rb_heap \<Rightarrow> addr \<times> addr \<times> rb_heap" where
  "delete_right_round sentinel temp tree =
    (let (root, h) = tree;
         w = rb_left (h (rb_parent (h temp)));
         (root, h) =
           (if rb_red (h w)
            then ngx_rbtree_right_rotate sentinel (rb_parent (h temp)) (root, set_red (rb_parent (h temp)) True (set_red w False h))
            else (root, h));
         w = rb_left (h (rb_parent (h temp)))
     in if \<not> rb_red (h (rb_left (h w))) \<and> \<not> rb_red (h (rb_right (h w)))
        then (rb_parent (h temp), root, set_red w True h)
        else
          let (root, h) =
                (if \<not> rb_red (h (rb_left (h w)))
                 then ngx_rbtree_left_rotate sentinel w (root, set_red w True (set_red (rb_right (h w)) False h))
                 else (root, h));
              w = rb_left (h (rb_parent (h temp)));
              h = set_red w (rb_red (h (rb_parent (h temp)))) h;
              h = set_red (rb_parent (h temp)) False h;
              h = set_red (rb_left (h w)) False h;
              (root, h) = ngx_rbtree_right_rotate sentinel (rb_parent (h temp)) (root, h)
          in (root, root, h))"

partial_function (option) delete_fixup :: "addr \<Rightarrow> addr \<Rightarrow> addr \<times> rb_heap \<Rightarrow> (addr \<times> addr \<times> rb_heap) option" where
  "delete_fixup sentinel temp tree =
    (case tree of (root, h) \<Rightarrow>
       if temp \<noteq> root \<and> \<not> rb_red (h temp) then
         (case (if temp = rb_left (h (rb_parent (h temp)))
                then delete_left_round sentinel temp (root, h)
                else delete_right_round sentinel temp (root, h))
          of (temp, tree) \<Rightarrow> delete_fixup sentinel temp tree)
       else Some (temp, root, h))"

definition ngx_rbtree_delete :: "addr \<Rightarrow> addr \<Rightarrow> addr \<times> rb_heap \<Rightarrow> (addr \<times> rb_heap) option" where
  "ngx_rbtree_delete sentinel node tree =
    (case tree of (root, h) \<Rightarrow>
       case (if rb_left (h node) = sentinel then Some (rb_right (h node), node)
             else if rb_right (h node) = sentinel then Some (rb_left (h node), node)
             else map_option (\<lambda>subst. (rb_right (h subst), subst)) (ngx_rbtree_min h (rb_right (h node)) sentinel))
       of None \<Rightarrow> None
       | Some (temp, subst) \<Rightarrow>
         if subst = root then Some (temp, delete_clear node (set_red temp False h))
         else
           let red = rb_red (h subst);
               h = (if subst = rb_left (h (rb_parent (h subst))) then set_left (rb_parent (h subst)) temp h
                    else set_right (rb_parent (h subst)) temp h);
               (root, h) =
                 (if subst = node then (root, set_parent temp (rb_parent (h subst)) h)
                  else delete_subst sentinel node subst (root, h) temp);
               h = delete_clear node h
           in if red then Some (root, h)
              else map_option (\<lambda>(temp, root, h). (root, set_red temp False h)) (delete_fixup sentinel temp (root, h)))"


section \<open>Trees in the heap\<close>

text \<open>
  Left and right are the two directions, \<open>False\<close> and \<open>True\<close>, so that what is said of one side holds of the
  other. \<open>nd d l x r\<close> is the tree with \<open>l\<close> on side \<open>d\<close> and \<open>r\<close> on the other.
\<close>

type_synonym rb_tree = "(addr \<times> bool) tree"
type_synonym rb_frame = "bool \<times> (addr \<times> bool) \<times> rb_tree"

definition child :: "bool \<Rightarrow> rb_node \<Rightarrow> addr" where
  "child d n = (if d then rb_right n else rb_left n)"

definition nd :: "bool \<Rightarrow> rb_tree \<Rightarrow> addr \<times> bool \<Rightarrow> rb_tree \<Rightarrow> rb_tree" where
  "nd d l x r = (if d then Node r x l else Node l x r)"

fun heap_tree :: "rb_heap \<Rightarrow> addr \<Rightarrow> addr \<Rightarrow> addr \<Rightarrow> rb_tree \<Rightarrow> bool" where
  "heap_tree h s par p Leaf \<longleftrightarrow> p = s"
| "heap_tree h s par p (Node l (a, c) r) \<longleftrightarrow> p = a \<and> a \<noteq> s \<and> rb_parent (h a) = par \<and> rb_red (h a) = c \<and>
     heap_tree h s a (rb_left (h a)) l \<and> heap_tree h s a (rb_right (h a)) r"

text \<open>The frames above a place: the side on which the place is, the node, and its tree on the other side.\<close>

fun heap_ctx :: "rb_heap \<Rightarrow> addr \<Rightarrow> addr \<Rightarrow> addr \<Rightarrow> addr \<Rightarrow> rb_frame list \<Rightarrow> bool" where
  "heap_ctx h s root p par [] \<longleftrightarrow> p = root"
| "heap_ctx h s root p par ((d, (a, c), t) # cs) \<longleftrightarrow> par = a \<and> a \<noteq> s \<and> child d (h a) = p \<and> rb_red (h a) = c \<and>
     heap_tree h s a (child (\<not> d) (h a)) t \<and> heap_ctx h s root a (rb_parent (h a)) cs"

definition tree_addrs :: "rb_tree \<Rightarrow> addr list" where
  "tree_addrs t = map fst (inorder t)"

fun fill :: "rb_frame list \<Rightarrow> addr list \<Rightarrow> addr list" where
  "fill [] xs = xs"
| "fill ((d, (a, c), t) # cs) xs = fill cs (if d then tree_addrs t @ a # xs else xs @ a # tree_addrs t)"

fun plug :: "rb_tree \<Rightarrow> rb_frame list \<Rightarrow> rb_tree" where
  "plug t [] = t"
| "plug t ((d, x, u) # cs) = plug (nd d t x u) cs"

text \<open>A place in a tree of the heap.\<close>

definition place :: "rb_heap \<Rightarrow> addr \<Rightarrow> addr \<Rightarrow> addr \<Rightarrow> addr \<Rightarrow> rb_tree \<Rightarrow> rb_frame list \<Rightarrow> bool" where
  "place h s root p par t cs \<longleftrightarrow> heap_tree h s par p t \<and> heap_ctx h s root p par cs \<and>
     distinct (fill cs (tree_addrs t)) \<and> s \<notin> set (fill cs (tree_addrs t))"

definition tree_at :: "rb_heap \<Rightarrow> addr \<Rightarrow> addr \<Rightarrow> rb_tree \<Rightarrow> bool" where
  "tree_at h s root t \<longleftrightarrow> place h s root root (rb_parent (h root)) t []"

lemma tree_addrs_simps [simp]:
  "tree_addrs Leaf = []" "tree_addrs (Node l x r) = tree_addrs l @ fst x # tree_addrs r"
  by (simp_all add: tree_addrs_def)

lemma heap_tree_nd [simp]:
  "heap_tree h s par p (nd d l (a, c) r) \<longleftrightarrow> p = a \<and> a \<noteq> s \<and> rb_parent (h a) = par \<and> rb_red (h a) = c \<and>
     heap_tree h s a (child d (h a)) l \<and> heap_tree h s a (child (\<not> d) (h a)) r"
  by (auto simp: nd_def child_def)

lemma set_addrs_nd [simp]: "set (tree_addrs (nd d l x r)) = insert (fst x) (set (tree_addrs l) \<union> set (tree_addrs r))"
  by (auto simp: nd_def)

lemma distinct_addrs_nd [simp]:
  "distinct (tree_addrs (nd d l x r)) \<longleftrightarrow> distinct (tree_addrs l) \<and> distinct (tree_addrs r) \<and>
     fst x \<notin> set (tree_addrs l) \<and> fst x \<notin> set (tree_addrs r) \<and> set (tree_addrs l) \<inter> set (tree_addrs r) = {}"
  by (auto simp: nd_def)

lemma set_fill: "set (fill cs xs) = set xs \<union> set (fill cs [])"
proof (induction cs arbitrary: xs)
  case (Cons f cs)
  obtain d a c t where f: "f = (d, (a, c), t)" by (metis prod.exhaust)
  show ?case
    using Cons.IH[of "tree_addrs t @ a # xs"] Cons.IH[of "xs @ a # tree_addrs t"] Cons.IH[of "tree_addrs t @ [a]"]
      Cons.IH[of "a # tree_addrs t"] by (auto simp: f)
qed simp

lemma distinct_fill: "distinct (fill cs xs) \<longleftrightarrow> distinct xs \<and> distinct (fill cs []) \<and> set xs \<inter> set (fill cs []) = {}"
proof (induction cs arbitrary: xs)
  case (Cons f cs)
  obtain d a c t where f: "f = (d, (a, c), t)" by (metis prod.exhaust)
  have m: "distinct (fill cs (us @ xs @ vs)) \<longleftrightarrow>
      distinct xs \<and> distinct (fill cs (us @ vs)) \<and> set xs \<inter> set (fill cs (us @ vs)) = {}" for us vs
    unfolding Cons.IH[of "us @ xs @ vs"] Cons.IH[of "us @ vs"] set_fill[of cs "us @ vs"] by auto
  show ?case
    using m[of "tree_addrs t @ [a]" "[]"] m[of "[]" "a # tree_addrs t"] by (simp add: f)
qed simp

definition ctx_addrs :: "rb_frame list \<Rightarrow> addr set" where
  "ctx_addrs cs = set (fill cs [])"

lemma ctx_addrs_simps [simp]:
  "ctx_addrs [] = {}" "ctx_addrs ((d, (a, c), t) # cs) = insert a (set (tree_addrs t) \<union> ctx_addrs cs)"
  using set_fill[of cs "tree_addrs t @ [a]"] set_fill[of cs "a # tree_addrs t"] by (auto simp: ctx_addrs_def)

definition ctx_distinct :: "rb_frame list \<Rightarrow> bool" where
  "ctx_distinct cs \<longleftrightarrow> distinct (fill cs [])"

lemma ctx_distinct_simps [simp]:
  "ctx_distinct []" "ctx_distinct ((d, (a, c), t) # cs) \<longleftrightarrow> distinct (tree_addrs t) \<and> ctx_distinct cs \<and>
     a \<notin> set (tree_addrs t) \<and> a \<notin> ctx_addrs cs \<and> set (tree_addrs t) \<inter> ctx_addrs cs = {}"
  using distinct_fill[of cs "tree_addrs t @ [a]"] distinct_fill[of cs "a # tree_addrs t"]
  by (auto simp: ctx_distinct_def ctx_addrs_def)

lemma place_iff:
  "place h s root p par t cs \<longleftrightarrow> heap_tree h s par p t \<and> heap_ctx h s root p par cs \<and>
     distinct (tree_addrs t) \<and> ctx_distinct cs \<and> set (tree_addrs t) \<inter> ctx_addrs cs = {} \<and>
     s \<notin> set (tree_addrs t) \<and> s \<notin> ctx_addrs cs"
  using set_fill[of cs "tree_addrs t"] distinct_fill[of cs "tree_addrs t"]
  by (auto simp: place_def ctx_addrs_def ctx_distinct_def)

lemma fill_nd: "fill cs (tree_addrs (nd d l (a, c) r)) = fill ((d, (a, c), r) # cs) (tree_addrs l)"
  by (simp add: nd_def)

text \<open>Going down to a child and up again.\<close>

lemma place_down:
  "place h s root p par (nd d l (a, c) r) cs \<longleftrightarrow> p = a \<and> place h s root (child d (h a)) a l ((d, (a, c), r) # cs) \<and> rb_parent (h a) = par"
  by (auto simp: place_iff)

text \<open>What is outside a tree does not matter to it.\<close>

lemma heap_tree_cong:
  "(\<And>a. a \<in> set (tree_addrs t) \<Longrightarrow> rb_left (h a) = rb_left (h' a) \<and> rb_right (h a) = rb_right (h' a) \<and>
      rb_parent (h a) = rb_parent (h' a) \<and> rb_red (h a) = rb_red (h' a)) \<Longrightarrow>
     heap_tree h s par p t = heap_tree h' s par p t"
proof (induction h s par p t rule: heap_tree.induct)
  case (2 h s par p l a c r)
  have "heap_tree h s a (rb_left (h a)) l = heap_tree h' s a (rb_left (h a)) l"
    and "heap_tree h s a (rb_right (h a)) r = heap_tree h' s a (rb_right (h a)) r"
    using 2 by simp_all
  then show ?case using "2.prems"[of a] by auto
qed simp

lemma heap_ctx_cong:
  "(\<And>a. a \<in> ctx_addrs cs \<Longrightarrow> rb_left (h a) = rb_left (h' a) \<and> rb_right (h a) = rb_right (h' a) \<and>
      rb_parent (h a) = rb_parent (h' a) \<and> rb_red (h a) = rb_red (h' a)) \<Longrightarrow>
     heap_ctx h s root p par cs = heap_ctx h' s root p par cs"
proof (induction h s root p par cs rule: heap_ctx.induct)
  case (2 h s root p par d a c t cs)
  have "heap_ctx h s root a (rb_parent (h a)) cs = heap_ctx h' s root a (rb_parent (h a)) cs" using 2 by simp
  moreover have "heap_tree h s a (child (\<not> d) (h a)) t = heap_tree h' s a (child (\<not> d) (h a)) t"
    using "2.prems" by (intro heap_tree_cong) simp
  ultimately show ?case using "2.prems"[of a] by (auto simp: child_def)
qed simp

lemma heap_tree_set [simp]:
  assumes "a \<notin> set (tree_addrs t)"
  shows "heap_tree (set_left a v h) s par p t = heap_tree h s par p t"
    and "heap_tree (set_right a v h) s par p t = heap_tree h s par p t"
    and "heap_tree (set_parent a v h) s par p t = heap_tree h s par p t"
    and "heap_tree (set_red a c h) s par p t = heap_tree h s par p t"
    and "heap_tree (set_key a k h) s par p t = heap_tree h s par p t"
  by (rule heap_tree_cong; metis assms set_other)+

lemma heap_ctx_set [simp]:
  assumes "a \<notin> ctx_addrs cs"
  shows "heap_ctx (set_left a v h) s root p par cs = heap_ctx h s root p par cs"
    and "heap_ctx (set_right a v h) s root p par cs = heap_ctx h s root p par cs"
    and "heap_ctx (set_parent a v h) s root p par cs = heap_ctx h s root p par cs"
    and "heap_ctx (set_red a c h) s root p par cs = heap_ctx h s root p par cs"
    and "heap_ctx (set_key a k h) s root p par cs = heap_ctx h s root p par cs"
  by (rule heap_ctx_cong; metis assms set_other)+

lemma heap_tree_root: "heap_tree h s par p t \<Longrightarrow> p = s \<and> t = Leaf \<or> p \<noteq> s \<and> p \<in> set (tree_addrs t) \<and> rb_parent (h p) = par"
  by (cases t) auto

text \<open>Another parent for a tree.\<close>

lemma heap_tree_reparent:
  assumes "heap_tree h s par p t" and "distinct (tree_addrs t)" and "p \<noteq> s"
  shows "heap_tree (set_parent p q h) s q p t"
  using assms by (induction h s par p t rule: heap_tree.induct) simp_all

lemma heap_tree_adopt:
  assumes "heap_tree h s par p t" and "distinct (tree_addrs t)"
  shows "heap_tree (if p \<noteq> s then set_parent p q h else h) s q p t"
proof (cases "p = s")
  case True
  then show ?thesis using heap_tree_root[OF assms(1)] by simp
next
  case False
  then show ?thesis using heap_tree_reparent[OF assms] by simp
qed

lemma ctx_root: "heap_ctx h s root p par cs \<Longrightarrow> cs = [] \<and> p = root \<or> cs \<noteq> [] \<and> root \<in> ctx_addrs cs"
  by (induction h s root p par cs rule: heap_ctx.induct) auto

section \<open>Rotation\<close>

definition set_child :: "bool \<Rightarrow> addr \<Rightarrow> addr \<Rightarrow> rb_heap \<Rightarrow> rb_heap" where
  "set_child d a v h = (if d then set_right a v h else set_left a v h)"

lemma set_child_simps [simp]:
  "child e (set_child d a v h x) = (if x = a \<and> e = d then v else child e (h x))"
  "rb_parent (set_child d a v h x) = rb_parent (h x)" "rb_red (set_child d a v h x) = rb_red (h x)"
  "rb_key (set_child d a v h x) = rb_key (h x)"
  "child e (set_parent a v h x) = child e (h x)" "child e (set_red a c h x) = child e (h x)"
  "x \<noteq> a \<Longrightarrow> set_child d a v h x = h x"
  by (simp_all add: set_child_def child_def)

lemma set_side_simps [simp]:
  "child e (set_left a v h x) = (if x = a \<and> \<not> e then v else child e (h x))"
  "child e (set_right a v h x) = (if x = a \<and> e then v else child e (h x))"
  "rb_left (set_child d a v h x) = (if x = a \<and> \<not> d then v else rb_left (h x))"
  "rb_right (set_child d a v h x) = (if x = a \<and> d then v else rb_right (h x))"
  by (simp_all add: set_child_def child_def)

lemma heap_set_child [simp]:
  "a \<notin> set (tree_addrs t) \<Longrightarrow> heap_tree (set_child d a v h) s par p t = heap_tree h s par p t"
  "a \<notin> ctx_addrs cs \<Longrightarrow> heap_ctx (set_child d a v h) s root p par cs = heap_ctx h s root p par cs"
  by (simp_all add: set_child_def)

lemma set_parent_child: "set_parent a v (set_child d b w h) = set_child d b w (set_parent a v h)"
  by (auto simp: set_child_def set_left_def set_right_def set_parent_def)

text \<open>Both rotations in one, towards the side \<open>d\<close>.\<close>

definition rotate_to :: "bool \<Rightarrow> addr \<Rightarrow> addr \<Rightarrow> addr \<times> rb_heap \<Rightarrow> addr \<times> rb_heap" where
  "rotate_to d sentinel node tree =
    (let (root, h) = tree;
         temp = child (\<not> d) (h node);
         h = set_child (\<not> d) node (child d (h temp)) h;
         h = (if child d (h temp) \<noteq> sentinel then set_parent (child d (h temp)) node h else h);
         h = set_parent temp (rb_parent (h node)) h;
         (root, h) =
           (if node = root then (temp, h)
            else if node = child d (h (rb_parent (h node))) then (root, set_child d (rb_parent (h node)) temp h)
            else (root, set_child (\<not> d) (rb_parent (h node)) temp h));
         h = set_child d temp node h
     in (root, set_parent node temp h))"

lemma child_side:
  "rb_left n = child False n" "rb_right n = child True n" "set_left = set_child False" "set_right = set_child True"
  by (auto simp: child_def set_child_def intro!: ext)

lemma rotate_to: "ngx_rbtree_left_rotate = rotate_to False" "ngx_rbtree_right_rotate = rotate_to True"
  by (intro ext; simp only: ngx_rbtree_left_rotate_def ngx_rbtree_right_rotate_def rotate_to_def child_side simp_thms)+

text \<open>What an operation on the nodes \<open>S\<close> leaves alone: the keys, and the other nodes.\<close>

definition touches :: "addr set \<Rightarrow> rb_heap \<Rightarrow> rb_heap \<Rightarrow> bool" where
  "touches S h h' \<longleftrightarrow> (\<forall>a. rb_key (h' a) = rb_key (h a)) \<and> (\<forall>a. a \<notin> S \<longrightarrow> h' a = h a)"

lemma touches_refl [simp]: "touches S h h"
  by (simp add: touches_def)

lemma touches_trans: "touches S h h' \<Longrightarrow> touches S h' h'' \<Longrightarrow> touches S h h''"
  by (simp add: touches_def)

lemma touches_set:
  assumes "a \<in> S"
  shows "touches S h' (set_left a v h) \<longleftrightarrow> touches S h' h" "touches S h' (set_right a v h) \<longleftrightarrow> touches S h' h"
    "touches S h' (set_parent a v h) \<longleftrightarrow> touches S h' h" "touches S h' (set_red a c h) \<longleftrightarrow> touches S h' h"
    "touches S h' (set_child d a v h) \<longleftrightarrow> touches S h' h"
  using assms unfolding touches_def by (auto simp: set_child_def) (metis set_other(1-4))+

lemma rotate_steps:
  assumes "child (\<not> d) (h x) = y" and "y \<noteq> x" and "child d (h y) \<noteq> x"
    and "h1 = (if child d (h y) \<noteq> s then set_parent (child d (h y)) x h else h)"
    and "h2 = set_child (\<not> d) x (child d (h y)) (set_parent y (rb_parent (h x)) h1)"
  shows "rotate_to d s x (root, h) =
    (if x = root then (y, set_child d y x (set_parent x y h2))
     else (root, set_child d y x (set_child (if x = child d (h2 (rb_parent (h x))) then d else \<not> d) (rb_parent (h x)) y (set_parent x y h2))))"
proof -
  have "rb_parent (h1 x) = rb_parent (h x)" using assms(3,4) by simp
  then show ?thesis
    unfolding rotate_to_def Let_def assms(5) using assms(1-4)
    by (cases "root = x"; cases "child d (h y) = s"; simp add: set_parent_child)
qed

lemma place_rotate:
  assumes "place h s root x par (nd d t1 (x, cx) (nd d t2 (y, cy) t3)) cs"
    and "rotate_to d s x (root, h) = (root', h')"
  shows "place h' s root' y par (nd d (nd d t1 (x, cx) t2) (y, cy) t3) cs \<and>
    touches ({x, y} \<union> set (tree_addrs t2) \<union> ctx_addrs cs) h h'"
proof -
  let ?b = "child d (h y)"
  have y: "child (\<not> d) (h x) = y" and ne: "x \<noteq> y" "x \<noteq> s" "y \<noteq> s" "rb_parent (h x) = par"
    using assms(1) by (auto simp: place_iff)
  have t2: "heap_tree h s y ?b t2" "distinct (tree_addrs t2)" "x \<notin> set (tree_addrs t2)" "y \<notin> set (tree_addrs t2)"
    using assms(1) by (auto simp: place_iff)
  have b: "?b = s \<and> t2 = Leaf \<or> ?b \<noteq> s \<and> ?b \<in> set (tree_addrs t2)" using heap_tree_root[OF t2(1)] by auto
  then have bne: "?b \<noteq> x" "?b \<noteq> y" using ne t2 by auto
  define h1 where "h1 = (if ?b \<noteq> s then set_parent ?b x h else h)"
  have t2': "heap_tree h1 s x ?b t2" unfolding h1_def by (rule heap_tree_adopt[OF t2(1,2)])
  have fields: "child e (h1 a) = child e (h a)" "rb_red (h1 a) = rb_red (h a)" "rb_key (h1 a) = rb_key (h a)"
      "a \<notin> set (tree_addrs t2) \<Longrightarrow> h1 a = h a" for a e
    using b by (auto simp: h1_def) (metis set_other(3))
  have away: "set (tree_addrs t) \<inter> set (tree_addrs t2) = {} \<Longrightarrow> heap_tree h1 s q p t = heap_tree h s q p t"
      "ctx_addrs fs \<inter> set (tree_addrs t2) = {} \<Longrightarrow> heap_ctx h1 s r p q fs = heap_ctx h s r p q fs" for t q p fs r
    using fields(4) by (auto intro!: heap_tree_cong heap_ctx_cong dest: disjoint_iff[THEN iffD1, rule_format])
  have par1: "rb_parent (h1 a) = rb_parent (h a)" if "a \<notin> set (tree_addrs t2)" for a using that fields(4) by simp
  have d: "set (tree_addrs t1) \<inter> set (tree_addrs t2) = {}" "set (tree_addrs t3) \<inter> set (tree_addrs t2) = {}"
      "ctx_addrs cs \<inter> set (tree_addrs t2) = {}"
    and st: "heap_tree h s x (child d (h x)) t1" "heap_tree h s y (child (\<not> d) (h y)) t3" "heap_ctx h s root x par cs"
      "rb_red (h x) = cx" "rb_red (h y) = cy"
    and nx: "x \<notin> set (tree_addrs t1)" "x \<notin> set (tree_addrs t3)" "x \<notin> ctx_addrs cs" "y \<notin> set (tree_addrs t1)"
      "y \<notin> set (tree_addrs t3)" "y \<notin> ctx_addrs cs"
    and rest: "distinct (tree_addrs t1)" "distinct (tree_addrs t3)" "ctx_distinct cs"
      "set (tree_addrs t1) \<inter> set (tree_addrs t3) = {}" "set (tree_addrs t1) \<inter> ctx_addrs cs = {}"
      "set (tree_addrs t3) \<inter> ctx_addrs cs = {}"
      "s \<notin> set (tree_addrs t1)" "s \<notin> set (tree_addrs t2)" "s \<notin> set (tree_addrs t3)" "s \<notin> ctx_addrs cs"
    using assms(1) by (auto simp: place_iff)
  have sets: "distinct (tree_addrs (nd d (nd d t1 (x, cx) t2) (y, cy) t3)) \<and> ctx_distinct cs \<and>
      set (tree_addrs (nd d (nd d t1 (x, cx) t2) (y, cy) t3)) \<inter> ctx_addrs cs = {} \<and>
      s \<notin> set (tree_addrs (nd d (nd d t1 (x, cx) t2) (y, cy) t3)) \<and> s \<notin> ctx_addrs cs"
    using assms(1) by (auto simp: place_iff)
  have tch: "touches ({x, y} \<union> set (tree_addrs t2) \<union> ctx_addrs cs) h h1"
    using fields by (simp add: touches_def)
  show ?thesis
  proof (cases cs)
    case Nil
    then have r: "root = x" using assms(1) by (simp add: place_iff)
    have "(root', h') = (y, set_parent x y (set_child d y x (set_parent y par (set_child (\<not> d) x ?b h1))))"
      unfolding assms(2)[symmetric] rotate_steps[OF y ne(1)[symmetric] bne(1) h1_def refl] by (simp add: r ne set_parent_child)
    then have h1: "root' = y" "h' = set_parent x y (set_child d y x (set_parent y par (set_child (\<not> d) x ?b h1)))"
      by simp_all
    show ?thesis 
      unfolding place_iff
    proof (intro conjI sets[THEN conjunct1] sets[THEN conjunct2, THEN conjunct1] sets[THEN conjunct2, THEN conjunct2, THEN conjunct1]
        sets[THEN conjunct2, THEN conjunct2, THEN conjunct2, THEN conjunct1] sets[THEN conjunct2, THEN conjunct2, THEN conjunct2, THEN conjunct2])
      show "heap_tree h' s par y (nd d (nd d t1 (x, cx) t2) (y, cy) t3)"
        using ne bne t2' t2 d st nx fields(1,2) unfolding h1 by (simp add: away par1)
      show "heap_ctx h' s root' y par cs" by (simp add: Nil h1(1))
      show "touches ({x, y} \<union> set (tree_addrs t2) \<union> ctx_addrs cs) h h'"
        unfolding h1 using tch by (simp add: touches_set)
    qed
  next
    case (Cons f cs')
    obtain e g cg u where f: "f = (e, (g, cg), u)" by (metis prod.exhaust)
    have g: "child e (h g) = x" "par = g" "g \<noteq> x" "g \<noteq> y" "g \<notin> set (tree_addrs t2)" "heap_tree h s g (child (\<not> e) (h g)) u"
        "x \<notin> set (tree_addrs u)"
      using st(3) nx(3,6) d(3) by (auto simp: Cons f)
    have gt: "g \<notin> set (tree_addrs t1)" "g \<notin> set (tree_addrs t3)" using rest(5,6) by (auto simp: Cons f)
    have "x \<noteq> root" using ctx_root[OF st(3)] nx(3) Cons by auto
    have "child (\<not> e) (h g) \<noteq> x" using heap_tree_root[OF g(6)] g(7) ne by auto
    then have link: "x = child d (h g) \<longleftrightarrow> e = d" using g(1) by (cases e; cases d) auto
    have g2: "child d (set_child (\<not> d) x ?b (set_parent y g h1) g) = child d (h g)" using g(3) fields(1) by simp
    have "set_child (if x = child d (h g) then d else \<not> d) = set_child e" using link by (cases e; cases d) auto
    then have "(root', h') = (root, set_parent x y (set_child d y x (set_child e g y (set_parent y par (set_child (\<not> d) x ?b h1)))))"
      unfolding assms(2)[symmetric] rotate_steps[OF y ne(1)[symmetric] bne(1) h1_def refl] ne(4) g(2) g2
      using \<open>x \<noteq> root\<close> by (simp add: set_parent_child)
    then have h1: "root' = root" "h' = set_parent x y (set_child d y x (set_child e g y (set_parent y par (set_child (\<not> d) x ?b h1))))"
      by simp_all
    show ?thesis
      unfolding place_iff
    proof (intro conjI sets[THEN conjunct1] sets[THEN conjunct2, THEN conjunct1] sets[THEN conjunct2, THEN conjunct2, THEN conjunct1]
        sets[THEN conjunct2, THEN conjunct2, THEN conjunct2, THEN conjunct1] sets[THEN conjunct2, THEN conjunct2, THEN conjunct2, THEN conjunct2])
      show "heap_tree h' s par y (nd d (nd d t1 (x, cx) t2) (y, cy) t3)"
        using ne bne t2' t2(3,4) d(1,2) st(1,2,4,5) nx(1,2,4,5) fields(1,2) g(2-5) gt unfolding h1 by (simp add: away par1)
      show "heap_ctx h' s root' y par cs"
        using ne bne d st(3) nx rest(3-6) fields(1,2) g unfolding h1 Cons f by (simp add: away par1 Int_Un_distrib2)
      show "touches ({x, y} \<union> set (tree_addrs t2) \<union> ctx_addrs cs) h h'"
        unfolding h1 using tch by (simp add: touches_set Cons f)
    qed
  qed
qed

end
