(* ===== verification/RbTreeInsert.thy ===== *)
theory RbTreeInsert
  imports RbTree
begin

text \<open>
  \<^verbatim>\<open>ngx_rbtree_insert\<close> keeps the tree of the heap a red-black tree: the invariant on the colours and the black
  heights, what it is at a place inside the tree, one round of the re-balancing at such a place,
  the loop, and the search for the place of the new node.
\<close>

section \<open>The invariant\<close>

fun black_height :: "rb_tree \<Rightarrow> nat" where
  "black_height Leaf = 0"
| "black_height (Node l (a, c) r) = black_height l + (if c then 0 else 1)"

fun is_red :: "rb_tree \<Rightarrow> bool" where
  "is_red Leaf = False"
| "is_red (Node l (a, c) r) = c"

fun rb_inv :: "rb_tree \<Rightarrow> bool" where
  "rb_inv Leaf = True"
| "rb_inv (Node l (a, c) r) \<longleftrightarrow> rb_inv l \<and> rb_inv r \<and> black_height l = black_height r \<and> (c \<longrightarrow> \<not> is_red l \<and> \<not> is_red r)"

text \<open>The frames above a place that expects a tree of black height \<open>n\<close>.\<close>

fun ctx_red :: "rb_frame list \<Rightarrow> bool" where
  "ctx_red [] = False"
| "ctx_red ((d, (a, c), t) # cs) = c"

fun ctx_rb :: "rb_frame list \<Rightarrow> nat \<Rightarrow> bool" where
  "ctx_rb [] n = True"
| "ctx_rb ((d, (a, c), t) # cs) n \<longleftrightarrow> rb_inv t \<and> black_height t = n \<and>
     (if c then \<not> is_red t \<and> cs \<noteq> [] \<and> \<not> ctx_red cs \<and> ctx_rb cs n else ctx_rb cs (Suc n))"

lemma rb_inv_nd [simp]:
  "rb_inv (nd d l (a, c) r) \<longleftrightarrow> rb_inv l \<and> rb_inv r \<and> black_height l = black_height r \<and> (c \<longrightarrow> \<not> is_red l \<and> \<not> is_red r)"
  "is_red (nd d l (a, c) r) = c"
  by (auto simp: nd_def)

lemma black_height_nd [simp]:
  "rb_inv (nd d l (a, c) r) \<Longrightarrow> black_height (nd d l (a, c) r) = black_height l + (if c then 0 else 1)"
  by (auto simp: nd_def)

lemma black_height_nd': "black_height l = black_height r \<Longrightarrow> black_height (nd d l (a, c) r) = black_height l + (if c then 0 else 1)"
  by (auto simp: nd_def)

definition paint_black :: "rb_tree \<Rightarrow> rb_tree" where
  "paint_black t = (case t of Leaf \<Rightarrow> Leaf | Node l (a, c) r \<Rightarrow> Node l (a, False) r)"

lemma paint_black_simps [simp]:
  "paint_black Leaf = Leaf" "paint_black (Node l (a, c) r) = Node l (a, False) r"
  "paint_black (nd d l (a, c) r) = nd d l (a, False) r" "\<not> is_red (paint_black t)"
  by (auto simp: paint_black_def nd_def split: tree.split)

lemma paint_black_inv: "rb_inv t \<Longrightarrow> rb_inv (paint_black t)"
  by (auto simp: paint_black_def split: tree.split)

lemma paint_black_same: "\<not> is_red t \<Longrightarrow> paint_black t = t"
  by (auto simp: paint_black_def split: tree.split)

lemma paint_black_addrs [simp]: "tree_addrs (paint_black t) = tree_addrs t"
  by (auto simp: paint_black_def split: tree.split)

section \<open>Places\<close>

lemma place_color:
  assumes "place h s root p par t cs" and "\<not> rb_red (h s)"
  shows "rb_red (h p) = is_red t"
  using assms by (cases t) (auto simp: place_iff)

lemma heap_tree_paint:
  "heap_tree h s par p t \<Longrightarrow> distinct (tree_addrs t) \<Longrightarrow> \<not> rb_red (h s) \<Longrightarrow> heap_tree (set_red p False h) s par p (paint_black t)"
  by (induction h s par p t rule: heap_tree.induct) simp_all

lemma set_red_same: "\<not> rb_red (h a) \<Longrightarrow> set_red a False h = h"
proof -
  assume "\<not> rb_red (h a)"
  then have "(h a)\<lparr>rb_red := False\<rparr> = h a" by (cases "h a") simp
  then show ?thesis by (simp add: set_red_def)
qed

lemma place_paint_ctx:
  "place h s root p par t ((d, (a, c), u) # cs) \<Longrightarrow> place (set_red a c' h) s root p par t ((d, (a, c'), u) # cs)"
  by (auto simp: place_iff)

lemma place_paint_ctx2:
  "place h s root p par t ((e, x, v) # (d, (a, c), u) # cs) \<Longrightarrow>
     place (set_red a c' h) s root p par t ((e, x, v) # (d, (a, c'), u) # cs)"
  by (cases x) (auto simp: place_iff)

lemma place_paint_sibling:
  assumes "place h s root p par t ((d, x, u) # cs)" and "\<not> rb_red (h s)"
  shows "place (set_red (child (\<not> d) (h (fst x))) False h) s root p par t ((d, x, paint_black u) # cs)"
proof (cases u)
  case Leaf
  then show ?thesis using assms by (cases x) (simp add: place_iff set_red_same)
next
  case (Node l y r)
  then show ?thesis using assms by (cases x; cases y) (auto simp: place_iff)
qed

lemma place_up:
  "place h s root p a l ((d, (a, c), r) # cs) \<Longrightarrow> place h s root a (rb_parent (h a)) (nd d l (a, c) r) cs"
  by (auto simp: place_iff)

lemma place_down':
  "place h s root a par (nd d l (a, c) r) cs \<Longrightarrow> place h s root (child d (h a)) a l ((d, (a, c), r) # cs)"
  by (auto simp: place_iff)

lemma place_up2:
  "place h s root p par t ((e, (a, c), u) # (d, (g, b), w) # cs) \<Longrightarrow> place h s root a g (nd e t (a, c) u) ((d, (g, b), w) # cs)"
  by (auto simp: place_iff)

lemma place_switch:
  "place h s root p a t ((d, (a, c), w) # cs) \<Longrightarrow> place h s root (child (\<not> d) (h a)) a w ((\<not> d, (a, c), t) # cs)"
  by (auto simp: place_iff)

lemma place_top:
  "place h s root p par t cs \<Longrightarrow> place h' s root' p' par' t cs' \<Longrightarrow> p' = p"
  by (cases t) (auto simp: place_iff)

lemma place_parent: "place h s root p par t ((d, (a, c), u) # cs) \<Longrightarrow> par = a"
  by (simp add: place_iff)

lemma place_sibling:
  assumes "place h s root p par t ((d, (a, c), u) # cs)" and "p \<noteq> s \<or> u \<noteq> Leaf"
  shows "child d (h a) = p" "child (\<not> d) (h a) \<noteq> p"
proof -
  have a: "child d (h a) = p" "heap_tree h s a (child (\<not> d) (h a)) u" "heap_tree h s par p t"
    and dis: "set (tree_addrs t) \<inter> set (tree_addrs u) = {}" "s \<notin> set (tree_addrs u)" "s \<notin> set (tree_addrs t)"
    using assms(1) by (auto simp: place_iff)
  show "child d (h a) = p" by (rule a(1))
  show "child (\<not> d) (h a) \<noteq> p"
    using heap_tree_root[OF a(2)] heap_tree_root[OF a(3)] dis assms(2) by auto
qed

lemma place_side:
  assumes "place h s root p par t ((d, (a, c), u) # cs)" and "p \<noteq> s \<or> u \<noteq> Leaf"
  shows "p = child e (h a) \<longleftrightarrow> e = d"
  using place_sibling[OF assms] by (cases e; cases d) auto

lemma place_touches_sentinel: "touches S h h' \<Longrightarrow> s \<notin> S \<Longrightarrow> h' s = h s"
  by (simp add: touches_def)

text \<open>At the end the whole tree.\<close>

lemma plug_inv:
  "rb_inv t \<Longrightarrow> ctx_rb cs (black_height t) \<Longrightarrow> \<not> (is_red t \<and> ctx_red cs) \<Longrightarrow>
     rb_inv (plug t cs) \<and> (cs \<noteq> [] \<longrightarrow> \<not> is_red (plug t cs))"
proof (induction t cs rule: plug.induct)
  case (2 t d x u cs)
  obtain a c where x: "x = (a, c)" by (rule prod.exhaust)
  have inv: "rb_inv (nd d t (a, c) u)" using "2.prems" by (auto simp: x)
  then have "rb_inv (plug (nd d t (a, c) u) cs) \<and> (cs \<noteq> [] \<longrightarrow> \<not> is_red (plug (nd d t (a, c) u) cs))"
    using "2.prems" "2.IH" by (auto simp: x)
  then show ?case using "2.prems" by (auto simp: x)
qed simp

lemma plug_addrs: "tree_addrs (plug t cs) = fill cs (tree_addrs t)"
  by (induction t cs rule: plug.induct) (auto simp: nd_def)

lemma place_plug: "place h s root p par t cs \<Longrightarrow> tree_at h s root (plug t cs)"
proof (induction t cs arbitrary: p par rule: plug.induct)
  case (1 t)
  then have "p = root" by (simp add: place_iff)
  with 1 have p: "place h s root root par t []" by simp
  then show ?case by (cases t) (auto simp: tree_at_def place_iff)
next
  case (2 t d x u cs)
  obtain a c where x: "x = (a, c)" by (rule prod.exhaust)
  from 2 place_up[of h s root p a t d c u cs] place_parent[of h s root p par t d a c u cs] show ?case by (auto simp: x)
qed

lemma set_fill_ctx: "set (fill cs xs) = set xs \<union> ctx_addrs cs"
  using set_fill[of cs xs] by (simp add: ctx_addrs_def)

lemma nd_not: "nd (\<not> d) l x r = nd d r x l"
  by (simp add: nd_def)

section \<open>A round of the re-balancing\<close>

text \<open>Both rounds in one: the parent is the child of the grandparent on the side \<open>d\<close>.\<close>

definition insert_round :: "bool \<Rightarrow> addr \<Rightarrow> addr \<Rightarrow> addr \<times> rb_heap \<Rightarrow> addr \<times> addr \<times> rb_heap" where
  "insert_round d sentinel node tree =
    (let (root, h) = tree; parent = rb_parent (h node); grand = rb_parent (h parent);
         temp = child (\<not> d) (h grand) in
     if rb_red (h temp) then
       (grand, root, set_red grand True (set_red temp False (set_red parent False h)))
     else
       let (node, root, h) =
             (if node = child (\<not> d) (h parent)
              then (parent, rotate_to d sentinel parent (root, h)) else (node, root, h));
           h = set_red (rb_parent (h node)) False h;
           h = set_red (rb_parent (h (rb_parent (h node)))) True h
       in (node, rotate_to (\<not> d) sentinel (rb_parent (h (rb_parent (h node)))) (root, h)))"

lemma insert_round_sides: "insert_left_round = insert_round False" "insert_right_round = insert_round True"
  by (intro ext; simp only: insert_left_round_def insert_right_round_def insert_round_def child_side(1,2) rotate_to simp_thms)+

text \<open>Where the uncle is red, the trouble goes up.\<close>

lemma insert_round_red:
  assumes "place h s root n p t ((e, (p, True), u) # (d, (g, False), w) # cs)" and "n \<noteq> s" and "\<not> rb_red (h s)" and "is_red w"
  shows "\<exists>h'. insert_round d s n (root, h) = (g, root, h') \<and>
     place h' s root g (rb_parent (h g)) (nd d (nd e t (p, False) u) (g, True) (paint_black w)) cs \<and>
     touches ({p, g} \<union> set (tree_addrs w)) h h'"
proof -
  let ?wa = "child (\<not> d) (h g)"
  have n: "rb_parent (h n) = p" using heap_tree_root[of h s p n t] assms(1,2) by (auto simp: place_iff)
  have pg: "rb_parent (h p) = g" "p \<noteq> g" using assms(1) by (auto simp: place_iff)
  have up: "place h s root p g (nd e t (p, True) u) ((d, (g, False), w) # cs)"
    using place_up[OF assms(1)] pg by simp
  then have w: "heap_tree h s g ?wa w" "p \<notin> set (tree_addrs w)" "g \<notin> set (tree_addrs w)" by (auto simp: place_iff)
  then have red: "rb_red (h ?wa)" "?wa \<in> set (tree_addrs w)" "?wa \<noteq> p" "?wa \<noteq> g"
    using heap_tree_root[OF w(1)] assms(4) by (cases w; auto)+
  define h1 where "h1 = set_red p False h"
  have p1: "place h1 s root p g (nd e t (p, False) u) ((d, (g, False), w) # cs)"
    using up unfolding h1_def by (auto simp: place_iff)
  define h2 where "h2 = set_red ?wa False h1"
  have c1: "child (\<not> d) (h1 g) = ?wa" by (simp add: h1_def)
  have p2: "place h2 s root p g (nd e t (p, False) u) ((d, (g, False), paint_black w) # cs)"
    using place_paint_sibling[OF p1] assms(3) by (simp add: h2_def c1) (simp add: h1_def assms(3))
  have "place (set_red g True h2) s root g (rb_parent (h g)) (nd d (nd e t (p, False) u) (g, True) (paint_black w)) cs"
    using place_up[OF place_paint_ctx[OF p2, of True]] by (simp add: h2_def h1_def)
  moreover have "insert_round d s n (root, h) = (g, root, set_red g True h2)"
    using red by (simp add: insert_round_def n pg Let_def h2_def h1_def)
  moreover have "touches ({p, g} \<union> set (tree_addrs w)) h (set_red g True h2)"
    using red by (simp add: h2_def h1_def touches_set)
  ultimately show ?thesis by blast
qed

text \<open>Where it is black, a rotation at the grandparent ends the loop.\<close>

lemma insert_outer:
  assumes "place h s root n p t ((d, (p, True), u) # (d, (g, False), w) # cs)"
    and "rotate_to (\<not> d) s g (root, set_red g True (set_red p False h)) = (root', h')"
  shows "place h' s root' n p t ((d, (p, False), nd (\<not> d) w (g, True) u) # cs) \<and>
     touches ({p, g} \<union> set (tree_addrs u) \<union> ctx_addrs cs) h h'"
proof -
  let ?h = "set_red g True (set_red p False h)"
  have "place ?h s root n p t ((d, (p, False), u) # (d, (g, True), w) # cs)"
    using place_paint_ctx2[OF place_paint_ctx[OF assms(1), of False], of True] by simp
  from place_up[OF place_up2[OF this]]
  have "place ?h s root g (rb_parent (?h g)) (nd d (nd d t (p, False) u) (g, True) w) cs" .
  moreover have "nd d (nd d t (p, False) u) (g, True) w = nd (\<not> d) w (g, True) (nd (\<not> d) u (p, False) t)"
    by (simp add: nd_def)
  ultimately have r: "place h' s root' p (rb_parent (?h g)) (nd (\<not> d) (nd (\<not> d) w (g, True) u) (p, False) t) cs \<and>
      touches ({g, p} \<union> set (tree_addrs u) \<union> ctx_addrs cs) ?h h'"
    using place_rotate[of ?h s root g "rb_parent (?h g)" "\<not> d" w True u p False t cs root' h'] assms(2) by simp
  have sw: "nd (\<not> d) (nd (\<not> d) w (g, True) u) (p, False) t = nd d t (p, False) (nd (\<not> d) w (g, True) u)"
    by (simp add: nd_def)
  have "place h' s root' (child d (h' p)) p t ((d, (p, False), nd (\<not> d) w (g, True) u) # cs)"
    using r unfolding sw by (blast intro: place_down')
  with place_top[OF assms(1) this] have "place h' s root' n p t ((d, (p, False), nd (\<not> d) w (g, True) u) # cs)" by simp
  moreover have "touches ({p, g} \<union> set (tree_addrs u) \<union> ctx_addrs cs) h ?h" by (simp add: touches_set)
  ultimately show ?thesis using r by (auto simp: insert_commute intro: touches_trans)
qed

lemma insert_round_black:
  assumes "place h s root n p t ((e, (p, True), u) # (d, (g, False), w) # cs)" and "t = nd d ta (n, True) tb"
    and "\<not> rb_red (h s)" and "\<not> is_red w" and "insert_round d s n (root, h) = (m, root', h')"
  shows "\<exists>q t1 t2. place h' s root' m q t1 ((d, (q, False), nd (\<not> d) w (g, True) t2) # cs) \<and>
     (e = d \<and> q = p \<and> m = n \<and> t1 = t \<and> t2 = u \<or> e \<noteq> d \<and> q = n \<and> m = p \<and> t1 = nd d u (p, True) ta \<and> t2 = tb) \<and>
     touches ({p, g, n} \<union> set (tree_addrs u) \<union> set (tree_addrs t) \<union> set (tree_addrs w) \<union> ctx_addrs cs) h h'"
proof -
  have pn: "n \<noteq> s" "rb_parent (h n) = p" "rb_parent (h p) = g" using assms(1,2) by (auto simp: place_iff)
  have w: "\<not> rb_red (h (child (\<not> d) (h g)))"
    using place_color[OF place_switch[OF place_up2[OF assms(1)]] assms(3)] assms(4) by simp
  have side: "n = child (\<not> d) (h p) \<longleftrightarrow> e \<noteq> d" using place_side[OF assms(1), of "\<not> d"] pn(1) by auto
  show ?thesis
  proof (cases "e = d")
    case True
    have m: "m = n" and r: "rotate_to (\<not> d) s g (root, set_red g True (set_red p False h)) = (root', h')"
      using assms(5) w side True pn by (simp_all add: insert_round_def Let_def)
    from insert_outer[OF assms(1)[unfolded True] r] True m show ?thesis
      by (intro exI[of _ p] exI[of _ t] exI[of _ u]) (auto simp: touches_def)
  next
    case False
    then have e: "e = (\<not> d)" by simp
    obtain root1 h1 where r1: "rotate_to d s p (root, h) = (root1, h1)" by (rule prod.exhaust)
    have "place h s root p g (nd d u (p, True) (nd d ta (n, True) tb)) ((d, (g, False), w) # cs)"
      using place_up2[OF assms(1)] unfolding e assms(2) nd_not .
    note p1 = place_rotate[OF this r1]
    have "place h1 s root1 (child d (h1 n)) n (nd d u (p, True) ta) ((d, (n, True), tb) # (d, (g, False), w) # cs)"
      using p1 by (blast intro: place_down')
    moreover from this have "child d (h1 n) = p" by (auto simp: place_iff)
    ultimately have p2: "place h1 s root1 p n (nd d u (p, True) ta) ((d, (n, True), tb) # (d, (g, False), w) # cs)" by simp
    have q: "rb_parent (h1 p) = n" "rb_parent (h1 n) = g" using p2 by (auto simp: place_iff)
    have m: "m = p" and r: "rotate_to (\<not> d) s g (root1, set_red g True (set_red n False h1)) = (root', h')"
      using assms(5) w side False pn q r1 by (simp_all add: insert_round_def Let_def)
    have "place h' s root' p n (nd d u (p, True) ta) ((d, (n, False), nd (\<not> d) w (g, True) tb) # cs) \<and>
       touches ({p, n} \<union> set (tree_addrs ta) \<union> ctx_addrs ((d, (g, False), w) # cs)) h h1 \<and>
       touches ({n, g} \<union> set (tree_addrs tb) \<union> ctx_addrs cs) h1 h'"
      using insert_outer[OF p2 r] p1 by blast
    then show ?thesis
      using False m assms(2)
      by (intro exI[of _ n] exI[of _ "nd d u (p, True) ta"] exI[of _ tb]) (auto simp: touches_def)
  qed
qed

section \<open>The loop\<close>

lemma nd_addrs: "tree_addrs (nd d l x r) = (if d then tree_addrs r @ fst x # tree_addrs l else tree_addrs l @ fst x # tree_addrs r)"
  by (simp add: nd_def)

definition rebalanced :: "addr set \<Rightarrow> addr \<Rightarrow> rb_heap \<Rightarrow> addr list \<Rightarrow> (addr \<times> rb_heap) option \<Rightarrow> bool" where
  "rebalanced S s h xs res \<longleftrightarrow>
    (\<exists>root' h' t'. res = Some (root', h') \<and> tree_at (set_red root' False h') s root' t' \<and> rb_inv t' \<and> \<not> is_red t' \<and>
       tree_addrs t' = xs \<and> touches S h h')"

lemma rebalanced_trans: "touches S h h1 \<Longrightarrow> rebalanced S s h1 xs res \<Longrightarrow> rebalanced S s h xs res"
  unfolding rebalanced_def by (metis touches_trans)

lemma rebalanced_stop:
  assumes "place h s root p par t cs" and "rb_inv t" and "ctx_rb cs (black_height t)" and "\<not> (is_red t \<and> ctx_red cs)"
    and "\<not> rb_red (h s)"
  shows "rebalanced S s h (fill cs (tree_addrs t)) (Some (root, h))"
proof -
  let ?t = "plug t cs"
  have at: "tree_at h s root ?t" using place_plug[OF assms(1)] .
  have "tree_at (set_red root False h) s root (paint_black ?t)"
    using at assms(5) heap_tree_paint[of h s "rb_parent (h root)" root ?t] by (simp add: tree_at_def place_iff)
  then show ?thesis
    using plug_inv[OF assms(2-4)] paint_black_inv plug_addrs[of t cs] by (auto simp: rebalanced_def)
qed

lemma insert_fixup_place:
  "place h s root n p (Node l (n, True) r) cs \<Longrightarrow> rb_inv (Node l (n, True) r) \<Longrightarrow> ctx_rb cs (black_height l) \<Longrightarrow> \<not> rb_red (h s) \<Longrightarrow>
     rebalanced (set (fill cs (tree_addrs (Node l (n, True) r)))) s h (fill cs (tree_addrs (Node l (n, True) r)))
       (insert_fixup s n (root, h))"
proof (induction "length cs" arbitrary: h root n p l r cs rule: less_induct)
  case less
  let ?t = "Node l (n, True) r"
  let ?xs = "fill cs (tree_addrs ?t)"
  have par: "rb_parent (h n) = p" using less.prems(1) by (auto simp: place_iff)
  show ?case
  proof (cases "ctx_red cs")
    case False
    have "n \<noteq> root \<Longrightarrow> \<not> rb_red (h p)"
    proof (cases cs)
      case (Cons f cs')
      obtain d a c u where "f = (d, (a, c), u)" by (metis prod.exhaust)
      then show ?thesis using less.prems(1) False by (auto simp: place_iff Cons)
    qed (use less.prems(1) in \<open>auto simp: place_iff\<close>)
    then have "insert_fixup s n (root, h) = Some (root, h)" using par by (subst insert_fixup.simps) auto
    then show ?thesis using rebalanced_stop[OF less.prems(1,2)] less.prems(3,4) False by simp
  next
    case True
    then obtain e q u d g c w cs' where cs: "cs = (e, (q, True), u) # (d, (g, c), w) # cs'"
      using less.prems(3) by (cases cs rule: ctx_red.cases; cases "tl cs" rule: ctx_red.cases) auto
    then have "p = q" "c = False" using less.prems(1,3) by (auto simp: place_iff)
    note cs = cs[unfolded this(2) this(1)[symmetric]]
    note pl = less.prems(1)[unfolded cs]
    have inv: "rb_inv u" "\<not> is_red u" "black_height u = black_height l" "rb_inv w" "black_height w = black_height l"
        "ctx_rb cs' (Suc (black_height l))"
      using less.prems(3) by (auto simp: cs)
    have n: "n \<noteq> s" "rb_red (h p)" "rb_parent (h p) = g" and ps: "p \<noteq> s" and nc: "n \<notin> ctx_addrs cs" "heap_ctx h s root n p cs"
      using pl by (simp_all add: place_iff cs)
    have "n \<noteq> root" using ctx_root[OF nc(2)] nc(1) cs by auto
    note n = n(1) this n(2,3)
    have side: "p = rb_left (h g) \<longleftrightarrow> d = False"
      using place_side[OF place_up2[OF pl] disjI1[OF ps], of False] by (simp add: child_side)
    have un: "insert_fixup s n (root, h) = (case insert_round d s n (root, h) of (node, tree) \<Rightarrow> insert_fixup s node tree)"
      using n par side by (subst insert_fixup.simps) (simp add: insert_round_sides)
    have xs: "s \<notin> set ?xs" using less.prems(1) by (simp add: place_def)
    have sub: "{p, g, n} \<union> set (tree_addrs u) \<union> set (tree_addrs ?t) \<union> set (tree_addrs w) \<union> ctx_addrs cs' \<subseteq> set ?xs"
      unfolding set_fill_ctx cs by auto
    have mono: "touches S h h' \<Longrightarrow> S \<subseteq> {p, g, n} \<union> set (tree_addrs u) \<union> set (tree_addrs ?t) \<union> set (tree_addrs w) \<union> ctx_addrs cs' \<Longrightarrow>
        touches (set ?xs) h h' \<and> h' s = h s" for h' S
      using sub xs unfolding touches_def by blast
    show ?thesis
    proof (cases "is_red w")
      case True
      let ?t2 = "nd d (nd e ?t (p, False) u) (g, True) (paint_black w)"
      from insert_round_red[OF pl n(1) less.prems(4) True] obtain h' where
        r: "insert_round d s n (root, h) = (g, root, h')" "place h' s root g (rb_parent (h g)) ?t2 cs'"
          "touches ({p, g} \<union> set (tree_addrs w)) h h'" by blast
      obtain l2 r2 where t2: "?t2 = Node l2 (g, True) r2" by (cases d) (simp_all add: nd_def)
      have w: "black_height (paint_black w) = Suc (black_height l)" using inv(5) True by (cases w) (auto simp: paint_black_def split: if_splits)
      have i2: "rb_inv ?t2" "black_height ?t2 = Suc (black_height l)"
        using less.prems(2) inv paint_black_inv[OF inv(4)] w by (auto simp: black_height_nd')
      have m: "touches (set ?xs) h h'" "h' s = h s" using mono[OF r(3)] by auto
      have e: "fill cs' (tree_addrs ?t2) = ?xs"
        by (simp add: cs nd_addrs)
      have "rebalanced (set ?xs) s h' ?xs (insert_fixup s g (root, h'))"
        using less.hyps[of cs' h' root g "rb_parent (h g)" l2 r2] r(2) i2 inv(6) less.prems(4) m(2) e unfolding t2
        by (simp add: cs)
      then show ?thesis using rebalanced_trans[OF m(1)] by (simp add: un r(1))
    next
      case False
      obtain ta tb where t: "?t = nd d ta (n, True) tb" by (cases d) (auto simp: nd_def)
      obtain m root' h' where r: "insert_round d s n (root, h) = (m, root', h')" by (rule prod_cases3)
      from insert_round_black[OF pl t less.prems(4) False r] obtain q t1 t2 where
        o: "place h' s root' m q t1 ((d, (q, False), nd (\<not> d) w (g, True) t2) # cs')"
          "e = d \<and> q = p \<and> m = n \<and> t1 = ?t \<and> t2 = u \<or> e \<noteq> d \<and> q = n \<and> m = p \<and> t1 = nd d u (p, True) ta \<and> t2 = tb"
          "touches ({p, g, n} \<union> set (tree_addrs u) \<union> set (tree_addrs ?t) \<union> set (tree_addrs w) \<union> ctx_addrs cs') h h'"
        by blast
      have m: "touches (set ?xs) h h'" "h' s = h s" using mono[OF o(3)] by auto
      have it: "rb_inv ta" "rb_inv tb" "\<not> is_red ta" "\<not> is_red tb" "black_height ta = black_height tb" "black_height ta = black_height l"
        using less.prems(2) t by (auto simp: nd_def split: if_splits)
      have w: "black_height w = black_height l" "\<not> is_red w" "rb_inv w" using inv False by simp_all
      have i1: "rb_inv t1" "black_height t1 = black_height l" "rb_inv t2" "\<not> is_red t2" "black_height t2 = black_height l" "is_red t1"
        using o(2) less.prems(2) inv it by (auto simp: black_height_nd')
      have c: "ctx_rb ((d, (q, False), nd (\<not> d) w (g, True) t2) # cs') (black_height t1)"
        using i1 w inv(6) by (simp add: black_height_nd')
      have e: "fill ((d, (q, False), nd (\<not> d) w (g, True) t2) # cs') (tree_addrs t1) = ?xs"
        using o(2) t by (auto simp: cs nd_addrs split: if_splits)
      have mq: "rb_parent (h' m) = q" "m \<noteq> s \<and> \<not> rb_red (h' q)" using o(1) heap_tree_root[of h' s q m t1] i1(6) by (auto simp: place_iff)
      then have "insert_fixup s m (root', h') = Some (root', h')" by (subst insert_fixup.simps) simp
      moreover have "rebalanced (set ?xs) s h' ?xs (Some (root', h'))"
        using rebalanced_stop[OF o(1) i1(1) c] less.prems(4) m(2) e by simp
      ultimately show ?thesis using rebalanced_trans[OF m(1)] by (simp add: un r)
    qed
  qed
qed

section \<open>The place of a new node\<close>

text \<open>What the frames hold to the left and to the right of the place.\<close>

fun ctx_left :: "rb_frame list \<Rightarrow> addr list" where
  "ctx_left [] = []"
| "ctx_left ((d, (a, c), t) # cs) = ctx_left cs @ (if d then tree_addrs t @ [a] else [])"

fun ctx_right :: "rb_frame list \<Rightarrow> addr list" where
  "ctx_right [] = []"
| "ctx_right ((d, (a, c), t) # cs) = (if d then [] else a # tree_addrs t) @ ctx_right cs"

lemma fill_sides: "fill cs xs = ctx_left cs @ xs @ ctx_right cs"
  by (induction cs xs rule: fill.induct) auto

text \<open>An ordered tree of the heap, as the list of its nodes: what the operations implement.\<close>

definition rbt :: "rb_heap \<Rightarrow> addr \<Rightarrow> addr \<Rightarrow> addr list \<Rightarrow> bool" where
  "rbt h s root xs \<longleftrightarrow> (\<exists>t. tree_at h s root t \<and> rb_inv t \<and> \<not> is_red t \<and> tree_addrs t = xs) \<and> \<not> rb_red (h s)"

lemma rbt_distinct: "rbt h s root xs \<Longrightarrow> distinct xs \<and> s \<notin> set xs"
  by (auto simp: rbt_def tree_at_def place_def)

lemma rbt_root: "rbt h s root xs \<Longrightarrow> root = s \<and> xs = [] \<or> root \<noteq> s \<and> root \<in> set xs"
  unfolding rbt_def tree_at_def place_iff using heap_tree_root[of h s "rb_parent (h root)" root] by fastforce

lemma place_attach:
  assumes "place h s root s a Leaf ((d, (a, c), r) # cs)" and "n \<notin> ctx_addrs ((d, (a, c), r) # cs)" and "n \<noteq> s"
  shows "place (rb_attach a (\<not> d) n s h) s root n a (Node Leaf (n, True) Leaf) ((d, (a, c), r) # cs)"
proof -
  have "rb_attach a (\<not> d) n s h =
      set_red n True (set_right n s (set_left n s (set_parent n a (set_child d a n h))))"
    by (simp add: rb_attach_def set_child_def Let_def)
  then show ?thesis using assms by (auto simp: place_iff)
qed

locale insert_order =
  fixes below :: "rb_heap \<Rightarrow> addr \<Rightarrow> addr \<Rightarrow> bool" and rank :: "rb_heap \<Rightarrow> addr \<Rightarrow> 'k :: linorder"
    and fit :: "rb_heap \<Rightarrow> addr set \<Rightarrow> bool"
  assumes below_rank: "fit h S \<Longrightarrow> a \<in> S \<Longrightarrow> b \<in> S \<Longrightarrow> below h a b \<longleftrightarrow> rank h a < rank h b"
begin

lemma insert_loop_place:
  "place h s root temp par t cs \<Longrightarrow> t \<noteq> Leaf \<Longrightarrow> rb_inv t \<Longrightarrow> ctx_rb cs (black_height t) \<Longrightarrow>
     \<not> (is_red t \<and> (cs = [] \<or> ctx_red cs)) \<Longrightarrow> n \<notin> set (fill cs (tree_addrs t)) \<Longrightarrow> n \<noteq> s \<Longrightarrow>
     fit h (insert n (set (fill cs (tree_addrs t)))) \<Longrightarrow> sorted (map (rank h) (tree_addrs t)) \<Longrightarrow>
     (\<forall>a \<in> set (ctx_left cs). rank h a \<le> rank h n) \<Longrightarrow> (\<forall>a \<in> set (ctx_right cs). rank h n < rank h a) \<Longrightarrow>
     \<exists>h' par' cs'. rb_insert_loop below temp n s h = Some h' \<and> place h' s root n par' (Node Leaf (n, True) Leaf) cs' \<and>
       ctx_rb cs' 0 \<and> fill cs' [] = fill cs (tree_addrs t) \<and> (\<forall>a \<in> set (ctx_left cs'). rank h a \<le> rank h n) \<and>
       (\<forall>a \<in> set (ctx_right cs'). rank h n < rank h a) \<and> touches (insert n (set (fill cs (tree_addrs t)))) h h'"
proof (induction t arbitrary: temp par cs)
  case (Node l x r)
  obtain a c where x: "x = (a, c)" by (rule prod.exhaust)
  have temp: "temp = a" using Node.prems(1) by (simp add: place_iff x)
  define d where "d = (\<not> below h n a)"
  define lo where "lo = (if d then r else l)"
  define up where "up = (if d then l else r)"
  have t: "Node l x r = nd d lo (a, c) up" by (simp add: nd_def lo_def up_def x)
  let ?cs = "(d, (a, c), up) # cs"
  have f: "fill ?cs (tree_addrs lo) = fill cs (tree_addrs (Node l x r))" using fill_nd[of cs d lo a c up] by (simp add: t)
  have p: "place h s root (child d (h a)) a lo ?cs" using Node.prems(1) unfolding t temp by (rule place_down')
  have "a \<in> insert n (set (fill cs (tree_addrs (Node l x r))))" "n \<in> insert n (set (fill cs (tree_addrs (Node l x r))))"
    unfolding set_fill_ctx by (simp_all add: x)
  from below_rank[OF Node.prems(8) this(2,1)] have cmp: "d \<longleftrightarrow> rank h a \<le> rank h n" by (auto simp: d_def)
  have srt: "sorted (map (rank h) (tree_addrs l))" "sorted (map (rank h) (tree_addrs r))"
      "\<forall>b \<in> set (tree_addrs l). rank h b \<le> rank h a" "\<forall>b \<in> set (tree_addrs r). rank h a \<le> rank h b"
    using Node.prems(9) by (auto simp: x sorted_append)
  have sides: "\<forall>b \<in> set (ctx_left ?cs). rank h b \<le> rank h n" "\<forall>b \<in> set (ctx_right ?cs). rank h n < rank h b"
    using Node.prems(10,11) srt cmp by (cases d; auto simp: up_def not_le)+
  have rb: "ctx_rb ?cs (black_height lo)" "rb_inv lo" "\<not> (is_red lo \<and> (?cs = [] \<or> ctx_red ?cs))"
    using Node.prems(3,4,5) unfolding t by (auto simp: black_height_nd')
  have un: "rb_insert_loop below temp n s h =
      (if child d (h a) = s then Some (rb_attach a (\<not> d) n s h) else rb_insert_loop below (child d (h a)) n s h)"
    unfolding temp by (subst rb_insert_loop.simps) (simp add: d_def child_def Let_def)
  show ?case
  proof (cases "child d (h a) = s")
    case True
    then have lo: "lo = Leaf" using p heap_tree_root[of h s a "child d (h a)" lo] by (auto simp: place_iff)
    have n: "n \<notin> ctx_addrs ?cs" using Node.prems(6) f set_fill_ctx[of ?cs "tree_addrs lo"] by auto
    have "place h s root s a Leaf ?cs" using p True lo by simp
    note at = place_attach[OF this n Node.prems(7)]
    have "a \<in> S \<Longrightarrow> n \<in> S \<Longrightarrow> touches S h (rb_attach a (\<not> d) n s h)" for S
      by (simp add: rb_attach_def Let_def touches_set)
    then have "touches (insert n (set (fill ?cs []))) h (rb_attach a (\<not> d) n s h)"
      unfolding set_fill_ctx by simp
    moreover have "ctx_rb ?cs 0" using rb(1) by (simp add: lo)
    moreover have "fill ?cs [] = fill cs (tree_addrs (Node l x r))" using f by (simp add: lo)
    ultimately show ?thesis
      using at sides un True by (intro exI[of _ "rb_attach a (\<not> d) n s h"] exI[of _ a] exI[of _ ?cs]) simp
  next
    case False
    then have ne: "lo \<noteq> Leaf" using p heap_tree_root[of h s a "child d (h a)" lo] by (auto simp: place_iff)
    have so: "sorted (map (rank h) (tree_addrs lo))" using srt by (simp add: lo_def)
    have n: "n \<notin> set (fill ?cs (tree_addrs lo))" "fit h (insert n (set (fill ?cs (tree_addrs lo))))"
      unfolding f using Node.prems(6,8) by simp_all
    have "lo = r \<or> lo = l" by (simp add: lo_def)
    then show ?thesis
    proof
      assume "lo = r"
      from Node.IH(2)[folded this, OF p ne rb(2,1,3) n(1) Node.prems(7) n(2) so sides] False show ?thesis
        unfolding f un by simp
    next
      assume "lo = l"
      from Node.IH(1)[folded this, OF p ne rb(2,1,3) n(1) Node.prems(7) n(2) so sides] False show ?thesis
        unfolding f un by simp
    qed
  qed
qed simp

text \<open>The new node comes after the last one that is not above it.\<close>

lemma rbtree_insert:
  assumes "rbt h s root xs" and "sorted (map (rank h) xs)" and "n \<notin> set xs" and "n \<noteq> s" and "fit h (insert n (set xs))"
  shows "\<exists>root' h' us vs. ngx_rbtree_insert (rb_insert_loop below) s n (root, h) = Some (root', h') \<and>
     xs = us @ vs \<and> rbt h' s root' (us @ n # vs) \<and> (\<forall>a \<in> set us. rank h a \<le> rank h n) \<and>
     (\<forall>a \<in> set vs. rank h n < rank h a) \<and> touches (insert n (set xs)) h h'"
proof -
  from assms(1) obtain t where t: "tree_at h s root t" "rb_inv t" "\<not> is_red t" "tree_addrs t = xs" and s: "\<not> rb_red (h s)"
    by (auto simp: rbt_def)
  show ?thesis
  proof (cases t)
    case Leaf
    let ?h = "set_red n False (set_right n s (set_left n s (set_parent n NULL h)))"
    have r: "root = s" "xs = []" using t by (auto simp: Leaf tree_at_def place_iff)
    have "tree_at ?h s n (Node Leaf (n, False) Leaf)"
      using assms(4) by (simp add: tree_at_def place_iff)
    then have "rbt ?h s n [n]" using s assms(4) unfolding rbt_def by (intro conjI exI[of _ "Node Leaf (n, False) Leaf"]) simp_all
    then show ?thesis using r by (simp add: ngx_rbtree_insert_def touches_set)
  next
    case (Node l x r)
    then have ne: "t \<noteq> Leaf" by simp
    have pl: "place h s root root (rb_parent (h root)) t []" using t(1) by (simp add: tree_at_def)
    have "root \<noteq> s" using pl Node by (cases x) (auto simp: place_iff)
    have "n \<notin> set (fill [] (tree_addrs t))" "fit h (insert n (set (fill [] (tree_addrs t))))" "sorted (map (rank h) (tree_addrs t))"
      using t(4) assms by simp_all
    from insert_loop_place[OF pl ne t(2) _ _ this(1) assms(4) this(2,3)] t(3,4)
    obtain h1 par cs where l: "rb_insert_loop below root n s h = Some h1" "place h1 s root n par (Node Leaf (n, True) Leaf) cs"
      "ctx_rb cs 0" "fill cs [] = xs" "\<forall>a \<in> set (ctx_left cs). rank h a \<le> rank h n" "\<forall>a \<in> set (ctx_right cs). rank h n < rank h a"
      "touches (insert n (set xs)) h h1"
      by auto
    have s1: "\<not> rb_red (h1 s)" using place_touches_sentinel[OF l(7)] rbt_distinct[OF assms(1)] assms(4) s by simp
    have fl: "fill cs (tree_addrs (Node Leaf (n, True) Leaf)) = ctx_left cs @ n # ctx_right cs" by (simp add: fill_sides)
    from insert_fixup_place[OF l(2) _ _ s1] l(3) obtain root' h2 t' where
      f: "insert_fixup s n (root, h1) = Some (root', h2)" "tree_at (set_red root' False h2) s root' t'" "rb_inv t'" "\<not> is_red t'"
        "tree_addrs t' = ctx_left cs @ n # ctx_right cs" "touches (insert n (set xs)) h1 h2"
      unfolding rebalanced_def fl using l(4) by (auto simp: fill_sides)
    have xs: "xs = ctx_left cs @ ctx_right cs" using l(4) by (simp add: fill_sides)
    have r': "root' \<in> insert n (set xs)"
      using f(2,5) xs heap_tree_root[of "set_red root' False h2" s _ root' t'] by (cases t') (auto simp: tree_at_def place_iff)
    have to: "touches (insert n (set xs)) h (set_red root' False h2)"
      using touches_trans[OF l(7) f(6)] r' by (simp add: touches_set)
    then have "\<not> rb_red (set_red root' False h2 s)"
      using place_touches_sentinel[OF to] rbt_distinct[OF assms(1)] assms(4) s by simp
    then have "rbt (set_red root' False h2) s root' (ctx_left cs @ n # ctx_right cs)"
      using f(2-5) unfolding rbt_def by blast
    then show ?thesis
      using l f to xs \<open>root \<noteq> s\<close> by (intro exI[of _ root'] exI[of _ "set_red root' False h2"] exI[of _ "ctx_left cs"] exI[of _ "ctx_right cs"])
        (simp add: ngx_rbtree_insert_def)
  qed
qed

end

end
