(* ===== verification/RbTreeDelete.thy ===== *)
theory RbTreeDelete
  imports RbTreeInsert
begin

text \<open>
  \<^verbatim>\<open>ngx_rbtree_delete\<close> takes its node out and keeps the tree red-black. The loop works at the place whose subtree is
  short of a black node; that place may be empty, and then its parent is read from the sentinel, where
  the removal stored it.
\<close>

section \<open>The place that is short\<close>

definition spot :: "rb_heap \<Rightarrow> addr \<Rightarrow> addr \<Rightarrow> addr \<Rightarrow> addr \<Rightarrow> rb_tree \<Rightarrow> rb_frame list \<Rightarrow> bool" where
  "spot h s root p par t cs \<longleftrightarrow> place h s root p par t cs \<and> rb_parent (h p) = par"

text \<open>Both rounds in one; the part after a red sibling has been turned away.\<close>

definition delete_rest :: "bool \<Rightarrow> addr \<Rightarrow> addr \<Rightarrow> addr \<times> rb_heap \<Rightarrow> addr \<times> addr \<times> rb_heap" where
  "delete_rest d sentinel temp tree =
    (let (root, h) = tree; w = child (\<not> d) (h (rb_parent (h temp)))
     in if \<not> rb_red (h (rb_left (h w))) \<and> \<not> rb_red (h (rb_right (h w)))
        then (rb_parent (h temp), root, set_red w True h)
        else
          let (root, h) =
                (if \<not> rb_red (h (child (\<not> d) (h w)))
                 then rotate_to (\<not> d) sentinel w (root, set_red w True (set_red (child d (h w)) False h))
                 else (root, h));
              w = child (\<not> d) (h (rb_parent (h temp)));
              h = set_red w (rb_red (h (rb_parent (h temp)))) h;
              h = set_red (rb_parent (h temp)) False h;
              h = set_red (child (\<not> d) (h w)) False h;
              (root, h) = rotate_to d sentinel (rb_parent (h temp)) (root, h)
          in (root, root, h))"

definition delete_round :: "bool \<Rightarrow> addr \<Rightarrow> addr \<Rightarrow> addr \<times> rb_heap \<Rightarrow> addr \<times> addr \<times> rb_heap" where
  "delete_round d sentinel temp tree =
    (let (root, h) = tree;
         w = child (\<not> d) (h (rb_parent (h temp)));
         (root, h) =
           (if rb_red (h w)
            then rotate_to d sentinel (rb_parent (h temp)) (root, set_red (rb_parent (h temp)) True (set_red w False h))
            else (root, h))
     in delete_rest d sentinel temp (root, h))"

lemma delete_round_sides: "delete_left_round = delete_round False" "delete_right_round = delete_round True"
  by (intro ext; simp add: delete_left_round_def delete_right_round_def delete_round_def delete_rest_def child_def rotate_to
      Let_def case_prod_beta)+

lemma place_switch_back:
  assumes "place h s root q a w ((\<not> d, (a, c), t) # cs)"
  shows "place h s root (child d (h a)) a t ((d, (a, c), w) # cs)"
  using place_switch[OF assms] by simp

lemma place_color_child:
  assumes "place h s root p par (nd d l (a, c) r) cs" and "\<not> rb_red (h s)"
  shows "rb_red (h (child d (h a))) = is_red l" "rb_red (h (child (\<not> d) (h a))) = is_red r"
proof -
  have "p = a" using assms(1) by (simp add: place_iff)
  with place_down'[of h s root a par d l c r cs] assms(1)
  have l: "place h s root (child d (h a)) a l ((d, (a, c), r) # cs)" by simp
  from place_color[OF l assms(2)] show "rb_red (h (child d (h a))) = is_red l" .
  from place_color[OF place_switch[OF l] assms(2)] show "rb_red (h (child (\<not> d) (h a))) = is_red r" .
qed

text \<open>A red sibling is rotated to the top; the place gets a black sibling and a red parent.\<close>

lemma delete_red_sibling:
  assumes "spot h s root p a t ((d, (a, c), nd d w1 (b, True) w2) # cs)"
    and "rotate_to d s a (root, set_red a True (set_red b False h)) = (root', h')"
  shows "spot h' s root' p a t ((d, (a, True), w1) # (d, (b, False), w2) # cs) \<and>
     touches (set (tree_addrs t) \<union> ctx_addrs ((d, (a, c), nd d w1 (b, True) w2) # cs)) h h'"
proof -
  let ?h = "set_red a True (set_red b False h)"
  have pl: "place h s root p a t ((d, (a, c), nd d w1 (b, True) w2) # cs)" and par: "rb_parent (h p) = a"
    using assms(1) by (simp_all add: spot_def)
  have ab: "child (\<not> d) (h a) = b" "a \<noteq> b" "a \<noteq> s" "b \<noteq> s" using pl by (auto simp: place_iff)
  have "place (set_red b False h) s root p a t ((d, (a, c), nd d w1 (b, False) w2) # cs)"
    using pl by (auto simp: place_iff)
  from place_up[OF place_paint_ctx[OF this, of True]]
  have up: "place ?h s root a (rb_parent (?h a)) (nd d t (a, True) (nd d w1 (b, False) w2)) cs" .
  from place_rotate[OF up assms(2)]
  have r: "place h' s root' b (rb_parent (?h a)) (nd d (nd d t (a, True) w1) (b, False) w2) cs"
    and to: "touches ({a, b} \<union> set (tree_addrs w1) \<union> ctx_addrs cs) ?h h'" by auto
  from place_down'[OF r] have r2: "place h' s root' (child d (h' b)) b (nd d t (a, True) w1) ((d, (b, False), w2) # cs)" .
  then have "child d (h' b) = a" by (auto simp: place_iff)
  from place_down'[OF r2[unfolded this]]
  have r3: "place h' s root' (child d (h' a)) a t ((d, (a, True), w1) # (d, (b, False), w2) # cs)" .
  then have r4: "place h' s root' p a t ((d, (a, True), w1) # (d, (b, False), w2) # cs)"
    using place_top[OF pl r3] by simp
  have par': "rb_parent (h' p) = a"
  proof (cases "p = s")
    case True
    have "s \<notin> {a, b} \<union> set (tree_addrs w1) \<union> ctx_addrs cs" using pl by (auto simp: place_iff)
    then have "h' s = ?h s" using to by (auto simp: touches_def)
    then show ?thesis using par True by simp
  next
    case False
    then show ?thesis using r4 heap_tree_root[of h' s a p t] by (auto simp: place_iff)
  qed
  have t1: "touches (set (tree_addrs t) \<union> ctx_addrs ((d, (a, c), nd d w1 (b, True) w2) # cs)) h ?h"
    by (simp add: touches_set)
  have t2: "touches (set (tree_addrs t) \<union> ctx_addrs ((d, (a, c), nd d w1 (b, True) w2) # cs)) ?h h'"
    using to unfolding touches_def by auto
  show ?thesis unfolding spot_def by (intro conjI r4 par' touches_trans[OF t1 t2])
qed

text \<open>A black sibling with a red outer child: a rotation at the parent ends the loop.\<close>

lemma delete_outer:
  assumes "place h s root p a t ((d, (a, c), nd d w1 (b, False) w2) # cs)" and "is_red w2" and "\<not> rb_red (h s)"
    and "rotate_to d s a (root, set_red (child (\<not> d) (h b)) False (set_red a False (set_red b c h))) = (root', h')"
  shows "\<exists>q par. place h' s root' q par (nd d (nd d t (a, False) w1) (b, c) (paint_black w2)) cs \<and>
     touches (set (tree_addrs t) \<union> ctx_addrs ((d, (a, c), nd d w1 (b, False) w2) # cs)) h h'"
proof -
  let ?x = "child (\<not> d) (h b)"
  let ?h = "set_red ?x False (set_red a False (set_red b c h))"
  have ab: "child (\<not> d) (h a) = b" "a \<noteq> b" "a \<noteq> s" "b \<noteq> s" using assms(1) by (auto simp: place_iff)
  have w2: "heap_tree h s b ?x w2" "distinct (tree_addrs w2)" "a \<notin> set (tree_addrs w2)" "b \<notin> set (tree_addrs w2)"
      "set (tree_addrs w2) \<inter> set (tree_addrs t) = {}" "set (tree_addrs w2) \<inter> set (tree_addrs w1) = {}" "set (tree_addrs w2) \<inter> ctx_addrs cs = {}"
    using assms(1) by (auto simp: place_iff)
  have x: "?x \<in> set (tree_addrs w2)" "?x \<noteq> a" "?x \<noteq> b" using heap_tree_root[OF w2(1)] assms(2) w2(3,4) by (cases w2; auto)+
  have "heap_tree (set_red a False (set_red b c h)) s b ?x w2" using w2(1,3,4) by simp
  from heap_tree_paint[OF this w2(2)] have p2: "heap_tree ?h s b ?x (paint_black w2)" using assms(3) ab by simp
  have out: "?x \<notin> set (tree_addrs t)" "?x \<notin> set (tree_addrs w1)" "?x \<notin> ctx_addrs cs" using x(1) w2(5-7) by auto
  have "place ?h s root p a t ((d, (a, False), nd d w1 (b, c) (paint_black w2)) # cs)"
    using assms(1) p2 out x by (auto simp: place_iff)
  from place_up[OF this]
  have up: "place ?h s root a (rb_parent (?h a)) (nd d t (a, False) (nd d w1 (b, c) (paint_black w2))) cs" .
  have S: "touches (set (tree_addrs t) \<union> ctx_addrs ((d, (a, c), nd d w1 (b, False) w2) # cs)) h ?h"
    using x by (simp add: touches_set)
  from place_rotate[OF up assms(4)]
  have r: "place h' s root' b (rb_parent (?h a)) (nd d (nd d t (a, False) w1) (b, c) (paint_black w2)) cs"
    and to: "touches ({a, b} \<union> set (tree_addrs w1) \<union> ctx_addrs cs) ?h h'" by auto
  have "touches (set (tree_addrs t) \<union> ctx_addrs ((d, (a, c), nd d w1 (b, False) w2) # cs)) ?h h'"
    using to unfolding touches_def by auto
  with S r show ?thesis using touches_trans by blast
qed

text \<open>With a red inner child, a rotation at the sibling makes it the outer one.\<close>

lemma delete_inner:
  assumes "spot h s root p a t ((d, (a, c), nd d (nd d w11 (x, True) w12) (b, False) w2) # cs)"
    and "rotate_to (\<not> d) s b (root, set_red b True (set_red x False h)) = (root', h')"
  shows "spot h' s root' p a t ((d, (a, c), nd d w11 (x, False) (nd d w12 (b, True) w2)) # cs) \<and>
     touches (set (tree_addrs t) \<union> ctx_addrs ((d, (a, c), nd d (nd d w11 (x, True) w12) (b, False) w2) # cs)) h h'"
proof -
  let ?h = "set_red b True (set_red x False h)"
  have pl: "place h s root p a t ((d, (a, c), nd d (nd d w11 (x, True) w12) (b, False) w2) # cs)" and par: "rb_parent (h p) = a"
    using assms(1) by (simp_all add: spot_def)
  have "child (\<not> d) (h a) = b" using pl by (auto simp: place_iff)
  from place_switch[OF pl, unfolded this]
  have "place ?h s root b a (nd d (nd d w11 (x, False) w12) (b, True) w2) ((\<not> d, (a, c), t) # cs)"
    by (auto simp: place_iff)
  then have "place ?h s root b a (nd (\<not> d) w2 (b, True) (nd (\<not> d) w12 (x, False) w11)) ((\<not> d, (a, c), t) # cs)"
    by (simp add: nd_not)
  from place_rotate[OF this assms(2)]
  have r: "place h' s root' x a (nd d w11 (x, False) (nd d w12 (b, True) w2)) ((\<not> d, (a, c), t) # cs)"
    and to: "touches ({b, x} \<union> set (tree_addrs w12) \<union> ctx_addrs ((\<not> d, (a, c), t) # cs)) ?h h'"
    by (auto simp: nd_not)
  from place_switch_back[OF r]
  have r3: "place h' s root' (child d (h' a)) a t ((d, (a, c), nd d w11 (x, False) (nd d w12 (b, True) w2)) # cs)" .
  then have r4: "place h' s root' p a t ((d, (a, c), nd d w11 (x, False) (nd d w12 (b, True) w2)) # cs)"
    using place_top[OF pl r3] by simp
  have par': "rb_parent (h' p) = a"
  proof (cases "p = s")
    case True
    have "s \<notin> {b, x} \<union> set (tree_addrs w12) \<union> ctx_addrs ((\<not> d, (a, c), t) # cs)" using pl by (auto simp: place_iff)
    then have "h' s = ?h s" using to by (auto simp: touches_def)
    then show ?thesis using par True by simp
  next
    case False
    then show ?thesis using r4 heap_tree_root[of h' s a p t] by (auto simp: place_iff)
  qed
  have t1: "touches (set (tree_addrs t) \<union> ctx_addrs ((d, (a, c), nd d (nd d w11 (x, True) w12) (b, False) w2) # cs)) h ?h"
    by (simp add: touches_set)
  have t2: "touches (set (tree_addrs t) \<union> ctx_addrs ((d, (a, c), nd d (nd d w11 (x, True) w12) (b, False) w2) # cs)) ?h h'"
    using to unfolding touches_def by auto
  show ?thesis unfolding spot_def by (intro conjI r4 par' touches_trans[OF t1 t2])
qed

section \<open>A round\<close>

lemma spot_parent: "spot h s root p par t cs \<Longrightarrow> rb_parent (h p) = par"
  by (simp add: spot_def)

text \<open>After a round the place is the parent, or the tree is in order and the place is the root.\<close>

definition round_up :: "addr \<Rightarrow> addr \<Rightarrow> rb_heap \<Rightarrow> rb_tree \<Rightarrow> rb_frame list \<Rightarrow> addr \<times> addr \<times> rb_heap \<Rightarrow> bool" where
  "round_up s a h t cs res \<longleftrightarrow> (case cs of [] \<Rightarrow> False | (d, (b, c), w) # cs \<Rightarrow>
     \<exists>h' w'. res = (b, a, h') \<and> spot h' s a b (rb_parent (h b)) (nd d t (b, c) w') cs \<and>
       rb_inv w' \<and> is_red w' \<and> black_height w' = black_height t \<and> tree_addrs w' = tree_addrs w)"

definition round_end :: "addr \<Rightarrow> rb_frame list \<Rightarrow> rb_tree \<Rightarrow> addr \<times> addr \<times> rb_heap \<Rightarrow> bool" where
  "round_end s cs t res \<longleftrightarrow>
    (\<exists>root' h' t'. res = (root', root', h') \<and> tree_at h' s root' t' \<and> rb_inv t' \<and> \<not> is_red t' \<and> tree_addrs t' = fill cs (tree_addrs t))"

lemma delete_rest_round:
  assumes "spot h s root p a t ((d, (a, c), w) # cs)" and "\<not> is_red w" and "\<not> is_red t" and "rb_inv t"
    and "ctx_rb ((d, (a, c), w) # cs) (Suc (black_height t))" and "\<not> rb_red (h s)"
    and S: "S = set (fill ((d, (a, c), w) # cs) (tree_addrs t))"
  shows "touches S h (snd (snd (delete_rest d s p (root, h)))) \<and>
    (round_up s root h t ((d, (a, c), w) # cs) (delete_rest d s p (root, h)) \<or>
     round_end s ((d, (a, c), w) # cs) t (delete_rest d s p (root, h)))"
proof -
  note pl = assms(1)[unfolded spot_def, THEN conjunct1] and par = assms(1)[unfolded spot_def, THEN conjunct2]
  have w: "rb_inv w" "black_height w = Suc (black_height t)" using assms(5) by auto
  obtain w1 b w2 where wn: "w = nd d w1 (b, False) w2"
    using w(2) assms(2) by (cases w; cases d) (auto simp: nd_def)
  have wi: "rb_inv w1" "rb_inv w2" "black_height w1 = black_height t" "black_height w2 = black_height t"
    using w unfolding wn by (auto simp: black_height_nd')
  have ab: "child (\<not> d) (h a) = b" "a \<noteq> b" "b \<noteq> s" "a \<noteq> s" using pl by (auto simp: place_iff wn)
  have sw: "place h s root b a (nd d w1 (b, False) w2) ((\<not> d, (a, c), t) # cs)"
    using place_switch[OF pl] by (simp add: ab wn)
  note col = place_color_child[OF sw assms(6)]
  have both: "\<not> rb_red (h (rb_left (h b))) \<and> \<not> rb_red (h (rb_right (h b))) \<longleftrightarrow> \<not> is_red w1 \<and> \<not> is_red w2"
    using col by (cases d) (auto simp: child_def)
  have S': "S = set (tree_addrs t) \<union> ctx_addrs ((d, (a, c), nd d w1 (b, False) w2) # cs)"
    by (simp only: S set_fill_ctx wn)
  have sS: "s \<notin> S" using pl by (simp add: S place_def)
  show ?thesis
  proof (cases "is_red w1 \<or> is_red w2")
    case False
    have up: "place (set_red b True h) s root p a t ((d, (a, c), nd d w1 (b, True) w2) # cs)"
      using pl by (auto simp: place_iff wn)
    have "spot (set_red b True h) s root a (rb_parent (h a)) (nd d t (a, c) (nd d w1 (b, True) w2)) cs"
      using place_up[OF up] by (simp add: spot_def)
    moreover have "delete_rest d s p (root, h) = (a, root, set_red b True h)"
      using False both by (simp add: delete_rest_def par ab Let_def)
    moreover have "rb_inv (nd d w1 (b, True) w2)" "black_height (nd d w1 (b, True) w2) = black_height t"
      using wi False by (simp_all add: black_height_nd')
    ultimately show ?thesis
      by (simp add: round_up_def S' touches_set) (rule disjI1, intro exI[of _ "nd d w1 (b, True) w2"], simp add: wn nd_addrs)
  next
    case True
    have "\<exists>root1 h1 v1 x v2. spot h1 s root1 p a t ((d, (a, c), nd d v1 (x, False) v2) # cs) \<and> touches S h h1 \<and>
        is_red v2 \<and> rb_inv v1 \<and> rb_inv v2 \<and> black_height v1 = black_height t \<and> black_height v2 = black_height t \<and>
        tree_addrs (nd d v1 (x, False) v2) = tree_addrs w \<and>
        (if \<not> rb_red (h (child (\<not> d) (h b))) then rotate_to (\<not> d) s b (root, set_red b True (set_red (child d (h b)) False h))
         else (root, h)) = (root1, h1)"
    proof (cases "is_red w2")
      case True
      then show ?thesis
        using assms(1) wi col by (intro exI[of _ root] exI[of _ h] exI[of _ w1] exI[of _ b] exI[of _ w2]) (simp add: wn)
    next
      case False
      then obtain w11 x w12 where w1: "w1 = nd d w11 (x, True) w12"
        using \<open>is_red w1 \<or> is_red w2\<close> by (cases w1; cases d) (auto simp: nd_def)
      have x: "child d (h b) = x" using pl by (auto simp: place_iff wn w1)
      obtain root1 h1 where r: "rotate_to (\<not> d) s b (root, set_red b True (set_red x False h)) = (root1, h1)" by (rule prod.exhaust)
      from delete_inner[OF assms(1)[unfolded wn w1] r]
      have "spot h1 s root1 p a t ((d, (a, c), nd d w11 (x, False) (nd d w12 (b, True) w2)) # cs)" "touches S h h1"
        unfolding S' w1 by auto
      then show ?thesis
        using wi False col r x unfolding w1
        by (intro exI[of _ root1] exI[of _ h1] exI[of _ w11] exI[of _ x] exI[of _ "nd d w12 (b, True) w2"])
           (auto simp: wn w1 nd_addrs black_height_nd')
    qed
    then obtain root1 h1 v1 x v2 where sp: "spot h1 s root1 p a t ((d, (a, c), nd d v1 (x, False) v2) # cs)"
        and v: "touches S h h1" "is_red v2" "rb_inv v1" "rb_inv v2" "black_height v1 = black_height t" "black_height v2 = black_height t"
          "tree_addrs (nd d v1 (x, False) v2) = tree_addrs w"
        and r1: "(if \<not> rb_red (h (child (\<not> d) (h b))) then rotate_to (\<not> d) s b (root, set_red b True (set_red (child d (h b)) False h))
           else (root, h)) = (root1, h1)" by blast
    have f1: "rb_parent (h1 p) = a" "child (\<not> d) (h1 a) = x" "rb_red (h1 a) = c" "x \<noteq> a"
      using sp by (auto simp: spot_def place_iff)
    obtain root2 h2 where r2: "rotate_to d s a (root1, set_red (child (\<not> d) (h1 x)) False (set_red a False (set_red x c h1))) = (root2, h2)"
      by (rule prod.exhaust)
    have s1: "\<not> rb_red (h1 s)" using v(1) sS assms(6) by (simp add: touches_def)
    from delete_outer[OF sp[unfolded spot_def, THEN conjunct1] v(2) s1 r2] obtain q par2 where
      o: "place h2 s root2 q par2 (nd d (nd d t (a, False) v1) (x, c) (paint_black v2)) cs"
         "touches (set (tree_addrs t) \<union> ctx_addrs ((d, (a, c), nd d v1 (x, False) v2) # cs)) h1 h2" by blast
    have "set (tree_addrs t) \<union> ctx_addrs ((d, (a, c), nd d v1 (x, False) v2) # cs) = S"
      using v(7) by (simp only: S set_fill_ctx ctx_addrs_simps)
    with o(2) have to: "touches S h h2" using touches_trans[OF v(1)] by simp
    have res: "delete_rest d s p (root, h) = (root2, root2, h2)"
    proof -
      have "(\<not> rb_red (h (rb_left (h b))) \<and> \<not> rb_red (h (rb_right (h b)))) = False" using True both by simp
      then show ?thesis
        unfolding delete_rest_def Let_def prod.case par ab by (simp only: if_False r1 prod.case f1 set_fields set_child_simps r2)
    qed
    let ?t = "nd d (nd d t (a, False) v1) (x, c) (paint_black v2)"
    have pb: "black_height (paint_black v2) = Suc (black_height t)"
      using v(2,6) by (cases v2) (auto simp: paint_black_def)
    have inv: "rb_inv ?t" "black_height ?t = Suc (black_height t) + (if c then 0 else 1)"
      using v assms(4) paint_black_inv[OF v(4)] pb by (simp_all add: black_height_nd')
    have cr: "ctx_rb cs (black_height ?t)" "\<not> (is_red ?t \<and> ctx_red cs)" "cs = [] \<Longrightarrow> \<not> c"
      using assms(5) inv(2) by (auto split: if_splits)
    have "rb_inv (plug ?t cs) \<and> \<not> is_red (plug ?t cs)" using plug_inv[OF inv(1) cr(1,2)] cr(3) by (cases cs) auto
    moreover have "tree_addrs (plug ?t cs) = fill ((d, (a, c), w) # cs) (tree_addrs t)"
      by (simp add: plug_addrs nd_addrs v(7)[symmetric])
    ultimately have "round_end s ((d, (a, c), w) # cs) t (root2, root2, h2)"
      using place_plug[OF o(1)] unfolding round_end_def by blast
    then show ?thesis using to by (simp add: res)
  qed
qed

section \<open>The loop\<close>

text \<open>A red sibling costs one more rotation; then the place has a red parent.\<close>

lemma delete_round_black:
  assumes "spot h s root p a t ((d, (a, c), w) # cs)" and "\<not> is_red w" and "\<not> rb_red (h s)" and "w \<noteq> Leaf"
  shows "delete_round d s p (root, h) = delete_rest d s p (root, h)"
proof -
  have "rb_parent (h p) = a" using assms(1) by (simp add: spot_def)
  moreover have "\<not> rb_red (h (child (\<not> d) (h a)))"
    using place_color[OF place_switch[OF assms(1)[unfolded spot_def, THEN conjunct1]] assms(3)] assms(2) by simp
  ultimately show ?thesis by (simp add: delete_round_def Let_def)
qed

definition short_done :: "addr set \<Rightarrow> addr \<Rightarrow> rb_heap \<Rightarrow> addr list \<Rightarrow> (addr \<times> addr \<times> rb_heap) option \<Rightarrow> bool" where
  "short_done S s h xs res \<longleftrightarrow>
    (\<exists>temp root' h' t'. res = Some (temp, root', h') \<and> (temp = s \<or> temp \<in> S) \<and> tree_at (set_red temp False h') s root' t' \<and>
       rb_inv t' \<and> \<not> is_red t' \<and> tree_addrs t' = xs \<and> touches S h h')"

lemma short_done_trans: "touches S h h1 \<Longrightarrow> short_done S s h1 xs res \<Longrightarrow> short_done S s h xs res"
  unfolding short_done_def by (elim exE conjE) (intro exI conjI, assumption+, erule (1) touches_trans)

lemma delete_fixup_stop:
  assumes "spot h s root p par t cs" and "rb_inv (paint_black t)" and "cs = [] \<or> is_red t"
    and "ctx_rb cs (black_height (paint_black t))" and "\<not> rb_red (h s)"
  shows "short_done (set (fill cs (tree_addrs t))) s h (fill cs (tree_addrs t)) (delete_fixup s p (root, h))"
proof -
  have pl: "place h s root p par t cs" using assms(1) by (simp add: spot_def)
  have "p = root \<or> rb_red (h p)" using pl place_color[OF pl assms(5)] assms(3) by (auto simp: place_iff)
  then have stop: "delete_fixup s p (root, h) = Some (p, root, h)" by (subst delete_fixup.simps) auto
  have p: "p = s \<or> p \<in> set (fill cs (tree_addrs t))"
    using pl heap_tree_root[of h s par p t] by (auto simp: place_iff set_fill_ctx)
  have "place (set_red p False h) s root p par (paint_black t) cs"
  proof (cases "p = s")
    case True
    then have "t = Leaf" using pl heap_tree_root[of h s par p t] by (auto simp: place_iff)
    then show ?thesis using pl True assms(5) by (simp add: set_red_same)
  next
    case False
    then have "p \<notin> ctx_addrs cs" using pl heap_tree_root[of h s par p t] by (auto simp: place_iff)
    then show ?thesis using pl heap_tree_paint[of h s par p t] assms(5) by (simp add: place_iff)
  qed
  note pt = place_plug[OF this]
  have "rb_inv (plug (paint_black t) cs) \<and> \<not> is_red (plug (paint_black t) cs)"
    using plug_inv[OF assms(2,4)] by (cases cs) auto
  then show ?thesis
    unfolding stop short_done_def using p pt
    by (intro exI[of _ p] exI[of _ root] exI[of _ h] exI[of _ "plug (paint_black t) cs"]) (simp add: plug_addrs)
qed

lemma round_end_done:
  assumes "round_end s cs t (m, root', h')" and "touches S h h'" and "S = set (fill cs (tree_addrs t))" and "\<not> rb_red (h' s)"
  shows "short_done S s h (fill cs (tree_addrs t)) (delete_fixup s m (root', h'))"
proof -
  obtain t' where r: "m = root'" "tree_at h' s root' t'" "rb_inv t'" "\<not> is_red t'" "tree_addrs t' = fill cs (tree_addrs t)"
    using assms(1) by (auto simp: round_end_def)
  have stop: "delete_fixup s m (root', h') = Some (m, root', h')" using r(1) by (subst delete_fixup.simps) simp
  have "\<not> rb_red (h' root')" using r(2,4) assms(4) place_color[of h' s root' root' _ t' "[]"] by (simp add: tree_at_def)
  then have "set_red root' False h' = h'" by (rule set_red_same)
  moreover have "root' = s \<or> root' \<in> S"
    using r(2,5) heap_tree_root[of h' s _ root' t'] unfolding assms(3) tree_at_def place_iff by auto
  ultimately show ?thesis
    unfolding stop short_done_def using r assms(2)
    by (intro exI[of _ m] exI[of _ root'] exI[of _ h'] exI[of _ t']) simp
qed

lemma delete_fixup_place:
  "spot h s root p par t cs \<Longrightarrow> rb_inv (paint_black t) \<Longrightarrow> ctx_rb cs (Suc (black_height t)) \<Longrightarrow> \<not> rb_red (h s) \<Longrightarrow>
     short_done (set (fill cs (tree_addrs t))) s h (fill cs (tree_addrs t)) (delete_fixup s p (root, h))"
proof (induction "length cs" arbitrary: h root p par t cs rule: less_induct)
  case less
  let ?xs = "fill cs (tree_addrs t)" and ?S = "set (fill cs (tree_addrs t))"
  show ?case
  proof (cases "cs = [] \<or> is_red t")
    case True
    have "ctx_rb cs (black_height (paint_black t))"
      using True less.prems(3) by (cases t; cases "is_red t"; auto simp: paint_black_def split: prod.splits)
    from delete_fixup_stop[OF less.prems(1,2) True this less.prems(4)] show ?thesis .
  next
    case False
    then obtain d a c w cs' where cs0: "cs = (d, (a, c), w) # cs'" by (cases cs rule: ctx_red.cases) auto
    have par: "par = a" using less.prems(1) by (auto simp: spot_def place_iff cs0)
    note sp = less.prems(1)[unfolded cs0 par]
    note pl = sp[unfolded spot_def, THEN conjunct1]
    have black: "\<not> is_red t" "rb_inv t" using False less.prems(2) paint_black_same[of t] by auto
    have w: "rb_inv w" "black_height w = Suc (black_height t)" "w \<noteq> Leaf" using less.prems(3) by (auto simp: cs0)
    have cond: "p \<noteq> root \<and> \<not> rb_red (h p)"
    proof
      have "p \<notin> ctx_addrs cs" using pl heap_tree_root[of h s a p t] by (auto simp: place_iff cs0)
      moreover have "root \<in> ctx_addrs cs" using pl ctx_root[of h s root p a cs] by (auto simp: place_iff cs0)
      ultimately show "p \<noteq> root" by auto
      show "\<not> rb_red (h p)" using place_color[OF pl less.prems(4)] black by simp
    qed
    have side: "p = rb_left (h (rb_parent (h p))) \<longleftrightarrow> d = False"
      using place_side[OF pl disjI2[OF w(3)], of False] spot_parent[OF sp] by (simp add: child_side)
    have un: "delete_fixup s p (root, h) = (case delete_round d s p (root, h) of (temp, tree) \<Rightarrow> delete_fixup s temp tree)"
      using cond side by (subst delete_fixup.simps) (simp add: delete_round_sides)
    have sS: "s \<notin> ?S" using less.prems(1) by (simp add: spot_def place_def)
    have keep: "\<not> rb_red (h' s)" if "touches ?S h h'" for h' using that sS less.prems(4) by (simp add: touches_def)
    show ?thesis
    proof (cases "is_red w")
      case False
      obtain m root' h' where r: "delete_rest d s p (root, h) = (m, root', h')" by (rule prod_cases3)
      note dr = delete_round_black[OF sp False less.prems(4) w(3)]
      from delete_rest_round[OF sp False black less.prems(3)[unfolded cs0] less.prems(4) refl] r
      have to: "touches ?S h h'" and o: "round_up s root h t cs (m, root', h') \<or> round_end s cs t (m, root', h')"
        by (simp_all add: cs0)
      from o show ?thesis
      proof
        assume "round_up s root h t cs (m, root', h')"
        then obtain w' where u: "m = a" "root' = root" "spot h' s root a (rb_parent (h a)) (nd d t (a, c) w') cs'"
            "rb_inv w'" "is_red w'" "black_height w' = black_height t" "tree_addrs w' = tree_addrs w"
          by (auto simp: round_up_def cs0)
        have "fill cs' (tree_addrs (nd d t (a, c) w')) = ?xs" using u(7) by (simp add: cs0 nd_addrs)
        moreover have "rb_inv (paint_black (nd d t (a, c) w'))" using u black by simp
        moreover have "ctx_rb cs' (Suc (black_height (nd d t (a, c) w')))"
          using less.prems(3) u(6) by (auto simp: cs0 black_height_nd' split: if_splits)
        ultimately have "short_done ?S s h' ?xs (delete_fixup s a (root, h'))"
          using less.hyps[of cs' h' root a "rb_parent (h a)" "nd d t (a, c) w'"] u(3) keep[OF to] by (simp add: cs0)
        then show ?thesis using short_done_trans[OF to] by (simp add: un dr r u(1,2))
      next
        assume "round_end s cs t (m, root', h')"
        from round_end_done[OF this to refl keep[OF to]] show ?thesis by (simp add: un dr r)
      qed
    next
      case True
      then obtain w1 b w2 where wn: "w = nd d w1 (b, True) w2" by (cases w; cases d) (auto simp: nd_def)
      have c: "\<not> c" and w12: "\<not> is_red w1" "\<not> is_red w2" "rb_inv w1" "rb_inv w2" "black_height w1 = Suc (black_height t)"
          "black_height w2 = Suc (black_height t)" "w1 \<noteq> Leaf" "ctx_rb cs' (Suc (Suc (black_height t)))"
        using less.prems(3) True w unfolding cs0 wn by (auto simp: black_height_nd' split: if_splits)
      have ab: "child (\<not> d) (h a) = b" "rb_red (h b)" using pl by (auto simp: place_iff wn)
      obtain root1 h1 where r1: "rotate_to d s a (root, set_red a True (set_red b False h)) = (root1, h1)" by (rule prod.exhaust)
      let ?cs1 = "(d, (a, True), w1) # (d, (b, False), w2) # cs'"
      from delete_red_sibling[OF sp[unfolded wn] r1]
      have sp1: "spot h1 s root1 p a t ?cs1" and to1: "touches ?S h h1"
        unfolding set_fill_ctx cs0 wn by blast+
      have xs1: "fill ?cs1 (tree_addrs t) = ?xs" by (simp add: cs0 wn nd_addrs)
      have rb1: "ctx_rb ?cs1 (Suc (black_height t))" using w12 by simp
      obtain m root' h' where r: "delete_rest d s p (root1, h1) = (m, root', h')" by (rule prod_cases3)
      have dr: "delete_round d s p (root, h) = (m, root', h')"
        using spot_parent[OF sp] ab r1 r by (simp add: delete_round_def Let_def)
      from delete_rest_round[OF sp1 w12(1) black rb1 keep[OF to1] refl] r xs1
      have to2: "touches ?S h1 h'" and o: "round_up s root1 h1 t ?cs1 (m, root', h') \<or> round_end s ?cs1 t (m, root', h')"
        by simp_all
      note to = touches_trans[OF to1 to2]
      from o show ?thesis
      proof
        assume "round_up s root1 h1 t ?cs1 (m, root', h')"
        then obtain w' where u: "m = a" "root' = root1" "spot h' s root1 a (rb_parent (h1 a)) (nd d t (a, True) w') ((d, (b, False), w2) # cs')"
            "rb_inv w'" "is_red w'" "black_height w' = black_height t" "tree_addrs w' = tree_addrs w1"
          by (auto simp: round_up_def)
        let ?cs2 = "(d, (b, False), w2) # cs'"
        have f: "fill ?cs2 (tree_addrs (nd d t (a, True) w')) = ?xs" using u(7) by (simp add: cs0 wn nd_addrs)
        have "ctx_rb ?cs2 (black_height (paint_black (nd d t (a, True) w')))"
          using u(6) w12 by (simp add: black_height_nd')
        moreover have "rb_inv (paint_black (nd d t (a, True) w'))" using u black by simp
        ultimately have "short_done ?S s h' ?xs (delete_fixup s a (root1, h'))"
          using delete_fixup_stop[OF u(3)] keep[OF to] f by simp
        then show ?thesis using short_done_trans[OF to] by (simp add: un dr u(1,2))
      next
        assume "round_end s ?cs1 t (m, root', h')"
        from round_end_done[OF this to _ keep[OF to]] xs1 show ?thesis by (simp add: un dr)
      qed
    qed
  qed
qed

end
