(* ===== verification/RbTreeRemove.thy ===== *)
theory RbTreeRemove
  imports RbTreeDelete
begin

text \<open>
  The first half of \<^verbatim>\<open>ngx_rbtree_delete\<close>: the node is cut out, or its successor is cut out and put in its
  place; with the loop of RbTreeDelete the tree that is left is the ordered tree without the node.
\<close>

section \<open>Finding places\<close>

definition rb_place :: "rb_heap \<Rightarrow> addr \<Rightarrow> addr \<Rightarrow> addr \<Rightarrow> addr \<Rightarrow> rb_tree \<Rightarrow> rb_frame list \<Rightarrow> bool" where
  "rb_place h s root p par t cs \<longleftrightarrow> place h s root p par t cs \<and> rb_inv t \<and> ctx_rb cs (black_height t) \<and>
     \<not> (is_red t \<and> (cs = [] \<or> ctx_red cs))"

lemma rb_place_down:
  assumes "rb_place h s root a par (nd d l (a, c) r) cs"
  shows "rb_place h s root (child d (h a)) a l ((d, (a, c), r) # cs)"
  using assms place_down'[of h s root a par d l c r cs] by (auto simp: rb_place_def black_height_nd')

lemma rb_place_down_sides:
  assumes "rb_place h s root a par (Node l (a, c) r) cs"
  shows "rb_place h s root (rb_left (h a)) a l ((False, (a, c), r) # cs)"
    "rb_place h s root (rb_right (h a)) a r ((True, (a, c), l) # cs)"
  using rb_place_down[of h s root a par False l c r cs] rb_place_down[of h s root a par True r c l cs] assms
  by (simp_all add: nd_def child_def)

lemma rb_place_root: "rb_place h s root p par (Node l (a, c) r) cs \<Longrightarrow> p = a"
  by (simp add: rb_place_def place_iff)

lemma find_place:
  "rb_place h s root p par t cs \<Longrightarrow> n \<in> set (tree_addrs t) \<Longrightarrow>
     \<exists>par' l c r cs'. rb_place h s root n par' (Node l (n, c) r) cs' \<and>
       fill cs' (tree_addrs (Node l (n, c) r)) = fill cs (tree_addrs t)"
proof (induction t arbitrary: p par cs)
  case (Node l x r)
  obtain a c where x: "x = (a, c)" by (rule prod.exhaust)
  have p: "rb_place h s root a par (Node l (a, c) r) cs" using Node.prems(1) rb_place_root[of h s root p par l a c r cs] by (simp add: x)
  note d = rb_place_down_sides[OF p]
  have "n = a \<or> n \<in> set (tree_addrs l) \<or> n \<in> set (tree_addrs r)" using Node.prems(2) by (auto simp: x)
  then show ?case
  proof (elim disjE)
    assume "n = a"
    then show ?thesis using p x by blast
  next
    assume "n \<in> set (tree_addrs l)"
    with Node.IH(1)[OF d(1)] show ?thesis by (simp add: x)
  next
    assume "n \<in> set (tree_addrs r)"
    with Node.IH(2)[OF d(2)] show ?thesis by (simp add: x)
  qed
qed simp

lemma rbt_rb_place: "rbt h s root xs \<Longrightarrow> \<exists>t. rb_place h s root root (rb_parent (h root)) t [] \<and> tree_addrs t = xs"
  by (auto simp: rbt_def rb_place_def tree_at_def)

lemma rbt_place:
  assumes "rbt h s root xs" and "n \<in> set xs"
  obtains par l c r cs where "rb_place h s root n par (Node l (n, c) r) cs" "fill cs (tree_addrs (Node l (n, c) r)) = xs"
proof -
  obtain t where t: "rb_place h s root root (rb_parent (h root)) t []" "tree_addrs t = xs" using rbt_rb_place[OF assms(1)] by blast
  with find_place[OF t(1), of n] assms(2) obtain par l c r cs where
    "rb_place h s root n par (Node l (n, c) r) cs" "fill cs (tree_addrs (Node l (n, c) r)) = fill [] (tree_addrs t)" by blast
  with t(2) show thesis using that by simp
qed

text \<open>Back to the whole.\<close>

lemma place_rbt:
  assumes "place h s root p par t cs" and "rb_inv t" and "ctx_rb cs (black_height t)" and "\<not> (is_red t \<and> (cs = [] \<or> ctx_red cs))"
    and "\<not> rb_red (h s)"
  shows "rbt h s root (fill cs (tree_addrs t))"
proof -
  have "rb_inv (plug t cs) \<and> \<not> is_red (plug t cs)" using plug_inv[OF assms(2,3)] assms(4) by (cases cs) auto
  then show ?thesis using place_plug[OF assms(1)] assms(5) plug_addrs[of t cs] unfolding rbt_def by auto
qed

section \<open>The least node\<close>

fun min_rest :: "rb_tree \<Rightarrow> rb_tree" where
  "min_rest Leaf = Leaf"
| "min_rest (Node l x r) = (if l = Leaf then r else min_rest l)"

fun min_elem :: "rb_tree \<Rightarrow> addr \<times> bool" where
  "min_elem Leaf = (NULL, False)"
| "min_elem (Node l x r) = (if l = Leaf then x else min_elem l)"

fun unmin :: "rb_tree \<Rightarrow> rb_tree" where
  "unmin Leaf = Leaf"
| "unmin (Node l x r) = (if l = Leaf then r else Node (unmin l) x r)"

fun min_ctx :: "rb_tree \<Rightarrow> rb_frame list \<Rightarrow> rb_frame list" where
  "min_ctx Leaf cs = cs"
| "min_ctx (Node l x r) cs = (if l = Leaf then cs else min_ctx l ((False, x, r) # cs))"

lemma min_addrs: "t \<noteq> Leaf \<Longrightarrow> tree_addrs t = fst (min_elem t) # tree_addrs (unmin t)"
  by (induction t) auto

lemma min_fill: "t \<noteq> Leaf \<Longrightarrow> fill (min_ctx t cs) (tree_addrs (min_rest t)) = fill cs (tree_addrs (unmin t))"
proof (induction t arbitrary: cs)
  case (Node l x r)
  then show ?case by (cases x) auto
qed simp

lemma min_ctx_rb:
  "t \<noteq> Leaf \<Longrightarrow> rb_inv t \<Longrightarrow> ctx_rb cs (black_height t) \<Longrightarrow> \<not> (is_red t \<and> ctx_red cs) \<Longrightarrow> cs \<noteq> [] \<Longrightarrow>
     rb_inv (min_rest t) \<and> ctx_rb (min_ctx t cs) (black_height (min_rest t) + (if snd (min_elem t) then 0 else 1)) \<and>
     min_ctx t cs \<noteq> [] \<and> (snd (min_elem t) \<longrightarrow> \<not> ctx_red (min_ctx t cs) \<and> \<not> is_red (min_rest t))"
proof (induction t arbitrary: cs)
  case (Node l x r)
  obtain a c where x: "x = (a, c)" by (rule prod.exhaust)
  show ?case
  proof (cases "l = Leaf")
    case True
    then show ?thesis using Node.prems by (auto simp: x)
  next
    case False
    have "rb_inv l" "ctx_rb ((False, x, r) # cs) (black_height l)" "\<not> (is_red l \<and> ctx_red ((False, x, r) # cs))"
      using Node.prems by (cases c; simp add: x)+
    from Node.IH(1)[OF False this] False show ?thesis by simp
  qed
qed simp

lemma min_place:
  "place h s root p par (unmin t) cs \<Longrightarrow> t \<noteq> Leaf \<Longrightarrow> \<exists>p' par'. place h s root p' par' (min_rest t) (min_ctx t cs)"
proof (induction t arbitrary: p par cs)
  case (Node l x r)
  obtain a c where x: "x = (a, c)" by (rule prod.exhaust)
  show ?case
  proof (cases "l = Leaf")
    case True
    then show ?thesis using Node.prems by auto
  next
    case False
    then have "place h s root p par (nd False (unmin l) (a, c) r) cs" using Node.prems(1) by (simp add: nd_def x)
    moreover from this have "p = a" by (simp add: place_iff)
    ultimately have "place h s root (child False (h a)) a (unmin l) ((False, (a, c), r) # cs)" using place_down' by blast
    from Node.IH(1)[OF this False] False show ?thesis by (simp add: x)
  qed
qed simp

lemma ngx_rbtree_min_tree:
  "heap_tree h s par p t \<Longrightarrow> t \<noteq> Leaf \<Longrightarrow> ngx_rbtree_min h p s = Some (fst (min_elem t))"
proof (induction t arbitrary: p par)
  case (Node l x r)
  obtain a c where x: "x = (a, c)" by (rule prod.exhaust)
  have a: "p = a" "heap_tree h s a (rb_left (h a)) l" using Node.prems(1) by (auto simp: x)
  show ?case
  proof (cases "l = Leaf")
    case True
    then show ?thesis using a by (subst ngx_rbtree_min.simps) (simp add: x)
  next
    case False
    then have "rb_left (h a) \<noteq> s" using heap_tree_root[OF a(2)] by auto
    then show ?thesis using Node.IH(1)[OF a(2) False] a(1) False by (subst ngx_rbtree_min.simps) simp
  qed
qed simp

text \<open>Cutting out the least node of a tree whose top is not that node.\<close>

lemma unlink_min:
  "heap_tree h s par p t \<Longrightarrow> left t \<noteq> Leaf \<Longrightarrow> distinct (tree_addrs t) \<Longrightarrow> s \<notin> set (tree_addrs t) \<Longrightarrow> m = fst (min_elem t) \<Longrightarrow>
     rb_parent (h m) \<in> set (tree_addrs t) \<and> rb_parent (h m) \<noteq> m \<and> m = rb_left (h (rb_parent (h m))) \<and> m \<in> set (tree_addrs t) \<and> m \<noteq> p \<and>
     heap_tree h s m (rb_right (h m)) (min_rest t) \<and> rb_red (h m) = snd (min_elem t) \<and>
     heap_tree (set_parent (rb_right (h m)) (rb_parent (h m)) (set_left (rb_parent (h m)) (rb_right (h m)) h)) s par p (unmin t)"
proof (induction t arbitrary: p par)
  case (Node l x r)
  obtain a c where x: "x = (a, c)" by (rule prod.exhaust)
  have a: "p = a" "heap_tree h s a (rb_left (h a)) l" "l \<noteq> Leaf" "a \<notin> set (tree_addrs l)" "a \<notin> set (tree_addrs r)"
      "set (tree_addrs l) \<inter> set (tree_addrs r) = {}" "distinct (tree_addrs l)" "s \<notin> set (tree_addrs l)" "a \<noteq> s" "s \<notin> set (tree_addrs r)"
      "heap_tree h s a (rb_right (h a)) r" "rb_parent (h a) = par" "rb_red (h a) = c" "distinct (tree_addrs r)"
    using Node.prems by (auto simp: x)
  obtain ll b cb lr where l: "l = Node ll (b, cb) lr" using a(3) by (metis tree.exhaust prod.exhaust)
  show ?case
  proof (cases "ll = Leaf")
    case True
    have m: "m = b" using Node.prems(5) a(3) by (simp add: l True)
    have b: "rb_left (h a) = b" "rb_parent (h b) = a" "b \<noteq> s" "heap_tree h s b (rb_right (h b)) lr" "rb_red (h b) = cb"
        "b \<noteq> a" "b \<notin> set (tree_addrs lr)" "a \<notin> set (tree_addrs lr)" "distinct (tree_addrs lr)"
        "set (tree_addrs lr) \<inter> set (tree_addrs r) = {}" "b \<notin> set (tree_addrs r)" "s \<notin> set (tree_addrs lr)"
      using a by (auto simp: l)
    let ?t = "rb_right (h b)"
    have t: "?t = s \<and> lr = Leaf \<or> ?t \<noteq> s \<and> ?t \<in> set (tree_addrs lr)" using heap_tree_root[OF b(4)] by auto
    have out: "?t \<notin> set (tree_addrs r)" "?t \<noteq> a" using t b(10,8) a(9,10) by auto
    have "heap_tree (set_left a ?t h) s b ?t lr" using b(4,8) by simp
    then have "heap_tree (set_parent ?t a (set_left a ?t h)) s a ?t lr"
      using heap_tree_reparent[of "set_left a ?t h" s b ?t lr a] b(9) t by (cases "?t = s") auto
    then show ?thesis
      using a b out by (simp add: x m l True)
  next
    case False
    then have nl: "left l \<noteq> Leaf" by (simp add: l)
    have m: "m = fst (min_elem l)" using Node.prems(5) a(3) by simp
    note ih = Node.IH(1)[OF a(2) nl a(7,8) m]
    let ?q = "rb_parent (h m)" and ?t = "rb_right (h m)"
    have q: "?q \<in> set (tree_addrs l)" "m \<in> set (tree_addrs l)" "heap_tree h s m ?t (min_rest l)" using ih by auto
    have sub: "set (tree_addrs (min_rest u)) \<subseteq> set (tree_addrs u)" for u by (induction u) auto
    have t: "?t = s \<or> ?t \<in> set (tree_addrs l)" using heap_tree_root[OF q(3)] sub[of l] by auto
    have "?q \<noteq> a" "?t \<noteq> a" "?q \<notin> set (tree_addrs r)" "?t \<notin> set (tree_addrs r)" "m \<noteq> a"
      using q t a(4,6,9,10) by auto
    then show ?thesis
      using ih a by (simp add: x)
  qed
qed simp

section \<open>Cutting out and putting in place\<close>

lemma delete_clear_other [simp]: "x \<noteq> a \<Longrightarrow> delete_clear a h x = h x"
  by (simp add: delete_clear_def)

lemma heap_delete_clear [simp]:
  "a \<notin> set (tree_addrs t) \<Longrightarrow> heap_tree (delete_clear a h) s par p t = heap_tree h s par p t"
  "a \<notin> ctx_addrs cs \<Longrightarrow> heap_ctx (delete_clear a h) s root p par cs = heap_ctx h s root p par cs"
  by (simp_all add: delete_clear_def)

lemma place_delete_clear:
  "place h s root p par t cs \<Longrightarrow> a \<notin> set (tree_addrs t) \<Longrightarrow> a \<notin> ctx_addrs cs \<Longrightarrow> place (delete_clear a h) s root p par t cs"
  by (simp add: place_iff)

text \<open>A node with one child at most is replaced by that child.\<close>

lemma remove_one:
  assumes "place h s root n g (nd d Leaf (n, c) u) ((e, (g, b), w) # cs)" and "x = child (\<not> d) (h n)"
    and "h' = (if n = rb_left (h g) then set_left g x h else set_right g x h)"
  shows "spot (delete_clear n (set_parent x g h')) s root x g u ((e, (g, b), w) # cs)"
proof -
  have n: "n \<noteq> s" "heap_tree h s n x u" using assms(1,2) by (auto simp: place_iff)
  have "n = rb_left (h g) \<longleftrightarrow> e = False"
    using place_side[OF assms(1) disjI1[OF n(1)], of False] by (simp add: child_side)
  then have h': "h' = set_child e g x h" using assms(3) by (simp add: set_child_def)
  have x: "x = s \<and> u = Leaf \<or> x \<noteq> s \<and> x \<in> set (tree_addrs u)" using heap_tree_root[OF n(2)] by auto
  have f: "n \<notin> set (tree_addrs u)" "n \<notin> set (tree_addrs w)" "n \<notin> ctx_addrs cs" "n \<noteq> g" "g \<noteq> s" "g \<notin> set (tree_addrs u)"
      "g \<notin> set (tree_addrs w)" "g \<notin> ctx_addrs cs" "rb_red (h g) = b" "heap_tree h s g (child (\<not> e) (h g)) w"
      "heap_ctx h s root g (rb_parent (h g)) cs" "distinct (tree_addrs u)" "s \<notin> set (tree_addrs w)" "s \<notin> ctx_addrs cs"
      "set (tree_addrs u) \<inter> set (tree_addrs w) = {}" "set (tree_addrs u) \<inter> ctx_addrs cs = {}"
      "distinct (tree_addrs w)" "ctx_distinct cs" "set (tree_addrs w) \<inter> ctx_addrs cs = {}" "s \<notin> set (tree_addrs u)"
    using assms(1) by (auto simp: place_iff)
  have out: "x \<notin> set (tree_addrs w)" "x \<notin> ctx_addrs cs" "x \<noteq> g" "x \<noteq> n" using x f n(1) by auto
  have "heap_tree (set_parent x g h') s g x u"
  proof (cases "x = s")
    case False
    then show ?thesis using heap_tree_reparent[of h' s n x u g] n(2) f by (simp add: h')
  qed (use x in auto)
  then show ?thesis using f out by (auto simp: spot_def place_iff h')
qed

text \<open>The second half of \<^verbatim>\<open>delete_subst\<close>: the new node takes the links of the old one.\<close>

definition delete_link :: "addr \<Rightarrow> addr \<Rightarrow> addr \<Rightarrow> addr \<times> rb_heap \<Rightarrow> addr \<times> rb_heap" where
  "delete_link sentinel node subst tree =
    (let (root, h) = tree;
         (root, h) =
           (if node = root then (subst, h)
            else if node = rb_left (h (rb_parent (h node))) then (root, set_left (rb_parent (h node)) subst h)
            else (root, set_right (rb_parent (h node)) subst h));
         h = (if rb_left (h subst) \<noteq> sentinel then set_parent (rb_left (h subst)) subst h else h);
         h = (if rb_right (h subst) \<noteq> sentinel then set_parent (rb_right (h subst)) subst h else h)
     in (root, h))"

definition delete_replace :: "addr \<Rightarrow> addr \<Rightarrow> addr \<Rightarrow> addr \<times> rb_heap \<Rightarrow> addr \<times> rb_heap" where
  "delete_replace sentinel node subst tree =
    (let (root, h) = tree;
         h = set_left subst (rb_left (h node)) h;
         h = set_right subst (rb_right (h node)) h;
         h = set_parent subst (rb_parent (h node)) h
     in delete_link sentinel node subst (root, set_red subst (rb_red (h node)) h))"

lemma delete_subst_replace:
  "delete_subst s n m (root, h) x =
     delete_replace s n m (root, set_parent x (if rb_parent (h m) = n then m else rb_parent (h m)) h)"
  by (simp add: delete_subst_def delete_replace_def delete_link_def Let_def)

definition adopt :: "addr \<Rightarrow> addr \<Rightarrow> addr \<Rightarrow> rb_heap \<Rightarrow> rb_heap" where
  "adopt s p q h = (if p \<noteq> s then set_parent p q h else h)"

lemma adopt_simps [simp]:
  "rb_left (adopt s p q h x) = rb_left (h x)" "rb_right (adopt s p q h x) = rb_right (h x)"
  "rb_red (adopt s p q h x) = rb_red (h x)" "child e (adopt s p q h x) = child e (h x)" "rb_key (adopt s p q h x) = rb_key (h x)"
  "x \<noteq> p \<Longrightarrow> adopt s p q h x = h x" "adopt s p q h s = h s"
  "p \<notin> set (tree_addrs t) \<Longrightarrow> heap_tree (adopt s p q h) s par y t = heap_tree h s par y t"
  "p \<notin> ctx_addrs cs \<Longrightarrow> heap_ctx (adopt s p q h) s root y par cs = heap_ctx h s root y par cs"
  by (simp_all add: adopt_def)

lemma replace_node:
  assumes "heap_tree h s pl lr l" "heap_tree h s pr rr r" "heap_ctx h s root n par cs"
    and "rb_left (h n) = lr" "rb_right (h n) = rr" "rb_parent (h n) = par" "rb_red (h n) = c"
    and dis: "distinct (tree_addrs l)" "distinct (tree_addrs r)" "ctx_distinct cs" "set (tree_addrs l) \<inter> set (tree_addrs r) = {}"
      "set (tree_addrs l) \<inter> ctx_addrs cs = {}" "set (tree_addrs r) \<inter> ctx_addrs cs = {}"
    and m: "m \<notin> set (tree_addrs l)" "m \<notin> set (tree_addrs r)" "m \<notin> ctx_addrs cs" "m \<noteq> n" "m \<noteq> s"
    and n: "n \<notin> set (tree_addrs l)" "n \<notin> set (tree_addrs r)" "n \<notin> ctx_addrs cs" "n \<noteq> s"
    and s: "s \<notin> set (tree_addrs l)" "s \<notin> set (tree_addrs r)" "s \<notin> ctx_addrs cs"
    and res: "delete_replace s n m (root, h) = (root', h')"
  shows "place (delete_clear n h') s root' m par (Node l (m, c) r) cs \<and> h' s = h s \<and>
     touches ({m, n} \<union> set (tree_addrs l) \<union> set (tree_addrs r) \<union> ctx_addrs cs) h h'"
proof -
  have lr: "lr = s \<and> l = Leaf \<or> lr \<noteq> s \<and> lr \<in> set (tree_addrs l)" using heap_tree_root[OF assms(1)] by auto
  have rr: "rr = s \<and> r = Leaf \<or> rr \<noteq> s \<and> rr \<in> set (tree_addrs r)" using heap_tree_root[OF assms(2)] by auto
  have out: "lr \<noteq> m" "lr \<noteq> n" "lr \<notin> set (tree_addrs r)" "lr \<notin> ctx_addrs cs" "rr \<noteq> m" "rr \<noteq> n" "rr \<notin> set (tree_addrs l)" "rr \<notin> ctx_addrs cs"
    using lr rr m n s dis by auto
  define g where "g = set_red m c (set_parent m par (set_right m rr (set_left m lr h)))"
  have S: "touches ({m, n} \<union> set (tree_addrs l) \<union> set (tree_addrs r) \<union> ctx_addrs cs) h g"
    by (simp add: g_def touches_set)
  have l': "heap_tree (adopt s lr m k) s m lr l" if "heap_tree k s pl lr l" for k
    unfolding adopt_def by (rule heap_tree_adopt[OF that dis(1)])
  have r': "heap_tree (adopt s rr m k) s m rr r" if "heap_tree k s pr rr r" for k
    unfolding adopt_def by (rule heap_tree_adopt[OF that dis(2)])
  have dr: "delete_replace s n m (root, h) = delete_link s n m (root, g)"
    using assms(4-7) m(4) by (simp add: delete_replace_def g_def Let_def)
  have gf: "rb_left (g m) = lr" "rb_right (g m) = rr" "rb_parent (g n) = par" using assms(6) m(4) by (simp_all add: g_def)
  show ?thesis
  proof (cases cs)
    case Nil
    then have "root = n" using assms(3) by simp
    then have e: "(root', h') = (m, adopt s rr m (adopt s lr m g))"
      unfolding res[symmetric] dr delete_link_def adopt_def using gf by (simp add: Let_def)
    have "place (delete_clear n h') s root' m par (Node l (m, c) r) cs"
      using e assms(1,2) dis m n s out l' r' by (simp add: place_iff Nil g_def)
    moreover have "touches ({m, n} \<union> set (tree_addrs l) \<union> set (tree_addrs r) \<union> ctx_addrs cs) h h'"
      using e S lr rr by (auto simp: adopt_def touches_set)
    moreover have "h' s = h s" using e m(5) by (simp add: g_def)
    ultimately show ?thesis by blast
  next
    case (Cons f cs')
    obtain e a b u where f: "f = (e, (a, b), u)" by (metis prod.exhaust)
    have a: "par = a" "a \<noteq> s" "child e (h a) = n" "rb_red (h a) = b" "heap_tree h s a (child (\<not> e) (h a)) u"
        "heap_ctx h s root a (rb_parent (h a)) cs'"
      using assms(3) by (auto simp: Cons f)
    have c: "m \<noteq> a" "n \<noteq> a" "m \<notin> set (tree_addrs u)" "m \<notin> ctx_addrs cs'" "n \<notin> set (tree_addrs u)" "n \<notin> ctx_addrs cs'"
        "lr \<noteq> a" "rr \<noteq> a" "lr \<notin> set (tree_addrs u)" "rr \<notin> set (tree_addrs u)" "lr \<notin> ctx_addrs cs'" "rr \<notin> ctx_addrs cs'"
        "a \<notin> set (tree_addrs l)" "a \<notin> set (tree_addrs r)" "a \<notin> set (tree_addrs u)" "a \<notin> ctx_addrs cs'" "s \<notin> set (tree_addrs u)"
      using m n s dis out by (auto simp: Cons f)
    have "n \<noteq> root" using ctx_root[OF assms(3)] n(3) Cons by auto
    have "child (\<not> e) (h a) \<noteq> n" using heap_tree_root[OF a(5)] c(5) n(4) by auto
    then have side: "n = rb_left (h a) \<longleftrightarrow> e = False" using a(3) by (cases e) (auto simp: child_def)
    have eq: "(root', h') = (root, adopt s rr m (adopt s lr m (set_child e a m g)))"
    proof -
      have "n = rb_left (g a) \<longleftrightarrow> e = False" using side c(1) by (simp add: g_def)
      then show ?thesis
        unfolding res[symmetric] dr delete_link_def adopt_def
        using gf \<open>n \<noteq> root\<close> a(1) c(1) by (cases e) (simp_all add: Let_def set_child_def)
    qed
    have "heap_ctx h' s root' m par cs"
      using eq a c by (simp add: Cons f g_def)
    moreover have "heap_tree h' s par m (Node l (m, c) r)"
      using eq assms(1,2) m c out a(1) l' r' by (simp add: g_def)
    ultimately have "place (delete_clear n h') s root' m par (Node l (m, c) r) cs"
      using dis m n s by (auto simp: place_iff)
    moreover have "touches ({m, n} \<union> set (tree_addrs l) \<union> set (tree_addrs r) \<union> ctx_addrs cs) h h'"
      using eq S lr rr by (auto simp: adopt_def touches_set Cons f)
    moreover have "h' s = h s" using eq m(5) a(2) by (simp add: g_def)
    ultimately show ?thesis by blast
  qed
qed

text \<open>The successor is cut out of the right subtree and takes the place of the node.\<close>

lemma min_ctx_head:
  "heap_tree h s par p t \<Longrightarrow> left t \<noteq> Leaf \<Longrightarrow>
     \<exists>c u fs. \<forall>cs. min_ctx t cs = (False, (rb_parent (h (fst (min_elem t))), c), u) # fs @ cs"
proof (induction t arbitrary: par p)
  case (Node l x r)
  obtain a b where x: "x = (a, b)" by (rule prod.exhaust)
  have l: "l \<noteq> Leaf" "heap_tree h s a (rb_left (h a)) l" using Node.prems by (auto simp: x)
  show ?case
  proof (cases "left l = Leaf")
    case True
    then obtain y lr where ly: "l = Node Leaf y lr" using l(1) by (cases l) auto
    then have "rb_parent (h (fst (min_elem l))) = a" using l(2) by (cases y) auto
    then show ?thesis using l(1) ly by (intro exI[of _ b] exI[of _ r] exI[of _ "[]"]) (simp add: x)
  next
    case False
    from Node.IH(1)[OF l(2) this] obtain c u fs where
      "\<forall>cs. min_ctx l cs = (False, (rb_parent (h (fst (min_elem l))), c), u) # fs @ cs" by blast
    then show ?thesis using l(1) by (intro exI[of _ c] exI[of _ u] exI[of _ "fs @ [(False, x, r)]"]) simp
  qed
qed simp

lemma min_rest_addrs: "set (tree_addrs (min_rest t)) \<subseteq> set (tree_addrs (unmin t))"
  by (induction t) auto

text \<open>The right subtree without its least node, as the code leaves it.\<close>

lemma unlink_place:
  assumes "place h s root n par (Node l (n, c) t) cs" and "l \<noteq> Leaf" and "t \<noteq> Leaf" and "m = fst (min_elem t)"
    and "x = rb_right (h m)" and "q = rb_parent (h m)"
    and "h1 = set_parent x (if q = n then m else q) (if m = rb_left (h q) then set_left q x h else set_right q x h)"
  shows "(\<exists>pr. heap_tree h1 s pr (rb_right (h1 n)) (unmin t)) \<and> rb_left (h1 n) = rb_left (h n) \<and> rb_parent (h1 n) = par \<and> rb_red (h1 n) = c \<and>
    touches ({n, s} \<union> set (tree_addrs t)) h h1 \<and> rb_red (h1 s) = rb_red (h s) \<and> rb_red (h m) = snd (min_elem t) \<and> m \<in> set (tree_addrs t) \<and>
    heap_tree h s m x (min_rest t) \<and> rb_parent (h1 x) = (if q = n then m else q) \<and> (q = n \<longleftrightarrow> left t = Leaf) \<and>
    (left t \<noteq> Leaf \<longrightarrow> (\<exists>b u fs. \<forall>cs. min_ctx t cs = (False, (q, b), u) # fs @ cs))"
proof -
  let ?top = "rb_right (h n)"
  have a: "heap_tree h s n ?top t" "heap_tree h s n (rb_left (h n)) l" "rb_parent (h n) = par" "rb_red (h n) = c" "n \<noteq> s"
      "n \<notin> set (tree_addrs t)" "s \<notin> set (tree_addrs t)" "distinct (tree_addrs t)" "set (tree_addrs l) \<inter> set (tree_addrs t) = {}"
    using assms(1) by (auto simp: place_iff)
  have lr: "rb_left (h n) \<in> set (tree_addrs l)" using heap_tree_root[OF a(2)] assms(2) by auto
  obtain tl0 b0 cb tr0 where t: "t = Node tl0 (b0, cb) tr0" using assms(3) by (metis tree.exhaust prod.exhaust)
  show ?thesis
  proof (cases "left t = Leaf")
    case True
    then have tl: "tl0 = Leaf" by (simp add: t)
    have b: "m = b0" "?top = b0" "q = n" "b0 \<noteq> s" "rb_red (h b0) = cb" "heap_tree h s b0 x tr0" "b0 \<noteq> n" "n \<notin> set (tree_addrs tr0)"
        "s \<notin> set (tree_addrs tr0)" "distinct (tree_addrs tr0)" "b0 \<notin> set (tree_addrs tr0)"
      using a assms(4-6) by (auto simp: t tl)
    have "rb_left (h n) \<noteq> b0" using lr a(9) by (auto simp: t)
    then have h1: "h1 = set_parent x m (set_right n x h)" using b assms(7) by simp
    have x: "x = s \<and> tr0 = Leaf \<or> x \<noteq> s \<and> x \<in> set (tree_addrs tr0)" using heap_tree_root[OF b(6)] by auto
    have "heap_tree h1 s m x tr0"
    proof (cases "x = s")
      case False
      have "heap_tree (set_right n x h) s b0 x tr0" using b by simp
      from heap_tree_reparent[OF this b(10) False, of m] show ?thesis by (simp add: h1)
    qed (use x in auto)
    moreover have "x \<noteq> n" using x b(8) a(5) by auto
    moreover have "x \<in> {n, s} \<union> set (tree_addrs t)" using x by (auto simp: t)
    then have "touches ({n, s} \<union> set (tree_addrs t)) h h1" by (simp add: h1 touches_set)
    ultimately show ?thesis using b a True by (auto simp: h1 t tl)
  next
    case False
    note u = unlink_min[OF a(1) False a(8,7) assms(4), folded assms(5,6)]
    then have "q \<noteq> n" using a(6) by auto
    then have h1: "h1 = set_parent x q (set_left q x h)" using assms(7) u by simp
    have x: "x = s \<or> x \<in> set (tree_addrs t)"
      using heap_tree_root[of h s m x "min_rest t"] u min_rest_addrs[of t] min_addrs[OF assms(3)] by auto
    then have xn: "x \<noteq> n" using a(5,6) by auto
    have "touches ({n, s} \<union> set (tree_addrs t)) h h1" using x u by (auto simp: h1 touches_set)
    moreover have "\<exists>b u fs. \<forall>cs. min_ctx t cs = (False, (q, b), u) # fs @ cs"
      using min_ctx_head[OF a(1) False] by (simp add: assms(4,6))
    ultimately show ?thesis using u a xn \<open>q \<noteq> n\<close> False
      by (auto simp: h1)
  qed
qed

section \<open>The removal\<close>

text \<open>The code after the choice of the node that is cut out.\<close>

definition delete_cont :: "addr \<Rightarrow> addr \<Rightarrow> addr \<Rightarrow> addr \<Rightarrow> addr \<times> rb_heap \<Rightarrow> (addr \<times> rb_heap) option" where
  "delete_cont sentinel node temp subst tree =
    (case tree of (root, h) \<Rightarrow>
       if subst = root then Some (temp, delete_clear node (set_red temp False h))
       else
         let red = rb_red (h subst);
             h = (if subst = rb_left (h (rb_parent (h subst))) then set_left (rb_parent (h subst)) temp h
                  else set_right (rb_parent (h subst)) temp h);
             (root, h) =
               (if subst = node then (root, set_parent temp (rb_parent (h subst)) h)
                else delete_subst sentinel node subst (root, h) temp);
             h = delete_clear node h
         in if red then Some (root, h)
            else map_option (\<lambda>(temp, root, h). (root, set_red temp False h)) (delete_fixup sentinel temp (root, h)))"

lemma delete_cont_eq:
  "ngx_rbtree_delete s n (root, h) =
    (case (if rb_left (h n) = s then Some (rb_right (h n), n)
           else if rb_right (h n) = s then Some (rb_left (h n), n)
           else map_option (\<lambda>subst. (rb_right (h subst), subst)) (ngx_rbtree_min h (rb_right (h n)) s))
     of None \<Rightarrow> None | Some (temp, subst) \<Rightarrow> delete_cont s n temp subst (root, h))"
  by (simp only: ngx_rbtree_delete_def delete_cont_def prod.case)

definition removes :: "addr \<Rightarrow> addr set \<Rightarrow> rb_heap \<Rightarrow> rb_heap \<Rightarrow> bool" where
  "removes n S h h' \<longleftrightarrow> (\<forall>a. a \<noteq> n \<longrightarrow> rb_key (h' a) = rb_key (h a)) \<and> (\<forall>a. a \<notin> S \<longrightarrow> h' a = h a)"

lemma removes_touches: "removes n S h h1 \<Longrightarrow> touches S h1 h2 \<Longrightarrow> removes n S h h2"
  by (simp add: removes_def touches_def)

lemma touches_removes: "touches S h h1 \<Longrightarrow> n \<in> S \<Longrightarrow> removes n S h (delete_clear n h1)"
  unfolding removes_def touches_def by (metis delete_clear_other)

lemma touches_mono: "touches S h h' \<Longrightarrow> S \<subseteq> S' \<Longrightarrow> touches S' h h'"
  by (auto simp: touches_def)

definition removed_ok :: "addr \<Rightarrow> addr \<Rightarrow> rb_heap \<Rightarrow> addr list \<Rightarrow> (addr \<times> rb_heap) option \<Rightarrow> bool" where
  "removed_ok s n h xs res \<longleftrightarrow>
    (\<exists>root' h'. res = Some (root', h') \<and> rbt h' s root' (remove1 n xs) \<and> removes n (insert s (set xs)) h h')"

lemma fill_remove:
  "distinct (fill cs (xs @ n # ys)) \<Longrightarrow> remove1 n (fill cs (xs @ n # ys)) = fill cs (xs @ ys)"
  by (auto simp: fill_sides remove1_append)

text \<open>After the cut: a red node may go, the loss of a black one is mended.\<close>

lemma mend:
  assumes "spot h1 s root x par u cs" and "rb_inv u" and "ctx_rb cs (black_height u + (if c then 0 else 1))"
    and "c \<Longrightarrow> \<not> is_red u" and "cs \<noteq> []" and "\<not> rb_red (h1 s)" and "fill cs (tree_addrs u) = remove1 n xs"
    and "removes n (insert s (set xs)) h h1"
  shows "removed_ok s n h xs
    (if c then Some (root, h1)
     else map_option (\<lambda>(temp, root, h). (root, set_red temp False h)) (delete_fixup s x (root, h1)))"
proof (cases c)
  case True
  then have "rbt h1 s root (fill cs (tree_addrs u))"
    using assms by (intro place_rbt[of h1 s root x par u cs]) (auto simp: spot_def)
  then show ?thesis using assms(7,8) True by (auto simp: removed_ok_def)
next
  case False
  let ?xs = "fill cs (tree_addrs u)"
  have s: "s \<notin> set ?xs" and sub: "set ?xs \<subseteq> set xs"
    using assms(1) by (simp add: spot_def place_def) (simp add: assms(7) set_remove1_subset)
  from delete_fixup_place[OF assms(1) paint_black_inv[OF assms(2)] _ assms(6)] assms(3) False
  obtain temp root' h' t' where f: "delete_fixup s x (root, h1) = Some (temp, root', h')" "temp = s \<or> temp \<in> set ?xs"
      "tree_at (set_red temp False h') s root' t'" "rb_inv t'" "\<not> is_red t'" "tree_addrs t' = ?xs" "touches (set ?xs) h1 h'"
    by (auto simp: short_done_def)
  have to: "touches (insert s (set xs)) h1 (set_red temp False h')"
  proof -
    have "touches (insert s (set xs)) h1 h'" using sub by (intro touches_mono[OF f(7)]) blast
    moreover have "temp \<in> insert s (set xs)" using f(2) sub by blast
    ultimately show ?thesis by (simp add: touches_set)
  qed
  have "\<not> rb_red (set_red temp False h' s)" using f(7) s assms(6) by (simp add: touches_def)
  then have "rbt (set_red temp False h') s root' ?xs" using f(3-6) unfolding rbt_def by blast
  then show ?thesis
    using f(1) False assms(7) removes_touches[OF assms(8) to] by (auto simp: removed_ok_def)
qed

lemma rb_parent_side: "rb_parent ((if P then set_left g x h else set_right g x h) a) = rb_parent (h a)"
  by simp

lemma delete_one:
  assumes "rb_place h s root n par (nd d Leaf (n, c) u) cs" and "fill cs (tree_addrs (nd d Leaf (n, c) u)) = xs" and "\<not> rb_red (h s)"
    and "x = child (\<not> d) (h n)"
  shows "removed_ok s n h xs (delete_cont s n x n (root, h))"
proof -
  have pl: "place h s root n par (nd d Leaf (n, c) u) cs" using assms(1) by (simp add: rb_place_def)
  have n: "n \<noteq> s" "heap_tree h s n x u" "rb_red (h n) = c" "rb_parent (h n) = par" "distinct (tree_addrs u)" "n \<notin> set (tree_addrs u)"
      "s \<notin> set (tree_addrs u)" "n \<notin> ctx_addrs cs"
    using pl assms(4) by (auto simp: place_iff)
  have u: "rb_inv u" "black_height u = 0" "c \<Longrightarrow> \<not> is_red u" using assms(1) by (auto simp: rb_place_def)
  have x: "x = s \<and> u = Leaf \<or> x \<noteq> s \<and> x \<in> set (tree_addrs u)" using heap_tree_root[OF n(2)] by auto
  have xs: "set xs = insert n (set (tree_addrs u) \<union> ctx_addrs cs)" "distinct xs" "fill cs (tree_addrs u) = remove1 n xs"
    using pl fill_remove[of cs "[]" n "tree_addrs u"] fill_remove[of cs "tree_addrs u" n "[]"]
    unfolding assms(2)[symmetric] place_def by (auto simp: set_fill_ctx nd_addrs)
  have nx: "n \<noteq> x" using x n by auto
  show ?thesis
  proof (cases cs)
    case Nil
    then have r: "root = n" using pl by (simp add: place_iff)
    let ?h = "delete_clear n (set_red x False h)"
    have "heap_tree ?h s n x (paint_black u)" using heap_tree_paint[OF n(2,5) assms(3)] n(6) by simp
    then have "place ?h s x x n (paint_black u) []" using n by (simp add: place_iff)
    moreover have "\<not> rb_red (?h s)" using assms(3) n(1) by simp
    ultimately have "rbt ?h s x (remove1 n xs)"
      using place_rbt[of ?h s x x n "paint_black u" "[]"] paint_black_inv[OF u(1)] xs(3) by (simp add: Nil)
    moreover have "removes n (insert s (set xs)) h ?h"
      using x xs(1) by (intro touches_removes) (auto simp: touches_set)
    ultimately show ?thesis by (simp add: removed_ok_def delete_cont_def r)
  next
    case (Cons f cs')
    obtain e g b w where f: "f = (e, (g, b), w)" by (metis prod.exhaust)
    have g: "par = g" "g \<noteq> n" "g \<noteq> s" using pl by (auto simp: place_iff Cons f)
    have "n \<noteq> root" using ctx_root[of h s root n par cs] pl n(8) Cons by (auto simp: place_iff)
    let ?h1 = "if n = rb_left (h g) then set_left g x h else set_right g x h"
    let ?h2 = "delete_clear n (set_parent x g ?h1)"
    have sp: "spot ?h2 s root x g u cs"
      using remove_one[OF pl[unfolded Cons f g(1)] assms(4) refl] by (simp add: Cons f)
    have un: "delete_cont s n x n (root, h) =
        (if c then Some (root, ?h2) else map_option (\<lambda>(temp, root, h). (root, set_red temp False h)) (delete_fixup s x (root, ?h2)))"
    proof -
      have "(n = root) = False" "rb_parent (?h1 n) = g" using \<open>n \<noteq> root\<close> n(4) g(1) by (simp_all only: rb_parent_side)
      then show ?thesis
        unfolding delete_cont_def Let_def prod.case by (simp only: if_False simp_thms if_True prod.case n(3,4) g(1))
    qed
    have "removes n (insert s (set xs)) h ?h2"
      using x xs(1) by (intro touches_removes) (auto simp: touches_set Cons f)
    moreover have "\<not> rb_red (?h2 s)" using assms(3) n(1) by simp
    moreover have "ctx_rb cs (black_height u + (if c then 0 else 1))"
      using assms(1) u(2) by (auto simp: rb_place_def black_height_nd' split: if_splits)
    ultimately show ?thesis
      unfolding un using mend[OF sp u(1) _ u(3) _ _ xs(3)] Cons by auto
  qed
qed

lemma delete_two:
  assumes "rb_place h s root n par (Node l (n, c) t) cs" and "fill cs (tree_addrs (Node l (n, c) t)) = xs" and "\<not> rb_red (h s)"
    and "l \<noteq> Leaf" and "t \<noteq> Leaf" and "m = fst (min_elem t)"
  shows "removed_ok s n h xs (delete_cont s n (rb_right (h m)) m (root, h))"
proof -
  note pl = assms(1)[unfolded rb_place_def, THEN conjunct1]
  define x where "x = rb_right (h m)"
  define q where "q = rb_parent (h m)"
  define h0 where "h0 = (if m = rb_left (h q) then set_left q x h else set_right q x h)"
  define h1 where "h1 = set_parent x (if q = n then m else q) h0"
  note ul = unlink_place[OF pl assms(4-6) x_def q_def h1_def[unfolded h0_def]]
  obtain pr where tr: "heap_tree h1 s pr (rb_right (h1 n)) (unmin t)" using ul by blast
  have u: "rb_left (h1 n) = rb_left (h n)" "rb_parent (h1 n) = par" "rb_red (h1 n) = c" "touches ({n, s} \<union> set (tree_addrs t)) h h1"
      "rb_red (h1 s) = rb_red (h s)" "rb_red (h m) = snd (min_elem t)" "m \<in> set (tree_addrs t)" "heap_tree h s m x (min_rest t)"
      "rb_parent (h1 x) = (if q = n then m else q)" "q = n \<longleftrightarrow> left t = Leaf"
      "left t \<noteq> Leaf \<longrightarrow> (\<exists>b u fs. \<forall>cs. min_ctx t cs = (False, (q, b), u) # fs @ cs)"
    using ul by blast+
  have a: "heap_tree h s n (rb_left (h n)) l" "heap_ctx h s root n par cs" "n \<noteq> s" "distinct (tree_addrs l)" "distinct (tree_addrs t)"
      "ctx_distinct cs" "n \<notin> set (tree_addrs l)" "n \<notin> set (tree_addrs t)" "n \<notin> ctx_addrs cs" "s \<notin> set (tree_addrs l)"
      "s \<notin> set (tree_addrs t)" "s \<notin> ctx_addrs cs" "set (tree_addrs l) \<inter> set (tree_addrs t) = {}"
      "set (tree_addrs l) \<inter> ctx_addrs cs = {}" "set (tree_addrs t) \<inter> ctx_addrs cs = {}"
    using pl by (auto simp: place_iff)
  have t: "tree_addrs t = m # tree_addrs (unmin t)" using min_addrs[OF assms(5)] assms(6) by simp
  have away: "h1 y = h y" if "y \<notin> {n, s} \<union> set (tree_addrs t)" for y using u(4) that by (simp add: touches_def)
  have l1: "heap_tree h1 s n (rb_left (h n)) l"
  proof -
    have "b \<in> set (tree_addrs l) \<Longrightarrow> h1 b = h b" for b using a(7,10,13) by (intro away) auto
    then show ?thesis using a(1) heap_tree_cong[of l h h1 s n "rb_left (h n)"] by simp
  qed
  have c1: "heap_ctx h1 s root n par cs"
  proof -
    have "b \<in> ctx_addrs cs \<Longrightarrow> h1 b = h b" for b using a(9,12,15) by (intro away) auto
    then show ?thesis using a(2) heap_ctx_cong[of cs h h1 s root n par] by simp
  qed
  obtain root' h2 where r: "delete_replace s n m (root, h1) = (root', h2)" by (rule prod.exhaust)
  have rn: "place (delete_clear n h2) s root' m par (Node l (m, c) (unmin t)) cs \<and> h2 s = h1 s \<and>
     touches ({m, n} \<union> set (tree_addrs l) \<union> set (tree_addrs (unmin t)) \<union> ctx_addrs cs) h1 h2"
    using a u(7) t by (intro replace_node[OF l1 tr c1 u(1) refl u(2,3)] r) auto
  note pn = rn[THEN conjunct1]
  let ?H = "delete_clear n h2" and ?cs = "(True, (m, c), l) # cs"
  have xs: "set xs = insert n (set (tree_addrs l) \<union> set (tree_addrs t) \<union> ctx_addrs cs)" "distinct xs"
      "remove1 n xs = fill cs (tree_addrs (Node l (m, c) (unmin t)))"
    using pl fill_remove[of cs "tree_addrs l" n "tree_addrs t"] unfolding assms(2)[symmetric] place_def
    by (auto simp: set_fill_ctx t)
  have "place ?H s root' (rb_right (?H m)) m (unmin t) ?cs"
    using place_down'[of ?H s root' m par True "unmin t" c l cs] pn by (simp add: nd_def child_def)
  from min_place[OF this assms(5)] obtain x' par' where px: "place ?H s root' x' par' (min_rest t) (min_ctx t ?cs)" by blast
  have "x' = x" using px u(8) by (cases "min_rest t") (auto simp: place_iff)
  moreover have "par' = (if q = n then m else q)"
  proof (cases "left t = Leaf")
    case True
    then have "min_ctx t ?cs = ?cs" using assms(5) by (cases t) auto
    then show ?thesis using px u(10) True place_parent by simp
  next
    case False
    then obtain b v fs where "min_ctx t ?cs = (False, (q, b), v) # fs @ ?cs" using u(11) by blast
    then show ?thesis using px u(10) False place_parent by simp
  qed
  moreover have "x \<noteq> n" using heap_tree_root[OF u(8)] min_rest_addrs[of t] t a(3,8) by auto
  moreover have "rb_parent (?H x) = (if q = n then m else q)"
  proof (cases "x = s")
    case True
    then show ?thesis using rn u(9) a(3) by simp
  next
    case False
    then show ?thesis using px heap_tree_root[of ?H s par' x' "min_rest t"] \<open>x' = x\<close> \<open>par' = _\<close> by (auto simp: place_iff)
  qed
  ultimately have sp: "spot ?H s root' x (if q = n then m else q) (min_rest t) (min_ctx t ?cs)"
    using px by (simp add: spot_def)
  have ti: "rb_inv t" "ctx_rb ((True, (n, c), l) # cs) (black_height t)" "\<not> (is_red t \<and> c)"
    using assms(1) by (auto simp: rb_place_def split: if_splits)
  then have "ctx_rb ?cs (black_height t)" "\<not> (is_red t \<and> ctx_red ?cs)" by simp_all
  note mc = min_ctx_rb[OF assms(5) ti(1) this]
  have fl: "fill (min_ctx t ?cs) (tree_addrs (min_rest t)) = remove1 n xs"
    using min_fill[OF assms(5), of ?cs] xs(3) by simp
  have "touches (insert s (set xs)) h h2"
    using touches_mono[OF u(4), of "insert s (set xs)"] touches_mono[OF rn[THEN conjunct2, THEN conjunct2], of "insert s (set xs)"]
      touches_trans xs(1) t by auto
  from touches_removes[OF this, of n] xs(1) have rm: "removes n (insert s (set xs)) h ?H" by simp
  have sr: "\<not> rb_red (?H s)" using rn u(5) assms(3) a(3) by simp
  have "m \<noteq> n" using u(7) a(8) by auto
  have "m \<noteq> root" using u(7) pl ctx_root[of h s root n par cs] \<open>m \<noteq> n\<close> a(15) by (auto simp: place_iff)
  then have un: "delete_cont s n x m (root, h) =
      (if snd (min_elem t) then Some (root', ?H) else map_option (\<lambda>(temp, root, h). (root, set_red temp False h)) (delete_fixup s x (root', ?H)))"
  proof -
    have F: "(m = root) = False" "(m = n) = False" using \<open>m \<noteq> root\<close> \<open>m \<noteq> n\<close> by simp_all
    have "rb_parent (h0 m) = q" by (simp only: h0_def rb_parent_side q_def)
    then show ?thesis
      unfolding delete_cont_def Let_def prod.case
      by (simp only: F if_False q_def[symmetric] h0_def[symmetric] delete_subst_replace h1_def[symmetric] r prod.case u(6))
  qed
  show ?thesis
    unfolding x_def[symmetric] un
    using mc by (intro mend[OF sp _ _ _ _ sr fl rm]) auto
qed

theorem rbtree_delete:
  assumes "rbt h s root xs" and "n \<in> set xs"
  shows "removed_ok s n h xs (ngx_rbtree_delete s n (root, h))"
proof -
  from rbt_place[OF assms] obtain par l c r cs where
    p: "rb_place h s root n par (Node l (n, c) r) cs" "fill cs (tree_addrs (Node l (n, c) r)) = xs" .
  have s: "\<not> rb_red (h s)" using assms(1) by (simp add: rbt_def)
  have a: "heap_tree h s n (rb_left (h n)) l" "heap_tree h s n (rb_right (h n)) r" using p(1) by (auto simp: rb_place_def place_iff)
  consider "l = Leaf" | "l \<noteq> Leaf" "r = Leaf" | "l \<noteq> Leaf" "r \<noteq> Leaf" by blast
  then show ?thesis
  proof cases
    case 1
    then have "rb_left (h n) = s" using a by simp
    then show ?thesis
      using delete_one[of h s root n par False c r cs xs] p s 1 by (simp add: delete_cont_eq nd_def child_def)
  next
    case 2
    then have "rb_right (h n) = s" "rb_left (h n) \<noteq> s" using a heap_tree_root[OF a(1)] by auto
    then show ?thesis
      using delete_one[of h s root n par True c l cs xs] p s 2 by (simp add: delete_cont_eq nd_def child_def)
  next
    case 3
    then have "rb_right (h n) \<noteq> s" "rb_left (h n) \<noteq> s" using heap_tree_root[OF a(1)] heap_tree_root[OF a(2)] by auto
    then show ?thesis
      using delete_two[OF p s 3 refl] ngx_rbtree_min_tree[OF a(2) 3(2)] by (simp add: delete_cont_eq)
  qed
qed

end
