(* ===== verification/RbTreeOps.thy ===== *)
theory RbTreeOps
  imports RbTreeRemove
begin

text \<open>
  What the red-black tree promises to the modules that use it: with the comparisons of the code, insertion
  and removal act on an ordered list of nodes, the walk with \<^verbatim>\<open>ngx_rbtree_min\<close> and \<^verbatim>\<open>ngx_rbtree_next\<close> goes
  through that list, and a search goes through a number of nodes that is logarithmic in its length.
\<close>

section \<open>The comparisons\<close>

interpretation key_order: insert_order key_below "\<lambda>h a. rb_key (h a)" "\<lambda>h S. True"
  by unfold_locales (simp add: key_below_def)

text \<open>Timers are compared by the sign of the difference, which is right within half of the range after some time \<open>base\<close>.\<close>

definition timer_rank :: "u64 \<Rightarrow> rb_heap \<Rightarrow> addr \<Rightarrow> u64" where
  "timer_rank base h a = rb_key (h a) - base"

definition in_window :: "u64 \<Rightarrow> rb_heap \<Rightarrow> addr set \<Rightarrow> bool" where
  "in_window base h S \<longleftrightarrow> (\<forall>a \<in> S. uint (timer_rank base h a) < 2 ^ 63)"

lemma sint_diff:
  fixes x y :: u64
  assumes "uint x < 2 ^ 63" and "uint y < 2 ^ 63"
  shows "sint (x - y) = uint x - uint y"
proof -
  have "sint (word_of_int (uint x - uint y) :: u64) = signed_take_bit 63 (uint x - uint y)"
    by (subst sint_sbintrunc') simp
  also have "\<dots> = uint x - uint y"
  proof (rule signed_take_bit_int_eq_self)
    have "0 \<le> uint x" "0 \<le> uint y" by simp_all
    then show "- (2 ^ 63) \<le> uint x - uint y" "uint x - uint y < 2 ^ 63" using assms by linarith+
  qed
  finally show ?thesis unfolding word_sub_wi .
qed

interpretation timer_order: insert_order timer_below "timer_rank base" "in_window base" for base
proof (unfold_locales, goal_cases)
  case (1 h S a b)
  then have w: "uint (timer_rank base h a) < 2 ^ 63" "uint (timer_rank base h b) < 2 ^ 63" by (auto simp: in_window_def)
  have "rb_key (h a) - rb_key (h b) = timer_rank base h a - timer_rank base h b" by (simp add: timer_rank_def)
  then show ?case using sint_diff[OF w] by (simp add: timer_below_def word_less_def)
qed

section \<open>Keys\<close>

text \<open>The shape of a tree does not depend on the keys.\<close>

lemma rbt_set_key [simp]: "rbt (set_key a k h) s root xs = rbt h s root xs"
proof -
  have "heap_tree (set_key a k h) s par p t = heap_tree h s par p t" for par p t
    by (rule heap_tree_cong) simp
  then show ?thesis by (simp add: rbt_def tree_at_def place_iff)
qed

lemma sorted_map_remove1: "sorted (map f xs) \<Longrightarrow> sorted (map f (remove1 x xs))"
  by (induction xs) (auto dest: set_remove1_subset[THEN subsetD])

section \<open>The walk\<close>

lemma next_up_place:
  "place h s root p par t cs \<Longrightarrow> t \<noteq> Leaf \<Longrightarrow> next_up h root p = Some (case ctx_right cs of [] \<Rightarrow> NULL | a # _ \<Rightarrow> a)"
proof (induction cs arbitrary: p par t)
  case Nil
  then have "p = root" by (simp add: place_iff)
  then show ?case by (subst next_up.simps) simp
next
  case (Cons f cs)
  obtain d a c u where f: "f = (d, (a, c), u)" by (metis prod.exhaust)
  have "par = a" using Cons.prems(1) place_parent by (simp add: f)
  note pl = Cons.prems(1)[unfolded f this]
  have p: "p \<noteq> s" "rb_parent (h p) = a" using pl Cons.prems(2) heap_tree_root[of h s a p t] by (auto simp: place_iff)
  have "p \<noteq> root" using pl heap_tree_root[of h s a p t] p(1) ctx_root[of h s root p a "f # cs"] by (auto simp: place_iff f)
  moreover have side: "p = rb_left (h a) \<longleftrightarrow> d = False"
    using place_side[OF pl disjI1[OF p(1)], of False] by (simp add: child_side)
  ultimately have un: "next_up h root p = (if d then next_up h root a else Some a)"
    using p(2) by (subst next_up.simps) simp
  have "nd d t (a, c) u \<noteq> Leaf" by (simp add: nd_def)
  from Cons.IH[OF place_up[OF pl] this] show ?case by (simp add: un f)
qed

lemma rbtree_next_node:
  assumes "place h s root n par (Node l (n, c) r) cs"
  shows "ngx_rbtree_next h root s n = Some (case tree_addrs r @ ctx_right cs of [] \<Rightarrow> NULL | a # _ \<Rightarrow> a)"
proof (cases "r = Leaf")
  case True
  then have "rb_right (h n) = s" using assms by (simp add: place_iff)
  then show ?thesis using next_up_place[OF assms] True by (simp add: ngx_rbtree_next_def)
next
  case False
  have r: "heap_tree h s n (rb_right (h n)) r" using assms by (simp add: place_iff)
  then have "rb_right (h n) \<noteq> s" using False heap_tree_root by blast
  then show ?thesis using ngx_rbtree_min_tree[OF r False] min_addrs[OF False] by (simp add: ngx_rbtree_next_def)
qed

lemma rbtree_next_nth:
  assumes "rbt h s root xs" and "i < length xs"
  shows "ngx_rbtree_next h root s (xs ! i) = Some (if Suc i < length xs then xs ! Suc i else NULL)"
proof -
  have "xs ! i \<in> set xs" using assms(2) by simp
  from rbt_place[OF assms(1) this] obtain par l c r cs where
    p: "rb_place h s root (xs ! i) par (Node l (xs ! i, c) r) cs" "fill cs (tree_addrs (Node l (xs ! i, c) r)) = xs" .
  let ?b = "ctx_left cs @ tree_addrs l" and ?a = "tree_addrs r @ ctx_right cs"
  have xs: "xs = ?b @ xs ! i # ?a" using p(2) by (simp add: fill_sides)
  have "xs ! length ?b = xs ! i" using arg_cong[OF xs, of "\<lambda>z. z ! length ?b"] by (simp only: nth_append_length)
  moreover have "length ?b < length xs" using arg_cong[OF xs, of length] by simp
  ultimately have i: "i = length ?b" using rbt_distinct[OF assms(1)] assms(2) nth_eq_iff_index_eq by metis
  have "(if Suc i < length xs then xs ! Suc i else NULL) = (case ?a of [] \<Rightarrow> NULL | a # _ \<Rightarrow> a)"
  proof (cases ?a)
    case Nil
    then have "length xs = Suc i" using arg_cong[OF xs, of length] i by simp
    then show ?thesis unfolding Nil by simp
  next
    case (Cons y ys)
    have "xs ! Suc i = (?b @ xs ! i # ?a) ! Suc (length ?b)"
      unfolding i[symmetric] by (rule arg_cong[OF xs, of "\<lambda>z. z ! Suc i"])
    then have "xs ! Suc i = y" unfolding Cons by (simp add: nth_append)
    moreover have "Suc i < length xs" using arg_cong[OF xs, of length] i unfolding Cons by simp
    ultimately show ?thesis unfolding Cons by simp
  qed
  then show ?thesis using rbtree_next_node[of h s root "xs ! i" par l c r cs] p(1) by (simp add: rb_place_def)
qed

lemma rbtree_min_hd: "rbt h s root xs \<Longrightarrow> xs \<noteq> [] \<Longrightarrow> ngx_rbtree_min h root s = Some (hd xs)"
proof -
  assume r: "rbt h s root xs" and ne: "xs \<noteq> []"
  then obtain t where t: "heap_tree h s (rb_parent (h root)) root t" "tree_addrs t = xs"
    by (auto simp: rbt_def tree_at_def place_iff)
  then have "t \<noteq> Leaf" using ne by auto
  with ngx_rbtree_min_tree[OF t(1) this] min_addrs[OF this] t(2) show ?thesis by simp
qed

section \<open>The height\<close>

lemma rb_height: "rb_inv t \<Longrightarrow> height t \<le> 2 * black_height t + (if is_red t then 1 else 0)"
proof (induction t)
  case (Node l x r)
  then show ?case by (cases x) (auto split: if_splits)
qed simp

lemma rb_size: "rb_inv t \<Longrightarrow> 2 ^ black_height t \<le> size t + 1"
proof (induction t)
  case (Node l x r)
  then show ?case by (cases x) auto
qed simp

lemma length_tree_addrs: "length (tree_addrs t) = size t"
  by (simp add: tree_addrs_def length_inorder)

lemma rbt_height:
  assumes "rbt h s root xs"
  shows "\<exists>t. tree_at h s root t \<and> tree_addrs t = xs \<and> 2 ^ height t \<le> (length xs + 1) ^ 2"
proof -
  from assms obtain t where t: "tree_at h s root t" "rb_inv t" "\<not> is_red t" "tree_addrs t = xs" by (auto simp: rbt_def)
  have "(2::nat) ^ height t \<le> 2 ^ (2 * black_height t)" using rb_height[OF t(2)] t(3) by (intro power_increasing) auto
  also have "\<dots> = (2 ^ black_height t) ^ 2" by (metis power_mult mult.commute)
  also have "\<dots> \<le> (size t + 1) ^ 2" using rb_size[OF t(2)] by (intro power_mono) auto
  finally show ?thesis using t length_tree_addrs[of t] by auto
qed

section \<open>The properties\<close>

text \<open>C33: Inserting into a red-black tree inserts into a sorted list. \<^verbatim>\<open>ngx_rbtree_insert\<close> with the function
  \<^verbatim>\<open>ngx_rbtree_insert_value\<close> returns, and the tree that it leaves in the heap is again a red-black tree; its nodes in order are the old
  ones with the new node after the last one whose key is not greater, no key is changed and no memory outside
  the nodes of the tree is written, not even the sentinel.\<close>

theorem rbtree_insert_ordered:
  assumes "rbt h s root xs" and "sorted (map (\<lambda>a. rb_key (h a)) xs)" and "n \<notin> set xs" and "n \<noteq> s"
  shows "\<exists>root' h' us vs. ngx_rbtree_insert ngx_rbtree_insert_value s n (root, h) = Some (root', h') \<and>
     xs = us @ vs \<and> rbt h' s root' (us @ n # vs) \<and> sorted (map (\<lambda>a. rb_key (h' a)) (us @ n # vs)) \<and>
     (\<forall>a \<in> set us. rb_key (h a) \<le> rb_key (h n)) \<and> (\<forall>a \<in> set vs. rb_key (h n) < rb_key (h a)) \<and>
     (\<forall>a. rb_key (h' a) = rb_key (h a)) \<and> (\<forall>a. a \<notin> insert n (set xs) \<longrightarrow> h' a = h a)"
proof -
  from key_order.rbtree_insert[OF assms(1-4)] obtain root' h' us vs where
    r: "ngx_rbtree_insert (rb_insert_loop key_below) s n (root, h) = Some (root', h')" "xs = us @ vs" "rbt h' s root' (us @ n # vs)"
      "\<forall>a \<in> set us. rb_key (h a) \<le> rb_key (h n)" "\<forall>a \<in> set vs. rb_key (h n) < rb_key (h a)" "touches (insert n (set xs)) h h'"
    by auto
  have k: "rb_key (h' a) = rb_key (h a)" for a using r(6) by (simp add: touches_def)
  have "sorted (map (\<lambda>a. rb_key (h' a)) (us @ n # vs))"
    using assms(2) r(2,4,5) by (auto simp: k sorted_append less_imp_le intro: order.trans)
  moreover have "\<forall>a. a \<notin> insert n (set xs) \<longrightarrow> h' a = h a" using r(6) by (simp add: touches_def)
  ultimately show ?thesis
    using r(1-5) k unfolding ngx_rbtree_insert_value_def by blast
qed

text \<open>C34: Removing a node from a red-black tree removes it from the list. \<^verbatim>\<open>ngx_rbtree_delete\<close> returns for every node of
  the tree, whatever its place, and leaves a red-black tree with the other nodes in the same order; the keys of
  the others are kept, and of the memory outside the tree only the sentinel may be written, whose
  colour stays black.\<close>

theorem rbtree_delete_ordered:
  assumes "rbt h s root xs" and "n \<in> set xs"
  shows "\<exists>root' h'. ngx_rbtree_delete s n (root, h) = Some (root', h') \<and> rbt h' s root' (remove1 n xs) \<and>
     (\<forall>a. a \<noteq> n \<longrightarrow> rb_key (h' a) = rb_key (h a)) \<and> (\<forall>a. a \<notin> insert s (set xs) \<longrightarrow> h' a = h a)"
  using rbtree_delete[OF assms] unfolding removed_ok_def removes_def .

text \<open>The walk over a red-black tree visits its nodes in order: \<^verbatim>\<open>ngx_rbtree_min\<close> gives the first one,
  \<^verbatim>\<open>ngx_rbtree_next\<close> of each the following one, and of the last one the null pointer, though the parent that the
  root has in memory may be stale.\<close>

theorem rbtree_walk:
  assumes "rbt h s root xs"
  shows "(xs \<noteq> [] \<longrightarrow> ngx_rbtree_min h root s = Some (xs ! 0)) \<and>
    (\<forall>i < length xs. ngx_rbtree_next h root s (xs ! i) = Some (if Suc i < length xs then xs ! Suc i else NULL))"
  using rbtree_min_hd[OF assms] rbtree_next_nth[OF assms] by (simp add: hd_conv_nth)

text \<open>The depth of a red-black tree is at most twice the logarithm of its size, that is
  \<open>2 ^ depth \<le> (n + 1)\<^sup>2\<close> for a tree of \<open>n\<close> nodes, so that a search in any of the zones and in the timers is short.\<close>

theorem rbtree_depth:
  assumes "rbt h s root xs"
  shows "\<exists>t. tree_at h s root t \<and> tree_addrs t = xs \<and> 2 ^ height t \<le> (length xs + 1) ^ 2"
  using assms by (rule rbt_height)

section \<open>A small tree\<close>

definition demo_nodes :: rb_heap where
  "demo_nodes a =
    (if a = 1 then \<lparr> rb_key = 10, rb_left = 9, rb_right = 2, rb_parent = 0, rb_red = False \<rparr>
     else if a = 2 then \<lparr> rb_key = 20, rb_left = 9, rb_right = 9, rb_parent = 1, rb_red = True \<rparr>
     else \<lparr> rb_key = 30, rb_left = 0, rb_right = 0, rb_parent = 0, rb_red = False \<rparr>)"

lemma demo_rbt: "rbt demo_nodes 9 1 [1, 2]"
proof -
  let ?t = "Node Leaf (1, False) (Node Leaf (2, True) Leaf) :: rb_tree"
  have "tree_at demo_nodes 9 1 ?t" by (simp add: tree_at_def place_iff demo_nodes_def)
  then show ?thesis unfolding rbt_def by (intro conjI exI[of _ ?t]) (simp_all add: demo_nodes_def)
qed

lemma rbtree_insert_ordered_witness:
  "\<exists>root' h'. ngx_rbtree_insert ngx_rbtree_insert_value 9 3 (1, demo_nodes) = Some (root', h') \<and> rbt h' 9 root' [1, 2, 3]"
proof -
  have "sorted (map (\<lambda>a. rb_key (demo_nodes a)) [1, 2])" by (simp add: demo_nodes_def)
  from rbtree_insert_ordered[OF demo_rbt this, of 3] obtain root' h' us vs where
    o: "ngx_rbtree_insert ngx_rbtree_insert_value 9 3 (1, demo_nodes) = Some (root', h')" "[1, 2] = us @ vs"
      "rbt h' 9 root' (us @ 3 # vs)" "\<forall>a \<in> set vs. rb_key (demo_nodes 3) < rb_key (demo_nodes a)" by auto
  have "vs = []"
  proof (rule ccontr)
    assume "vs \<noteq> []"
    then have "last vs = 2" using arg_cong[OF o(2), of last] by simp
    then have "2 \<in> set vs" using last_in_set[OF \<open>vs \<noteq> []\<close>] by simp
    then show False using o(4) by (auto simp: demo_nodes_def)
  qed
  then show ?thesis using o by auto
qed

lemma rbtree_delete_ordered_witness:
  "\<exists>root' h'. ngx_rbtree_delete 9 1 (1, demo_nodes) = Some (root', h') \<and> rbt h' 9 root' [2]"
  using rbtree_delete_ordered[OF demo_rbt, of 1] by auto

lemma rbtree_walk_witness: "ngx_rbtree_min demo_nodes 1 9 = Some 1 \<and> ngx_rbtree_next demo_nodes 1 9 2 = Some NULL"
  using rbtree_walk[OF demo_rbt] by (auto simp: less_Suc_eq)

lemma rbtree_depth_witness: "\<exists>t. tree_at demo_nodes 9 1 t \<and> (2::nat) ^ height t \<le> 9"
  using rbtree_depth[OF demo_rbt] by (auto simp: power2_eq_square)

end
