(* ===== verification/EventTimer.thy ===== *)
theory EventTimer
  imports RbTreeOps
begin

text \<open>
  The timers of the event loop, \<^verbatim>\<open>src/event/ngx_event_timer.c\<close> and \<^verbatim>\<open>ngx_event_timer.h\<close>: a red-black
  tree of the events by the time, in milliseconds modulo \<open>2 ^ 64\<close>, when they are due. An event is named by the
  address of its node in the tree. The handlers of the events are a parameter; they may add and delete
  timers and act on the rest of the state, which extends the record.
\<close>

section \<open>The code\<close>

record timers =
  tm_root :: addr
  tm_heap :: rb_heap
  tm_now :: u64
  tm_set :: "addr \<Rightarrow> bool"
  tm_timedout :: "addr \<Rightarrow> bool"

definition NGX_TIMER_INFINITE :: u64 where
  "NGX_TIMER_INFINITE = - 1"

definition NGX_TIMER_LAZY_DELAY :: int where
  "NGX_TIMER_LAZY_DELAY = 300"

definition ngx_event_timer_init :: "addr \<Rightarrow> 'w timers_scheme \<Rightarrow> 'w timers_scheme" where
  "ngx_event_timer_init s tm = tm\<lparr>tm_heap := set_red s False (tm_heap tm), tm_root := s\<rparr>"

definition ngx_event_find_timer :: "addr \<Rightarrow> 'w timers_scheme \<Rightarrow> u64 option" where
  "ngx_event_find_timer s tm =
    (if tm_root tm = s then Some NGX_TIMER_INFINITE
     else case ngx_rbtree_min (tm_heap tm) (tm_root tm) s of
            None \<Rightarrow> None
          | Some node \<Rightarrow>
              let timer = rb_key (tm_heap tm node) - tm_now tm in Some (if 0 < sint timer then timer else 0))"

definition ngx_event_del_timer :: "addr \<Rightarrow> addr \<Rightarrow> 'w timers_scheme \<Rightarrow> 'w timers_scheme option" where
  "ngx_event_del_timer s ev tm =
    (case ngx_rbtree_delete s ev (tm_root tm, tm_heap tm) of
       None \<Rightarrow> None
     | Some (root, h) \<Rightarrow> Some (tm\<lparr>tm_root := root, tm_heap := h, tm_set := (tm_set tm)(ev := False)\<rparr>))"

definition timer_lazy :: "u64 \<Rightarrow> bool" where
  "timer_lazy diff \<longleftrightarrow> sint (if 0 \<le> sint diff then diff else - diff) < NGX_TIMER_LAZY_DELAY"

definition timer_insert :: "addr \<Rightarrow> addr \<Rightarrow> u64 \<Rightarrow> 'w timers_scheme \<Rightarrow> 'w timers_scheme option" where
  "timer_insert s ev key tm =
    (case ngx_rbtree_insert ngx_rbtree_insert_timer_value s ev (tm_root tm, set_key ev key (tm_heap tm)) of
       None \<Rightarrow> None
     | Some (root, h) \<Rightarrow> Some (tm\<lparr>tm_root := root, tm_heap := h, tm_set := (tm_set tm)(ev := True)\<rparr>))"

definition ngx_event_add_timer :: "addr \<Rightarrow> addr \<Rightarrow> u64 \<Rightarrow> 'w timers_scheme \<Rightarrow> 'w timers_scheme option" where
  "ngx_event_add_timer s ev timer tm =
    (let key = tm_now tm + timer in
     if tm_set tm ev then
       if timer_lazy (key - rb_key (tm_heap tm ev)) then Some tm
       else case ngx_event_del_timer s ev tm of None \<Rightarrow> None | Some tm \<Rightarrow> timer_insert s ev key tm
     else timer_insert s ev key tm)"

partial_function (option) ngx_event_expire_timers ::
    "(addr \<Rightarrow> 'w timers_scheme \<Rightarrow> 'w timers_scheme option) \<Rightarrow> addr \<Rightarrow> 'w timers_scheme \<Rightarrow> 'w timers_scheme option" where
  "ngx_event_expire_timers handler s tm =
    (if tm_root tm = s then Some tm
     else case ngx_rbtree_min (tm_heap tm) (tm_root tm) s of
            None \<Rightarrow> None
          | Some node \<Rightarrow>
              if 0 < sint (rb_key (tm_heap tm node) - tm_now tm) then Some tm
              else case ngx_event_del_timer s node tm of
                     None \<Rightarrow> None
                   | Some tm \<Rightarrow>
                       case handler node (tm\<lparr>tm_timedout := (tm_timedout tm)(node := True)\<rparr>) of
                         None \<Rightarrow> None
                       | Some tm \<Rightarrow> ngx_event_expire_timers handler s tm)"

partial_function (option) timers_left :: "(addr \<Rightarrow> bool) \<Rightarrow> addr \<Rightarrow> 'w timers_scheme \<Rightarrow> addr \<Rightarrow> ngx_rc option" where
  "timers_left cancelable s tm node =
    (if node = NULL then Some NGX_OK
     else if \<not> cancelable node then Some NGX_AGAIN
     else case ngx_rbtree_next (tm_heap tm) (tm_root tm) s node of
            None \<Rightarrow> None
          | Some node \<Rightarrow> timers_left cancelable s tm node)"

definition ngx_event_no_timers_left :: "(addr \<Rightarrow> bool) \<Rightarrow> addr \<Rightarrow> 'w timers_scheme \<Rightarrow> ngx_rc option" where
  "ngx_event_no_timers_left cancelable s tm =
    (if tm_root tm = s then Some NGX_OK
     else case ngx_rbtree_min (tm_heap tm) (tm_root tm) s of
            None \<Rightarrow> None
          | Some node \<Rightarrow> timers_left cancelable s tm node)"

section \<open>The ordered list of the timers\<close>

text \<open>
  The time left of an event is the difference to the current time, read as a signed number. The order
  of the tree is the order by the time left as long as all timers and the current time are within half of the
  range of the counter after some \<open>base\<close>.
\<close>

definition rest_of :: "'w timers_scheme \<Rightarrow> addr \<Rightarrow> int" where
  "rest_of tm a = sint (rb_key (tm_heap tm a) - tm_now tm)"

definition timer_due :: "'w timers_scheme \<Rightarrow> addr \<Rightarrow> bool" where
  "timer_due tm a \<longleftrightarrow> rest_of tm a \<le> 0"

definition timers_ok :: "u64 \<Rightarrow> addr \<Rightarrow> 'w timers_scheme \<Rightarrow> addr list \<Rightarrow> bool" where
  "timers_ok base s tm xs \<longleftrightarrow> rbt (tm_heap tm) s (tm_root tm) xs \<and> sorted (map (timer_rank base (tm_heap tm)) xs) \<and>
     in_window base (tm_heap tm) (set xs) \<and> uint (tm_now tm - base) < 2 ^ 63 \<and>
     (\<forall>a. tm_set tm a \<longleftrightarrow> a \<in> set xs) \<and> NULL \<notin> set xs"

lemma rest_of_rank:
  assumes "uint (timer_rank base (tm_heap tm) a) < 2 ^ 63" and "uint (tm_now tm - base) < 2 ^ 63"
  shows "rest_of tm a = uint (timer_rank base (tm_heap tm) a) - uint (tm_now tm - base)"
proof -
  have "rb_key (tm_heap tm a) - tm_now tm = timer_rank base (tm_heap tm) a - (tm_now tm - base)"
    by (simp add: timer_rank_def)
  then show ?thesis unfolding rest_of_def using sint_diff[OF assms] by metis
qed

lemma timers_rest:
  "timers_ok base s tm xs \<Longrightarrow> a \<in> set xs \<Longrightarrow>
     rest_of tm a = uint (timer_rank base (tm_heap tm) a) - uint (tm_now tm - base)"
  by (rule rest_of_rank) (auto simp: timers_ok_def in_window_def)

lemma timers_sorted: "timers_ok base s tm xs \<Longrightarrow> sorted (map (rest_of tm) xs)"
proof -
  assume t: "timers_ok base s tm xs"
  then have "sorted_wrt (\<lambda>a b. timer_rank base (tm_heap tm) a \<le> timer_rank base (tm_heap tm) b) xs"
    by (simp add: timers_ok_def sorted_map)
  then have "sorted_wrt (\<lambda>a b. rest_of tm a \<le> rest_of tm b) xs"
    by (rule sorted_wrt_mono_rel[rotated]) (simp add: timers_rest[OF t] word_le_def)
  then show ?thesis by (simp add: sorted_map)
qed

lemma timers_root: "timers_ok base s tm xs \<Longrightarrow> tm_root tm = s \<longleftrightarrow> xs = []"
  using rbt_root[of "tm_heap tm" s "tm_root tm" xs] by (auto simp: timers_ok_def)

lemma timers_min: "timers_ok base s tm xs \<Longrightarrow> xs \<noteq> [] \<Longrightarrow> ngx_rbtree_min (tm_heap tm) (tm_root tm) s = Some (hd xs)"
  by (simp add: timers_ok_def rbtree_min_hd)

lemma timers_window_rank:
  assumes "\<And>a. a \<in> S \<Longrightarrow> rb_key (h' a) = rb_key (h a)"
  shows "in_window base h' S = in_window base h S" and "set xs \<subseteq> S \<Longrightarrow> map (timer_rank base h') xs = map (timer_rank base h) xs"
  using assms by (auto simp: in_window_def timer_rank_def)

section \<open>The operations on the list\<close>

lemma del_timer_ok:
  assumes "timers_ok base s tm xs" and "ev \<in> set xs"
  shows "\<exists>root' h'. ngx_event_del_timer s ev tm = Some (tm\<lparr>tm_root := root', tm_heap := h', tm_set := (tm_set tm)(ev := False)\<rparr>) \<and>
     (\<forall>a. a \<noteq> ev \<longrightarrow> rb_key (h' a) = rb_key (tm_heap tm a)) \<and>
     timers_ok base s (tm\<lparr>tm_root := root', tm_heap := h', tm_set := (tm_set tm)(ev := False)\<rparr>) (remove1 ev xs)"
proof -
  have r: "rbt (tm_heap tm) s (tm_root tm) xs" using assms(1) by (simp add: timers_ok_def)
  from rbtree_delete[OF this assms(2)] obtain root' h' where
    d: "ngx_rbtree_delete s ev (tm_root tm, tm_heap tm) = Some (root', h')" "rbt h' s root' (remove1 ev xs)"
      "\<forall>a. a \<noteq> ev \<longrightarrow> rb_key (h' a) = rb_key (tm_heap tm a)"
    by (auto simp: removed_ok_def removes_def)
  have dist: "distinct xs" using rbt_distinct[OF r] by simp
  have sub: "set (remove1 ev xs) \<subseteq> set xs - {ev}" using dist by (simp add: set_remove1_eq)
  have k: "rb_key (h' a) = rb_key (tm_heap tm a)" if "a \<in> set xs - {ev}" for a using d(3) that by simp
  have "sorted (map (timer_rank base (tm_heap tm)) (remove1 ev xs))"
    using assms(1) by (simp add: timers_ok_def sorted_map_remove1)
  then have "sorted (map (timer_rank base h') (remove1 ev xs))"
    using timers_window_rank(2)[of "set xs - {ev}" h' "tm_heap tm" "remove1 ev xs" base, OF k sub] by metis
  moreover have "in_window base (tm_heap tm) (set xs - {ev})" using assms(1) by (simp add: timers_ok_def in_window_def)
  ultimately have "timers_ok base s (tm\<lparr>tm_root := root', tm_heap := h', tm_set := (tm_set tm)(ev := False)\<rparr>) (remove1 ev xs)"
    using assms(1) d(2) sub timers_window_rank(1)[of "set xs - {ev}" h' "tm_heap tm", OF k] dist
    by (auto simp: timers_ok_def in_window_def set_remove1_eq)
  then show ?thesis using d by (intro exI[of _ root'] exI[of _ h']) (simp add: ngx_event_del_timer_def)
qed

lemma timer_insert_ok:
  assumes "timers_ok base s tm xs" and "ev \<notin> set xs" and "ev \<noteq> s" and "ev \<noteq> NULL" and "uint (key - base) < 2 ^ 63"
  shows "\<exists>root' h' us vs. timer_insert s ev key tm = Some (tm\<lparr>tm_root := root', tm_heap := h', tm_set := (tm_set tm)(ev := True)\<rparr>) \<and>
     (\<forall>a. rb_key (h' a) = (if a = ev then key else rb_key (tm_heap tm a))) \<and> xs = us @ vs \<and>
     timers_ok base s (tm\<lparr>tm_root := root', tm_heap := h', tm_set := (tm_set tm)(ev := True)\<rparr>) (us @ ev # vs) \<and>
     (\<forall>a \<in> set vs. key - base < timer_rank base h' a)"
proof -
  let ?h = "set_key ev key (tm_heap tm)"
  have k: "rb_key (?h a) = rb_key (tm_heap tm a)" if "a \<in> set xs" for a using that assms(2) by auto
  have r: "rbt ?h s (tm_root tm) xs" using assms(1) by (simp add: timers_ok_def)
  have w: "in_window base ?h (set xs)"
    using assms(1) timers_window_rank(1)[of "set xs" ?h "tm_heap tm", OF k] by (simp add: timers_ok_def)
  have so: "sorted (map (timer_rank base ?h) xs)"
    using assms(1) timers_window_rank(2)[of "set xs" ?h "tm_heap tm" xs base, OF k order_refl] unfolding timers_ok_def by metis
  have "in_window base ?h (insert ev (set xs))" using w assms(5) by (simp add: in_window_def timer_rank_def)
  from timer_order.rbtree_insert[OF r so assms(2,3) this] obtain root' h' us vs where
    i: "ngx_rbtree_insert (rb_insert_loop timer_below) s ev (tm_root tm, ?h) = Some (root', h')" "xs = us @ vs"
      "rbt h' s root' (us @ ev # vs)" "\<forall>a \<in> set us. timer_rank base ?h a \<le> timer_rank base ?h ev"
      "\<forall>a \<in> set vs. timer_rank base ?h ev < timer_rank base ?h a" "touches (insert ev (set xs)) ?h h'"
    by auto
  have k': "rb_key (h' a) = rb_key (?h a)" for a using i(6) by (simp add: touches_def)
  have rank: "timer_rank base h' = timer_rank base ?h" using k' by (simp add: timer_rank_def fun_eq_iff)
  have "sorted (map (timer_rank base h') (us @ ev # vs))"
    using so i(4,5) by (auto simp: rank i(2) sorted_append less_imp_le intro: order.trans)
  moreover have "in_window base h' (set (us @ ev # vs))" using w assms(5) by (simp add: in_window_def rank i(2) timer_rank_def)
  ultimately have "timers_ok base s (tm\<lparr>tm_root := root', tm_heap := h', tm_set := (tm_set tm)(ev := True)\<rparr>) (us @ ev # vs)"
    using assms(1,4) i(2,3) by (simp add: timers_ok_def)
  moreover have "timer_insert s ev key tm = Some (tm\<lparr>tm_root := root', tm_heap := h', tm_set := (tm_set tm)(ev := True)\<rparr>)"
    using i(1) by (simp add: timer_insert_def ngx_rbtree_insert_timer_value_def)
  moreover have "\<forall>a \<in> set vs. key - base < timer_rank base h' a" using i(5) by (simp add: rank) (simp add: timer_rank_def)
  ultimately show ?thesis using i(2) k' by (intro exI[of _ root'] exI[of _ h'] exI[of _ us] exI[of _ vs]) simp
qed

text \<open>What adding a timer does, for an event that has one and for one that has none.\<close>

lemma timer_lazy_iff: "- (2 ^ 63) < sint diff \<Longrightarrow> timer_lazy diff \<longleftrightarrow> \<bar>sint diff\<bar> < 300"
proof -
  assume a: "- (2 ^ 63) < sint diff"
  have "sint (0 - diff) = - sint diff"
  proof -
    have "sint (word_of_int (- sint diff) :: u64) = signed_take_bit 63 (- sint diff)"
      by (subst sint_sbintrunc') simp
    also have "\<dots> = - sint diff"
      by (rule signed_take_bit_int_eq_self) (use a sint_greater_eq[of diff] sint_less[of diff] in simp_all)
    finally show ?thesis by simp
  qed
  then show ?thesis by (auto simp: timer_lazy_def NGX_TIMER_LAZY_DELAY_def)
qed

lemma rest_of_key:
  assumes "uint (tm_now tm + timer - base) < 2 ^ 63" and "uint (tm_now tm - base) < 2 ^ 63"
    and "rb_key (tm_heap tm ev) = tm_now tm + timer"
  shows "rest_of tm ev = sint timer"
  unfolding rest_of_def assms(3) by simp

lemma add_timer_ok:
  assumes "timers_ok base s tm xs" and "ev \<noteq> s" and "ev \<noteq> NULL" and "uint (tm_now tm + timer - base) < 2 ^ 63"
  shows "\<exists>tm' ys. ngx_event_add_timer s ev timer tm = Some tm' \<and> timers_ok base s tm' ys \<and> set ys = insert ev (set xs) \<and>
     tm_now tm' = tm_now tm \<and> (\<forall>a. a \<noteq> ev \<longrightarrow> rest_of tm' a = rest_of tm a) \<and>
     \<bar>rest_of tm' ev - sint timer\<bar> < 300 \<and> (ev \<notin> set xs \<longrightarrow> rest_of tm' ev = sint timer)"
proof -
  let ?key = "tm_now tm + timer"
  have w: "uint (tm_now tm - base) < 2 ^ 63" using assms(1) by (simp add: timers_ok_def)
  have ins: "\<exists>tm' ys. timer_insert s ev ?key t = Some tm' \<and> timers_ok base s tm' ys \<and> set ys = insert ev (set zs) \<and>
      tm_now tm' = tm_now tm \<and> (\<forall>a. a \<noteq> ev \<longrightarrow> rest_of tm' a = rest_of tm a) \<and> rest_of tm' ev = sint timer"
    if "timers_ok base s t zs" "ev \<notin> set zs" "tm_now t = tm_now tm" "\<forall>a. a \<noteq> ev \<longrightarrow> rest_of t a = rest_of tm a" for t zs
  proof -
    from timer_insert_ok[OF that(1,2) assms(2,3,4)] obtain root' h' us vs where
      r: "timer_insert s ev ?key t = Some (t\<lparr>tm_root := root', tm_heap := h', tm_set := (tm_set t)(ev := True)\<rparr>)"
        "\<forall>a. rb_key (h' a) = (if a = ev then ?key else rb_key (tm_heap t a))" "zs = us @ vs"
        "timers_ok base s (t\<lparr>tm_root := root', tm_heap := h', tm_set := (tm_set t)(ev := True)\<rparr>) (us @ ev # vs)" by auto
    show ?thesis
    proof (intro exI conjI)
      show "rest_of (t\<lparr>tm_root := root', tm_heap := h', tm_set := (tm_set t)(ev := True)\<rparr>) ev = sint timer"
        using r(2) by (simp add: rest_of_def that(3))
    qed (use r that(3,4) in \<open>auto simp: rest_of_def\<close>)
  qed
  show ?thesis
  proof (cases "ev \<in> set xs")
    case False
    then have "\<not> tm_set tm ev" using assms(1) by (simp add: timers_ok_def)
    then show ?thesis using ins[OF assms(1) False refl] by (auto simp: ngx_event_add_timer_def)
  next
    case True
    then have set: "tm_set tm ev" using assms(1) by (simp add: timers_ok_def)
    let ?diff = "?key - rb_key (tm_heap tm ev)"
    have rk: "uint (timer_rank base (tm_heap tm) ev) < 2 ^ 63" using assms(1) True by (simp add: timers_ok_def in_window_def)
    have "?key - base - timer_rank base (tm_heap tm) ev = ?diff" by (simp add: timer_rank_def)
    then have "sint ?diff = uint (?key - base) - uint (timer_rank base (tm_heap tm) ev)"
      using sint_diff[OF assms(4) rk] by metis
    moreover have "sint timer = uint (?key - base) - uint (tm_now tm - base)" using sint_diff[OF assms(4) w] by simp
    ultimately have d: "sint ?diff = sint timer - rest_of tm ev" "- (2 ^ 63) < sint ?diff"
      using timers_rest[OF assms(1) True] rk uint_ge_0[of "?key - base"] by linarith+
    show ?thesis
    proof (cases "timer_lazy ?diff")
      case lazy: True
      then have "\<bar>rest_of tm ev - sint timer\<bar> < 300" using timer_lazy_iff[OF d(2)] d(1) by linarith
      then show ?thesis using assms(1) True set lazy
        by (intro exI[of _ tm] exI[of _ xs]) (auto simp: ngx_event_add_timer_def insert_absorb)
    next
      case False
      from del_timer_ok[OF assms(1) True] obtain root' h' where
        r: "ngx_event_del_timer s ev tm = Some (tm\<lparr>tm_root := root', tm_heap := h', tm_set := (tm_set tm)(ev := False)\<rparr>)"
          "\<forall>a. a \<noteq> ev \<longrightarrow> rb_key (h' a) = rb_key (tm_heap tm a)"
          "timers_ok base s (tm\<lparr>tm_root := root', tm_heap := h', tm_set := (tm_set tm)(ev := False)\<rparr>) (remove1 ev xs)" by auto
      have dist: "distinct xs" using assms(1) rbt_distinct by (auto simp: timers_ok_def)
      then have "ev \<notin> set (remove1 ev xs)" "insert ev (set (remove1 ev xs)) = set xs" using True by auto
      then show ?thesis using ins[OF r(3)] r(1,2) set False True
        by (auto simp: ngx_event_add_timer_def rest_of_def insert_absorb)
    qed
  qed
qed

section \<open>Expiry\<close>

lemma expire_none:
  assumes "timers_ok base s tm xs" and "xs = [] \<or> \<not> timer_due tm (hd xs)"
  shows "ngx_event_expire_timers handler s tm = Some tm"
  using assms timers_min[OF assms(1)] timers_root[OF assms(1)]
  by (subst ngx_event_expire_timers.simps) (auto simp: timer_due_def rest_of_def)

lemma expire_due:
  assumes "timers_ok base s tm (x # xs)" and "timer_due tm x"
  shows "\<exists>root' h'. let tm1 = tm\<lparr>tm_root := root', tm_heap := h', tm_set := (tm_set tm)(x := False), tm_timedout := (tm_timedout tm)(x := True)\<rparr> in
     timers_ok base s tm1 xs \<and> (\<forall>a. a \<noteq> x \<longrightarrow> rb_key (h' a) = rb_key (tm_heap tm a)) \<and> x \<notin> set xs \<and>
     ngx_event_expire_timers handler s tm =
       (case handler x tm1 of None \<Rightarrow> None | Some tm \<Rightarrow> ngx_event_expire_timers handler s tm)"
proof -
  from del_timer_ok[OF assms(1), of x] obtain root' h' where
    r: "ngx_event_del_timer s x tm = Some (tm\<lparr>tm_root := root', tm_heap := h', tm_set := (tm_set tm)(x := False)\<rparr>)"
      "\<forall>a. a \<noteq> x \<longrightarrow> rb_key (h' a) = rb_key (tm_heap tm a)"
      "timers_ok base s (tm\<lparr>tm_root := root', tm_heap := h', tm_set := (tm_set tm)(x := False)\<rparr>) xs" by auto
  have "x \<notin> set xs" using assms(1) rbt_distinct by (fastforce simp: timers_ok_def)
  moreover have "tm_root tm \<noteq> s" "ngx_rbtree_min (tm_heap tm) (tm_root tm) s = Some x"
    using timers_root[OF assms(1)] timers_min[OF assms(1)] by simp_all
  ultimately show ?thesis using r assms(2)
    by (intro exI[of _ root'] exI[of _ h'], subst ngx_event_expire_timers.simps)
      (simp add: timers_ok_def timer_due_def rest_of_def)
qed

text \<open>
  What a handler has to keep: it leaves the timers ordered and the clock alone, and it makes no timer due that was not,
  so that it may delete timers, and add timers that are not yet due.
\<close>

definition handler_keeps :: "u64 \<Rightarrow> addr \<Rightarrow> u64 \<Rightarrow> (addr \<Rightarrow> 'w timers_scheme \<Rightarrow> 'w timers_scheme option) \<Rightarrow> bool" where
  "handler_keeps base s now handler \<longleftrightarrow>
    (\<forall>ev tm xs. timers_ok base s tm xs \<longrightarrow> tm_now tm = now \<longrightarrow> ev \<notin> set xs \<longrightarrow> ev \<noteq> s \<longrightarrow> ev \<noteq> NULL \<longrightarrow>
      (\<exists>tm' ys. handler ev tm = Some tm' \<and> timers_ok base s tm' ys \<and> tm_now tm' = now \<and>
        (\<forall>a \<in> set ys. timer_due tm' a \<longrightarrow> a \<in> set xs \<and> timer_due tm a)))"

lemma timers_distinct: "timers_ok base s tm xs \<Longrightarrow> distinct xs"
  using rbt_distinct by (auto simp: timers_ok_def)

lemma timers_not_special: "timers_ok base s tm xs \<Longrightarrow> x \<in> set xs \<Longrightarrow> x \<noteq> s \<and> x \<noteq> NULL"
  unfolding timers_ok_def by (metis rbt_distinct)

lemma expire_all:
  "timers_ok base s tm xs \<Longrightarrow> handler_keeps base s (tm_now tm) handler \<Longrightarrow>
     \<exists>tm' ys. ngx_event_expire_timers handler s tm = Some tm' \<and> timers_ok base s tm' ys \<and> (\<forall>a \<in> set ys. \<not> timer_due tm' a)"
proof (induction "length (filter (timer_due tm) xs)" arbitrary: tm xs rule: less_induct)
  case less
  show ?case
  proof (cases "xs = [] \<or> \<not> timer_due tm (hd xs)")
    case True
    have "\<not> timer_due tm a" if "a \<in> set xs" for a
      using True that timers_sorted[OF less.prems(1)] by (cases xs) (auto simp: timer_due_def)
    then show ?thesis using expire_none[OF less.prems(1) True] less.prems(1) by auto
  next
    case False
    then obtain x rest where xs: "xs = x # rest" and due: "timer_due tm x" by (cases xs) auto
    obtain root' h' where e: "timers_ok base s (tm\<lparr>tm_root := root', tm_heap := h', tm_set := (tm_set tm)(x := False), tm_timedout := (tm_timedout tm)(x := True)\<rparr>) rest"
        "\<forall>a. a \<noteq> x \<longrightarrow> rb_key (h' a) = rb_key (tm_heap tm a)" "x \<notin> set rest"
        "ngx_event_expire_timers handler s tm =
          (case handler x (tm\<lparr>tm_root := root', tm_heap := h', tm_set := (tm_set tm)(x := False), tm_timedout := (tm_timedout tm)(x := True)\<rparr>)
           of None \<Rightarrow> None | Some tm \<Rightarrow> ngx_event_expire_timers handler s tm)"
      using expire_due[OF less.prems(1)[unfolded xs] due, of handler] by (auto simp: Let_def)
    define tm1 where "tm1 = tm\<lparr>tm_root := root', tm_heap := h', tm_set := (tm_set tm)(x := False), tm_timedout := (tm_timedout tm)(x := True)\<rparr>"
    note e = e[folded tm1_def]
    have now: "tm_now tm1 = tm_now tm" by (simp add: tm1_def)
    have same: "timer_due tm1 a = timer_due tm a" if "a \<in> set rest" for a
      using e(2,3) that by (auto simp: timer_due_def rest_of_def tm1_def)
    have x: "x \<noteq> s" "x \<noteq> NULL" using timers_not_special[OF less.prems(1), of x] by (simp_all add: xs)
    obtain tm2 ys where h: "handler x tm1 = Some tm2" "timers_ok base s tm2 ys" "tm_now tm2 = tm_now tm"
        "\<forall>a \<in> set ys. timer_due tm2 a \<longrightarrow> a \<in> set rest \<and> timer_due tm1 a"
      using less.prems(2)[unfolded handler_keeps_def, rule_format, OF e(1) now e(3) x] by blast
    have "set (filter (timer_due tm2) ys) \<subseteq> set (filter (timer_due tm) rest)" using h(4) same by auto
    then have "length (filter (timer_due tm2) ys) \<le> length (filter (timer_due tm) rest)"
      using timers_distinct[OF h(2)] timers_distinct[OF e(1)] by (metis card_mono List.finite_set distinct_card distinct_filter)
    then have "length (filter (timer_due tm2) ys) < length (filter (timer_due tm) xs)" using due by (simp add: xs)
    from less.hyps[OF this h(2)] less.prems(2) h(1,3) e(4) show ?thesis by simp
  qed
qed

text \<open>A handler that writes down which events it was called for.\<close>

record timer_log = timers +
  tm_fired :: "addr list"

definition log_event :: "addr \<Rightarrow> timer_log \<Rightarrow> timer_log option" where
  "log_event ev tm = Some (tm\<lparr>tm_fired := tm_fired tm @ [ev]\<rparr>)"

lemma expire_order:
  "timers_ok base s tm xs \<Longrightarrow>
     \<exists>tm'. ngx_event_expire_timers log_event s tm = Some tm' \<and> timers_ok base s tm' (filter (\<lambda>a. \<not> timer_due tm a) xs) \<and>
       tm_fired tm' = tm_fired tm @ filter (timer_due tm) xs \<and>
       (\<forall>a. tm_timedout tm' a \<longleftrightarrow> tm_timedout tm a \<or> a \<in> set (filter (timer_due tm) xs))"
proof (induction xs arbitrary: tm)
  case Nil
  then show ?case using expire_none[of base s tm "[]"] by simp
next
  case (Cons x xs)
  show ?case
  proof (cases "timer_due tm x")
    case False
    then have "\<not> timer_due tm a" if "a \<in> set (x # xs)" for a
      using that timers_sorted[OF Cons.prems] by (auto simp: timer_due_def)
    then have f: "filter (timer_due tm) (x # xs) = []" "filter (\<lambda>a. \<not> timer_due tm a) (x # xs) = x # xs"
      by (simp_all add: filter_empty_conv filter_id_conv)
    have "ngx_event_expire_timers log_event s tm = Some tm" by (rule expire_none[OF Cons.prems]) (simp add: False)
    then show ?thesis unfolding f using Cons.prems by simp
  next
    case True
    obtain root' h' where e: "timers_ok base s (tm\<lparr>tm_root := root', tm_heap := h', tm_set := (tm_set tm)(x := False), tm_timedout := (tm_timedout tm)(x := True)\<rparr>) xs"
        "\<forall>a. a \<noteq> x \<longrightarrow> rb_key (h' a) = rb_key (tm_heap tm a)" "x \<notin> set xs"
        "ngx_event_expire_timers log_event s tm =
          (case log_event x (tm\<lparr>tm_root := root', tm_heap := h', tm_set := (tm_set tm)(x := False), tm_timedout := (tm_timedout tm)(x := True)\<rparr>)
           of None \<Rightarrow> None | Some tm \<Rightarrow> ngx_event_expire_timers log_event s tm)"
      using expire_due[OF Cons.prems True, of log_event] by (auto simp: Let_def)
    define tm1 where "tm1 = tm\<lparr>tm_root := root', tm_heap := h', tm_set := (tm_set tm)(x := False), tm_timedout := (tm_timedout tm)(x := True),
      tm_fired := tm_fired tm @ [x]\<rparr>"
    have t1: "timers_ok base s tm1 xs" using e(1) by (simp add: timers_ok_def tm1_def)
    have same: "timer_due tm1 a = timer_due tm a" if "a \<in> set xs" for a
      using e(2,3) that by (auto simp: timer_due_def rest_of_def tm1_def)
    have f: "filter (timer_due tm1) xs = filter (timer_due tm) xs" "filter (\<lambda>a. \<not> timer_due tm1 a) xs = filter (\<lambda>a. \<not> timer_due tm a) xs"
      by (auto intro: filter_cong simp: same)
    have run: "ngx_event_expire_timers log_event s tm = ngx_event_expire_timers log_event s tm1"
      unfolding e(4) by (simp add: log_event_def tm1_def)
    have v: "tm_fired tm1 = tm_fired tm @ [x]" "tm_timedout tm1 = (tm_timedout tm)(x := True)" by (simp_all add: tm1_def)
    show ?thesis using Cons.IH[OF t1] True unfolding run f v by auto
  qed
qed

text \<open>The base may follow the clock: what is needed is only that nothing lies before it.\<close>

lemma timers_base:
  assumes "timers_ok base s tm xs" and "d \<le> tm_now tm - base" and "\<And>a. a \<in> set xs \<Longrightarrow> d \<le> timer_rank base (tm_heap tm) a"
  shows "timers_ok (base + d) s tm xs"
proof -
  have r: "timer_rank (base + d) h a = timer_rank base h a - d" for h a by (simp add: timer_rank_def)
  have sub: "uint (x - d) = uint x - uint d" if "d \<le> x" for x :: u64
    using that by (simp add: uint_sub_if' word_le_def)
  have w: "uint (tm_now tm - base) < 2 ^ 63" using assms(1) by (simp add: timers_ok_def)
  have n: "tm_now tm - (base + d) = (tm_now tm - base) - d" by simp
  have "sorted_wrt (\<lambda>a b. timer_rank base (tm_heap tm) a \<le> timer_rank base (tm_heap tm) b) xs"
    using assms(1) by (simp add: timers_ok_def sorted_map)
  then have "sorted_wrt (\<lambda>a b. timer_rank (base + d) (tm_heap tm) a \<le> timer_rank (base + d) (tm_heap tm) b) xs"
    by (rule sorted_wrt_mono_rel[rotated]) (simp add: r word_le_def sub[OF assms(3)])
  moreover have "in_window (base + d) (tm_heap tm) (set xs)"
    unfolding in_window_def
  proof
    fix a assume a: "a \<in> set xs"
    then have "uint (timer_rank base (tm_heap tm) a) < 2 ^ 63" using assms(1) by (simp add: timers_ok_def in_window_def)
    then show "uint (timer_rank (base + d) (tm_heap tm) a) < 2 ^ 63" unfolding r sub[OF assms(3)[OF a]] using uint_ge_0[of d] by linarith
  qed
  moreover have "uint (tm_now tm - (base + d)) < 2 ^ 63"
    unfolding n sub[OF assms(2)] using w uint_ge_0[of d] by linarith
  ultimately show ?thesis using assms(1) by (simp add: timers_ok_def sorted_map)
qed

lemma timers_left_nth:
  "timers_ok base s tm xs \<Longrightarrow> i < length xs \<Longrightarrow>
     timers_left c s tm (xs ! i) = Some (if \<forall>a \<in> set (drop i xs). c a then NGX_OK else NGX_AGAIN)"
proof (induction "length xs - i" arbitrary: i)
  case (Suc k)
  have ne: "xs ! i \<noteq> NULL" using Suc.prems nth_mem[of i xs] unfolding timers_ok_def by metis
  have dr: "drop i xs = xs ! i # drop (Suc i) xs" using Suc.prems(2) by (rule Cons_nth_drop_Suc[symmetric])
  have n: "ngx_rbtree_next (tm_heap tm) (tm_root tm) s (xs ! i) = Some (if Suc i < length xs then xs ! Suc i else NULL)"
    using Suc.prems by (intro rbtree_next_nth) (simp_all add: timers_ok_def)
  show ?case
  proof (cases "Suc i < length xs")
    case True
    then show ?thesis using Suc.hyps(1)[of "Suc i"] Suc.hyps(2) Suc.prems(1) ne n dr
      by (subst timers_left.simps) simp
  next
    case False
    then have "drop (Suc i) xs = []" by simp
    moreover have "timers_left c s tm NULL = Some NGX_OK" by (subst timers_left.simps) simp
    ultimately show ?thesis using ne n dr False by (subst timers_left.simps) simp
  qed
qed simp

lemma uint_sint_pos: "0 < sint v \<Longrightarrow> uint v = sint v" for v :: u64
  using sint_less[of v] by (simp add: uint_sint take_bit_int_eq_self)

section \<open>The properties\<close>

text \<open>C30: The event loop fires all that is due: with handlers that may stop any timer and start timers that are not
  yet due, \<^verbatim>\<open>ngx_event_expire_timers\<close> returns, leaves the tree of the timers in order, and no timer that is left in it
  is due. So one pass of the loop cannot be kept busy for ever by handlers that arm themselves again.\<close>

theorem expire_timers_terminates:
  assumes "timers_ok base s tm xs" and "handler_keeps base s (tm_now tm) handler"
  shows "\<exists>tm' ys. ngx_event_expire_timers handler s tm = Some tm' \<and> timers_ok base s tm' ys \<and>
     (\<forall>a \<in> set ys. \<not> timer_due tm' a)"
  using assms by (rule expire_all)

text \<open>C31: Timers fire once and in the order of their times: with a handler that only writes down its calls,
  \<^verbatim>\<open>ngx_event_expire_timers\<close> calls it for exactly the due events, in ascending order of the time left, marks these as
  timed out and leaves the others in the tree.\<close>

theorem expire_timers_in_order:
  assumes "timers_ok base s tm xs"
  shows "sorted (map (rest_of tm) xs) \<and>
     (\<exists>tm'. ngx_event_expire_timers log_event s tm = Some tm' \<and> timers_ok base s tm' (filter (\<lambda>a. \<not> timer_due tm a) xs) \<and>
       tm_fired tm' = tm_fired tm @ filter (timer_due tm) xs \<and>
       (\<forall>a. tm_timedout tm' a \<longleftrightarrow> tm_timedout tm a \<or> a \<in> set (filter (timer_due tm) xs)))"
proof
  show "sorted (map (rest_of tm) xs)" using assms by (rule timers_sorted)
qed (rule expire_order[OF assms])

text \<open>Adding a timer. \<^verbatim>\<open>ngx_event_add_timer\<close> returns and keeps the timers in order, also when the counter of the
  milliseconds wraps: the event is in the tree, due in the given number of milliseconds if it had no timer, and within
  less than 300 milliseconds of it if it had one, and no other timer changes.\<close>

theorem add_timer_in_order:
  assumes "timers_ok base s tm xs" and "ev \<noteq> s" and "ev \<noteq> NULL" and "uint (tm_now tm + timer - base) < 2 ^ 63"
  shows "\<exists>tm' ys. ngx_event_add_timer s ev timer tm = Some tm' \<and> timers_ok base s tm' ys \<and> set ys = insert ev (set xs) \<and>
     tm_now tm' = tm_now tm \<and> (\<forall>a. a \<noteq> ev \<longrightarrow> rest_of tm' a = rest_of tm a) \<and>
     \<bar>rest_of tm' ev - sint timer\<bar> < 300 \<and> (ev \<notin> set xs \<longrightarrow> rest_of tm' ev = sint timer)"
  using assms by (rule add_timer_ok)

text \<open>C0: The event loop sleeps until the first timer: \<^verbatim>\<open>ngx_event_find_timer\<close> gives the least of the times left, zero
  when a timer is already due, and infinity when there is none; and \<^verbatim>\<open>ngx_event_no_timers_left\<close> lets an exiting worker
  go exactly when all the events with a timer may be cancelled.\<close>

theorem find_timer_least:
  assumes "timers_ok base s tm xs"
  shows "(\<exists>v. ngx_event_find_timer s tm = Some v \<and>
       (if xs = [] then v = NGX_TIMER_INFINITE else uint v = (MIN a \<in> set xs. max 0 (rest_of tm a)))) \<and>
     ngx_event_no_timers_left c s tm = Some (if \<forall>a \<in> set xs. c a then NGX_OK else NGX_AGAIN)"
proof (cases xs)
  case Nil
  then have "tm_root tm = s" using timers_root[OF assms] by simp
  then show ?thesis using Nil by (simp add: ngx_event_find_timer_def ngx_event_no_timers_left_def)
next
  case (Cons x rest)
  have root: "tm_root tm \<noteq> s" and mn: "ngx_rbtree_min (tm_heap tm) (tm_root tm) s = Some x"
    using timers_root[OF assms] timers_min[OF assms] by (simp_all add: Cons)
  have "ngx_event_no_timers_left c s tm = Some (if \<forall>a \<in> set xs. c a then NGX_OK else NGX_AGAIN)"
    using timers_left_nth[OF assms, of 0 c] root mn by (simp add: ngx_event_no_timers_left_def Cons)
  moreover have "(MIN a \<in> set xs. max 0 (rest_of tm a)) = max 0 (rest_of tm x)"
    by (rule Min_eqI) (use timers_sorted[OF assms] in \<open>auto simp: Cons\<close>)
  moreover have "uint (rb_key (tm_heap tm x) - tm_now tm) = sint (rb_key (tm_heap tm x) - tm_now tm)"
    if "0 < sint (rb_key (tm_heap tm x) - tm_now tm)"
    using that by (rule uint_sint_pos)
  ultimately show ?thesis using root mn
    by (auto simp: ngx_event_find_timer_def Let_def rest_of_def Cons)
qed

section \<open>Two timers\<close>

text \<open>A handler that arms its event again, as the one that starts a health check does, keeps the timers.\<close>

lemma rearm_keeps:
  assumes "uint (now + timer - base) < 2 ^ 63" and "0 < sint timer"
  shows "handler_keeps base s now (\<lambda>ev. ngx_event_add_timer s ev timer)"
  unfolding handler_keeps_def
proof (intro allI impI)
  fix ev xs and tm :: "'a timers_scheme"
  assume a: "timers_ok base s tm xs" "tm_now tm = now" "ev \<notin> set xs" "ev \<noteq> s" "ev \<noteq> NULL"
  from add_timer_ok[OF a(1,4,5), of timer] assms(1) a(2,3) obtain tm' ys where
    r: "ngx_event_add_timer s ev timer tm = Some tm'" "timers_ok base s tm' ys" "set ys = insert ev (set xs)"
      "tm_now tm' = now" "\<forall>a. a \<noteq> ev \<longrightarrow> rest_of tm' a = rest_of tm a" "rest_of tm' ev = sint timer" by auto
  have "\<not> timer_due tm' ev" using r(6) assms(2) by (simp add: timer_due_def)
  moreover have "timer_due tm' a = timer_due tm a" if "a \<noteq> ev" for a using r(5) that by (simp add: timer_due_def)
  ultimately have "\<forall>a \<in> set ys. timer_due tm' a \<longrightarrow> a \<in> set xs \<and> timer_due tm a" using r(3) by fastforce
  with r(1,2,4) show "\<exists>tm' ys. ngx_event_add_timer s ev timer tm = Some tm' \<and> timers_ok base s tm' ys \<and> tm_now tm' = now \<and>
      (\<forall>a \<in> set ys. timer_due tm' a \<longrightarrow> a \<in> set xs \<and> timer_due tm a)" by blast
qed

definition demo_timers :: timer_log where
  "demo_timers = \<lparr> tm_root = 1, tm_heap = demo_nodes, tm_now = 15, tm_set = (\<lambda>a. a = 1 \<or> a = 2),
     tm_timedout = (\<lambda>a. False), tm_fired = [] \<rparr>"

lemma demo_timers_ok: "timers_ok 0 9 demo_timers [1, 2]"
  using demo_rbt by (simp add: timers_ok_def demo_timers_def in_window_def timer_rank_def demo_nodes_def)

lemma demo_rest: "rest_of demo_timers 1 = - 5" "rest_of demo_timers (Suc 0) = - 5" "rest_of demo_timers 2 = 5"
  by (simp_all add: rest_of_def demo_timers_def demo_nodes_def)

lemma expire_timers_terminates_witness:
  "\<exists>tm' ys. ngx_event_expire_timers (\<lambda>ev. ngx_event_add_timer 9 ev 1000) 9 demo_timers = Some tm' \<and>
     timers_ok 0 9 tm' ys \<and> (\<forall>a \<in> set ys. \<not> timer_due tm' a)"
  by (rule expire_timers_terminates[OF demo_timers_ok rearm_keeps]) (simp_all add: demo_timers_def)

lemma expire_timers_in_order_witness:
  "\<exists>tm'. ngx_event_expire_timers log_event 9 demo_timers = Some tm' \<and> tm_fired tm' = [1] \<and> timers_ok 0 9 tm' [2]"
proof -
  have "tm_fired demo_timers = []" by (simp add: demo_timers_def)
  then show ?thesis using expire_timers_in_order[OF demo_timers_ok] by (auto simp: timer_due_def demo_rest)
qed

lemma add_timer_in_order_witness:
  "\<exists>tm' ys. ngx_event_add_timer 9 3 60000 demo_timers = Some tm' \<and> timers_ok 0 9 tm' ys \<and> set ys = {1, 2, 3} \<and>
     rest_of tm' 3 = 60000"
proof -
  have "uint (tm_now demo_timers + 60000 - 0) < 2 ^ 63" by (simp add: demo_timers_def)
  from add_timer_in_order[OF demo_timers_ok _ _ this, of 3] show ?thesis by (auto simp: insert_commute)
qed

lemma find_timer_least_witness:
  "ngx_event_find_timer 9 demo_timers = Some 0 \<and> ngx_event_no_timers_left (\<lambda>a. a = 1) 9 demo_timers = Some NGX_AGAIN"
proof -
  have "(MIN a \<in> set [1, 2]. max 0 (rest_of demo_timers a)) = 0" by (simp add: demo_rest)
  then show ?thesis using find_timer_least[OF demo_timers_ok, of "\<lambda>a. a = 1"] by (auto simp: unsigned_eq_0_iff)
qed

end
