(* ===== verification/RbKeyed.thy ===== *)
theory RbKeyed
  imports RbTreeOps NgxString "HOL-Library.Product_Lexorder" "HOL-Library.List_Lexorder"
begin

text \<open>
  Red-black trees whose nodes carry a name: the tree of strings of \<^verbatim>\<open>src/core/ngx_string.c\<close>, and the search that the
  modules with a shared memory zone write out. The nodes are ordered by a hash, then by the name; a search
  compares what it looks for with the node at hand and goes left or right.
\<close>

section \<open>Searches\<close>

text \<open>The loop of a search, from the root to the node that compares as equal or to the sentinel.\<close>

partial_function (option) rb_search :: "(rb_heap \<Rightarrow> addr \<Rightarrow> int) \<Rightarrow> rb_heap \<Rightarrow> addr \<Rightarrow> addr \<Rightarrow> addr option" where
  "rb_search cmp h sentinel node =
    (if node = sentinel then Some NULL
     else if cmp h node = 0 then Some node
     else rb_search cmp h sentinel (if cmp h node < 0 then rb_left (h node) else rb_right (h node)))"

locale search_order = insert_order below rank fit
  for below :: "rb_heap \<Rightarrow> addr \<Rightarrow> addr \<Rightarrow> bool" and rank :: "rb_heap \<Rightarrow> addr \<Rightarrow> 'k :: linorder"
    and fit :: "rb_heap \<Rightarrow> addr set \<Rightarrow> bool" +
  fixes look :: "'k \<Rightarrow> rb_heap \<Rightarrow> addr \<Rightarrow> int" and good :: "'k \<Rightarrow> bool"
  assumes look_less: "good k \<Longrightarrow> fit h S \<Longrightarrow> a \<in> S \<Longrightarrow> look k h a < 0 \<longleftrightarrow> k < rank h a"
    and look_zero: "good k \<Longrightarrow> fit h S \<Longrightarrow> a \<in> S \<Longrightarrow> look k h a = 0 \<longleftrightarrow> k = rank h a"
begin

lemma search_tree:
  "heap_tree h s par p t \<Longrightarrow> good k \<Longrightarrow> sorted (map (rank h) (tree_addrs t)) \<Longrightarrow> fit h S \<Longrightarrow> set (tree_addrs t) \<subseteq> S \<Longrightarrow>
     \<exists>r. rb_search (look k) h s p = Some r \<and>
       (r \<in> set (tree_addrs t) \<and> rank h r = k \<or> r = NULL \<and> k \<notin> rank h ` set (tree_addrs t))"
proof (induction t arbitrary: par p)
  case Leaf
  then show ?case by (subst rb_search.simps) simp
next
  case (Node l x r)
  obtain a c where x: "x = (a, c)" by (rule prod.exhaust)
  have p: "p = a" "a \<noteq> s" "heap_tree h s a (rb_left (h a)) l" "heap_tree h s a (rb_right (h a)) r"
    using Node.prems(1) by (simp_all add: x)
  have srt: "sorted (map (rank h) (tree_addrs l))" "sorted (map (rank h) (tree_addrs r))"
      "\<forall>b \<in> set (tree_addrs l). rank h b \<le> rank h a" "\<forall>b \<in> set (tree_addrs r). rank h a \<le> rank h b"
    using Node.prems(3) by (auto simp: x sorted_append)
  have sub: "set (tree_addrs l) \<subseteq> S" "set (tree_addrs r) \<subseteq> S" and aS: "a \<in> S" using Node.prems(5) by (auto simp: x)
  note cmp = look_less[OF Node.prems(2,4) aS] look_zero[OF Node.prems(2,4) aS]
  consider "k = rank h a" | "k < rank h a" | "rank h a < k" by (rule linorder_cases) auto
  then show ?case
  proof cases
    case 1
    then have "rb_search (look k) h s p = Some a" unfolding p(1) using cmp(2) p(2) by (subst rb_search.simps) simp
    then show ?thesis using 1 by (auto simp: x)
  next
    case 2
    then have "rb_search (look k) h s p = rb_search (look k) h s (rb_left (h a))"
      unfolding p(1) using cmp p(2) by (subst rb_search.simps) auto
    moreover have "k \<notin> rank h ` insert a (set (tree_addrs r))" using 2 srt(4) by auto
    ultimately show ?thesis using Node.IH(1)[OF p(3) Node.prems(2) srt(1) Node.prems(4) sub(1)] by (auto simp: x)
  next
    case 3
    then have "rb_search (look k) h s p = rb_search (look k) h s (rb_right (h a))"
      unfolding p(1) using cmp p(2) by (subst rb_search.simps) auto
    moreover have "k \<notin> rank h ` insert a (set (tree_addrs l))" using 3 srt(3) by auto
    ultimately show ?thesis using Node.IH(2)[OF p(4) Node.prems(2) srt(2) Node.prems(4) sub(2)] by (auto simp: x)
  qed
qed

lemma rbtree_search:
  assumes "rbt h s root xs" and "sorted (map (rank h) xs)" and "fit h (set xs)" and "good k"
  shows "\<exists>r. rb_search (look k) h s root = Some r \<and>
     (r \<in> set xs \<and> rank h r = k \<or> r = NULL \<and> k \<notin> rank h ` set xs)"
proof -
  from assms(1) obtain t where "heap_tree h s (rb_parent (h root)) root t" "tree_addrs t = xs"
    by (auto simp: rbt_def tree_at_def place_iff)
  then show ?thesis using search_tree[of h s "rb_parent (h root)" root t k "set xs"] assms(2,3,4) by auto
qed

end

section \<open>Comparisons of names\<close>

lemma uint_cmp_sign: "(uint x - uint y < 0 \<longleftrightarrow> x < y) \<and> (uint x - uint y = 0 \<longleftrightarrow> x = y)"
  unfolding word_less_def word_uint_eq_iff by linarith

lemma memcmp_lex_same:
  "length s1 = length s2 \<Longrightarrow>
     (ngx_memcmp s1 s2 (length s2) < 0 \<longleftrightarrow> s1 < s2) \<and> (ngx_memcmp s1 s2 (length s2) = 0 \<longleftrightarrow> s1 = s2)"
proof (induction s1 s2 rule: list_induct2)
  case (Cons x xs y ys)
  have e: "ngx_memcmp (x # xs) (y # ys) (length (y # ys)) = (if x \<noteq> y then uint x - uint y else ngx_memcmp xs ys (length ys))"
    by (simp add: Let_def c_head_def)
  show ?case unfolding e using Cons.IH uint_cmp_sign[of x y] by (cases "x = y") simp_all
qed simp

lemma memcmp_lex:
  "length s1 = length s2 \<Longrightarrow> n = length s2 \<Longrightarrow>
     (ngx_memcmp s1 s2 n < 0 \<longleftrightarrow> s1 < s2) \<and> (ngx_memcmp s1 s2 n = 0 \<longleftrightarrow> s1 = s2)"
  using memcmp_lex_same by blast

lemma memcmp_prefix:
  "n \<le> length s1 \<Longrightarrow> n \<le> length s2 \<Longrightarrow> ngx_memcmp s1 s2 n = ngx_memcmp (take n s1) (take n s2) n"
proof (induction n arbitrary: s1 s2)
  case (Suc n)
  obtain x xs y ys where l: "s1 = x # xs" "s2 = y # ys" using Suc.prems by (cases s1; cases s2) auto
  then have "ngx_memcmp xs ys n = ngx_memcmp (take n xs) (take n ys) n" using Suc.prems by (intro Suc.IH) simp_all
  then show ?case by (simp add: l Let_def c_head_def)
qed simp

lemma take_less:
  fixes s1 s2 :: bytes
  shows "take n s1 = take n s2 \<Longrightarrow> length s1 = n \<Longrightarrow> n < length s2 \<Longrightarrow> s1 < s2"
proof (induction s1 arbitrary: s2 n)
  case (Cons x xs)
  then show ?case by (cases s2; cases n) auto
next
  case Nil
  then show ?case by (cases s2) simp_all
qed

lemma take_less_mono:
  fixes s1 s2 :: bytes
  shows "length (take n s1) = length (take n s2) \<Longrightarrow> take n s1 < take n s2 \<Longrightarrow> s1 < s2"
proof (induction n arbitrary: s1 s2)
  case (Suc n)
  show ?case
  proof (cases "s1 = [] \<or> s2 = []")
    case True
    then show ?thesis using Suc.prems by auto
  next
    case False
    then obtain x xs y ys where l: "s1 = x # xs" "s2 = y # ys" by (meson neq_Nil_conv)
    then have "length (take n xs) = length (take n ys)" "x < y \<or> x = y \<and> take n xs < take n ys" using Suc.prems by simp_all
    then show ?thesis using Suc.IH[of xs ys] by (auto simp: l)
  qed
qed simp

text \<open>\<^verbatim>\<open>ngx_memn2cmp\<close> is the lexicographic order of the names as lists of octets.\<close>

lemma memn2cmp_lex:
  "(ngx_memn2cmp s1 s2 (length s1) (length s2) < 0 \<longleftrightarrow> s1 < s2) \<and> (ngx_memn2cmp s1 s2 (length s1) (length s2) = 0 \<longleftrightarrow> s1 = s2)"
proof -
  let ?n = "min (length s1) (length s2)"
  let ?m = "ngx_memcmp s1 s2 ?n"
  have m: "?m < 0 \<longleftrightarrow> take ?n s1 < take ?n s2" "?m = 0 \<longleftrightarrow> take ?n s1 = take ?n s2"
    using memcmp_lex[of "take ?n s1" "take ?n s2" ?n] memcmp_prefix[of ?n s1 s2] by simp_all
  have e: "ngx_memn2cmp s1 s2 (length s1) (length s2) =
      (if ?m \<noteq> 0 \<or> length s1 = length s2 then ?m else if length s1 \<le> length s2 then -1 else 1)"
    by (simp add: ngx_memn2cmp_def Let_def min_def)
  show ?thesis
  proof (cases "take ?n s1 = take ?n s2")
    case True
    then have "?m = 0" using m(2) by blast
    consider "length s1 = length s2" | "length s1 < length s2" | "length s2 < length s1" by linarith
    then show ?thesis
    proof cases
      case 1
      then show ?thesis using e \<open>?m = 0\<close> True by simp
    next
      case 2
      then show ?thesis using e \<open>?m = 0\<close> True take_less[of ?n s1 s2] by (auto simp: min_def)
    next
      case 3
      then have "s2 < s1" using True take_less[of ?n s2 s1] by (simp add: min_def)
      then show ?thesis using e \<open>?m = 0\<close> 3 by auto
    qed
  next
    case False
    then have ne: "s1 \<noteq> s2" "?m \<noteq> 0" using m(2) by blast+
    have len: "length (take ?n s1) = length (take ?n s2)" by simp
    have "take ?n s1 < take ?n s2 \<longleftrightarrow> s1 < s2"
    proof
      assume "s1 < s2"
      then have "\<not> s2 < s1" by (rule order_less_not_sym)
      then have "\<not> take ?n s2 < take ?n s1" using take_less_mono[OF len[symmetric]] by blast
      then show "take ?n s1 < take ?n s2" using False by (meson linorder_neqE)
    qed (rule take_less_mono[OF len])
    moreover have "ngx_memn2cmp s1 s2 (length s1) (length s2) = ?m" unfolding e using ne(2) by (simp only: simp_thms if_True)
    ultimately show ?thesis using m(1) ne by (simp only: simp_thms)
  qed
qed

text \<open>
  A node carries the octets of its name and the length that is stored in a narrow field; the
  order looks at as many octets as that field says, which are all of them when the length fits.
\<close>

definition name_below :: "(addr \<Rightarrow> bytes) \<Rightarrow> (addr \<Rightarrow> nat) \<Rightarrow> rb_heap \<Rightarrow> addr \<Rightarrow> addr \<Rightarrow> bool" where
  "name_below data len h node temp =
    (if rb_key (h node) < rb_key (h temp) then True
     else if rb_key (h temp) < rb_key (h node) then False
     else ngx_memn2cmp (data node) (data temp) (len node) (len temp) < 0)"

definition name_look :: "(addr \<Rightarrow> bytes) \<Rightarrow> (addr \<Rightarrow> nat) \<Rightarrow> u64 \<times> bytes \<Rightarrow> rb_heap \<Rightarrow> addr \<Rightarrow> int" where
  "name_look data len = (\<lambda>(hash, key) h node.
    if hash < rb_key (h node) then - 1
    else if rb_key (h node) < hash then 1
    else ngx_memn2cmp key (data node) (length key) (len node))"

definition name_rank :: "(addr \<Rightarrow> bytes) \<Rightarrow> rb_heap \<Rightarrow> addr \<Rightarrow> u64 \<times> bytes" where
  "name_rank data h a = (rb_key (h a), data a)"

definition names_fit :: "(addr \<Rightarrow> bytes) \<Rightarrow> (addr \<Rightarrow> nat) \<Rightarrow> rb_heap \<Rightarrow> addr set \<Rightarrow> bool" where
  "names_fit data len h S \<longleftrightarrow> (\<forall>a \<in> S. len a = length (data a))"

interpretation name_order: search_order "name_below data len" "name_rank data" "names_fit data len" "name_look data len" "\<lambda>k. True"
  for data len
proof (unfold_locales, goal_cases)
  case (1 h S a b)
  then show ?case using memn2cmp_lex[of "data a" "data b"] by (auto simp: name_below_def name_rank_def names_fit_def)
next
  case (2 k h S a)
  then show ?case using memn2cmp_lex[of "snd k" "data a"] by (cases k) (auto simp: name_look_def name_rank_def names_fit_def)
next
  case (3 k h S a)
  then show ?case using memn2cmp_lex[of "snd k" "data a"] by (cases k) (auto simp: name_look_def name_rank_def names_fit_def)
qed

section \<open>Trees of named nodes\<close>

text \<open>The tree of a zone: in the order of hash and name, and no two nodes with the same.\<close>

definition named_tree :: "(addr \<Rightarrow> bytes) \<Rightarrow> (addr \<Rightarrow> nat) \<Rightarrow> addr \<Rightarrow> addr \<Rightarrow> rb_heap \<Rightarrow> addr list \<Rightarrow> bool" where
  "named_tree data len s root h xs \<longleftrightarrow> rbt h s root xs \<and> sorted (map (name_rank data h) xs) \<and>
     inj_on (name_rank data h) (set xs) \<and> names_fit data len h (set xs) \<and> NULL \<notin> set xs"

lemma named_empty: "\<not> rb_red (h s) \<Longrightarrow> named_tree data len s s h []"
  by (auto simp: named_tree_def rbt_def tree_at_def place_iff names_fit_def intro!: exI[of _ Leaf])

lemma named_root: "named_tree data len s root h xs \<Longrightarrow> (root = s) = (xs = [])"
  using rbt_root[of h s root xs] by (auto simp: named_tree_def)

lemma named_special: "named_tree data len s root h xs \<Longrightarrow> a \<in> set xs \<Longrightarrow> a \<noteq> s \<and> a \<noteq> NULL"
  unfolding named_tree_def by (metis rbt_distinct)

lemma named_lookup:
  assumes "named_tree data len s root h xs"
  shows "\<exists>r. rb_search (name_look data len (hash, key)) h s root = Some r \<and>
     (r \<in> set xs \<and> rb_key (h r) = hash \<and> data r = key \<or> r = NULL \<and> (\<forall>a \<in> set xs. \<not> (rb_key (h a) = hash \<and> data a = key)))"
proof -
  have "rbt h s root xs" "sorted (map (name_rank data h) xs)" "names_fit data len h (set xs)"
    using assms by (simp_all add: named_tree_def)
  from name_order.rbtree_search[OF this TrueI, of "(hash, key)"] obtain r where
    "rb_search (name_look data len (hash, key)) h s root = Some r"
    "r \<in> set xs \<and> name_rank data h r = (hash, key) \<or> r = NULL \<and> (hash, key) \<notin> name_rank data h ` set xs" by auto
  then show ?thesis by (intro exI[of _ r]) (force simp: name_rank_def)
qed

lemma named_cong:
  assumes "\<forall>a \<in> set xs. rb_key (h' a) = rb_key (h a) \<and> data' a = data a \<and> len' a = len a"
  shows "sorted (map (name_rank data' h') xs) = sorted (map (name_rank data h) xs)"
    and "inj_on (name_rank data' h') (set xs) = inj_on (name_rank data h) (set xs)"
    and "names_fit data' len' h' (set xs) = names_fit data len h (set xs)"
proof -
  have r: "name_rank data' h' a = name_rank data h a" if "a \<in> set xs" for a using assms that by (simp add: name_rank_def)
  then have "map (name_rank data' h') xs = map (name_rank data h) xs" by simp
  then show "sorted (map (name_rank data' h') xs) = sorted (map (name_rank data h) xs)" by (simp only:)
  show "inj_on (name_rank data' h') (set xs) = inj_on (name_rank data h) (set xs)" using r by (auto simp: inj_on_def)
  show "names_fit data' len' h' (set xs) = names_fit data len h (set xs)" using assms by (simp add: names_fit_def)
qed

lemma named_insert:
  assumes "named_tree data len s root h xs" and "n \<notin> set xs" and "n \<noteq> s" and "n \<noteq> NULL"
    and "data' n = key" and "len' n = length key"
    and "\<And>a. a \<in> set xs \<Longrightarrow> data' a = data a \<and> len' a = len a"
    and "\<And>a. a \<in> set xs \<Longrightarrow> \<not> (rb_key (h a) = hash \<and> data a = key)"
  shows "\<exists>root' h' ys. ngx_rbtree_insert (rb_insert_loop (name_below data' len')) s n (root, set_key n hash h) = Some (root', h') \<and>
     named_tree data' len' s root' h' ys \<and> set ys = insert n (set xs) \<and>
     (\<forall>a. rb_key (h' a) = (if a = n then hash else rb_key (h a)))"
proof -
  let ?h = "set_key n hash h"
  have eq: "\<forall>a \<in> set xs. rb_key (?h a) = rb_key (h a) \<and> data' a = data a \<and> len' a = len a"
    using assms(2,7) by auto
  note cong = named_cong[OF eq]
  have r: "rbt ?h s root xs" using assms(1) by (simp add: named_tree_def)
  have so: "sorted (map (name_rank data' ?h) xs)" and inj: "inj_on (name_rank data' ?h) (set xs)"
    and fit: "names_fit data' len' ?h (set xs)"
    using assms(1) unfolding cong by (simp_all add: named_tree_def)
  have "names_fit data' len' ?h (insert n (set xs))" using fit assms(5,6) by (simp add: names_fit_def)
  from name_order.rbtree_insert[OF r so assms(2,3) this] obtain root' h' us vs where
    i: "ngx_rbtree_insert (rb_insert_loop (name_below data' len')) s n (root, ?h) = Some (root', h')" "xs = us @ vs"
      "rbt h' s root' (us @ n # vs)" "\<forall>a \<in> set us. name_rank data' ?h a \<le> name_rank data' ?h n"
      "\<forall>a \<in> set vs. name_rank data' ?h n < name_rank data' ?h a" "touches (insert n (set xs)) ?h h'" by auto
  have k: "rb_key (h' a) = rb_key (?h a)" for a using i(6) by (simp add: touches_def)
  then have rank: "name_rank data' h' = name_rank data' ?h" by (simp add: name_rank_def fun_eq_iff)
  have "\<forall>a \<in> set us. \<forall>b \<in> insert n (set vs). name_rank data' ?h a \<le> name_rank data' ?h b"
    using i(4) so by (auto simp: i(2) sorted_append)
  then have "sorted (map (name_rank data' h') (us @ n # vs))"
    unfolding rank using so i(5) by (auto simp: i(2) sorted_append less_imp_le)
  moreover have "name_rank data' ?h n \<notin> name_rank data' ?h ` set xs"
  proof
    assume "name_rank data' ?h n \<in> name_rank data' ?h ` set xs"
    then obtain a where "a \<in> set xs" "name_rank data' ?h n = name_rank data' ?h a" by auto
    then show False using assms(5) assms(8)[of a] eq by (auto simp: name_rank_def)
  qed
  then have "inj_on (name_rank data' h') (set (us @ n # vs))"
    using inj assms(2) unfolding rank i(2) by (simp add: Un_commute)
  moreover have "names_fit data' len' h' (set (us @ n # vs))"
    using fit assms(5,6) by (auto simp: names_fit_def i(2))
  ultimately have "named_tree data' len' s root' h' (us @ n # vs)"
    using i(2,3) assms(1,4) by (simp add: named_tree_def)
  then show ?thesis using i(1,2) k by (intro exI[of _ root'] exI[of _ h'] exI[of _ "us @ n # vs"]) simp
qed

lemma named_delete:
  assumes "named_tree data len s root h xs" and "n \<in> set xs"
  shows "\<exists>root' h'. ngx_rbtree_delete s n (root, h) = Some (root', h') \<and> named_tree data len s root' h' (remove1 n xs) \<and>
     set (remove1 n xs) = set xs - {n} \<and> (\<forall>a. a \<noteq> n \<longrightarrow> rb_key (h' a) = rb_key (h a))"
proof -
  have r: "rbt h s root xs" using assms(1) by (simp add: named_tree_def)
  from rbtree_delete[OF this assms(2)] obtain root' h' where
    d: "ngx_rbtree_delete s n (root, h) = Some (root', h')" "rbt h' s root' (remove1 n xs)"
      "\<forall>a. a \<noteq> n \<longrightarrow> rb_key (h' a) = rb_key (h a)" by (auto simp: removed_ok_def removes_def)
  have st: "set (remove1 n xs) = set xs - {n}" using rbt_distinct[OF r] by (simp add: set_remove1_eq)
  have "\<forall>a \<in> set (remove1 n xs). rb_key (h' a) = rb_key (h a) \<and> data a = data a \<and> len a = len a"
    using d(3) unfolding st by simp
  note cong = named_cong[OF this]
  have "named_tree data len s root' h' (remove1 n xs)"
    unfolding named_tree_def cong using assms(1) d(2) st
    by (auto simp: named_tree_def names_fit_def sorted_map_remove1 intro: inj_on_subset)
  then show ?thesis using d st by blast
qed

section \<open>The tree of strings\<close>

definition str_below :: "(addr \<Rightarrow> bytes) \<Rightarrow> rb_heap \<Rightarrow> addr \<Rightarrow> addr \<Rightarrow> bool" where
  "str_below str h node temp =
    (if rb_key (h node) \<noteq> rb_key (h temp) then rb_key (h node) < rb_key (h temp)
     else if length (str node) \<noteq> length (str temp) then length (str node) < length (str temp)
     else ngx_memcmp (str node) (str temp) (length (str node)) < 0)"

definition str_look :: "(addr \<Rightarrow> bytes) \<Rightarrow> u64 \<times> nat \<times> bytes \<Rightarrow> rb_heap \<Rightarrow> addr \<Rightarrow> int" where
  "str_look str = (\<lambda>(hash, n, val) h node.
    if hash \<noteq> rb_key (h node) then (if hash < rb_key (h node) then - 1 else 1)
    else if n \<noteq> length (str node) then (if n < length (str node) then - 1 else 1)
    else ngx_memcmp val (str node) n)"

definition ngx_str_rbtree_insert_value :: "(addr \<Rightarrow> bytes) \<Rightarrow> addr \<Rightarrow> addr \<Rightarrow> addr \<Rightarrow> rb_heap \<Rightarrow> rb_heap option" where
  "ngx_str_rbtree_insert_value str = rb_insert_loop (str_below str)"

definition ngx_str_rbtree_lookup :: "(addr \<Rightarrow> bytes) \<Rightarrow> rb_heap \<Rightarrow> addr \<Rightarrow> addr \<Rightarrow> bytes \<Rightarrow> u64 \<Rightarrow> addr option" where
  "ngx_str_rbtree_lookup str h sentinel root val hash = rb_search (str_look str (hash, length val, val)) h sentinel root"

definition str_rank :: "(addr \<Rightarrow> bytes) \<Rightarrow> rb_heap \<Rightarrow> addr \<Rightarrow> u64 \<times> nat \<times> bytes" where
  "str_rank str h a = (rb_key (h a), length (str a), str a)"

interpretation str_order: search_order "str_below str" "str_rank str" "\<lambda>h S. True" "str_look str" "\<lambda>(hash, n, val). n = length val"
  for str
proof (unfold_locales, goal_cases)
  case (1 h S a b)
  then show ?case using memcmp_lex_same[of "str a" "str b"] by (auto simp: str_below_def str_rank_def)
next
  case (2 k h S a)
  then show ?case using memcmp_lex_same[of "snd (snd k)" "str a"] by (cases k) (auto simp: str_look_def str_rank_def)
next
  case (3 k h S a)
  then show ?case using memcmp_lex_same[of "snd (snd k)" "str a"] by (cases k) (auto simp: str_look_def str_rank_def)
qed

text \<open>A tree of strings is a red-black tree in the order of hash, length and octets.\<close>

definition str_tree :: "(addr \<Rightarrow> bytes) \<Rightarrow> addr \<Rightarrow> addr \<times> rb_heap \<Rightarrow> addr list \<Rightarrow> bool" where
  "str_tree str s tree xs \<longleftrightarrow> (case tree of (root, h) \<Rightarrow> rbt h s root xs \<and> sorted (map (str_rank str h) xs) \<and> NULL \<notin> set xs)"

lemma str_insert:
  assumes "str_tree str s (root, h) xs" and "n \<notin> set xs" and "n \<noteq> s" and "n \<noteq> NULL"
  shows "\<exists>tree ys. ngx_rbtree_insert (ngx_str_rbtree_insert_value str) s n (root, h) = Some tree \<and> str_tree str s tree ys \<and>
     set ys = insert n (set xs) \<and> (\<forall>a. rb_key (snd tree a) = rb_key (h a))"
proof -
  have r: "rbt h s root xs" "sorted (map (str_rank str h) xs)" using assms(1) by (simp_all add: str_tree_def)
  from str_order.rbtree_insert[OF r assms(2,3) TrueI] obtain root' h' us vs where
    i: "ngx_rbtree_insert (rb_insert_loop (str_below str)) s n (root, h) = Some (root', h')" "xs = us @ vs"
      "rbt h' s root' (us @ n # vs)" "\<forall>a \<in> set us. str_rank str h a \<le> str_rank str h n"
      "\<forall>a \<in> set vs. str_rank str h n < str_rank str h a" "touches (insert n (set xs)) h h'" by auto
  have k: "rb_key (h' a) = rb_key (h a)" for a using i(6) by (simp add: touches_def)
  then have "str_rank str h' = str_rank str h" by (simp add: str_rank_def fun_eq_iff)
  moreover have "\<forall>a \<in> set us. \<forall>b \<in> insert n (set vs). str_rank str h a \<le> str_rank str h b"
    using i(4,5) r(2) by (auto simp: i(2) sorted_append)
  ultimately have "sorted (map (str_rank str h') (us @ n # vs))"
    using r(2) i(5) by (auto simp: i(2) sorted_append less_imp_le)
  then have "str_tree str s (root', h') (us @ n # vs)" using i(2,3) assms(1,4) by (simp add: str_tree_def)
  then show ?thesis using i(1,2) k unfolding ngx_str_rbtree_insert_value_def
    by (intro exI[of _ "(root', h')"] exI[of _ "us @ n # vs"]) simp
qed

text \<open>The tree of strings is a map: in a tree that is ordered by hash, length and octets,
  \<^verbatim>\<open>ngx_str_rbtree_lookup\<close> returns a node with the given hash and string when there is one, and the null pointer exactly
  when there is none, and the insertion of a node keeps this and adds just that node.\<close>

theorem str_rbtree_finds:
  assumes "str_tree str s (root, h) xs" and "n \<notin> set xs" and "n \<noteq> s" and "n \<noteq> NULL"
  shows "(\<exists>r. ngx_str_rbtree_lookup str h s root val hash = Some r \<and>
       (r \<in> set xs \<and> rb_key (h r) = hash \<and> str r = val \<or> r = NULL \<and> (\<forall>a \<in> set xs. \<not> (rb_key (h a) = hash \<and> str a = val)))) \<and>
     (\<exists>root' h' ys. ngx_rbtree_insert (ngx_str_rbtree_insert_value str) s n (root, h) = Some (root', h') \<and>
       str_tree str s (root', h') ys \<and> set ys = insert n (set xs) \<and> (\<forall>a. rb_key (h' a) = rb_key (h a)))"
proof
  have r: "rbt h s root xs" "sorted (map (str_rank str h) xs)" using assms(1) by (simp_all add: str_tree_def)
  have "case (hash, length val, val) of (hash, n, val) \<Rightarrow> n = length val" by simp
  from str_order.rbtree_search[OF r TrueI this] obtain a where
    a: "ngx_str_rbtree_lookup str h s root val hash = Some a"
      "a \<in> set xs \<and> str_rank str h a = (hash, length val, val) \<or> a = NULL \<and> (hash, length val, val) \<notin> str_rank str h ` set xs"
    by (auto simp: ngx_str_rbtree_lookup_def)
  then show "\<exists>r. ngx_str_rbtree_lookup str h s root val hash = Some r \<and>
      (r \<in> set xs \<and> rb_key (h r) = hash \<and> str r = val \<or> r = NULL \<and> (\<forall>a \<in> set xs. \<not> (rb_key (h a) = hash \<and> str a = val)))"
    by (intro exI[of _ a]) (force simp: str_rank_def)
  show "\<exists>root' h' ys. ngx_rbtree_insert (ngx_str_rbtree_insert_value str) s n (root, h) = Some (root', h') \<and>
      str_tree str s (root', h') ys \<and> set ys = insert n (set xs) \<and> (\<forall>a. rb_key (h' a) = rb_key (h a))"
    using str_insert[OF assms] by (metis snd_conv surj_pair)
qed

lemma str_rbtree_finds_witness:
  "\<exists>r. ngx_str_rbtree_lookup (\<lambda>a. if a = 2 then [97] else []) demo_nodes 9 1 [97] 20 = Some r \<and> r = 2"
proof -
  let ?str = "\<lambda>a::addr. if a = 2 then [97] else [] :: bytes"
  have "str_tree ?str 9 (1, demo_nodes) [1, 2]"
    using demo_rbt by (simp add: str_tree_def str_rank_def demo_nodes_def)
  from str_rbtree_finds[OF this, of 3 "[97]" 20] obtain r where
    "ngx_str_rbtree_lookup ?str demo_nodes 9 1 [97] 20 = Some r"
    "r \<in> set [1, 2] \<and> rb_key (demo_nodes r) = 20 \<and> ?str r = [97] \<or> r = NULL \<and> (\<forall>a \<in> set [1, 2]. \<not> (rb_key (demo_nodes a) = 20 \<and> ?str a = [97]))"
    by auto
  then show ?thesis by (auto simp: demo_nodes_def)
qed

end
