(* ===== verification/NgxCrc32.thy ===== *)
theory NgxCrc32
  imports Prelude
begin

text \<open>
  The checksums and hashes of \<^verbatim>\<open>src/core/ngx_crc32.c\<close>, \<^verbatim>\<open>ngx_crc32.h\<close>, \<^verbatim>\<open>ngx_crc.h\<close> and \<^verbatim>\<open>ngx_murmurhash.c\<close>, with which
  the zones, the hash balancer and the resolver place their keys. The table-driven routines are compared with the
  bit-serial definition of CRC-32.
\<close>

unbundle bit_operations_syntax

section \<open>The code\<close>

definition ngx_crc32_table16 :: "u32 list" where
  "ngx_crc32_table16 =
    [0x00000000, 0x1db71064, 0x3b6e20c8, 0x26d930ac, 0x76dc4190, 0x6b6b51f4, 0x4db26158, 0x5005713c,
     0xedb88320, 0xf00f9344, 0xd6d6a3e8, 0xcb61b38c, 0x9b64c2b0, 0x86d3d2d4, 0xa00ae278, 0xbdbdf21c]"

definition ngx_crc32_table256 :: "u32 list" where
  "ngx_crc32_table256 =
    [0x00000000, 0x77073096, 0xee0e612c, 0x990951ba, 0x076dc419, 0x706af48f, 0xe963a535, 0x9e6495a3,
     0x0edb8832, 0x79dcb8a4, 0xe0d5e91e, 0x97d2d988, 0x09b64c2b, 0x7eb17cbd, 0xe7b82d07, 0x90bf1d91,
     0x1db71064, 0x6ab020f2, 0xf3b97148, 0x84be41de, 0x1adad47d, 0x6ddde4eb, 0xf4d4b551, 0x83d385c7,
     0x136c9856, 0x646ba8c0, 0xfd62f97a, 0x8a65c9ec, 0x14015c4f, 0x63066cd9, 0xfa0f3d63, 0x8d080df5,
     0x3b6e20c8, 0x4c69105e, 0xd56041e4, 0xa2677172, 0x3c03e4d1, 0x4b04d447, 0xd20d85fd, 0xa50ab56b,
     0x35b5a8fa, 0x42b2986c, 0xdbbbc9d6, 0xacbcf940, 0x32d86ce3, 0x45df5c75, 0xdcd60dcf, 0xabd13d59,
     0x26d930ac, 0x51de003a, 0xc8d75180, 0xbfd06116, 0x21b4f4b5, 0x56b3c423, 0xcfba9599, 0xb8bda50f,
     0x2802b89e, 0x5f058808, 0xc60cd9b2, 0xb10be924, 0x2f6f7c87, 0x58684c11, 0xc1611dab, 0xb6662d3d,
     0x76dc4190, 0x01db7106, 0x98d220bc, 0xefd5102a, 0x71b18589, 0x06b6b51f, 0x9fbfe4a5, 0xe8b8d433,
     0x7807c9a2, 0x0f00f934, 0x9609a88e, 0xe10e9818, 0x7f6a0dbb, 0x086d3d2d, 0x91646c97, 0xe6635c01,
     0x6b6b51f4, 0x1c6c6162, 0x856530d8, 0xf262004e, 0x6c0695ed, 0x1b01a57b, 0x8208f4c1, 0xf50fc457,
     0x65b0d9c6, 0x12b7e950, 0x8bbeb8ea, 0xfcb9887c, 0x62dd1ddf, 0x15da2d49, 0x8cd37cf3, 0xfbd44c65,
     0x4db26158, 0x3ab551ce, 0xa3bc0074, 0xd4bb30e2, 0x4adfa541, 0x3dd895d7, 0xa4d1c46d, 0xd3d6f4fb,
     0x4369e96a, 0x346ed9fc, 0xad678846, 0xda60b8d0, 0x44042d73, 0x33031de5, 0xaa0a4c5f, 0xdd0d7cc9,
     0x5005713c, 0x270241aa, 0xbe0b1010, 0xc90c2086, 0x5768b525, 0x206f85b3, 0xb966d409, 0xce61e49f,
     0x5edef90e, 0x29d9c998, 0xb0d09822, 0xc7d7a8b4, 0x59b33d17, 0x2eb40d81, 0xb7bd5c3b, 0xc0ba6cad,
     0xedb88320, 0x9abfb3b6, 0x03b6e20c, 0x74b1d29a, 0xead54739, 0x9dd277af, 0x04db2615, 0x73dc1683,
     0xe3630b12, 0x94643b84, 0x0d6d6a3e, 0x7a6a5aa8, 0xe40ecf0b, 0x9309ff9d, 0x0a00ae27, 0x7d079eb1,
     0xf00f9344, 0x8708a3d2, 0x1e01f268, 0x6906c2fe, 0xf762575d, 0x806567cb, 0x196c3671, 0x6e6b06e7,
     0xfed41b76, 0x89d32be0, 0x10da7a5a, 0x67dd4acc, 0xf9b9df6f, 0x8ebeeff9, 0x17b7be43, 0x60b08ed5,
     0xd6d6a3e8, 0xa1d1937e, 0x38d8c2c4, 0x4fdff252, 0xd1bb67f1, 0xa6bc5767, 0x3fb506dd, 0x48b2364b,
     0xd80d2bda, 0xaf0a1b4c, 0x36034af6, 0x41047a60, 0xdf60efc3, 0xa867df55, 0x316e8eef, 0x4669be79,
     0xcb61b38c, 0xbc66831a, 0x256fd2a0, 0x5268e236, 0xcc0c7795, 0xbb0b4703, 0x220216b9, 0x5505262f,
     0xc5ba3bbe, 0xb2bd0b28, 0x2bb45a92, 0x5cb36a04, 0xc2d7ffa7, 0xb5d0cf31, 0x2cd99e8b, 0x5bdeae1d,
     0x9b64c2b0, 0xec63f226, 0x756aa39c, 0x026d930a, 0x9c0906a9, 0xeb0e363f, 0x72076785, 0x05005713,
     0x95bf4a82, 0xe2b87a14, 0x7bb12bae, 0x0cb61b38, 0x92d28e9b, 0xe5d5be0d, 0x7cdcefb7, 0x0bdbdf21,
     0x86d3d2d4, 0xf1d4e242, 0x68ddb3f8, 0x1fda836e, 0x81be16cd, 0xf6b9265b, 0x6fb077e1, 0x18b74777,
     0x88085ae6, 0xff0f6a70, 0x66063bca, 0x11010b5c, 0x8f659eff, 0xf862ae69, 0x616bffd3, 0x166ccf45,
     0xa00ae278, 0xd70dd2ee, 0x4e048354, 0x3903b3c2, 0xa7672661, 0xd06016f7, 0x4969474d, 0x3e6e77db,
     0xaed16a4a, 0xd9d65adc, 0x40df0b66, 0x37d83bf0, 0xa9bcae53, 0xdebb9ec5, 0x47b2cf7f, 0x30b5ffe9,
     0xbdbdf21c, 0xcabac28a, 0x53b39330, 0x24b4a3a6, 0xbad03605, 0xcdd70693, 0x54de5729, 0x23d967bf,
     0xb3667a2e, 0xc4614ab8, 0x5d681b02, 0x2a6f2b94, 0xb40bbe37, 0xc30c8ea1, 0x5a05df1b, 0x2d02ef8d]"

definition crc32_nibble :: "u32 \<Rightarrow> u_char \<Rightarrow> u32" where
  "crc32_nibble crc c = ngx_crc32_table16 ! unat ((crc XOR ucast c) AND 0xf) XOR drop_bit 4 crc"

fun crc32_short_loop :: "u32 \<Rightarrow> bytes \<Rightarrow> u32" where
  "crc32_short_loop crc [] = crc"
| "crc32_short_loop crc (c # p) = crc32_short_loop (crc32_nibble (crc32_nibble crc (c AND 0xf)) (drop_bit 4 c)) p"

definition ngx_crc32_short :: "bytes \<Rightarrow> u32" where
  "ngx_crc32_short p = crc32_short_loop 0xffffffff p XOR 0xffffffff"

fun ngx_crc32_update :: "u32 \<Rightarrow> bytes \<Rightarrow> u32" where
  "ngx_crc32_update crc [] = crc"
| "ngx_crc32_update crc (c # p) =
     ngx_crc32_update (ngx_crc32_table256 ! unat ((crc XOR ucast c) AND 0xff) XOR drop_bit 8 crc) p"

definition ngx_crc32_long :: "bytes \<Rightarrow> u32" where
  "ngx_crc32_long p = ngx_crc32_update 0xffffffff p XOR 0xffffffff"

section \<open>The bit-serial checksum\<close>

text \<open>One step of the division by the polynomial, least significant bit first, and the steps for an octet.\<close>

definition crc_bit :: "u32 \<Rightarrow> u32" where
  "crc_bit c = (if bit c 0 then 0xedb88320 XOR drop_bit 1 c else drop_bit 1 c)"

definition crc_octet :: "u32 \<Rightarrow> u_char \<Rightarrow> u32" where
  "crc_octet crc c = (crc_bit ^^ 8) (crc XOR ucast c)"

definition crc32 :: "bytes \<Rightarrow> u32" where
  "crc32 p = foldl crc_octet 0xffffffff p XOR 0xffffffff"

lemma crc_bit_xor: "crc_bit (x XOR y) = crc_bit x XOR crc_bit y"
proof -
  have "drop_bit 1 (x XOR y) = drop_bit 1 x XOR drop_bit 1 y" by (rule bit_eqI) (simp add: bit_simps)
  then show ?thesis unfolding crc_bit_def by (auto simp: bit_simps ac_simps)
qed

lemma crc_bits_xor: "(crc_bit ^^ n) (x XOR y) = (crc_bit ^^ n) x XOR (crc_bit ^^ n) y"
  by (induction n) (simp_all add: crc_bit_xor)

lemma crc_bits_shift: "(\<And>i. i < n \<Longrightarrow> \<not> bit c i) \<Longrightarrow> (crc_bit ^^ n) c = drop_bit n c"
proof (induction n arbitrary: c)
  case (Suc n)
  have "crc_bit c = drop_bit 1 c" using Suc.prems[of 0] by (simp add: crc_bit_def)
  then have "(crc_bit ^^ Suc n) c = (crc_bit ^^ n) (drop_bit 1 c)" by (simp add: funpow_swap1)
  also have "\<dots> = drop_bit n (drop_bit 1 c)" by (rule Suc.IH) (simp add: bit_simps Suc.prems)
  finally show ?case by (simp add: add.commute)
qed simp

text \<open>So \<open>n\<close> steps are one look into a table of the \<open>n\<close> low bits.\<close>

lemma crc_bits_split: "(crc_bit ^^ n) c = (crc_bit ^^ n) (c AND mask n) XOR drop_bit n c"
proof -
  have c: "c = (c AND mask n) XOR (c AND NOT (mask n))" by (rule bit_eqI) (auto simp: bit_simps)
  have "(crc_bit ^^ n) (c AND NOT (mask n)) = drop_bit n (c AND NOT (mask n))"
    by (rule crc_bits_shift) (simp add: bit_simps)
  also have "\<dots> = drop_bit n c" by (rule bit_eqI) (auto simp: bit_simps dest: bit_imp_le_length)
  finally show ?thesis by (subst c) (simp add: crc_bits_xor)
qed

lemma table16_entries: "list_all (\<lambda>n. ngx_crc32_table16 ! n = (crc_bit ^^ 4) (word_of_nat n)) [0..<16]"
  by code_simp

lemma nibble_less: "unat (c AND 0xf) < 16" for c :: "'a :: len word"
proof -
  have "c AND 0xf = take_bit 4 c" by (simp add: take_bit_eq_mask mask_eq_exp_minus_1)
  then show ?thesis using take_bit_nat_less_exp[of 4 "unat c"] by (simp add: unsigned_take_bit_eq)
qed

lemma table16: "ngx_crc32_table16 ! unat (c AND 0xf) = (crc_bit ^^ 4) (c AND 0xf)"
  using table16_entries nibble_less[of c] by (simp add: list_all_iff)

lemma table256_low: "n < 16 \<Longrightarrow> ngx_crc32_table256 ! n = (crc_bit ^^ 8) (word_of_nat n)"
proof -
  assume n: "n < 16"
  have e: "list_all (\<lambda>n. ngx_crc32_table256 ! n =
      ngx_crc32_table16 ! unat (ngx_crc32_table16 ! n AND 0xf) XOR drop_bit 4 (ngx_crc32_table16 ! n)) [0..<16]"
    by (simp add: ngx_crc32_table16_def ngx_crc32_table256_def upt_rec)
  have m: "0xf = (mask 4 :: u32)" by (simp add: mask_eq_exp_minus_1)
  have "(crc_bit ^^ (4 + 4)) (word_of_nat n) = (crc_bit ^^ 4) (ngx_crc32_table16 ! n)"
    using table16_entries n unfolding funpow_add by (simp add: list_all_iff)
  also have "\<dots> = ngx_crc32_table16 ! unat (ngx_crc32_table16 ! n AND 0xf) XOR drop_bit 4 (ngx_crc32_table16 ! n)"
    unfolding table16 unfolding m by (rule crc_bits_split)
  finally show ?thesis using e n by (simp add: list_all_iff)
qed

lemma table256_grid:
  "ngx_crc32_table256 = concat (map (\<lambda>h. map (\<lambda>l. h XOR l) (take 16 ngx_crc32_table256)) ngx_crc32_table16)"
  by (simp add: ngx_crc32_table256_def ngx_crc32_table16_def)

lemma nth_grid: "\<forall>x \<in> set xs. length (f x) = m \<Longrightarrow> i < length xs \<Longrightarrow> j < m \<Longrightarrow> concat (map f xs) ! (m * i + j) = f (xs ! i) ! j"
proof (induction xs arbitrary: i)
  case (Cons x xs)
  then show ?case by (cases i) (simp_all add: nth_append)
qed simp

lemma table256: "ngx_crc32_table256 ! unat (c AND 0xff) = (crc_bit ^^ 8) (c AND 0xff)"
proof -
  define hi lo where "hi = drop_bit 4 c AND 0xf" and "lo = c AND 0xf"
  have h: "unat hi < 16" "unat lo < 16" unfolding hi_def lo_def by (rule nibble_less)+
  have m: "0xf = (mask 4 :: u32)" "0xff = (mask 8 :: u32)" by (simp_all add: mask_eq_exp_minus_1)
  have c: "c AND 0xff = push_bit 4 hi XOR lo"
    unfolding hi_def lo_def m by (rule bit_eqI) (auto simp: bit_simps)
  have un: "unat (c AND 0xff) = 16 * unat hi + unat lo"
  proof -
    have "unat (c AND 0xff) = take_bit 8 (unat c)" unfolding m by (simp add: unsigned_take_bit_eq flip: take_bit_eq_mask)
    moreover have "unat hi = take_bit 4 (unat c div 16)" unfolding hi_def m
      by (simp add: unsigned_take_bit_eq unsigned_drop_bit_eq unat_div drop_bit_eq_div flip: take_bit_eq_mask)
    moreover have "unat lo = take_bit 4 (unat c)" unfolding lo_def m by (simp add: unsigned_take_bit_eq flip: take_bit_eq_mask)
    ultimately show ?thesis using mod_mult2_eq[of "unat c" 16 16] by (simp add: take_bit_eq_mod)
  qed
  have len: "length (take 16 ngx_crc32_table256) = 16" "length ngx_crc32_table16 = 16"
    by (simp_all add: ngx_crc32_table256_def ngx_crc32_table16_def)
  have lo: "ngx_crc32_table256 ! unat lo = (crc_bit ^^ 8) lo" using table256_low[OF h(2)] by simp
  have "(crc_bit ^^ 4) (push_bit 4 hi) = drop_bit 4 (push_bit 4 hi)" by (rule crc_bits_shift) (simp add: bit_simps)
  also have "\<dots> = hi" unfolding hi_def m by (rule bit_eqI) (auto simp: bit_simps)
  finally have "(crc_bit ^^ (4 + 4)) (push_bit 4 hi) = (crc_bit ^^ 4) hi" unfolding funpow_add by simp
  then have hi: "(crc_bit ^^ 8) (push_bit 4 hi) = ngx_crc32_table16 ! unat hi"
    using table16_entries h(1) by (simp add: list_all_iff)
  have "ngx_crc32_table256 ! (16 * unat hi + unat lo) = map (\<lambda>l. ngx_crc32_table16 ! unat hi XOR l) (take 16 ngx_crc32_table256) ! unat lo"
    by (subst table256_grid, rule nth_grid) (use h len in simp_all)
  also have "\<dots> = ngx_crc32_table16 ! unat hi XOR ngx_crc32_table256 ! unat lo" using h(2) len by simp
  finally show ?thesis unfolding un lo unfolding c crc_bits_xor hi by simp
qed

section \<open>The table-driven loops\<close>

lemma crc32_nibble: "drop_bit 4 (ucast d :: u32) = 0 \<Longrightarrow> crc32_nibble crc d = (crc_bit ^^ 4) (crc XOR ucast d)"
proof -
  assume d: "drop_bit 4 (ucast d :: u32) = 0"
  have "drop_bit 4 (crc XOR ucast d) = drop_bit 4 crc XOR drop_bit 4 (ucast d :: u32)" by (rule bit_eqI) (simp add: bit_simps)
  then have "drop_bit 4 (crc XOR ucast d) = drop_bit 4 crc" using d by simp
  moreover have "0xf = (mask 4 :: u32)" by (simp add: mask_eq_exp_minus_1)
  ultimately show ?thesis
    using crc_bits_split[of 4 "crc XOR ucast d"] unfolding crc32_nibble_def table16 by (simp only:)
qed

lemma crc32_octet_short: "crc32_nibble (crc32_nibble crc (c AND 0xf)) (drop_bit 4 c) = crc_octet crc c"
proof -
  have m: "0xf = (mask 4 :: u_char)" by (simp add: mask_eq_exp_minus_1)
  define lo hi :: u32 where "lo = ucast (c AND 0xf)" and "hi = ucast (drop_bit 4 c)"
  have "drop_bit 4 lo = 0" unfolding lo_def m by (rule bit_eqI) (auto simp: bit_simps)
  then have n1: "crc32_nibble y (c AND 0xf) = (crc_bit ^^ 4) (y XOR lo)" for y
    unfolding lo_def by (rule crc32_nibble)
  have "drop_bit 4 hi = 0" unfolding hi_def by (rule bit_eqI) (auto simp: bit_simps dest: bit_imp_le_length)
  then have n2: "crc32_nibble y (drop_bit 4 c) = (crc_bit ^^ 4) (y XOR hi)" for y
    unfolding hi_def by (rule crc32_nibble)
  have "(crc_bit ^^ 4) (push_bit 4 hi) = drop_bit 4 (push_bit 4 hi)" by (rule crc_bits_shift) (simp add: bit_simps)
  also have "\<dots> = hi" unfolding hi_def by (rule bit_eqI) (auto simp: bit_simps dest: bit_imp_le_length)
  finally have hi: "(crc_bit ^^ 4) (push_bit 4 hi) = hi" .
  have c: "lo XOR push_bit 4 hi = ucast c"
    unfolding lo_def hi_def m by (rule bit_eqI) (auto simp: bit_simps dest: bit_imp_le_length)
  have "(crc_bit ^^ (4 + 4)) (crc XOR ucast c) = (crc_bit ^^ 4) ((crc_bit ^^ 4) ((crc XOR lo) XOR push_bit 4 hi))"
    unfolding funpow_add c[symmetric] by (simp add: ac_simps)
  also have "\<dots> = (crc_bit ^^ 4) ((crc_bit ^^ 4) (crc XOR lo) XOR hi)" by (simp only: crc_bits_xor[of 4 "crc XOR lo"] hi)
  finally show ?thesis unfolding n1 n2 crc_octet_def by simp
qed

lemma crc32_octet_long: "ngx_crc32_table256 ! unat ((crc XOR ucast c) AND 0xff) XOR drop_bit 8 crc = crc_octet crc c"
proof -
  have "drop_bit 8 (crc XOR ucast c) = drop_bit 8 crc" by (rule bit_eqI) (auto simp: bit_simps dest: bit_imp_le_length)
  moreover have "0xff = (mask 8 :: u32)" by (simp add: mask_eq_exp_minus_1)
  ultimately show ?thesis using crc_bits_split[of 8 "crc XOR ucast c"] unfolding crc_octet_def table256 by (simp only:)
qed

lemma crc32_short_loop: "crc32_short_loop crc p = foldl crc_octet crc p"
  by (induction p arbitrary: crc) (simp_all add: crc32_octet_short)

lemma crc32_update: "ngx_crc32_update crc p = foldl crc_octet crc p"
  by (induction p arbitrary: crc) (simp_all add: crc32_octet_long)

text \<open>C32: The table-driven checksums compute CRC-32: \<^verbatim>\<open>ngx_crc32_short\<close> with its table of 16 words and \<^verbatim>\<open>ngx_crc32_long\<close> with
  the table of 256 words both give the bit-serial checksum, so that keys placed with one are found with the other, and
  feeding the data to \<^verbatim>\<open>ngx_crc32_update\<close> in pieces gives the same as feeding it at once.\<close>

theorem crc32_tables_exact:
  "ngx_crc32_short p = crc32 p \<and> ngx_crc32_long p = crc32 p \<and>
   ngx_crc32_update (ngx_crc32_update crc p) q = ngx_crc32_update crc (p @ q)"
  by (simp add: ngx_crc32_short_def ngx_crc32_long_def crc32_def crc32_short_loop crc32_update)

section \<open>The other hashes\<close>

text \<open>The 32-bit sum with rotation of \<^verbatim>\<open>ngx_crc.h\<close>.\<close>

fun crc_loop :: "u32 \<Rightarrow> bytes \<Rightarrow> u32" where
  "crc_loop s [] = s"
| "crc_loop s (c # data) = crc_loop ((drop_bit 1 s OR push_bit 31 s) + ucast c) data"

definition ngx_crc :: "bytes \<Rightarrow> u32" where
  "ngx_crc data = crc_loop 0 data"

definition murmur_mix :: "u32 \<Rightarrow> u_char \<Rightarrow> u_char \<Rightarrow> u_char \<Rightarrow> u_char \<Rightarrow> u32" where
  "murmur_mix h d0 d1 d2 d3 =
    (let k = ucast d0 OR push_bit 8 (ucast d1) OR push_bit 16 (ucast d2) OR push_bit 24 (ucast d3);
         k = k * 0x5bd1e995;
         k = k XOR drop_bit 24 k;
         k = k * 0x5bd1e995
     in (h * 0x5bd1e995) XOR k)"

fun murmur_loop :: "u32 \<Rightarrow> bytes \<Rightarrow> u32" where
  "murmur_loop h (d0 # d1 # d2 # d3 # data) = murmur_loop (murmur_mix h d0 d1 d2 d3) data"
| "murmur_loop h [d0, d1, d2] = (h XOR push_bit 16 (ucast d2) XOR push_bit 8 (ucast d1) XOR ucast d0) * 0x5bd1e995"
| "murmur_loop h [d0, d1] = (h XOR push_bit 8 (ucast d1) XOR ucast d0) * 0x5bd1e995"
| "murmur_loop h [d0] = (h XOR ucast d0) * 0x5bd1e995"
| "murmur_loop h [] = h"

definition ngx_murmur_hash2 :: "bytes \<Rightarrow> u32" where
  "ngx_murmur_hash2 data =
    (let h = murmur_loop (word_of_nat (length data)) data;
         h = h XOR drop_bit 13 h;
         h = h * 0x5bd1e995
     in h XOR drop_bit 15 h)"

end
