(* ===== verification/LimitReq.thy ===== *)
theory LimitReq
  imports RbKeyed NgxCrc32
begin

text \<open>
  The limit of the request rate, \<^verbatim>\<open>src/http/modules/ngx_http_limit_req_module.c\<close>. A shared zone holds a leaky bucket per key:
  a red-black tree by the checksum of the key and the key, and a queue of the nodes, the last used first. A request
  goes through the limits of its location; all but the last one only lock the node, and the
  locked nodes are charged when the last limit has let the request pass. The allocator of the zone and the result of
  arming the read event are parameters.
\<close>

section \<open>The state\<close>

record lr_node =
  lr_len :: nat
  lr_last :: u64
  lr_excess :: u64
  lr_count :: u64
  lr_data :: bytes

record lr_zone =
  lz_root :: addr
  lz_sentinel :: addr
  lz_heap :: rb_heap
  lz_queue :: "addr list"
  lz_node :: "addr \<Rightarrow> lr_node"

record lr_ctx =
  lc_sh :: lr_zone
  lc_rate :: u64
  lc_node :: addr

record lr_limit =
  ll_ctx :: lr_ctx
  ll_burst :: u64
  ll_delay :: u64

datatype lr_status = LR_UNSET | LR_PASSED | LR_DELAYED | LR_REJECTED | LR_DELAYED_DRY_RUN | LR_REJECTED_DRY_RUN

datatype lr_result = LR_declined | LR_internal_error | LR_reject | LR_again u64

definition set_lr :: "addr \<Rightarrow> lr_node \<Rightarrow> lr_zone \<Rightarrow> lr_zone" where
  "set_lr a lr z = z\<lparr>lz_node := (lz_node z)(a := lr)\<rparr>"

definition zone_names :: "(addr \<Rightarrow> lr_node) \<Rightarrow> addr \<Rightarrow> bytes" where
  "zone_names nodes a = lr_data (nodes a)"

definition zone_lens :: "(addr \<Rightarrow> lr_node) \<Rightarrow> addr \<Rightarrow> nat" where
  "zone_lens nodes a = lr_len (nodes a)"

section \<open>The bucket\<close>

text \<open>The time since the last change, where a clock that went back counts as none, or as a millisecond when it went far back.\<close>

definition lr_elapsed :: "u64 \<Rightarrow> u64 \<Rightarrow> u64" where
  "lr_elapsed now last_ms =
    (let ms = now - last_ms in if sint ms < - 60000 then 1 else if sint ms < 0 then 0 else ms)"

definition lr_excess_now :: "u64 \<Rightarrow> lr_node \<Rightarrow> u64 \<Rightarrow> u64" where
  "lr_excess_now rate lr ms =
    (let excess = lr_excess lr - rate * ms div 1000 + 1000 in if sint excess < 0 then 0 else excess)"

definition lr_charge :: "u64 \<Rightarrow> u64 \<Rightarrow> u64 \<Rightarrow> lr_node \<Rightarrow> lr_node" where
  "lr_charge excess ms now lr = lr\<lparr>lr_excess := excess, lr_last := (if ms \<noteq> 0 then now else lr_last lr)\<rparr>"

section \<open>The zone\<close>

definition ngx_http_limit_req_rbtree_insert_value :: "(addr \<Rightarrow> lr_node) \<Rightarrow> addr \<Rightarrow> addr \<Rightarrow> addr \<Rightarrow> rb_heap \<Rightarrow> rb_heap option" where
  "ngx_http_limit_req_rbtree_insert_value nodes = rb_insert_loop (name_below (zone_names nodes) (zone_lens nodes))"

definition lr_remove :: "addr \<Rightarrow> lr_ctx \<Rightarrow> lr_ctx option" where
  "lr_remove a ctx =
    (let z = lc_sh ctx in
     case ngx_rbtree_delete (lz_sentinel z) a (lz_root z, lz_heap z) of
       None \<Rightarrow> None
     | Some (root, h) \<Rightarrow> Some (ctx\<lparr>lc_sh := z\<lparr>lz_root := root, lz_heap := h, lz_queue := remove1 a (lz_queue z)\<rparr>\<rparr>))"

text \<open>Whether an unlocked node is too young to be dropped, or its bucket has not run empty.\<close>

definition lr_in_use :: "u64 \<Rightarrow> u64 \<Rightarrow> lr_node \<Rightarrow> bool" where
  "lr_in_use rate now lr =
    (let ms = now - lr_last lr; ms = (if 0 \<le> sint ms then ms else - ms) in
     sint ms < 60000 \<or> 0 < sint (lr_excess lr - rate * ms div 1000))"

function ngx_http_limit_req_expire :: "u64 \<Rightarrow> nat \<Rightarrow> lr_ctx \<Rightarrow> lr_ctx option" where
  "ngx_http_limit_req_expire now n ctx =
    (if n < 3 then
       if lz_queue (lc_sh ctx) = [] then Some ctx
       else
         let a = last (lz_queue (lc_sh ctx)); lr = lz_node (lc_sh ctx) a in
         if lr_count lr \<noteq> 0 then Some ctx
         else if n \<noteq> 0 \<and> lr_in_use (lc_rate ctx) now lr then Some ctx
         else case lr_remove a ctx of None \<Rightarrow> None | Some ctx \<Rightarrow> ngx_http_limit_req_expire now (n + 1) ctx
     else Some ctx)"
  by pat_completeness auto
termination by (relation "measure (\<lambda>(now, n, ctx). 3 - n)") auto

declare ngx_http_limit_req_expire.simps [simp del]

text \<open>The branches of a lookup: the node of the key is there, or a new one is made.\<close>

definition lr_hit :: "u64 \<Rightarrow> bool \<Rightarrow> addr \<Rightarrow> lr_limit \<Rightarrow> ngx_rc \<times> u64 \<times> lr_limit" where
  "lr_hit now account a limit =
    (let ctx = ll_ctx limit; z = lc_sh ctx;
         z = z\<lparr>lz_queue := a # remove1 a (lz_queue z)\<rparr>;
         lr = lz_node z a;
         ms = lr_elapsed now (lr_last lr);
         excess = lr_excess_now (lc_rate ctx) lr ms
     in if ll_burst limit < excess then (NGX_BUSY, excess, limit\<lparr>ll_ctx := ctx\<lparr>lc_sh := z\<rparr>\<rparr>)
        else if account then
          (NGX_OK, excess, limit\<lparr>ll_ctx := ctx\<lparr>lc_sh := set_lr a (lr_charge excess ms now lr) z\<rparr>\<rparr>)
        else
          (NGX_AGAIN, excess,
            limit\<lparr>ll_ctx := ctx\<lparr>lc_sh := set_lr a (lr\<lparr>lr_count := lr_count lr + 1\<rparr>) z, lc_node := a\<rparr>\<rparr>))"

definition lr_new_node :: "u64 \<Rightarrow> bool \<Rightarrow> bytes \<Rightarrow> lr_node" where
  "lr_new_node now account key =
    \<lparr> lr_len = length key mod 65536, lr_last = (if account then now else 0), lr_excess = 0,
      lr_count = (if account then 0 else 1), lr_data = key \<rparr>"

definition lr_insert :: "u64 \<Rightarrow> bool \<Rightarrow> u64 \<Rightarrow> bytes \<Rightarrow> addr \<Rightarrow> lr_limit \<Rightarrow> (ngx_rc \<times> u64 \<times> lr_limit) option" where
  "lr_insert now account hash key node limit =
    (let ctx = ll_ctx limit; z = lc_sh ctx;
         z = set_lr node (lr_new_node now account key) z
     in case ngx_rbtree_insert (ngx_http_limit_req_rbtree_insert_value (lz_node z)) (lz_sentinel z) node
               (lz_root z, set_key node hash (lz_heap z)) of
          None \<Rightarrow> None
        | Some (root, h) \<Rightarrow>
            let z = z\<lparr>lz_root := root, lz_heap := h, lz_queue := node # lz_queue z\<rparr> in
            if account then Some (NGX_OK, 0, limit\<lparr>ll_ctx := ctx\<lparr>lc_sh := z\<rparr>\<rparr>)
            else Some (NGX_AGAIN, 0, limit\<lparr>ll_ctx := ctx\<lparr>lc_sh := z, lc_node := node\<rparr>\<rparr>))"

definition lr_miss :: "(lr_zone \<Rightarrow> nat \<Rightarrow> addr option) \<Rightarrow> u64 \<Rightarrow> bool \<Rightarrow> u64 \<Rightarrow> bytes \<Rightarrow> lr_limit \<Rightarrow> (ngx_rc \<times> u64 \<times> lr_limit) option" where
  "lr_miss slab now account hash key limit =
    (case ngx_http_limit_req_expire now 1 (ll_ctx limit) of
       None \<Rightarrow> None
     | Some ctx \<Rightarrow>
         case slab (lc_sh ctx) (80 + length key) of
           Some node \<Rightarrow> lr_insert now account hash key node (limit\<lparr>ll_ctx := ctx\<rparr>)
         | None \<Rightarrow>
             case ngx_http_limit_req_expire now 0 ctx of
               None \<Rightarrow> None
             | Some ctx \<Rightarrow>
                 case slab (lc_sh ctx) (80 + length key) of
                   Some node \<Rightarrow> lr_insert now account hash key node (limit\<lparr>ll_ctx := ctx\<rparr>)
                 | None \<Rightarrow> Some (NGX_ERROR, 0, limit\<lparr>ll_ctx := ctx\<rparr>))"

definition ngx_http_limit_req_lookup ::
    "(lr_zone \<Rightarrow> nat \<Rightarrow> addr option) \<Rightarrow> u64 \<Rightarrow> lr_limit \<Rightarrow> u64 \<Rightarrow> bytes \<Rightarrow> bool \<Rightarrow> (ngx_rc \<times> u64 \<times> lr_limit) option" where
  "ngx_http_limit_req_lookup slab now limit hash key account =
    (let z = lc_sh (ll_ctx limit) in
     case rb_search (name_look (zone_names (lz_node z)) (zone_lens (lz_node z)) (hash, key)) (lz_heap z) (lz_sentinel z) (lz_root z) of
       None \<Rightarrow> None
     | Some a \<Rightarrow> if a = NULL then lr_miss slab now account hash key limit else Some (lr_hit now account a limit))"

section \<open>The locked nodes\<close>

text \<open>Both loops run from the limit before the given one down to the first.\<close>

definition lr_unlock_one :: "lr_limit \<Rightarrow> lr_limit" where
  "lr_unlock_one limit =
    (let ctx = ll_ctx limit; z = lc_sh ctx; a = lc_node ctx; lr = lz_node z a in
     if a = NULL then limit
     else limit\<lparr>ll_ctx := ctx\<lparr>lc_sh := set_lr a (lr\<lparr>lr_count := lr_count lr - 1\<rparr>) z, lc_node := NULL\<rparr>\<rparr>)"

fun ngx_http_limit_req_unlock :: "nat \<Rightarrow> lr_limit list \<Rightarrow> lr_limit list" where
  "ngx_http_limit_req_unlock 0 limits = limits"
| "ngx_http_limit_req_unlock (Suc n) limits = ngx_http_limit_req_unlock n (limits[n := lr_unlock_one (limits ! n)])"

definition lr_delay :: "lr_limit \<Rightarrow> u64 \<Rightarrow> u64" where
  "lr_delay limit excess =
    (if excess \<le> ll_delay limit then 0 else (excess - ll_delay limit) * 1000 div lc_rate (ll_ctx limit))"

definition lr_account_one :: "u64 \<Rightarrow> lr_limit \<Rightarrow> u64 \<times> lr_limit" where
  "lr_account_one now limit =
    (let ctx = ll_ctx limit; z = lc_sh ctx; a = lc_node ctx; lr = lz_node z a;
         ms = lr_elapsed now (lr_last lr);
         excess = lr_excess_now (lc_rate ctx) lr ms;
         lr = lr_charge excess ms now lr;
         lr = lr\<lparr>lr_count := lr_count lr - 1\<rparr>
     in (excess, limit\<lparr>ll_ctx := ctx\<lparr>lc_sh := set_lr a lr z, lc_node := NULL\<rparr>\<rparr>))"

fun lr_account_loop :: "u64 \<Rightarrow> nat \<Rightarrow> u64 \<Rightarrow> u64 \<Rightarrow> nat \<Rightarrow> lr_limit list \<Rightarrow> u64 \<times> u64 \<times> nat \<times> lr_limit list" where
  "lr_account_loop now 0 max_delay ep limit limits = (max_delay, ep, limit, limits)"
| "lr_account_loop now (Suc n) max_delay ep limit limits =
    (if lc_node (ll_ctx (limits ! n)) = NULL then lr_account_loop now n max_delay ep limit limits
     else
       let (excess, l) = lr_account_one now (limits ! n); limits = limits[n := l]; delay = lr_delay l excess in
       if excess \<le> ll_delay l then lr_account_loop now n max_delay ep limit limits
       else if max_delay < delay then lr_account_loop now n delay excess n limits
       else lr_account_loop now n max_delay ep limit limits)"

definition ngx_http_limit_req_account :: "u64 \<Rightarrow> lr_limit list \<Rightarrow> nat \<Rightarrow> u64 \<Rightarrow> nat \<Rightarrow> u64 \<times> u64 \<times> nat \<times> lr_limit list" where
  "ngx_http_limit_req_account now limits n ep limit =
    lr_account_loop now n (lr_delay (limits ! limit) ep) ep limit limits"

section \<open>The handler\<close>

text \<open>
  The loop over the limits, with the values of their keys, \<open>None\<close> for a value that cannot be computed. It stops with the
  number of the limit at which it was left, the return code and the excess, or with an internal error.
\<close>

fun lr_limits_loop :: "(lr_zone \<Rightarrow> nat \<Rightarrow> addr option) \<Rightarrow> u64 \<Rightarrow> bytes option list \<Rightarrow> nat \<Rightarrow> ngx_rc \<Rightarrow> u64 \<Rightarrow> lr_limit list \<Rightarrow>
    ((nat \<times> ngx_rc \<times> u64) option \<times> lr_limit list) option" where
  "lr_limits_loop slab now [] n rc excess limits = Some (Some (n, rc, excess), limits)"
| "lr_limits_loop slab now (None # keys) n rc excess limits = Some (None, ngx_http_limit_req_unlock n limits)"
| "lr_limits_loop slab now (Some key # keys) n rc excess limits =
    (if key = [] \<or> 65535 < length key then lr_limits_loop slab now keys (n + 1) rc excess limits
     else case ngx_http_limit_req_lookup slab now (limits ! n) (ucast (ngx_crc32_short key)) key (n = length limits - 1) of
            None \<Rightarrow> None
          | Some (rc, excess, l) \<Rightarrow>
              let limits = limits[n := l] in
              if rc \<noteq> NGX_AGAIN then Some (Some (n, rc, excess), limits)
              else lr_limits_loop slab now keys (n + 1) rc excess limits)"

definition ngx_http_limit_req_handler ::
    "(lr_zone \<Rightarrow> nat \<Rightarrow> addr option) \<Rightarrow> bool \<Rightarrow> bool \<Rightarrow> u64 \<Rightarrow> bytes option list \<Rightarrow> lr_status \<Rightarrow> lr_limit list \<Rightarrow>
      (lr_result \<times> lr_status \<times> lr_limit list) option" where
  "ngx_http_limit_req_handler slab read_event_ok dry_run now keys status limits =
    (if status \<noteq> LR_UNSET then Some (LR_declined, status, limits)
     else case lr_limits_loop slab now keys 0 NGX_DECLINED 0 limits of
            None \<Rightarrow> None
          | Some (None, limits) \<Rightarrow> Some (LR_internal_error, LR_UNSET, limits)
          | Some (Some (n, rc, excess), limits) \<Rightarrow>
              if rc = NGX_DECLINED then Some (LR_declined, LR_UNSET, limits)
              else if rc = NGX_BUSY \<or> rc = NGX_ERROR then
                let limits = ngx_http_limit_req_unlock n limits in
                if dry_run then Some (LR_declined, LR_REJECTED_DRY_RUN, limits)
                else Some (LR_reject, LR_REJECTED, limits)
              else
                let excess = (if rc = NGX_AGAIN then 0 else excess);
                    (delay, excess, limit, limits) =
                      ngx_http_limit_req_account now limits n excess (if rc = NGX_AGAIN then length limits - 1 else n)
                in if delay = 0 then Some (LR_declined, LR_PASSED, limits)
                   else if dry_run then Some (LR_declined, LR_DELAYED_DRY_RUN, limits)
                   else if \<not> read_event_ok then Some (LR_internal_error, LR_DELAYED, limits)
                   else Some (LR_again delay, LR_DELAYED, limits))"

section \<open>The zone as a map from keys to buckets\<close>

definition zone_key :: "lr_zone \<Rightarrow> addr \<Rightarrow> u64 \<times> bytes" where
  "zone_key z = name_rank (zone_names (lz_node z)) (lz_heap z)"

definition zone_map :: "lr_zone \<Rightarrow> u64 \<times> bytes \<Rightarrow> lr_node option" where
  "zone_map z k = map_option (lz_node z) (find (\<lambda>a. zone_key z a = k) (lz_queue z))"

definition zone_ok :: "lr_zone \<Rightarrow> bool" where
  "zone_ok z \<longleftrightarrow> distinct (lz_queue z) \<and>
    (\<exists>xs. set xs = set (lz_queue z) \<and>
      named_tree (zone_names (lz_node z)) (zone_lens (lz_node z)) (lz_sentinel z) (lz_root z) (lz_heap z) xs)"

definition slab_ok :: "(lr_zone \<Rightarrow> nat \<Rightarrow> addr option) \<Rightarrow> bool" where
  "slab_ok slab \<longleftrightarrow> (\<forall>z n a. slab z n = Some a \<longrightarrow> a \<notin> set (lz_queue z) \<and> a \<noteq> lz_sentinel z \<and> a \<noteq> NULL)"

lemma zone_inj: "zone_ok z \<Longrightarrow> inj_on (zone_key z) (set (lz_queue z))"
  by (auto simp: zone_ok_def named_tree_def zone_key_def)

lemma find_inj: "inj_on f (set xs) \<Longrightarrow> find (\<lambda>a. f a = k) xs = Some a \<longleftrightarrow> a \<in> set xs \<and> f a = k"
proof (induction xs)
  case (Cons x xs)
  then show ?case by (auto simp: inj_on_def)
qed simp

lemma zone_map_iff:
  "inj_on (zone_key z) (set (lz_queue z)) \<Longrightarrow>
     zone_map z k = Some lr \<longleftrightarrow> (\<exists>a \<in> set (lz_queue z). zone_key z a = k \<and> lz_node z a = lr)"
  by (auto simp: zone_map_def find_inj)

lemma zone_map_none: "zone_map z k = None \<longleftrightarrow> (\<forall>a \<in> set (lz_queue z). zone_key z a \<noteq> k)"
  by (auto simp: zone_map_def find_None_iff)

lemma zone_mapI: "zone_ok z \<Longrightarrow> a \<in> set (lz_queue z) \<Longrightarrow> zone_map z (zone_key z a) = Some (lz_node z a)"
  by (auto simp: zone_map_iff[OF zone_inj])

text \<open>Two zones with the same keys in place have the same map, whatever the order of the queue.\<close>

lemma zone_map_eqI:
  assumes "zone_ok z" and "zone_ok z'"
    and "\<And>k lr. (\<exists>a \<in> set (lz_queue z'). zone_key z' a = k \<and> lz_node z' a = lr) \<longleftrightarrow> f k = Some lr"
  shows "zone_map z' = f"
proof
  fix k
  show "zone_map z' k = f k"
    using assms(3)[of k] zone_map_iff[OF zone_inj[OF assms(2)], of k] by (cases "f k"; cases "zone_map z' k") auto
qed

lemma zone_map_upd:
  assumes "zone_ok z" and "zone_ok z'" and "set (lz_queue z') = insert a (set (lz_queue z))" and "zone_key z' a = k0"
    and "\<And>b. b \<in> set (lz_queue z) \<Longrightarrow> zone_key z b = k0 \<longleftrightarrow> b = a"
    and "\<And>b. b \<in> set (lz_queue z) \<Longrightarrow> b \<noteq> a \<Longrightarrow> zone_key z' b = zone_key z b \<and> lz_node z' b = lz_node z b"
  shows "zone_map z' = (zone_map z)(k0 \<mapsto> lz_node z' a)"
proof (rule zone_map_eqI[OF assms(1,2)])
  fix k lr
  show "(\<exists>b \<in> set (lz_queue z'). zone_key z' b = k \<and> lz_node z' b = lr) \<longleftrightarrow> ((zone_map z)(k0 \<mapsto> lz_node z' a)) k = Some lr"
  proof (cases "k = k0")
    case True
    have "b = a" if "b \<in> set (lz_queue z')" "zone_key z' b = k0" for b
      using inj_onD[OF zone_inj[OF assms(2)], of b a] that assms(3,4) by simp
    then show ?thesis using assms(3,4) True by auto
  next
    case False
    have "(\<exists>b \<in> set (lz_queue z'). zone_key z' b = k \<and> lz_node z' b = lr) \<longleftrightarrow>
        (\<exists>b \<in> set (lz_queue z). zone_key z b = k \<and> lz_node z b = lr)"
      using assms(3-6) False by (metis insert_iff)
    then show ?thesis using False zone_map_iff[OF zone_inj[OF assms(1)], of k lr] by simp
  qed
qed

lemma zone_okI:
  "named_tree (zone_names (lz_node z)) (zone_lens (lz_node z)) (lz_sentinel z) (lz_root z) (lz_heap z) xs \<Longrightarrow>
     set xs = set (lz_queue z) \<Longrightarrow> distinct (lz_queue z) \<Longrightarrow> zone_ok z"
  by (auto simp: zone_ok_def)

lemma bump_ok:
  assumes "zone_ok z" and "a \<in> set (lz_queue z)"
  shows "zone_ok (z\<lparr>lz_queue := a # remove1 a (lz_queue z)\<rparr>)" and "zone_map (z\<lparr>lz_queue := a # remove1 a (lz_queue z)\<rparr>) = zone_map z"
proof -
  let ?z = "z\<lparr>lz_queue := a # remove1 a (lz_queue z)\<rparr>"
  have d: "distinct (lz_queue z)" using assms(1) by (simp add: zone_ok_def)
  then have q: "set (lz_queue ?z) = set (lz_queue z)" "distinct (lz_queue ?z)" using assms(2) by (auto simp: set_remove1_eq)
  show ok: "zone_ok ?z" using assms(1) q unfolding zone_ok_def by simp
  have key: "zone_key ?z = zone_key z" by (simp add: zone_key_def)
  show "zone_map ?z = zone_map z"
    by (rule zone_map_eqI[OF assms(1) ok]) (simp only: q key zone_map_iff[OF zone_inj[OF assms(1)]], simp)
qed

lemma set_lr_ok:
  assumes "zone_ok z" and "a \<in> set (lz_queue z)" and "lr_data lr = lr_data (lz_node z a)" and "lr_len lr = lr_len (lz_node z a)"
  shows "zone_ok (set_lr a lr z)" and "zone_map (set_lr a lr z) = (zone_map z)(zone_key z a \<mapsto> lr)"
    and "zone_key (set_lr a lr z) = zone_key z"
proof -
  have n: "zone_names (lz_node (set_lr a lr z)) = zone_names (lz_node z)" "zone_lens (lz_node (set_lr a lr z)) = zone_lens (lz_node z)"
    using assms(3,4) by (auto simp: zone_names_def zone_lens_def set_lr_def)
  have f: "lz_queue (set_lr a lr z) = lz_queue z" "lz_heap (set_lr a lr z) = lz_heap z" "lz_root (set_lr a lr z) = lz_root z"
      "lz_sentinel (set_lr a lr z) = lz_sentinel z" by (simp_all add: set_lr_def)
  show ok: "zone_ok (set_lr a lr z)" using assms(1) unfolding zone_ok_def n f .
  show key: "zone_key (set_lr a lr z) = zone_key z" unfolding zone_key_def n f ..
  have u: "zone_key z b = zone_key z a \<longleftrightarrow> b = a" if "b \<in> set (lz_queue z)" for b
    using zone_inj[OF assms(1)] that assms(2) by (auto dest: inj_onD)
  show "zone_map (set_lr a lr z) = (zone_map z)(zone_key z a \<mapsto> lr)"
    using zone_map_upd[OF assms(1) ok, of a "zone_key z a"] u assms(2) by (simp add: key f insert_absorb) (simp add: set_lr_def)
qed

lemma lr_remove_ok:
  assumes "zone_ok (lc_sh ctx)" and "a \<in> set (lz_queue (lc_sh ctx))"
  shows "\<exists>z'. lr_remove a ctx = Some (ctx\<lparr>lc_sh := z'\<rparr>) \<and> zone_ok z' \<and> lz_sentinel z' = lz_sentinel (lc_sh ctx) \<and>
     zone_map z' = (zone_map (lc_sh ctx))(zone_key (lc_sh ctx) a := None)"
proof -
  let ?z = "lc_sh ctx"
  from assms(1) obtain xs where xs: "set xs = set (lz_queue ?z)" and d: "distinct (lz_queue ?z)"
    and t: "named_tree (zone_names (lz_node ?z)) (zone_lens (lz_node ?z)) (lz_sentinel ?z) (lz_root ?z) (lz_heap ?z) xs"
    by (auto simp: zone_ok_def)
  from named_delete[OF t, of a] assms(2) xs obtain root' h' where
    r: "ngx_rbtree_delete (lz_sentinel ?z) a (lz_root ?z, lz_heap ?z) = Some (root', h')"
      "named_tree (zone_names (lz_node ?z)) (zone_lens (lz_node ?z)) (lz_sentinel ?z) root' h' (remove1 a xs)"
      "set (remove1 a xs) = set xs - {a}" "\<forall>b. b \<noteq> a \<longrightarrow> rb_key (h' b) = rb_key (lz_heap ?z b)" by auto
  let ?z' = "?z\<lparr>lz_root := root', lz_heap := h', lz_queue := remove1 a (lz_queue ?z)\<rparr>"
  have q: "set (lz_queue ?z') = set (lz_queue ?z) - {a}" using d by (simp add: set_remove1_eq)
  have ok: "zone_ok ?z'" by (rule zone_okI[of _ "remove1 a xs"]) (use r(2,3) q xs d in simp_all)
  have key: "zone_key ?z' b = zone_key ?z b" if "b \<noteq> a" for b using r(4) that by (simp add: zone_key_def name_rank_def)
  have "zone_map ?z' = (zone_map ?z)(zone_key ?z a := None)"
  proof (rule zone_map_eqI[OF assms(1) ok])
    fix k lr
    have "b = a" if "b \<in> set (lz_queue ?z)" "zone_key ?z b = zone_key ?z a" for b
      using zone_inj[OF assms(1)] that assms(2) by (auto dest: inj_onD)
    then show "(\<exists>b \<in> set (lz_queue ?z'). zone_key ?z' b = k \<and> lz_node ?z' b = lr) \<longleftrightarrow>
        ((zone_map ?z)(zone_key ?z a := None)) k = Some lr"
      using zone_map_iff[OF zone_inj[OF assms(1)], of k lr] key unfolding q by auto
  qed
  then show ?thesis using r(1) ok by (intro exI[of _ ?z']) (simp add: lr_remove_def Let_def)
qed

lemma lr_insert_ok:
  assumes "zone_ok (lc_sh (ll_ctx limit))" and "node \<notin> set (lz_queue (lc_sh (ll_ctx limit)))"
    and "node \<noteq> lz_sentinel (lc_sh (ll_ctx limit))" and "node \<noteq> NULL" and "length key \<le> 65535"
    and "zone_map (lc_sh (ll_ctx limit)) (hash, key) = None"
  shows "\<exists>z'. lr_insert now account hash key node limit =
       Some (if account then NGX_OK else NGX_AGAIN, 0,
         limit\<lparr>ll_ctx := (ll_ctx limit)\<lparr>lc_sh := z', lc_node := (if account then lc_node (ll_ctx limit) else node)\<rparr>\<rparr>) \<and>
     zone_ok z' \<and> lz_sentinel z' = lz_sentinel (lc_sh (ll_ctx limit)) \<and> node \<in> set (lz_queue z') \<and> zone_key z' node = (hash, key) \<and>
     zone_map z' = (zone_map (lc_sh (ll_ctx limit)))((hash, key) \<mapsto> lr_new_node now account key)"
proof -
  let ?z = "lc_sh (ll_ctx limit)" and ?n = "lr_new_node now account key"
  let ?nodes = "(lz_node ?z)(node := ?n)"
  from assms(1) obtain xs where xs: "set xs = set (lz_queue ?z)" and d: "distinct (lz_queue ?z)"
    and t: "named_tree (zone_names (lz_node ?z)) (zone_lens (lz_node ?z)) (lz_sentinel ?z) (lz_root ?z) (lz_heap ?z) xs"
    by (auto simp: zone_ok_def)
  have new: "\<not> (rb_key (lz_heap ?z b) = hash \<and> zone_names (lz_node ?z) b = key)" if "b \<in> set xs" for b
    using assms(6) that by (auto simp: zone_map_none zone_key_def name_rank_def xs)
  have same: "zone_names ?nodes b = zone_names (lz_node ?z) b \<and> zone_lens ?nodes b = zone_lens (lz_node ?z) b" if "b \<in> set xs" for b
    using that assms(2) by (auto simp: zone_names_def zone_lens_def xs)
  have n: "zone_names ?nodes node = key" "zone_lens ?nodes node = length key"
    using assms(5) by (simp_all add: zone_names_def zone_lens_def lr_new_node_def)
  from named_insert[OF t _ assms(3,4) n same new] assms(2) xs obtain root' h' ys where
    r: "ngx_rbtree_insert (rb_insert_loop (name_below (zone_names ?nodes) (zone_lens ?nodes))) (lz_sentinel ?z) node (lz_root ?z, set_key node hash (lz_heap ?z)) = Some (root', h')"
      "named_tree (zone_names ?nodes) (zone_lens ?nodes) (lz_sentinel ?z) root' h' ys" "set ys = insert node (set xs)"
      "\<forall>a. rb_key (h' a) = (if a = node then hash else rb_key (lz_heap ?z a))" by auto
  let ?z' = "(set_lr node ?n ?z)\<lparr>lz_root := root', lz_heap := h', lz_queue := node # lz_queue ?z\<rparr>"
  have ok: "zone_ok ?z'" by (rule zone_okI[of _ ys]) (use r(2,3) xs d assms(2) in \<open>simp_all add: set_lr_def\<close>)
  have kn: "zone_key ?z' node = (hash, key)" using r(4) n by (simp add: zone_key_def name_rank_def set_lr_def zone_names_def)
  have key: "zone_key ?z' b = zone_key ?z b" if "b \<noteq> node" for b
    using r(4) that by (simp add: zone_key_def name_rank_def set_lr_def zone_names_def)
  have "zone_map ?z' = (zone_map ?z)((hash, key) \<mapsto> lz_node ?z' node)"
  proof (rule zone_map_upd[OF assms(1) ok _ kn])
    show "zone_key ?z b = (hash, key) \<longleftrightarrow> b = node" if "b \<in> set (lz_queue ?z)" for b
      using that assms(2,6) by (auto simp: zone_map_none)
    show "zone_key ?z' b = zone_key ?z b \<and> lz_node ?z' b = lz_node ?z b" if "b \<noteq> node" for b
      using key[OF that] that by (simp add: set_lr_def)
  qed simp
  moreover have "lz_node ?z' node = ?n" by (simp add: set_lr_def)
  ultimately have "zone_map ?z' = (zone_map ?z)((hash, key) \<mapsto> ?n)" by (simp only:)
  then show ?thesis using r(1) ok kn
    by (intro exI[of _ ?z']) (simp add: lr_insert_def Let_def ngx_http_limit_req_rbtree_insert_value_def set_lr_def)
qed

section \<open>Dropping old nodes\<close>

text \<open>What is dropped is unlocked, and unless by force it is a minute old and its bucket is empty.\<close>

definition zone_drops :: "bool \<Rightarrow> u64 \<Rightarrow> u64 \<Rightarrow> lr_zone \<Rightarrow> lr_zone \<Rightarrow> bool" where
  "zone_drops force rate now z z' \<longleftrightarrow> lz_sentinel z' = lz_sentinel z \<and>
    (\<forall>k. zone_map z' k = zone_map z k \<or>
      (\<exists>lr. zone_map z k = Some lr \<and> zone_map z' k = None \<and> lr_count lr = 0 \<and> (force \<or> \<not> lr_in_use rate now lr)))"

lemma zone_drops_refl [simp]: "zone_drops force rate now z z"
  by (simp add: zone_drops_def)

lemma zone_drops_trans:
  "zone_drops force rate now z z1 \<Longrightarrow> zone_drops force' rate now z1 z2 \<Longrightarrow> zone_drops (force \<or> force') rate now z z2"
  unfolding zone_drops_def by (metis option.distinct(1))

lemma zone_drops_weaken: "zone_drops force rate now z z' \<Longrightarrow> zone_drops True rate now z z'"
  unfolding zone_drops_def by blast

lemma expire_ok:
  "zone_ok (lc_sh ctx) \<Longrightarrow>
     \<exists>z'. ngx_http_limit_req_expire now n ctx = Some (ctx\<lparr>lc_sh := z'\<rparr>) \<and> zone_ok z' \<and>
       zone_drops (n = 0) (lc_rate ctx) now (lc_sh ctx) z'"
proof (induction now n ctx rule: ngx_http_limit_req_expire.induct)
  case (1 now n ctx)
  let ?z = "lc_sh ctx" and ?a = "last (lz_queue (lc_sh ctx))"
  show ?case
  proof (cases "n < 3 \<and> lz_queue ?z \<noteq> [] \<and> lr_count (lz_node ?z ?a) = 0 \<and> \<not> (n \<noteq> 0 \<and> lr_in_use (lc_rate ctx) now (lz_node ?z ?a))")
    case False
    then have "ngx_http_limit_req_expire now n ctx = Some ctx"
      by (subst ngx_http_limit_req_expire.simps) (auto simp: Let_def)
    then show ?thesis using "1.prems" by (intro exI[of _ ?z]) simp
  next
    case True
    then have a: "?a \<in> set (lz_queue ?z)" by simp
    from lr_remove_ok[OF "1.prems" this] obtain z1 where
      r: "lr_remove ?a ctx = Some (ctx\<lparr>lc_sh := z1\<rparr>)" "zone_ok z1" "lz_sentinel z1 = lz_sentinel ?z"
        "zone_map z1 = (zone_map ?z)(zone_key ?z ?a := None)" by blast
    have "zone_drops (n = 0) (lc_rate ctx) now ?z z1"
      unfolding zone_drops_def using r(3,4) True zone_mapI[OF "1.prems" a] by auto
    moreover from "1.IH"[OF _ _ refl refl _ _ r(1)] True r(2) obtain z2 where
      s: "ngx_http_limit_req_expire now (n + 1) (ctx\<lparr>lc_sh := z1\<rparr>) = Some (ctx\<lparr>lc_sh := z2\<rparr>)" "zone_ok z2"
        "zone_drops False (lc_rate ctx) now z1 z2" by auto
    ultimately have "zone_drops (n = 0) (lc_rate ctx) now ?z z2" using zone_drops_trans by fastforce
    moreover have "ngx_http_limit_req_expire now n ctx = ngx_http_limit_req_expire now (n + 1) (ctx\<lparr>lc_sh := z1\<rparr>)"
      using True r(1) by (subst ngx_http_limit_req_expire.simps) (auto simp: Let_def)
    ultimately show ?thesis using s by (intro exI[of _ z2]) simp
  qed
qed

section \<open>Lookups\<close>

text \<open>
  What a lookup does to the map, as a specification: an update of the bucket of the key, or a new bucket, after
  the drop of old ones. The last value tells whether the node of the key is locked.
\<close>

definition lookup_spec :: "u64 \<Rightarrow> u64 \<Rightarrow> u64 \<Rightarrow> bool \<Rightarrow> u64 \<Rightarrow> bytes \<Rightarrow> lr_zone \<Rightarrow> ngx_rc \<Rightarrow> u64 \<Rightarrow> lr_zone \<Rightarrow> bool" where
  "lookup_spec rate burst now account hash key z rc excess z' \<longleftrightarrow>
    (case zone_map z (hash, key) of
       Some lr \<Rightarrow>
         let ms = lr_elapsed now (lr_last lr) in
         excess = lr_excess_now rate lr ms \<and>
         (if burst < excess then rc = NGX_BUSY \<and> zone_map z' = zone_map z
          else if account then rc = NGX_OK \<and> zone_map z' = (zone_map z)((hash, key) \<mapsto> lr_charge excess ms now lr)
          else rc = NGX_AGAIN \<and> zone_map z' = (zone_map z)((hash, key) \<mapsto> lr\<lparr>lr_count := lr_count lr + 1\<rparr>))
     | None \<Rightarrow>
         excess = 0 \<and>
         (rc = NGX_ERROR \<and> zone_drops True rate now z z' \<or>
          rc = (if account then NGX_OK else NGX_AGAIN) \<and>
          (\<exists>z1. zone_drops True rate now z z1 \<and> zone_map z' = (zone_map z1)((hash, key) \<mapsto> lr_new_node now account key))))"

definition lookup_lock :: "u64 \<Rightarrow> bytes \<Rightarrow> ngx_rc \<Rightarrow> lr_ctx \<Rightarrow> lr_ctx \<Rightarrow> bool" where
  "lookup_lock hash key rc ctx ctx' \<longleftrightarrow> lc_rate ctx' = lc_rate ctx \<and>
    (if rc = NGX_AGAIN then lc_node ctx' \<noteq> NULL \<and> lc_node ctx' \<in> set (lz_queue (lc_sh ctx')) \<and> zone_key (lc_sh ctx') (lc_node ctx') = (hash, key)
     else lc_node ctx' = lc_node ctx)"

lemma lr_hit_ok:
  assumes "zone_ok (lc_sh (ll_ctx limit))" and "a \<in> set (lz_queue (lc_sh (ll_ctx limit)))"
    and "zone_key (lc_sh (ll_ctx limit)) a = (hash, key)" and "a \<noteq> NULL"
  shows "\<exists>rc excess ctx'. lr_hit now account a limit = (rc, excess, limit\<lparr>ll_ctx := ctx'\<rparr>) \<and> zone_ok (lc_sh ctx') \<and>
     lookup_spec (lc_rate (ll_ctx limit)) (ll_burst limit) now account hash key (lc_sh (ll_ctx limit)) rc excess (lc_sh ctx') \<and>
     lookup_lock hash key rc (ll_ctx limit) ctx'"
proof -
  let ?z = "lc_sh (ll_ctx limit)"
  let ?zb = "?z\<lparr>lz_queue := a # remove1 a (lz_queue ?z)\<rparr>"
  note b = bump_ok[OF assms(1,2)]
  have ab: "a \<in> set (lz_queue ?zb)" by simp
  have kb: "zone_key ?zb a = (hash, key)" using assms(3) by (simp add: zone_key_def)
  have m: "zone_map ?z (hash, key) = Some (lz_node ?z a)" using zone_mapI[OF assms(1,2)] assms(3) by simp
  let ?lr = "lz_node ?z a"
  let ?ms = "lr_elapsed now (lr_last ?lr)"
  let ?ex = "lr_excess_now (lc_rate (ll_ctx limit)) ?lr ?ms"
  have s: "zone_ok (set_lr a lr ?zb)" "zone_map (set_lr a lr ?zb) = (zone_map ?z)((hash, key) \<mapsto> lr)"
      "zone_key (set_lr a lr ?zb) a = (hash, key)" "a \<in> set (lz_queue (set_lr a lr ?zb))"
    if "lr_data lr = lr_data ?lr" "lr_len lr = lr_len ?lr" for lr
    using set_lr_ok[OF b(1) ab, of lr] that b(2) kb by (simp_all add: set_lr_def)
  let ?c = "lr_charge ?ex ?ms now ?lr" and ?l = "?lr\<lparr>lr_count := lr_count ?lr + 1\<rparr>"
  have c: "lr_data ?c = lr_data ?lr" "lr_len ?c = lr_len ?lr" "lr_data ?l = lr_data ?lr" "lr_len ?l = lr_len ?lr"
    by (simp_all add: lr_charge_def)
  note sc = s[OF c(1,2)] and sl = s[OF c(3,4)]
  show ?thesis
  proof (cases "ll_burst limit < ?ex")
    case True
    then show ?thesis using b m
      by (intro exI[of _ NGX_BUSY] exI[of _ ?ex] exI[of _ "(ll_ctx limit)\<lparr>lc_sh := ?zb\<rparr>"])
        (simp add: lr_hit_def Let_def lookup_spec_def lookup_lock_def)
  next
    case False
    show ?thesis
    proof (cases account)
      case True
      then show ?thesis using m False sc
        by (intro exI[of _ NGX_OK] exI[of _ ?ex] exI[of _ "(ll_ctx limit)\<lparr>lc_sh := set_lr a ?c ?zb\<rparr>"])
          (simp add: lr_hit_def Let_def lookup_spec_def lookup_lock_def)
    next
      case False
      then show ?thesis using m \<open>\<not> ll_burst limit < ?ex\<close> sl assms(4)
        by (intro exI[of _ NGX_AGAIN] exI[of _ ?ex] exI[of _ "(ll_ctx limit)\<lparr>lc_sh := set_lr a ?l ?zb, lc_node := a\<rparr>"])
          (simp add: lr_hit_def Let_def lookup_spec_def lookup_lock_def)
    qed
  qed
qed

text \<open>A new node: a key that is not in the zone stays out of it while old nodes are dropped.\<close>

lemma insert_spec:
  assumes "zone_ok z1" and "slab_ok slab" and "slab z1 n = Some node" and "length key \<le> 65535"
    and "zone_map z (hash, key) = None" and "zone_drops True (lc_rate (ll_ctx limit)) now z z1"
  shows "\<exists>rc excess ctx'. lr_insert now account hash key node (limit\<lparr>ll_ctx := (ll_ctx limit)\<lparr>lc_sh := z1\<rparr>\<rparr>) =
       Some (rc, excess, limit\<lparr>ll_ctx := ctx'\<rparr>) \<and> zone_ok (lc_sh ctx') \<and>
     lookup_spec (lc_rate (ll_ctx limit)) (ll_burst limit) now account hash key z rc excess (lc_sh ctx') \<and>
     lookup_lock hash key rc (ll_ctx limit) ctx'"
proof -
  let ?l = "limit\<lparr>ll_ctx := (ll_ctx limit)\<lparr>lc_sh := z1\<rparr>\<rparr>"
  have none: "zone_map z1 (hash, key) = None" using assms(5,6) unfolding zone_drops_def by (metis option.distinct(1))
  have node: "node \<notin> set (lz_queue z1)" "node \<noteq> lz_sentinel z1" "node \<noteq> NULL" using assms(2,3) by (auto simp: slab_ok_def)
  from lr_insert_ok[of ?l node key hash now account] assms(1,4) node none obtain z' where
    r: "lr_insert now account hash key node ?l = Some (if account then NGX_OK else NGX_AGAIN, 0,
         ?l\<lparr>ll_ctx := (ll_ctx ?l)\<lparr>lc_sh := z', lc_node := (if account then lc_node (ll_ctx ?l) else node)\<rparr>\<rparr>)"
      "zone_ok z'" "node \<in> set (lz_queue z')" "zone_key z' node = (hash, key)"
      "zone_map z' = (zone_map z1)((hash, key) \<mapsto> lr_new_node now account key)" by auto
  let ?ctx = "(ll_ctx limit)\<lparr>lc_sh := z', lc_node := (if account then lc_node (ll_ctx limit) else node)\<rparr>"
  have "lookup_spec (lc_rate (ll_ctx limit)) (ll_burst limit) now account hash key z (if account then NGX_OK else NGX_AGAIN) 0 (lc_sh ?ctx)"
    unfolding lookup_spec_def assms(5) using r(5) assms(6) by auto
  moreover have "lookup_lock hash key (if account then NGX_OK else NGX_AGAIN) (ll_ctx limit) ?ctx"
    using r(3,4) node(3) by (simp add: lookup_lock_def)
  ultimately show ?thesis using r(1,2)
    by (intro exI[of _ "if account then NGX_OK else NGX_AGAIN"] exI[of _ 0] exI[of _ ?ctx]) simp
qed

lemma lr_miss_ok:
  assumes "zone_ok (lc_sh (ll_ctx limit))" and "slab_ok slab" and "length key \<le> 65535"
    and "zone_map (lc_sh (ll_ctx limit)) (hash, key) = None"
  shows "\<exists>rc excess ctx'. lr_miss slab now account hash key limit = Some (rc, excess, limit\<lparr>ll_ctx := ctx'\<rparr>) \<and>
     zone_ok (lc_sh ctx') \<and>
     lookup_spec (lc_rate (ll_ctx limit)) (ll_burst limit) now account hash key (lc_sh (ll_ctx limit)) rc excess (lc_sh ctx') \<and>
     lookup_lock hash key rc (ll_ctx limit) ctx'"
proof -
  let ?ctx = "ll_ctx limit" and ?n = "80 + length key"
  from expire_ok[OF assms(1), of now 1] obtain z1 where
    e1: "ngx_http_limit_req_expire now 1 ?ctx = Some (?ctx\<lparr>lc_sh := z1\<rparr>)" "zone_ok z1"
      "zone_drops False (lc_rate ?ctx) now (lc_sh ?ctx) z1" by auto
  note d1 = zone_drops_weaken[OF e1(3)]
  show ?thesis
  proof (cases "slab z1 ?n")
    case (Some node)
    then show ?thesis using insert_spec[OF e1(2) assms(2) Some assms(3,4) d1] e1(1) by (simp add: lr_miss_def)
  next
    case None
    from expire_ok[of "?ctx\<lparr>lc_sh := z1\<rparr>" now 0] e1(2) obtain z2 where
      e2: "ngx_http_limit_req_expire now 0 (?ctx\<lparr>lc_sh := z1\<rparr>) = Some (?ctx\<lparr>lc_sh := z2\<rparr>)" "zone_ok z2"
        "zone_drops True (lc_rate ?ctx) now z1 z2" by auto
    have d2: "zone_drops True (lc_rate ?ctx) now (lc_sh ?ctx) z2" using zone_drops_trans[OF d1 e2(3)] by simp
    show ?thesis
    proof (cases "slab z2 ?n")
      case (Some node)
      then show ?thesis using insert_spec[OF e2(2) assms(2) Some assms(3,4) d2] e1(1) e2(1) None by (simp add: lr_miss_def)
    next
      case none: None
      have "lr_miss slab now account hash key limit = Some (NGX_ERROR, 0, limit\<lparr>ll_ctx := ?ctx\<lparr>lc_sh := z2\<rparr>\<rparr>)"
        using e1(1) e2(1) None none by (simp add: lr_miss_def)
      moreover have "lookup_spec (lc_rate ?ctx) (ll_burst limit) now account hash key (lc_sh ?ctx) NGX_ERROR 0 z2"
        unfolding lookup_spec_def assms(4) using d2 by simp
      ultimately show ?thesis using e2(2)
        by (intro exI[of _ NGX_ERROR] exI[of _ 0] exI[of _ "?ctx\<lparr>lc_sh := z2\<rparr>"]) (simp add: lookup_lock_def)
    qed
  qed
qed

lemma lookup_ok:
  assumes "zone_ok (lc_sh (ll_ctx limit))" and "slab_ok slab" and "length key \<le> 65535"
  shows "\<exists>rc excess ctx'. ngx_http_limit_req_lookup slab now limit hash key account = Some (rc, excess, limit\<lparr>ll_ctx := ctx'\<rparr>) \<and>
     zone_ok (lc_sh ctx') \<and>
     lookup_spec (lc_rate (ll_ctx limit)) (ll_burst limit) now account hash key (lc_sh (ll_ctx limit)) rc excess (lc_sh ctx') \<and>
     lookup_lock hash key rc (ll_ctx limit) ctx'"
proof -
  let ?z = "lc_sh (ll_ctx limit)"
  from assms(1) obtain xs where xs: "set xs = set (lz_queue ?z)"
    and t: "named_tree (zone_names (lz_node ?z)) (zone_lens (lz_node ?z)) (lz_sentinel ?z) (lz_root ?z) (lz_heap ?z) xs"
    by (auto simp: zone_ok_def)
  from named_lookup[OF t, of hash key] obtain r where
    r: "rb_search (name_look (zone_names (lz_node ?z)) (zone_lens (lz_node ?z)) (hash, key)) (lz_heap ?z) (lz_sentinel ?z) (lz_root ?z) = Some r"
      "r \<in> set xs \<and> rb_key (lz_heap ?z r) = hash \<and> zone_names (lz_node ?z) r = key \<or>
        r = NULL \<and> (\<forall>a \<in> set xs. \<not> (rb_key (lz_heap ?z a) = hash \<and> zone_names (lz_node ?z) a = key))" by auto
  show ?thesis
  proof (cases "r = NULL")
    case True
    then have "r \<notin> set xs" using named_special[OF t] by blast
    then have "zone_map ?z (hash, key) = None" using r(2) by (auto simp: zone_map_none zone_key_def name_rank_def xs)
    then show ?thesis using lr_miss_ok[OF assms] r(1) True by (simp add: ngx_http_limit_req_lookup_def)
  next
    case False
    then have "r \<in> set (lz_queue ?z)" "zone_key ?z r = (hash, key)" using r(2) xs by (simp_all add: zone_key_def name_rank_def)
    then show ?thesis using lr_hit_ok[OF assms(1) _ _ False, of hash key now account] r(1) False
      by (simp add: ngx_http_limit_req_lookup_def)
  qed
qed

section \<open>The rate\<close>







section \<open>Locks and charges of a request\<close>

text \<open>The number of locks on a key, where a key that has no node has none.\<close>

definition zone_locks :: "lr_zone \<Rightarrow> u64 \<times> bytes \<Rightarrow> u64" where
  "zone_locks z k = (case zone_map z k of None \<Rightarrow> 0 | Some lr \<Rightarrow> lr_count lr)"

text \<open>No bucket is charged: those that are still there have kept their level, and new ones are empty.\<close>

definition uncharged :: "lr_zone \<Rightarrow> lr_zone \<Rightarrow> bool" where
  "uncharged z z' \<longleftrightarrow> (\<forall>k lr'. zone_map z' k = Some lr' \<longrightarrow>
    (case zone_map z k of None \<Rightarrow> lr_excess lr' = 0 | Some lr \<Rightarrow> lr_excess lr' = lr_excess lr \<and> lr_last lr' = lr_last lr))"

lemma uncharged_refl [simp]: "uncharged z z"
  by (simp add: uncharged_def)

text \<open>A limit that a request has gone through: its node is locked once more, or it has none.\<close>

definition lr_held :: "lr_zone \<Rightarrow> lr_limit \<Rightarrow> bool" where
  "lr_held z0 l \<longleftrightarrow> (let z = lc_sh (ll_ctx l); a = lc_node (ll_ctx l) in zone_ok z \<and> uncharged z0 z \<and>
    (if a = NULL then zone_locks z = zone_locks z0
     else a \<in> set (lz_queue z) \<and> zone_locks z = (zone_locks z0)(zone_key z a := zone_locks z0 (zone_key z a) + 1)))"

definition lr_free :: "lr_zone \<Rightarrow> lr_limit \<Rightarrow> bool" where
  "lr_free z0 l \<longleftrightarrow> zone_ok (lc_sh (ll_ctx l)) \<and> lc_node (ll_ctx l) = NULL \<and> zone_locks (lc_sh (ll_ctx l)) = zone_locks z0"

lemma lr_free_refl: "zone_ok (lc_sh (ll_ctx l)) \<Longrightarrow> lc_node (ll_ctx l) = NULL \<Longrightarrow> lr_free (lc_sh (ll_ctx l)) l"
  by (simp add: lr_free_def)

lemma lr_free_held: "lr_free z0 l \<Longrightarrow> uncharged z0 (lc_sh (ll_ctx l)) \<Longrightarrow> lr_held z0 l"
  by (simp add: lr_free_def lr_held_def)

lemma uncharged_upd:
  assumes "uncharged z0 z" and "zone_map z k0 = Some lr0" and "zone_map z' = (zone_map z)(k0 \<mapsto> lr)"
    and "lr_excess lr = lr_excess lr0" and "lr_last lr = lr_last lr0"
  shows "uncharged z0 z'"
  unfolding uncharged_def
proof (intro allI impI)
  fix k lr' assume k: "zone_map z' k = Some lr'"
  show "case zone_map z0 k of None \<Rightarrow> lr_excess lr' = 0 | Some lr \<Rightarrow> lr_excess lr' = lr_excess lr \<and> lr_last lr' = lr_last lr"
  proof (cases "k = k0")
    case True
    then have "lr' = lr" using k assms(3) by simp
    then show ?thesis using assms(1)[unfolded uncharged_def, rule_format, OF assms(2)] assms(4,5) True by (simp split: option.splits)
  next
    case False
    then have "zone_map z k = Some lr'" using k assms(3) by simp
    then show ?thesis using assms(1)[unfolded uncharged_def, rule_format] by blast
  qed
qed

lemma drops_locks: "zone_drops force rate now z z' \<Longrightarrow> zone_locks z' = zone_locks z"
proof
  fix k assume "zone_drops force rate now z z'"
  then have "zone_map z' k = zone_map z k \<or> (\<exists>lr. zone_map z k = Some lr \<and> zone_map z' k = None \<and> lr_count lr = 0)"
    unfolding zone_drops_def by blast
  then show "zone_locks z' k = zone_locks z k" by (auto simp: zone_locks_def)
qed

lemma drops_sub: "zone_drops force rate now z z' \<Longrightarrow> zone_map z' k = Some lr \<Longrightarrow> zone_map z k = Some lr"
  unfolding zone_drops_def by (metis option.distinct(1))

lemma lookup_locks:
  assumes "lookup_spec rate burst now account hash key z rc excess z'"
  shows "zone_locks z' = (if rc = NGX_AGAIN then (zone_locks z)((hash, key) := zone_locks z (hash, key) + 1) else zone_locks z)"
proof (cases "zone_map z (hash, key)")
  case (Some lr)
  then show ?thesis using assms
    by (auto simp: lookup_spec_def Let_def zone_locks_def fun_eq_iff lr_charge_def split: if_splits)
next
  case None
  consider "rc = NGX_ERROR" "zone_drops True rate now z z'"
    | z1 where "rc = (if account then NGX_OK else NGX_AGAIN)" "zone_drops True rate now z z1"
        "zone_map z' = (zone_map z1)((hash, key) \<mapsto> lr_new_node now account key)"
    using assms None by (auto simp: lookup_spec_def)
  then show ?thesis
  proof cases
    case 1
    then show ?thesis using drops_locks by simp
  next
    case 2
    have "zone_locks z' = (zone_locks z1)((hash, key) := lr_count (lr_new_node now account key))"
      using 2(3) by (auto simp: zone_locks_def fun_eq_iff)
    moreover have "zone_locks z (hash, key) = 0" using None by (simp add: zone_locks_def)
    ultimately show ?thesis using 2(1) drops_locks[OF 2(2)] by (auto simp: lr_new_node_def)
  qed
qed

lemma lookup_uncharged:
  assumes "lookup_spec rate burst now account hash key z rc excess z'" and "rc \<noteq> NGX_OK"
  shows "uncharged z z'"
proof (cases "zone_map z (hash, key)")
  case (Some lr)
  then show ?thesis using assms
    by (auto simp: lookup_spec_def Let_def uncharged_def split: if_splits option.splits)
next
  case None
  consider "rc = NGX_ERROR" "zone_drops True rate now z z'"
    | z1 where "zone_drops True rate now z z1" "zone_map z' = (zone_map z1)((hash, key) \<mapsto> lr_new_node now account key)"
    using assms None by (auto simp: lookup_spec_def)
  then show ?thesis
  proof cases
    case 1
    then show ?thesis using drops_sub by (fastforce simp: uncharged_def)
  next
    case 2
    have "lr_excess (lr_new_node now account key) = 0" by (simp add: lr_new_node_def)
    then show ?thesis unfolding uncharged_def using drops_sub[OF 2(1)] None by (auto simp: 2(2))
  qed
qed

text \<open>A lookup on a free limit, and what takes the lock off again.\<close>

lemma lookup_held:
  assumes "lr_free (lc_sh (ll_ctx l)) l" and "slab_ok slab" and "length key \<le> 65535"
  shows "\<exists>rc excess l'. ngx_http_limit_req_lookup slab now l hash key account = Some (rc, excess, l') \<and>
     rc \<in> (if account then {NGX_OK, NGX_BUSY, NGX_ERROR} else {NGX_AGAIN, NGX_BUSY, NGX_ERROR}) \<and>
     (rc = NGX_AGAIN \<longrightarrow> lr_held (lc_sh (ll_ctx l)) l') \<and> (rc \<noteq> NGX_AGAIN \<longrightarrow> lr_free (lc_sh (ll_ctx l)) l') \<and>
     (rc \<noteq> NGX_OK \<longrightarrow> uncharged (lc_sh (ll_ctx l)) (lc_sh (ll_ctx l')))"
proof -
  let ?z = "lc_sh (ll_ctx l)"
  have f: "zone_ok ?z" "lc_node (ll_ctx l) = NULL" using assms(1) by (simp_all add: lr_free_def)
  from lookup_ok[OF f(1) assms(2,3), of now hash account] obtain rc excess ctx' where
    r: "ngx_http_limit_req_lookup slab now l hash key account = Some (rc, excess, l\<lparr>ll_ctx := ctx'\<rparr>)" "zone_ok (lc_sh ctx')"
      "lookup_spec (lc_rate (ll_ctx l)) (ll_burst l) now account hash key ?z rc excess (lc_sh ctx')"
      "lookup_lock hash key rc (ll_ctx l) ctx'" by blast
  note lk = lookup_locks[OF r(3)]
  have "rc \<in> (if account then {NGX_OK, NGX_BUSY, NGX_ERROR} else {NGX_AGAIN, NGX_BUSY, NGX_ERROR})"
    using r(3) by (auto simp: lookup_spec_def Let_def split: option.splits if_splits)
  moreover have "rc = NGX_AGAIN \<longrightarrow> lr_held ?z (l\<lparr>ll_ctx := ctx'\<rparr>)"
    using lk lookup_uncharged[OF r(3)] r(2,4) by (auto simp: lr_held_def Let_def lookup_lock_def)
  moreover have "rc \<noteq> NGX_AGAIN \<longrightarrow> lr_free ?z (l\<lparr>ll_ctx := ctx'\<rparr>)"
    using lk r(2,4) f(2) by (auto simp: lr_free_def lookup_lock_def)
  moreover have "rc \<noteq> NGX_OK \<longrightarrow> uncharged ?z (lc_sh (ll_ctx (l\<lparr>ll_ctx := ctx'\<rparr>)))" using lookup_uncharged[OF r(3)] by simp
  ultimately show ?thesis using r(1) by blast
qed

lemma unlock_node:
  assumes "lr_held z0 l" and "lc_node (ll_ctx l) \<noteq> NULL" and "lr_data lr = lr_data (lz_node (lc_sh (ll_ctx l)) (lc_node (ll_ctx l)))"
    and "lr_len lr = lr_len (lz_node (lc_sh (ll_ctx l)) (lc_node (ll_ctx l)))"
    and "lr_count lr = lr_count (lz_node (lc_sh (ll_ctx l)) (lc_node (ll_ctx l))) - 1"
  shows "lr_free z0 (l\<lparr>ll_ctx := (ll_ctx l)\<lparr>lc_sh := set_lr (lc_node (ll_ctx l)) lr (lc_sh (ll_ctx l)), lc_node := NULL\<rparr>\<rparr>)"
    and "zone_map (set_lr (lc_node (ll_ctx l)) lr (lc_sh (ll_ctx l))) =
      (zone_map (lc_sh (ll_ctx l)))(zone_key (lc_sh (ll_ctx l)) (lc_node (ll_ctx l)) \<mapsto> lr)"
proof -
  let ?z = "lc_sh (ll_ctx l)" and ?a = "lc_node (ll_ctx l)"
  have h: "zone_ok ?z" "?a \<in> set (lz_queue ?z)"
      "zone_locks ?z = (zone_locks z0)(zone_key ?z ?a := zone_locks z0 (zone_key ?z ?a) + 1)"
    using assms(1,2) by (auto simp: lr_held_def Let_def)
  note s = set_lr_ok[OF h(1,2) assms(3,4)]
  show "zone_map (set_lr ?a lr ?z) = (zone_map ?z)(zone_key ?z ?a \<mapsto> lr)" by (rule s(2))
  have "zone_locks (set_lr ?a lr ?z) = (zone_locks ?z)(zone_key ?z ?a := lr_count lr)"
    using s(2) by (auto simp: zone_locks_def fun_eq_iff)
  moreover have "lr_count (lz_node ?z ?a) = zone_locks ?z (zone_key ?z ?a)"
    using zone_mapI[OF h(1,2)] by (simp add: zone_locks_def)
  then have "lr_count lr = zone_locks z0 (zone_key ?z ?a)" unfolding assms(5) by (simp add: h(3))
  ultimately have c: "zone_locks (set_lr ?a lr ?z) = (zone_locks ?z)(zone_key ?z ?a := zone_locks z0 (zone_key ?z ?a))" by simp
  have "zone_locks (set_lr ?a lr ?z) = zone_locks z0" unfolding c by (subst h(3)) simp
  then show "lr_free z0 (l\<lparr>ll_ctx := (ll_ctx l)\<lparr>lc_sh := set_lr ?a lr ?z, lc_node := NULL\<rparr>\<rparr>)"
    using s(1) by (simp add: lr_free_def)
qed

lemma unlock_one: "lr_held z0 l \<Longrightarrow> lr_free z0 (lr_unlock_one l) \<and> uncharged z0 (lc_sh (ll_ctx (lr_unlock_one l)))"
proof (cases "lc_node (ll_ctx l) = NULL")
  case True
  assume "lr_held z0 l"
  with True show ?thesis by (simp add: lr_unlock_one_def Let_def lr_held_def lr_free_def)
next
  case False
  assume h: "lr_held z0 l"
  let ?z = "lc_sh (ll_ctx l)" and ?a = "lc_node (ll_ctx l)"
  let ?lr = "(lz_node ?z ?a)\<lparr>lr_count := lr_count (lz_node ?z ?a) - 1\<rparr>"
  note u = unlock_node[OF h False, of ?lr, simplified]
  have o: "zone_ok ?z" "?a \<in> set (lz_queue ?z)" "uncharged z0 ?z" using h False by (auto simp: lr_held_def Let_def)
  have "uncharged z0 (set_lr ?a ?lr ?z)" by (rule uncharged_upd[OF o(3) zone_mapI[OF o(1,2)] u(2)]) simp_all
  then show ?thesis using u(1) False by (simp add: lr_unlock_one_def Let_def)
qed

lemma account_one: "lr_held z0 l \<Longrightarrow> lc_node (ll_ctx l) \<noteq> NULL \<Longrightarrow> lr_free z0 (snd (lr_account_one now l))"
  unfolding lr_account_one_def Let_def snd_conv by (rule unlock_node(1)) (simp_all add: lr_charge_def)

section \<open>The loops over the limits\<close>

lemma unlock_nth:
  "n \<le> length limits \<Longrightarrow> length (ngx_http_limit_req_unlock n limits) = length limits \<and>
     (\<forall>i < length limits. ngx_http_limit_req_unlock n limits ! i = (if i < n then lr_unlock_one (limits ! i) else limits ! i))"
proof (induction n arbitrary: limits)
  case (Suc n)
  then show ?case using Suc.IH[of "limits[n := lr_unlock_one (limits ! n)]"] by (auto simp: nth_list_update less_Suc_eq)
qed simp

lemma account_nth:
  "n \<le> length limits \<Longrightarrow> \<exists>md ep' li' limits'. lr_account_loop now n md0 ep li limits = (md, ep', li', limits') \<and>
     length limits' = length limits \<and>
     (\<forall>i < length limits. limits' ! i =
       (if i < n \<and> lc_node (ll_ctx (limits ! i)) \<noteq> NULL then snd (lr_account_one now (limits ! i)) else limits ! i))"
proof (induction n arbitrary: md0 ep li limits)
  case (Suc n)
  show ?case
  proof (cases "lc_node (ll_ctx (limits ! n)) = NULL")
    case True
    then show ?thesis using Suc.IH[of limits md0 ep li] Suc.prems by (auto simp: less_Suc_eq)
  next
    case False
    let ?ls = "limits[n := snd (lr_account_one now (limits ! n))]"
    have "\<exists>m e l. lr_account_loop now (Suc n) md0 ep li limits = lr_account_loop now n m e l ?ls"
      using False by (auto simp: Let_def split: prod.splits if_splits)
    then obtain m e l where un: "lr_account_loop now (Suc n) md0 ep li limits = lr_account_loop now n m e l ?ls" by blast
    show ?thesis unfolding un using Suc.IH[of ?ls m e l] Suc.prems False by (auto simp: nth_list_update less_Suc_eq)
  qed
qed simp

text \<open>
  How the loop leaves the limits: those before the one at which it stopped may be held, those after it are as they were, and
  that one is free, and uncharged unless the request has passed it.
\<close>

definition limits_left :: "lr_limit list \<Rightarrow> nat \<Rightarrow> ngx_rc \<Rightarrow> lr_limit list \<Rightarrow> bool" where
  "limits_left ls0 n rc ls \<longleftrightarrow> length ls = length ls0 \<and> n \<le> length ls0 \<and>
    rc \<in> {NGX_OK, NGX_BUSY, NGX_ERROR, NGX_AGAIN, NGX_DECLINED} \<and>
    (n = length ls0 \<longleftrightarrow> rc = NGX_AGAIN \<or> rc = NGX_DECLINED) \<and> (rc = NGX_DECLINED \<longrightarrow> ls = ls0) \<and>
    (\<forall>i < n. lr_held (lc_sh (ll_ctx (ls0 ! i))) (ls ! i)) \<and>
    (\<forall>i. n < i \<longrightarrow> i < length ls0 \<longrightarrow> ls ! i = ls0 ! i) \<and>
    (n < length ls0 \<longrightarrow> lr_free (lc_sh (ll_ctx (ls0 ! n))) (ls ! n) \<and>
      (rc \<noteq> NGX_OK \<longrightarrow> uncharged (lc_sh (ll_ctx (ls0 ! n))) (lc_sh (ll_ctx (ls ! n)))))"

lemma limits_loop:
  assumes "slab_ok slab" and "\<forall>i < length ls0. lr_free (lc_sh (ll_ctx (ls0 ! i))) (ls0 ! i)"
  shows "n + length keys = length ls0 \<Longrightarrow> length ls = length ls0 \<Longrightarrow> rc = NGX_AGAIN \<or> rc = NGX_DECLINED \<and> ls = ls0 \<Longrightarrow>
     \<forall>i < n. lr_held (lc_sh (ll_ctx (ls0 ! i))) (ls ! i) \<Longrightarrow> \<forall>i. n \<le> i \<longrightarrow> i < length ls0 \<longrightarrow> ls ! i = ls0 ! i \<Longrightarrow>
     \<exists>r ls'. lr_limits_loop slab now keys n rc excess ls = Some (r, ls') \<and>
       (case r of
          Some (m, rc, excess) \<Rightarrow> limits_left ls0 m rc ls'
        | None \<Rightarrow> length ls' = length ls0 \<and> (\<forall>i < length ls0. lr_free (lc_sh (ll_ctx (ls0 ! i))) (ls' ! i) \<and>
            uncharged (lc_sh (ll_ctx (ls0 ! i))) (lc_sh (ll_ctx (ls' ! i)))))"
proof (induction keys arbitrary: n rc excess ls)
  case Nil
  then show ?case by (auto simp: limits_left_def)
next
  case (Cons k keys)
  note prems = Cons.prems
  show ?case
  proof (cases k)
    case None
    have u: "length (ngx_http_limit_req_unlock n ls) = length ls"
      "\<forall>i < length ls. ngx_http_limit_req_unlock n ls ! i = (if i < n then lr_unlock_one (ls ! i) else ls ! i)"
      using unlock_nth[of n ls] prems(1,2) by auto
    have "lr_free (lc_sh (ll_ctx (ls0 ! i))) (ngx_http_limit_req_unlock n ls ! i) \<and>
        uncharged (lc_sh (ll_ctx (ls0 ! i))) (lc_sh (ll_ctx (ngx_http_limit_req_unlock n ls ! i)))" if "i < length ls0" for i
      using u(2) that prems(2,4,5) unlock_one assms(2) by auto
    then show ?thesis using None u(1) prems(2) by simp
  next
    case (Some key)
    show ?thesis
    proof (cases "key = [] \<or> 65535 < length key")
      case True
      have "lr_held (lc_sh (ll_ctx (ls0 ! n))) (ls ! n)" using prems(1,5) assms(2) lr_free_held by simp
      then have "\<forall>i < n + 1. lr_held (lc_sh (ll_ctx (ls0 ! i))) (ls ! i)" using prems(4) by (simp add: less_Suc_eq)
      then show ?thesis using Cons.IH[of "n + 1" ls rc excess] prems True Some by simp
    next
      case False
      have n: "n < length ls0" and same: "ls ! n = ls0 ! n" using prems(1,5) by simp_all
      let ?acc = "n = length ls - 1"
      have fr: "lr_free (lc_sh (ll_ctx (ls ! n))) (ls ! n)" and len: "length key \<le> 65535" using assms(2) n False by (simp_all add: same)
      from lookup_held[OF fr assms(1) len, of now "ucast (ngx_crc32_short key)" ?acc]
      obtain rc' ex' l' where l: "ngx_http_limit_req_lookup slab now (ls ! n) (ucast (ngx_crc32_short key)) key ?acc = Some (rc', ex', l')"
          "rc' \<in> (if ?acc then {NGX_OK, NGX_BUSY, NGX_ERROR} else {NGX_AGAIN, NGX_BUSY, NGX_ERROR})"
          "rc' = NGX_AGAIN \<longrightarrow> lr_held (lc_sh (ll_ctx (ls0 ! n))) l'" "rc' \<noteq> NGX_AGAIN \<longrightarrow> lr_free (lc_sh (ll_ctx (ls0 ! n))) l'"
          "rc' \<noteq> NGX_OK \<longrightarrow> uncharged (lc_sh (ll_ctx (ls0 ! n))) (lc_sh (ll_ctx l'))"
        unfolding same by blast
      let ?ls = "ls[n := l']"
      show ?thesis
      proof (cases "rc' = NGX_AGAIN")
        case True
        have "\<forall>i < n + 1. lr_held (lc_sh (ll_ctx (ls0 ! i))) (?ls ! i)" using prems(2,4) l(3) True n by (simp add: less_Suc_eq)
        moreover have "\<forall>i. n + 1 \<le> i \<longrightarrow> i < length ls0 \<longrightarrow> ?ls ! i = ls0 ! i" using prems(5) by simp
        ultimately show ?thesis using Cons.IH[of "n + 1" ?ls NGX_AGAIN ex'] prems(1,2) True l(1) Some False by simp
      next
        case no: False
        have rc: "rc' \<in> {NGX_OK, NGX_BUSY, NGX_ERROR}" using l(2) no by (auto split: if_splits)
        have "limits_left ls0 n rc' ?ls" unfolding limits_left_def
          using rc prems(2,4,5) l(4,5) no n by auto
        then show ?thesis using Some False l(1) no by simp
      qed
    qed
  qed
qed

text \<open>A refused request unlocks what it held, and one that passed is accounted.\<close>

lemma unlock_left:
  assumes "limits_left limits n rc ls" and "rc = NGX_BUSY \<or> rc = NGX_ERROR"
    and "\<forall>i < length limits. lr_free (lc_sh (ll_ctx (limits ! i))) (limits ! i)"
  shows "length (ngx_http_limit_req_unlock n ls) = length limits \<and>
     (\<forall>i < length limits. lr_free (lc_sh (ll_ctx (limits ! i))) (ngx_http_limit_req_unlock n ls ! i) \<and>
       uncharged (lc_sh (ll_ctx (limits ! i))) (lc_sh (ll_ctx (ngx_http_limit_req_unlock n ls ! i))))"
proof -
  let ?ls = "ngx_http_limit_req_unlock n ls"
  have u: "length ?ls = length limits" "\<forall>i < length limits. ?ls ! i = (if i < n then lr_unlock_one (ls ! i) else ls ! i)"
    using unlock_nth[of n ls] assms(1) by (auto simp: limits_left_def)
  have "lr_free (lc_sh (ll_ctx (limits ! i))) (?ls ! i) \<and> uncharged (lc_sh (ll_ctx (limits ! i))) (lc_sh (ll_ctx (?ls ! i)))"
    if i: "i < length limits" for i
  proof (cases i n rule: linorder_cases)
    case less
    then show ?thesis using u(2) i unlock_one assms(1) by (simp add: limits_left_def)
  next
    case equal
    then show ?thesis using u(2) i assms(1,2) by (auto simp: limits_left_def)
  next
    case greater
    then show ?thesis using u(2) i assms(1,3) by (simp add: limits_left_def)
  qed
  with u(1) show ?thesis by blast
qed

lemma account_left:
  assumes "limits_left limits n rc ls" and "\<forall>i < length limits. lr_free (lc_sh (ll_ctx (limits ! i))) (limits ! i)"
  shows "\<exists>md ep' li' ls'. ngx_http_limit_req_account now ls n ep li = (md, ep', li', ls') \<and> length ls' = length limits \<and>
     (\<forall>i < length limits. lr_free (lc_sh (ll_ctx (limits ! i))) (ls' ! i))"
proof -
  from account_nth[of n ls now "lr_delay (ls ! li) ep" ep li] assms(1) obtain md ep' li' ls' where
    a: "ngx_http_limit_req_account now ls n ep li = (md, ep', li', ls')" "length ls' = length limits"
      "\<forall>i < length limits. ls' ! i = (if i < n \<and> lc_node (ll_ctx (ls ! i)) \<noteq> NULL then snd (lr_account_one now (ls ! i)) else ls ! i)"
    by (auto simp: ngx_http_limit_req_account_def limits_left_def)
  have "lr_free (lc_sh (ll_ctx (limits ! i))) (ls' ! i)" if i: "i < length limits" for i
  proof (cases i n rule: linorder_cases)
    case less
    then have held: "lr_held (lc_sh (ll_ctx (limits ! i))) (ls ! i)" using assms(1) by (simp add: limits_left_def)
    show ?thesis
    proof (cases "lc_node (ll_ctx (ls ! i)) = NULL")
      case True
      then show ?thesis using a(3) i held by (simp add: lr_held_def lr_free_def Let_def)
    next
      case False
      then show ?thesis using a(3) i less account_one[OF held] by simp
    qed
  next
    case equal
    then show ?thesis using a(3) i assms(1) by (simp add: limits_left_def)
  next
    case greater
    then show ?thesis using a(3) i assms by (simp add: limits_left_def)
  qed
  with a(1,2) show ?thesis by blast
qed

section \<open>The properties\<close>

text \<open>C25: A lookup in the zone of a rate limit, with the tree, the queue and the eviction in memory, acts on a map from keys
  to leaky buckets: \<^verbatim>\<open>ngx_http_limit_req_lookup\<close> returns and leaves the zone in order; a key that is there
  has its bucket drained by the time that passed and filled by one request, and the request is refused without change when it
  overflows, charged, or locked; a key that is not there gets an empty bucket, for which at most unlocked nodes are dropped.\<close>

theorem limit_req_lookup_refines:
  assumes "zone_ok (lc_sh (ll_ctx limit))" and "slab_ok slab" and "length key \<le> 65535"
  shows "\<exists>rc excess ctx'. ngx_http_limit_req_lookup slab now limit hash key account = Some (rc, excess, limit\<lparr>ll_ctx := ctx'\<rparr>) \<and>
     zone_ok (lc_sh ctx') \<and>
     lookup_spec (lc_rate (ll_ctx limit)) (ll_burst limit) now account hash key (lc_sh (ll_ctx limit)) rc excess (lc_sh ctx') \<and>
     lookup_lock hash key rc (ll_ctx limit) ctx'"
  using assms by (rule lookup_ok)


text \<open>C27: A request leaves no lock behind: whatever the handler of the rate limits returns, for any number of limits, values of
  the keys that fail, refusals and a lack of memory, each zone is in order, no node is held, every key has as many
  locks as before, and a request that is refused or fails on a key charges no bucket.\<close>

theorem limit_req_balanced:
  assumes "\<forall>l \<in> set limits. zone_ok (lc_sh (ll_ctx l)) \<and> lc_node (ll_ctx l) = NULL" and "slab_ok slab" and "length keys = length limits"
  shows "\<exists>res st limits'. ngx_http_limit_req_handler slab ready dry_run now keys status limits = Some (res, st, limits') \<and>
     length limits' = length limits \<and>
     (\<forall>i < length limits. zone_ok (lc_sh (ll_ctx (limits' ! i))) \<and> lc_node (ll_ctx (limits' ! i)) = NULL \<and>
       zone_locks (lc_sh (ll_ctx (limits' ! i))) = zone_locks (lc_sh (ll_ctx (limits ! i))) \<and>
       (st = LR_UNSET \<or> st = LR_REJECTED \<or> st = LR_REJECTED_DRY_RUN \<longrightarrow>
          uncharged (lc_sh (ll_ctx (limits ! i))) (lc_sh (ll_ctx (limits' ! i)))))"
proof (cases "status = LR_UNSET")
  case False
  then show ?thesis using assms(1) by (simp add: ngx_http_limit_req_handler_def)
next
  case True
  have free: "\<forall>i < length limits. lr_free (lc_sh (ll_ctx (limits ! i))) (limits ! i)" using assms(1) by (simp add: lr_free_refl)
  from limits_loop[OF assms(2) free, of 0 keys limits NGX_DECLINED now 0] assms(3) obtain r ls where
    r: "lr_limits_loop slab now keys 0 NGX_DECLINED 0 limits = Some (r, ls)"
      "case r of Some (m, rc, excess) \<Rightarrow> limits_left limits m rc ls
       | None \<Rightarrow> length ls = length limits \<and> (\<forall>i < length limits. lr_free (lc_sh (ll_ctx (limits ! i))) (ls ! i) \<and>
            uncharged (lc_sh (ll_ctx (limits ! i))) (lc_sh (ll_ctx (ls ! i))))" by auto
  show ?thesis
  proof (cases r)
    case None
    then show ?thesis using r True by (simp add: ngx_http_limit_req_handler_def lr_free_def)
  next
    case (Some p)
    obtain n rc excess where p: "r = Some (n, rc, excess)" using Some by (cases p) auto
    have left: "limits_left limits n rc ls" using r(2) p by simp
    consider "rc = NGX_DECLINED" | "rc = NGX_BUSY \<or> rc = NGX_ERROR" | "rc = NGX_AGAIN \<or> rc = NGX_OK"
      using left by (auto simp: limits_left_def)
    then show ?thesis
    proof cases
      case 1
      then have "ls = limits" using left by (simp add: limits_left_def)
      then show ?thesis using 1 r(1) p True free by (simp add: ngx_http_limit_req_handler_def lr_free_def)
    next
      case 2
      then show ?thesis using unlock_left[OF left 2 free] r(1) p True
        by (cases dry_run) (auto simp: ngx_http_limit_req_handler_def Let_def lr_free_def)
    next
      case 3
      from account_left[OF left free, of now "if rc = NGX_AGAIN then 0 else excess" "if rc = NGX_AGAIN then length ls - 1 else n"]
      obtain md ep li ls' where
        a: "ngx_http_limit_req_account now ls n (if rc = NGX_AGAIN then 0 else excess) (if rc = NGX_AGAIN then length ls - 1 else n) = (md, ep, li, ls')"
          "length ls' = length limits" "\<forall>i < length limits. lr_free (lc_sh (ll_ctx (limits ! i))) (ls' ! i)" by blast
      have "\<exists>res st. ngx_http_limit_req_handler slab ready dry_run now keys status limits = Some (res, st, ls') \<and>
          st \<in> {LR_PASSED, LR_DELAYED, LR_DELAYED_DRY_RUN}"
        using 3 r(1) p True a(1) by (auto simp: ngx_http_limit_req_handler_def Let_def split: prod.splits)
      then show ?thesis using a(2,3) by (fastforce simp: lr_free_def)
    qed
  qed
qed

section \<open>A small zone\<close>

definition demo_zone :: lr_zone where
  "demo_zone = \<lparr> lz_root = 1, lz_sentinel = 9, lz_heap = demo_nodes, lz_queue = [2, 1],
     lz_node = (\<lambda>a. \<lparr> lr_len = 1, lr_last = 0, lr_excess = 0, lr_count = 0, lr_data = (if a = 1 then [97] else [98]) \<rparr>) \<rparr>"

definition demo_limit :: lr_limit where
  "demo_limit = \<lparr> ll_ctx = \<lparr> lc_sh = demo_zone, lc_rate = 1000, lc_node = NULL \<rparr>, ll_burst = 1000, ll_delay = 0 \<rparr>"

definition demo_slab :: "lr_zone \<Rightarrow> nat \<Rightarrow> addr option" where
  "demo_slab z n = (if 3 \<in> set (lz_queue z) \<or> lz_sentinel z = 3 then None else Some 3)"

lemma demo_slab_ok: "slab_ok demo_slab"
  by (auto simp: slab_ok_def demo_slab_def split: if_splits)

lemma demo_zone_ok: "zone_ok (lc_sh (ll_ctx demo_limit))"
proof (rule zone_okI[of _ "[1, 2]"])
  show "named_tree (zone_names (lz_node (lc_sh (ll_ctx demo_limit)))) (zone_lens (lz_node (lc_sh (ll_ctx demo_limit))))
      (lz_sentinel (lc_sh (ll_ctx demo_limit))) (lz_root (lc_sh (ll_ctx demo_limit))) (lz_heap (lc_sh (ll_ctx demo_limit))) [1, 2]"
    using demo_rbt by (simp add: named_tree_def demo_limit_def demo_zone_def name_rank_def names_fit_def zone_names_def zone_lens_def demo_nodes_def)
qed (auto simp: demo_limit_def demo_zone_def)

lemma demo_map: "zone_map (lc_sh (ll_ctx demo_limit)) (10, [97]) =
    Some \<lparr> lr_len = 1, lr_last = 0, lr_excess = 0, lr_count = 0, lr_data = [97] \<rparr>"
  by (simp add: zone_map_def zone_key_def demo_limit_def demo_zone_def name_rank_def zone_names_def demo_nodes_def)

lemma limit_req_lookup_refines_witness:
  "\<exists>excess limit'. ngx_http_limit_req_lookup demo_slab 500 demo_limit 10 [97] True = Some (NGX_OK, excess, limit') \<and>
     excess = 500 \<and> zone_ok (lc_sh (ll_ctx limit'))"
proof -
  from limit_req_lookup_refines[OF demo_zone_ok demo_slab_ok, of "[97]" 500 10 True] obtain rc excess ctx' where
    r: "ngx_http_limit_req_lookup demo_slab 500 demo_limit 10 [97] True = Some (rc, excess, demo_limit\<lparr>ll_ctx := ctx'\<rparr>)"
      "zone_ok (lc_sh ctx')" "lookup_spec (lc_rate (ll_ctx demo_limit)) (ll_burst demo_limit) 500 True 10 [97] (lc_sh (ll_ctx demo_limit)) rc excess (lc_sh ctx')"
    by auto
  have "excess = 500" "rc = NGX_OK"
    using r(3) demo_map by (simp_all add: lookup_spec_def Let_def lr_elapsed_def lr_excess_now_def demo_limit_def)
  then show ?thesis using r(1,2) by (intro exI[of _ excess] exI[of _ "demo_limit\<lparr>ll_ctx := ctx'\<rparr>"]) simp
qed


lemma limit_req_balanced_witness:
  "\<exists>res st limits'. ngx_http_limit_req_handler demo_slab True False 500 [Some [97], None] LR_UNSET [demo_limit, demo_limit] =
     Some (res, st, limits') \<and> lc_node (ll_ctx (limits' ! 0)) = NULL"
proof -
  have "\<forall>l \<in> set [demo_limit, demo_limit]. zone_ok (lc_sh (ll_ctx l)) \<and> lc_node (ll_ctx l) = NULL"
    using demo_zone_ok by (simp add: demo_limit_def)
  from limit_req_balanced[OF this demo_slab_ok, of "[Some [97], None]" True False 500 LR_UNSET] show ?thesis by auto
qed

end
