(* ===== verification/LimitConn.thy ===== *)
theory LimitConn
  imports RbKeyed NgxCrc32 "HOL-Library.Multiset"
begin

text \<open>
  The limit of the concurrent connections, \<^verbatim>\<open>src/http/modules/ngx_http_limit_conn_module.c\<close>. A shared zone counts, in a
  red-black tree, the requests in progress for every key; a request that is let through leaves a cleanup in
  its pool, which counts down when the pool is destroyed. The requests of all workers are put together in a
  step relation. The allocators of the zones and of the pools are parameters.
\<close>

section \<open>The state\<close>

record lk_node =
  lk_len :: nat
  lk_conn :: "16 word"
  lk_data :: bytes

text \<open>A zone, with the nodes that are allocated from it.\<close>

record lk_zone =
  lk_root :: addr
  lk_sentinel :: addr
  lk_heap :: rb_heap
  lk_node :: "addr \<Rightarrow> lk_node"
  lk_live :: "addr set"

record lk_limit =
  lk_zone :: lk_zone
  lk_limit_conn :: u64

datatype lk_status = LK_UNSET | LK_PASSED | LK_REJECTED | LK_REJECTED_DRY_RUN

datatype lk_result = LK_declined | LK_internal_error | LK_reject

text \<open>The cleanups of a pool, the one added last first: those of this module, with the number of the limit, and others.\<close>

datatype pool_cleanup = Limit_conn_cleanup nat addr | Other_cleanup nat

definition lk_names :: "(addr \<Rightarrow> lk_node) \<Rightarrow> addr \<Rightarrow> bytes" where
  "lk_names nodes a = lk_data (nodes a)"

definition lk_lens :: "(addr \<Rightarrow> lk_node) \<Rightarrow> addr \<Rightarrow> nat" where
  "lk_lens nodes a = lk_len (nodes a)"

section \<open>The code\<close>

definition ngx_http_limit_conn_rbtree_insert_value :: "(addr \<Rightarrow> lk_node) \<Rightarrow> addr \<Rightarrow> addr \<Rightarrow> addr \<Rightarrow> rb_heap \<Rightarrow> rb_heap option" where
  "ngx_http_limit_conn_rbtree_insert_value nodes = rb_insert_loop (name_below (lk_names nodes) (lk_lens nodes))"

definition ngx_http_limit_conn_lookup :: "lk_zone \<Rightarrow> bytes \<Rightarrow> u32 \<Rightarrow> addr option" where
  "ngx_http_limit_conn_lookup z key hash =
    rb_search (name_look (lk_names (lk_node z)) (lk_lens (lk_node z)) (ucast hash, key)) (lk_heap z) (lk_sentinel z) (lk_root z)"

text \<open>One limit under the lock of its zone: the node that counts the request, or none when it is refused.\<close>

definition lk_enter :: "(lk_zone \<Rightarrow> nat \<Rightarrow> addr option) \<Rightarrow> bytes \<Rightarrow> lk_limit \<Rightarrow> (addr option \<times> lk_limit) option" where
  "lk_enter slab key limit =
    (let z = lk_zone limit; hash = ngx_crc32_short key in
     case ngx_http_limit_conn_lookup z key hash of
       None \<Rightarrow> None
     | Some node \<Rightarrow>
         if node = NULL then
           case slab z (36 + length key) of
             None \<Rightarrow> Some (None, limit)
           | Some node \<Rightarrow>
               let nodes = (lk_node z)(node := \<lparr> lk_len = length key mod 256, lk_conn = 1, lk_data = key \<rparr>) in
               (case ngx_rbtree_insert (ngx_http_limit_conn_rbtree_insert_value nodes) (lk_sentinel z) node
                       (lk_root z, set_key node (ucast hash) (lk_heap z)) of
                  None \<Rightarrow> None
                | Some (root, h) \<Rightarrow>
                    Some (Some node, limit\<lparr>lk_zone := z\<lparr>lk_root := root, lk_heap := h, lk_node := nodes, lk_live := insert node (lk_live z)\<rparr>\<rparr>))
         else
           let lc = lk_node z node in
           if lk_limit_conn limit \<le> ucast (lk_conn lc) then Some (None, limit)
           else Some (Some node, limit\<lparr>lk_zone := z\<lparr>lk_node := (lk_node z)(node := lc\<lparr>lk_conn := lk_conn lc + 1\<rparr>)\<rparr>\<rparr>))"

definition ngx_http_limit_conn_cleanup :: "addr \<Rightarrow> lk_limit \<Rightarrow> lk_limit option" where
  "ngx_http_limit_conn_cleanup node limit =
    (let z = lk_zone limit; lc = lk_node z node; lc = lc\<lparr>lk_conn := lk_conn lc - 1\<rparr>;
         z = z\<lparr>lk_node := (lk_node z)(node := lc)\<rparr>
     in if lk_conn lc = 0 then
          case ngx_rbtree_delete (lk_sentinel z) node (lk_root z, lk_heap z) of
            None \<Rightarrow> None
          | Some (root, h) \<Rightarrow> Some (limit\<lparr>lk_zone := z\<lparr>lk_root := root, lk_heap := h, lk_live := lk_live z - {node}\<rparr>\<rparr>)
        else Some (limit\<lparr>lk_zone := z\<rparr>))"

fun ngx_http_limit_conn_cleanup_all :: "pool_cleanup list \<Rightarrow> lk_limit list \<Rightarrow> (pool_cleanup list \<times> lk_limit list) option" where
  "ngx_http_limit_conn_cleanup_all (Limit_conn_cleanup i node # cln) limits =
    (case ngx_http_limit_conn_cleanup node (limits ! i) of
       None \<Rightarrow> None
     | Some l \<Rightarrow> ngx_http_limit_conn_cleanup_all cln (limits[i := l]))"
| "ngx_http_limit_conn_cleanup_all cln limits = Some (cln, limits)"

text \<open>The handler, with the values of the keys, and whether a cleanup can be allocated for a limit.\<close>

fun lk_loop :: "(lk_zone \<Rightarrow> nat \<Rightarrow> addr option) \<Rightarrow> (nat \<Rightarrow> bool) \<Rightarrow> bool \<Rightarrow> bytes option list \<Rightarrow> nat \<Rightarrow> lk_status \<Rightarrow>
    lk_limit list \<Rightarrow> pool_cleanup list \<Rightarrow> (lk_result \<times> lk_status \<times> lk_limit list \<times> pool_cleanup list) option" where
  "lk_loop slab cln_ok dry_run [] i status limits pool = Some (LK_declined, status, limits, pool)"
| "lk_loop slab cln_ok dry_run (None # keys) i status limits pool = Some (LK_internal_error, status, limits, pool)"
| "lk_loop slab cln_ok dry_run (Some key # keys) i status limits pool =
    (if key = [] \<or> 255 < length key then lk_loop slab cln_ok dry_run keys (i + 1) status limits pool
     else case lk_enter slab key (limits ! i) of
            None \<Rightarrow> None
          | Some (None, l) \<Rightarrow>
              (case ngx_http_limit_conn_cleanup_all pool (limits[i := l]) of
                 None \<Rightarrow> None
               | Some (pool, limits) \<Rightarrow>
                   Some (if dry_run then (LK_declined, LK_REJECTED_DRY_RUN, limits, pool) else (LK_reject, LK_REJECTED, limits, pool)))
          | Some (Some node, l) \<Rightarrow>
              if cln_ok i then lk_loop slab cln_ok dry_run keys (i + 1) LK_PASSED (limits[i := l]) (Limit_conn_cleanup i node # pool)
              else Some (LK_internal_error, LK_PASSED, limits[i := l], pool))"

definition ngx_http_limit_conn_handler :: "(lk_zone \<Rightarrow> nat \<Rightarrow> addr option) \<Rightarrow> (nat \<Rightarrow> bool) \<Rightarrow> bool \<Rightarrow> bytes option list \<Rightarrow> lk_status \<Rightarrow>
    lk_limit list \<Rightarrow> pool_cleanup list \<Rightarrow> (lk_result \<times> lk_status \<times> lk_limit list \<times> pool_cleanup list) option" where
  "ngx_http_limit_conn_handler slab cln_ok dry_run keys status limits pool =
    (if status \<noteq> LK_UNSET then Some (LK_declined, status, limits, pool)
     else lk_loop slab cln_ok dry_run keys 0 LK_UNSET limits pool)"

text \<open>The destruction of a pool runs all its cleanups; the others do nothing to the zones.\<close>

fun lk_destroy_pool :: "pool_cleanup list \<Rightarrow> lk_limit list \<Rightarrow> lk_limit list option" where
  "lk_destroy_pool [] limits = Some limits"
| "lk_destroy_pool (Limit_conn_cleanup i node # cln) limits =
    (case ngx_http_limit_conn_cleanup node (limits ! i) of
       None \<Rightarrow> None
     | Some l \<Rightarrow> lk_destroy_pool cln (limits[i := l]))"
| "lk_destroy_pool (Other_cleanup n # cln) limits = lk_destroy_pool cln limits"

section \<open>Counting the requests\<close>

definition lk_zone_ok :: "lk_zone \<Rightarrow> bool" where
  "lk_zone_ok z \<longleftrightarrow> (\<exists>xs. set xs = lk_live z \<and>
     named_tree (lk_names (lk_node z)) (lk_lens (lk_node z)) (lk_sentinel z) (lk_root z) (lk_heap z) xs)"

definition lk_slab_ok :: "(lk_zone \<Rightarrow> nat \<Rightarrow> addr option) \<Rightarrow> bool" where
  "lk_slab_ok slab \<longleftrightarrow> (\<forall>z n a. slab z n = Some a \<longrightarrow> a \<notin> lk_live z \<and> a \<noteq> lk_sentinel z \<and> a \<noteq> NULL)"

text \<open>The cleanups that are pending in all the pools, as a multiset of limits and nodes.\<close>

fun lk_entry :: "pool_cleanup \<Rightarrow> (nat \<times> addr) multiset" where
  "lk_entry (Limit_conn_cleanup i a) = {#(i, a)#}"
| "lk_entry (Other_cleanup n) = {#}"

definition lk_entries :: "pool_cleanup list \<Rightarrow> (nat \<times> addr) multiset" where
  "lk_entries pool = sum_list (map lk_entry pool)"

lemma lk_entries_simps [simp]:
  "lk_entries [] = {#}" "lk_entries (c # pool) = lk_entry c + lk_entries pool"
  by (simp_all add: lk_entries_def)

definition lk_counts :: "nat \<Rightarrow> lk_limit \<Rightarrow> (nat \<times> addr) multiset \<Rightarrow> bool" where
  "lk_counts i l M \<longleftrightarrow> lk_zone_ok (lk_zone l) \<and> 1 \<le> uint (lk_limit_conn l) \<and> uint (lk_limit_conn l) \<le> 65535 \<and>
    (\<forall>a \<in> lk_live (lk_zone l). unat (lk_conn (lk_node (lk_zone l) a)) = count M (i, a) \<and>
       0 < count M (i, a) \<and> int (count M (i, a)) \<le> uint (lk_limit_conn l)) \<and>
    (\<forall>a. (i, a) \<in># M \<longrightarrow> a \<in> lk_live (lk_zone l))"

definition lk_inv :: "lk_limit list \<Rightarrow> (nat \<times> addr) multiset \<Rightarrow> bool" where
  "lk_inv limits M \<longleftrightarrow> (\<forall>i < length limits. lk_counts i (limits ! i) M) \<and> (\<forall>(i, a) \<in># M. i < length limits)"

text \<open>A change of one node that keeps its name, of the zone with a new node, and without a node.\<close>

lemma lk_zone_upd:
  assumes "lk_zone_ok z" and "lk_data n = lk_data (lk_node z a)" and "lk_len n = lk_len (lk_node z a)"
  shows "lk_zone_ok (z\<lparr>lk_node := (lk_node z)(a := n)\<rparr>)"
proof -
  have "lk_names ((lk_node z)(a := n)) = lk_names (lk_node z)" "lk_lens ((lk_node z)(a := n)) = lk_lens (lk_node z)"
    using assms(2,3) by (auto simp: lk_names_def lk_lens_def)
  then show ?thesis using assms(1) by (simp add: lk_zone_ok_def)
qed

lemma lk_enter_ok:
  assumes "lk_counts i l M" and "lk_slab_ok slab" and "length key \<le> 255"
  shows "\<exists>r l'. lk_enter slab key l = Some (r, l') \<and>
     (case r of None \<Rightarrow> l' = l | Some a \<Rightarrow> lk_counts i l' (add_mset (i, a) M))"
proof -
  let ?z = "lk_zone l" and ?hash = "ngx_crc32_short key"
  have ok: "lk_zone_ok ?z" using assms(1) by (simp add: lk_counts_def)
  then obtain xs where xs: "set xs = lk_live ?z"
    and t: "named_tree (lk_names (lk_node ?z)) (lk_lens (lk_node ?z)) (lk_sentinel ?z) (lk_root ?z) (lk_heap ?z) xs"
    by (auto simp: lk_zone_ok_def)
  from named_lookup[OF t, of "ucast ?hash" key] obtain r where
    r: "ngx_http_limit_conn_lookup ?z key ?hash = Some r"
      "r \<in> set xs \<and> rb_key (lk_heap ?z r) = ucast ?hash \<and> lk_names (lk_node ?z) r = key \<or>
        r = NULL \<and> (\<forall>a \<in> set xs. \<not> (rb_key (lk_heap ?z a) = ucast ?hash \<and> lk_names (lk_node ?z) a = key))"
    by (auto simp: ngx_http_limit_conn_lookup_def)
  show ?thesis
  proof (cases "r = NULL")
    case False
    then have live: "r \<in> lk_live ?z" using r(2) xs by simp
    let ?lc = "lk_node ?z r"
    show ?thesis
    proof (cases "lk_limit_conn l \<le> ucast (lk_conn ?lc)")
      case True
      then show ?thesis using r(1) False by (simp add: lk_enter_def Let_def)
    next
      case low: False
      let ?n = "?lc\<lparr>lk_conn := lk_conn ?lc + 1\<rparr>"
      let ?l = "l\<lparr>lk_zone := ?z\<lparr>lk_node := (lk_node ?z)(r := ?n)\<rparr>\<rparr>"
      have c: "unat (lk_conn ?lc) = count M (i, r)" using assms(1) live by (simp add: lk_counts_def)
      have up: "uint (ucast (lk_conn ?lc) :: u64) = uint (lk_conn ?lc)" by (rule uint_up_ucast) (simp add: is_up)
      have "uint (lk_conn ?lc) = int (count M (i, r))" unfolding c[symmetric] by simp
      then have lt: "int (count M (i, r)) < uint (lk_limit_conn l)" using low unfolding word_le_def up by linarith
      then have "unat (lk_conn ?lc) + 1 < 2 ^ 16" using assms(1) c by (simp add: lk_counts_def)
      then have "unat (lk_conn ?lc + 1) = count M (i, r) + 1" using c by (simp add: unat_word_ariths)
      moreover have "lk_zone_ok (lk_zone ?l)" using lk_zone_upd[OF ok, of ?n r] by simp
      ultimately have "lk_counts i ?l (add_mset (i, r) M)"
        using assms(1) lt live by (auto simp: lk_counts_def)
      then show ?thesis using r(1) False low by (simp add: lk_enter_def Let_def)
    qed
  next
    case True
    show ?thesis
    proof (cases "slab ?z (36 + length key)")
      case None
      then show ?thesis using r(1) True by (simp add: lk_enter_def Let_def)
    next
      case (Some node)
      have node: "node \<notin> set xs" "node \<noteq> lk_sentinel ?z" "node \<noteq> NULL" using assms(2) Some xs by (auto simp: lk_slab_ok_def)
      let ?nodes = "(lk_node ?z)(node := \<lparr> lk_len = length key mod 256, lk_conn = 1, lk_data = key \<rparr>)"
      have n: "lk_names ?nodes node = key" "lk_lens ?nodes node = length key" using assms(3) by (simp_all add: lk_names_def lk_lens_def)
      have same: "lk_names ?nodes b = lk_names (lk_node ?z) b \<and> lk_lens ?nodes b = lk_lens (lk_node ?z) b" if "b \<in> set xs" for b
        using that node(1) by (auto simp: lk_names_def lk_lens_def)
      have "NULL \<notin> set xs" using named_special[OF t] by blast
      then have new: "\<not> (rb_key (lk_heap ?z b) = ucast ?hash \<and> lk_names (lk_node ?z) b = key)" if "b \<in> set xs" for b
        using r(2) True that by blast
      from named_insert[OF t node n same new] obtain root' h' ys where
        ins: "ngx_rbtree_insert (rb_insert_loop (name_below (lk_names ?nodes) (lk_lens ?nodes))) (lk_sentinel ?z) node
            (lk_root ?z, set_key node (ucast ?hash) (lk_heap ?z)) = Some (root', h')"
          "named_tree (lk_names ?nodes) (lk_lens ?nodes) (lk_sentinel ?z) root' h' ys" "set ys = insert node (set xs)" by auto
      let ?l = "l\<lparr>lk_zone := ?z\<lparr>lk_root := root', lk_heap := h', lk_node := ?nodes, lk_live := insert node (lk_live ?z)\<rparr>\<rparr>"
      have "lk_zone_ok (lk_zone ?l)" unfolding lk_zone_ok_def using ins(2,3) xs by (intro exI[of _ ys]) simp
      moreover have "count M (i, node) = 0" using assms(1) node(1) xs by (auto simp: lk_counts_def not_in_iff)
      ultimately have "lk_counts i ?l (add_mset (i, node) M)"
        using assms(1) node(1) xs by (auto simp: lk_counts_def)
      moreover have "lk_enter slab key l = Some (Some node, ?l)"
        using r(1) True Some ins(1) by (simp add: lk_enter_def Let_def ngx_http_limit_conn_rbtree_insert_value_def)
      ultimately show ?thesis by simp
    qed
  qed
qed

text \<open>One cleanup less: the other nodes are as before.\<close>

lemma lk_counts_minus:
  assumes "lk_counts i l (add_mset (i, a) M)" and "lk_zone_ok (lk_zone l')" and "lk_limit_conn l' = lk_limit_conn l"
    and "\<And>b. b \<noteq> a \<Longrightarrow> lk_conn (lk_node (lk_zone l') b) = lk_conn (lk_node (lk_zone l) b)"
    and "lk_live (lk_zone l') = (if 0 < count M (i, a) then lk_live (lk_zone l) else lk_live (lk_zone l) - {a})"
    and "unat (lk_conn (lk_node (lk_zone l') a)) = count M (i, a)"
  shows "lk_counts i l' M"
  unfolding lk_counts_def
proof (intro conjI ballI allI impI)
  fix b assume b: "b \<in> lk_live (lk_zone l')"
  then have "b \<in> lk_live (lk_zone l)" and pos: "b = a \<Longrightarrow> 0 < count M (i, a)" using assms(5) by (auto split: if_splits)
  then have o: "unat (lk_conn (lk_node (lk_zone l) b)) = count (add_mset (i, a) M) (i, b)" "0 < count (add_mset (i, a) M) (i, b)"
      "int (count (add_mset (i, a) M) (i, b)) \<le> uint (lk_limit_conn l)"
    using assms(1) unfolding lk_counts_def by blast+
  show "unat (lk_conn (lk_node (lk_zone l') b)) = count M (i, b)" using o(1) assms(4)[of b] assms(6) by (cases "b = a") simp_all
  show "0 < count M (i, b)" using o(2) pos by (cases "b = a") simp_all
  show "int (count M (i, b)) \<le> uint (lk_limit_conn l')" using o(3) assms(3) by (cases "b = a") simp_all
next
  fix b assume b: "(i, b) \<in># M"
  then have "b \<in> lk_live (lk_zone l)" using assms(1) by (simp add: lk_counts_def)
  moreover have "0 < count M (i, a)" if "b = a" using b that by simp
  ultimately show "b \<in> lk_live (lk_zone l')" unfolding assms(5) by (cases "b = a") simp_all
qed (use assms(1,2,3) in \<open>simp_all add: lk_counts_def\<close>)

lemma lk_cleanup_ok:
  assumes "lk_counts i l (add_mset (i, a) M)"
  shows "\<exists>l'. ngx_http_limit_conn_cleanup a l = Some l' \<and> lk_counts i l' M"
proof -
  let ?z = "lk_zone l" and ?M = "add_mset (i, a) M"
  let ?n = "(lk_node ?z a)\<lparr>lk_conn := lk_conn (lk_node ?z a) - 1\<rparr>"
  let ?z1 = "?z\<lparr>lk_node := (lk_node ?z)(a := ?n)\<rparr>"
  have ok: "lk_zone_ok ?z" and live: "a \<in> lk_live ?z" using assms by (auto simp: lk_counts_def)
  have c: "unat (lk_conn (lk_node ?z a)) = count M (i, a) + 1" using assms live by (simp add: lk_counts_def)
  then have "lk_conn (lk_node ?z a) \<noteq> 0" by auto
  then have c1: "unat (lk_conn (lk_node ?z a) - 1) = count M (i, a)" using c by (simp add: unat_minus_one)
  have ok1: "lk_zone_ok ?z1" using lk_zone_upd[OF ok, of ?n a] by simp
  show ?thesis
  proof (cases "lk_conn (lk_node ?z a) - 1 = 0")
    case False
    let ?l = "l\<lparr>lk_zone := ?z1\<rparr>"
    have pos: "0 < count M (i, a)" using False c1 by (metis gr0I unsigned_eq_0_iff)
    have "lk_counts i ?l M" by (rule lk_counts_minus[OF assms]) (use ok1 c1 pos in simp_all)
    then show ?thesis using False by (simp add: ngx_http_limit_conn_cleanup_def Let_def)
  next
    case True
    then have z: "count M (i, a) = 0" using c1 by simp
    from ok1 obtain xs where xs: "set xs = lk_live ?z"
      and t: "named_tree (lk_names (lk_node ?z1)) (lk_lens (lk_node ?z1)) (lk_sentinel ?z) (lk_root ?z) (lk_heap ?z) xs"
      by (auto simp: lk_zone_ok_def)
    from named_delete[OF t, of a] live xs obtain root' h' where
      d: "ngx_rbtree_delete (lk_sentinel ?z) a (lk_root ?z, lk_heap ?z) = Some (root', h')"
        "named_tree (lk_names (lk_node ?z1)) (lk_lens (lk_node ?z1)) (lk_sentinel ?z) root' h' (remove1 a xs)"
        "set (remove1 a xs) = set xs - {a}" by auto
    let ?l = "l\<lparr>lk_zone := ?z1\<lparr>lk_root := root', lk_heap := h', lk_live := lk_live ?z - {a}\<rparr>\<rparr>"
    have "lk_zone_ok (lk_zone ?l)" unfolding lk_zone_ok_def using d(2,3) xs by (intro exI[of _ "remove1 a xs"]) simp
    then have "lk_counts i ?l M" by (intro lk_counts_minus[OF assms]) (use c1 z in simp_all)
    then show ?thesis using True d(1) by (simp add: ngx_http_limit_conn_cleanup_def Let_def)
  qed
qed

text \<open>The counts of one zone do not depend on the cleanups of the others.\<close>

lemma lk_counts_cong: "(\<And>a. count M (i, a) = count M' (i, a)) \<Longrightarrow> lk_counts i l M = lk_counts i l M'"
  unfolding lk_counts_def by (simp flip: count_greater_zero_iff)

lemma lk_inv_upd:
  assumes "lk_inv limits M" and "i < length limits" and "lk_counts i l M'" and "\<And>j a. j \<noteq> i \<Longrightarrow> count M' (j, a) = count M (j, a)"
  shows "lk_inv (limits[i := l]) M'"
proof -
  have "lk_counts j (limits[i := l] ! j) M'" if "j < length limits" for j
    using assms that lk_counts_cong[of M j M' "limits ! j"] by (cases "j = i") (simp_all add: lk_inv_def)
  moreover have "j < length limits" if "(j, a) \<in># M'" for j a
  proof (cases "j = i")
    case False
    then have "(j, a) \<in># M" using that assms(4)[of j a] by (metis not_in_iff)
    then show ?thesis using assms(1) by (auto simp: lk_inv_def)
  qed (simp add: assms(2))
  ultimately show ?thesis by (auto simp: lk_inv_def)
qed

lemma lk_cleanup_inv:
  assumes "lk_inv limits (add_mset (i, a) M)"
  shows "\<exists>l'. ngx_http_limit_conn_cleanup a (limits ! i) = Some l' \<and> lk_inv (limits[i := l']) M"
proof -
  have i: "i < length limits" "lk_counts i (limits ! i) (add_mset (i, a) M)" using assms by (auto simp: lk_inv_def)
  from lk_cleanup_ok[OF i(2)] obtain l' where l: "ngx_http_limit_conn_cleanup a (limits ! i) = Some l'" "lk_counts i l' M" by blast
  have "lk_inv (limits[i := l']) M" by (rule lk_inv_upd[OF assms i(1) l(2)]) simp
  with l(1) show ?thesis by blast
qed

lemma lk_enter_inv:
  assumes "lk_inv limits M" and "i < length limits" and "lk_slab_ok slab" and "length key \<le> 255"
  shows "\<exists>r l'. lk_enter slab key (limits ! i) = Some (r, l') \<and>
     (case r of None \<Rightarrow> limits[i := l'] = limits | Some a \<Rightarrow> lk_inv (limits[i := l']) (add_mset (i, a) M))"
proof -
  have "lk_counts i (limits ! i) M" using assms(1,2) by (simp add: lk_inv_def)
  from lk_enter_ok[OF this assms(3,4)] obtain r l' where
    r: "lk_enter slab key (limits ! i) = Some (r, l')" "case r of None \<Rightarrow> l' = limits ! i | Some a \<Rightarrow> lk_counts i l' (add_mset (i, a) M)"
    by blast
  show ?thesis
  proof (cases r)
    case None
    then show ?thesis using r by simp
  next
    case (Some a)
    then have "lk_inv (limits[i := l']) (add_mset (i, a) M)" using r(2) by (intro lk_inv_upd[OF assms(1,2)]) simp_all
    then show ?thesis using r(1) Some by simp
  qed
qed

lemma lk_destroy_inv:
  "lk_inv limits (lk_entries pool + M) \<Longrightarrow> \<exists>ls. lk_destroy_pool pool limits = Some ls \<and> lk_inv ls M \<and> length ls = length limits"
proof (induction pool arbitrary: limits)
  case (Cons c pool)
  show ?case
  proof (cases c)
    case (Limit_conn_cleanup i a)
    then have "lk_inv limits (add_mset (i, a) (lk_entries pool + M))" using Cons.prems by simp
    from lk_cleanup_inv[OF this] obtain l' where
      "ngx_http_limit_conn_cleanup a (limits ! i) = Some l'" "lk_inv (limits[i := l']) (lk_entries pool + M)" by blast
    then show ?thesis using Cons.IH Limit_conn_cleanup by fastforce
  next
    case (Other_cleanup n)
    then show ?thesis using Cons by simp
  qed
qed simp

lemma lk_cleanup_all_inv:
  "lk_inv limits (lk_entries pool + M) \<Longrightarrow>
     \<exists>pool' ls. ngx_http_limit_conn_cleanup_all pool limits = Some (pool', ls) \<and> lk_inv ls (lk_entries pool' + M) \<and>
       length ls = length limits \<and> (\<forall>i a p. pool' \<noteq> Limit_conn_cleanup i a # p)"
proof (induction pool arbitrary: limits)
  case (Cons c pool)
  show ?case
  proof (cases c)
    case (Limit_conn_cleanup i a)
    then have "lk_inv limits (add_mset (i, a) (lk_entries pool + M))" using Cons.prems by simp
    from lk_cleanup_inv[OF this] obtain l' where
      "ngx_http_limit_conn_cleanup a (limits ! i) = Some l'" "lk_inv (limits[i := l']) (lk_entries pool + M)" by blast
    then show ?thesis using Cons.IH Limit_conn_cleanup by fastforce
  next
    case (Other_cleanup n)
    then show ?thesis using Cons.prems by simp
  qed
qed simp

lemma lk_loop_inv:
  assumes "lk_slab_ok slab" and "\<forall>i. cln_ok i"
  shows "lk_inv limits (lk_entries pool + M) \<Longrightarrow> i + length keys \<le> length limits \<Longrightarrow>
     \<exists>res st ls pool'. lk_loop slab cln_ok dry_run keys i status limits pool = Some (res, st, ls, pool') \<and>
       lk_inv ls (lk_entries pool' + M) \<and> length ls = length limits"
proof (induction keys arbitrary: i status limits pool)
  case (Cons k keys)
  show ?case
  proof (cases k)
    case None
    then show ?thesis using Cons.prems by simp
  next
    case (Some key)
    show ?thesis
    proof (cases "key = [] \<or> 255 < length key")
      case True
      then show ?thesis using Cons.IH[of limits pool "i + 1" status] Cons.prems Some by simp
    next
      case False
      then have "length key \<le> 255" "i < length limits" using Cons.prems(2) by simp_all
      from lk_enter_inv[OF Cons.prems(1) this(2) assms(1) this(1)] obtain r l' where
        r: "lk_enter slab key (limits ! i) = Some (r, l')"
          "case r of None \<Rightarrow> limits[i := l'] = limits | Some a \<Rightarrow> lk_inv (limits[i := l']) (add_mset (i, a) (lk_entries pool + M))"
        by blast
      show ?thesis
      proof (cases r)
        case None
        then have same: "limits[i := l'] = limits" using r(2) by simp
        from lk_cleanup_all_inv[OF Cons.prems(1)] obtain pool' ls where
          c: "ngx_http_limit_conn_cleanup_all pool limits = Some (pool', ls)" "lk_inv ls (lk_entries pool' + M)" "length ls = length limits"
          by blast
        have "lk_loop slab cln_ok dry_run (k # keys) i status limits pool =
            Some (if dry_run then (LK_declined, LK_REJECTED_DRY_RUN, ls, pool') else (LK_reject, LK_REJECTED, ls, pool'))"
          using False Some r(1) None c(1) same by simp
        then show ?thesis using c(2,3) by (cases dry_run) simp_all
      next
        case (Some a)
        then have "lk_inv (limits[i := l']) (lk_entries (Limit_conn_cleanup i a # pool) + M)" using r(2) by simp
        from Cons.IH[OF this, of "i + 1" LK_PASSED] show ?thesis
          using \<open>k = Some key\<close> False r(1) Some assms(2) Cons.prems(2) by simp
      qed
    qed
  qed
qed simp

section \<open>All the requests\<close>

text \<open>
  The zones with the pools of the requests in progress. A request arrives, with any keys and any cleanups of other
  modules in its pool, goes through the handler and is put among the others; or one of them ends and its pool is destroyed.
\<close>

inductive lk_step :: "(lk_zone \<Rightarrow> nat \<Rightarrow> addr option) \<Rightarrow> lk_limit list \<times> pool_cleanup list list \<Rightarrow> lk_limit list \<times> pool_cleanup list list \<Rightarrow> bool"
  for slab where
  arrive: "length keys = length limits \<Longrightarrow> lk_entries others = {#} \<Longrightarrow>
    ngx_http_limit_conn_handler slab (\<lambda>i. True) dry_run keys LK_UNSET limits others = Some (res, st, limits', pool) \<Longrightarrow>
    lk_step slab (limits, pools) (limits', pool # pools)"
| finish: "i < length pools \<Longrightarrow> lk_destroy_pool (pools ! i) limits = Some limits' \<Longrightarrow>
    lk_step slab (limits, pools) (limits', take i pools @ drop (Suc i) pools)"

inductive lk_reachable :: "(lk_zone \<Rightarrow> nat \<Rightarrow> addr option) \<Rightarrow> lk_limit list \<Rightarrow> lk_limit list \<times> pool_cleanup list list \<Rightarrow> bool"
  for slab limits0 where
  start: "lk_reachable slab limits0 (limits0, [])"
| step: "lk_reachable slab limits0 s \<Longrightarrow> lk_step slab s s' \<Longrightarrow> lk_reachable slab limits0 s'"

inductive_cases lk_stepE: "lk_step slab (limits, pools) s'"

definition lk_pending :: "pool_cleanup list list \<Rightarrow> (nat \<times> addr) multiset" where
  "lk_pending pools = sum_list (map lk_entries pools)"

lemma lk_pending_split: "i < length pools \<Longrightarrow> lk_pending pools = lk_entries (pools ! i) + lk_pending (take i pools @ drop (Suc i) pools)"
  by (subst id_take_nth_drop[of i pools]) (simp_all add: lk_pending_def ac_simps)

text \<open>The zones as they are made, with an empty tree.\<close>

definition lk_fresh :: "lk_limit \<Rightarrow> bool" where
  "lk_fresh l \<longleftrightarrow> lk_live (lk_zone l) = {} \<and> lk_root (lk_zone l) = lk_sentinel (lk_zone l) \<and>
     \<not> rb_red (lk_heap (lk_zone l) (lk_sentinel (lk_zone l))) \<and> 1 \<le> uint (lk_limit_conn l) \<and> uint (lk_limit_conn l) \<le> 65535"

lemma lk_fresh_inv: "\<forall>l \<in> set limits. lk_fresh l \<Longrightarrow> lk_inv limits {#}"
proof -
  assume f: "\<forall>l \<in> set limits. lk_fresh l"
  have "lk_zone_ok (lk_zone l)" if "lk_fresh l" for l
    unfolding lk_zone_ok_def using that by (intro exI[of _ "[]"]) (simp add: lk_fresh_def named_empty)
  then show ?thesis using f by (simp add: lk_inv_def lk_counts_def lk_fresh_def)
qed

lemma lk_reachable_inv:
  assumes "lk_slab_ok slab" and "\<forall>l \<in> set limits0. lk_fresh l"
  shows "lk_reachable slab limits0 s \<Longrightarrow> lk_inv (fst s) (lk_pending (snd s))"
proof (induction rule: lk_reachable.induct)
  case start
  then show ?case using lk_fresh_inv[OF assms(2)] by (simp add: lk_pending_def)
next
  case (step s s')
  obtain limits pools where s: "s = (limits, pools)" by (rule prod.exhaust)
  have inv: "lk_inv limits (lk_pending pools)" using step.IH by (simp add: s)
  from step.hyps(2)[unfolded s] show ?case
  proof (rule lk_stepE)
    fix keys others dry_run res st limits' pool
    assume a: "s' = (limits', pool # pools)" "length keys = length limits" "lk_entries others = {#}"
      "ngx_http_limit_conn_handler slab (\<lambda>i. True) dry_run keys LK_UNSET limits others = Some (res, st, limits', pool)"
    have "lk_inv limits (lk_entries others + lk_pending pools)" using inv a(3) by simp
    from lk_loop_inv[OF assms(1) _ this, of "\<lambda>i. True" 0 keys dry_run LK_UNSET] a(2,4)
    have "lk_inv limits' (lk_entries pool + lk_pending pools)" by (auto simp: ngx_http_limit_conn_handler_def)
    then show ?thesis by (simp add: a(1) lk_pending_def)
  next
    fix i limits'
    assume a: "s' = (limits', take i pools @ drop (Suc i) pools)" "i < length pools" "lk_destroy_pool (pools ! i) limits = Some limits'"
    from lk_destroy_inv[of limits "pools ! i"] inv a(3) show ?thesis
      unfolding lk_pending_split[OF a(2)] by (auto simp: a(1))
  qed
qed

section \<open>The properties\<close>


text \<open>C29: The handler of the connection limits always returns, and so does the destruction of the pool of any request: in every
  reachable state, for any values of the keys, with a value that cannot be computed, a lack of memory in a zone and dry runs,
  the searches, insertions and removals in the trees come to an end.\<close>

theorem limit_conn_returns:
  assumes "lk_slab_ok slab" and "\<forall>l \<in> set limits0. lk_fresh l" and "lk_reachable slab limits0 (limits, pools)"
    and "length keys = length limits" and "lk_entries others = {#}"
  shows "(\<exists>res st limits' pool. ngx_http_limit_conn_handler slab (\<lambda>i. True) dry_run keys LK_UNSET limits others = Some (res, st, limits', pool)) \<and>
     (\<forall>i < length pools. \<exists>limits'. lk_destroy_pool (pools ! i) limits = Some limits')"
proof
  have inv: "lk_inv limits (lk_pending pools)" using lk_reachable_inv[OF assms(1,2,3)] by simp
  then have "lk_inv limits (lk_entries others + lk_pending pools)" using assms(5) by simp
  from lk_loop_inv[OF assms(1) _ this, of "\<lambda>i. True" 0 keys dry_run LK_UNSET] assms(4)
  show "\<exists>res st limits' pool. ngx_http_limit_conn_handler slab (\<lambda>i. True) dry_run keys LK_UNSET limits others = Some (res, st, limits', pool)"
    by (auto simp: ngx_http_limit_conn_handler_def)
  show "\<forall>i < length pools. \<exists>limits'. lk_destroy_pool (pools ! i) limits = Some limits'"
  proof (intro allI impI)
    fix i assume "i < length pools"
    from lk_destroy_inv[of limits "pools ! i"] inv show "\<exists>limits'. lk_destroy_pool (pools ! i) limits = Some limits'"
      unfolding lk_pending_split[OF \<open>i < length pools\<close>] by blast
  qed
qed

section \<open>A zone with one request\<close>

definition demo_conn_limit :: lk_limit where
  "demo_conn_limit = \<lparr> lk_zone = \<lparr> lk_root = 9, lk_sentinel = 9, lk_heap = demo_nodes,
     lk_node = (\<lambda>a. \<lparr> lk_len = 0, lk_conn = 0, lk_data = [] \<rparr>), lk_live = {} \<rparr>, lk_limit_conn = 1 \<rparr>"

definition demo_conn_slab :: "lk_zone \<Rightarrow> nat \<Rightarrow> addr option" where
  "demo_conn_slab z n = (if 3 \<in> lk_live z \<or> lk_sentinel z = 3 then None else Some 3)"

lemma demo_conn_ok: "lk_slab_ok demo_conn_slab" "\<forall>l \<in> set [demo_conn_limit]. lk_fresh l"
  by (auto simp: lk_slab_ok_def demo_conn_slab_def lk_fresh_def demo_conn_limit_def demo_nodes_def split: if_splits)



lemma limit_conn_returns_witness:
  "\<exists>res st limits' pool. ngx_http_limit_conn_handler demo_conn_slab (\<lambda>i. True) False [Some [97]] LK_UNSET [demo_conn_limit] [Other_cleanup 0] =
     Some (res, st, limits', pool)"
  using limit_conn_returns[OF demo_conn_ok lk_reachable.start, of "[Some [97]]" "[Other_cleanup 0]" False] by simp

end
