(* ===== verification/Spec2Isabelle.thy ===== *)
theory Spec2Isabelle
  imports HttpRequestLine HttpHeaderLine HttpUriCheck HttpChunkedBody NgxParse NgxPrintf NgxTime HttpRangeFilter
    UpstreamSystem UpstreamCheckSystem EventTimer LimitReq LimitConn
begin

text \<open>
  A model of the protocol core of the nginx that this repository builds: nginx 1.27.1 as it is bundled with OpenResty
  (its paths below are under \<^verbatim>\<open>src/sources/openresty-1.27.1.1/bundle/nginx-1.27.1/src\<close>) and the upstream check module
  (\<^verbatim>\<open>src/sources/nginx_upstream_check_module-0.4.0\<close>) that the build patches into its balancers.

  \<^bold>\<open>The program.\<close> A request's octets come in buffers. The parsers of \<^verbatim>\<open>http/ngx_http_parse.c\<close> read its request line, URI,
  header lines and chunked body, each a loop over the octets with a state that survives the end of the buffer. The
  limits of \<^verbatim>\<open>ngx_http_limit_req_module.c\<close> and \<^verbatim>\<open>ngx_http_limit_conn_module.c\<close> let the request pass or not, by counts in
  zones that the workers share. A balancer gives the request a peer of its upstream; what the health checks found out
  about the peer, in another shared zone, is part of the choice. The answer's status line is parsed again, by
  the upstream module and by the checks, and on its way to the client the range filter cuts out of the body what the
  request asked for. Under all this lie the string library, the red-black tree of
  \<^verbatim>\<open>core/ngx_rbtree.c\<close>, which holds the timers and the zones' nodes, and the timers, which call the checks' handlers.

  \<^bold>\<open>Theories and code.\<close>
  \<^item> Prelude: octets, the 64-bit integers of the amd64 build, ASCII constants, return codes, and the lemmas on lists and
    words that the components share. Scanner: the loop of a parser over a buffer, with the locale of the
    resumable parsers and its extension by an invariant.
  \<^item> HttpRequestLine (\<^verbatim>\<open>ngx_http_parse_request_line\<close>), HttpHeaderLine (\<^verbatim>\<open>ngx_http_parse_header_line\<close> and the hashes of
    \<^verbatim>\<open>core/ngx_hash.c\<close> it computes), HttpStatusLine (\<^verbatim>\<open>ngx_http_parse_status_line\<close> and the check module's own): a
    state of the C enum is a constructor, a branch of the switch a function named after it, a field of the request a
    field of the record, a pointer into the buffer an index. The properties: what is accepted has the shape the later
    phases rely on, a well-formed line gives back its parts, a line may be cut into buffers at will.
  \<^item> HttpUri, HttpUriPath, HttpUriCheck: \<^verbatim>\<open>ngx_http_parse_uri\<close>, \<^verbatim>\<open>ngx_http_parse_complex_uri\<close> and
    \<^verbatim>\<open>ngx_http_process_request_uri\<close>. The state machine that decodes, merges slashes and removes dot segments in place
    is compared with a reference on lists of segments; the path cannot leave the root.
  \<^item> HttpChunked, HttpChunkedBody: \<^verbatim>\<open>ngx_http_parse_chunked\<close> and \<^verbatim>\<open>ngx_http_request_body_chunked_filter\<close>, with the
    buffers that the filter overwrites while it reads them.
  \<^item> NgxString, NgxCodec, NgxParse: \<^verbatim>\<open>core/ngx_string.c\<close> (comparison, search, numbers; Base64, UTF-8, URI, HTML and JSON
    escaping) and \<^verbatim>\<open>core/ngx_parse.c\<close> (sizes and times). Readers of numbers are shown exact or failing, encoders
    to be undone by their decoders.
  \<^item> NgxPrintf: the printf family of \<^verbatim>\<open>core/ngx_string.c\<close> and \<^verbatim>\<open>ngx_utf8_cpystrn\<close>. Formats have types; with arguments of
    those types the output exists and fits, and numbers survive printing and reading.
  \<^item> NgxTime: \<^verbatim>\<open>core/ngx_parse_time.c\<close> and the calendar of \<^verbatim>\<open>core/ngx_times.c\<close>. Parsing reads no octet past the
    end and yields times in the range of the type; what the server prints is read back as the same second.
  \<^item> HttpRange, HttpRangeFilter: \<^verbatim>\<open>http/modules/ngx_http_range_filter_module.c\<close>, the parser of the Range header, then the header
    and the body filter on buffers in memory and in files. A list of ranges is answered as a reference on its intervals
    says; the octets that leave the body filter are those of the ranges and as many as the header filter announced.
  \<^item> RbTree (the code of \<^verbatim>\<open>core/ngx_rbtree.c\<close> on a heap of nodes, the parent pointers and the sentinel included),
    RbTreeInsert, RbTreeRemove, RbTreeDelete (each operation keeps the red-black tree and its list of nodes) and RbTreeOps
    (order, walk, depth). The locale of an order that insertion follows is interpreted for the plain
    keys and for the timers. RbKeyed: the trees by hash and name, of \<^verbatim>\<open>ngx_str_rbtree_insert_value\<close> and of the zones.
  \<^item> EventTimer: \<^verbatim>\<open>event/ngx_event_timer.c\<close>. NgxCrc32: the checksums and the murmur hash, the tables included.
  \<^item> LimitReq, LimitConn: the two limits on the pointer-level trees of their zones. LimitReq states the zone as a function
    from keys to buckets and refines it; LimitConn is a step relation of the requests of all workers.
  \<^item> UpstreamRR, UpstreamSystem: \<^verbatim>\<open>http/ngx_http_upstream_round_robin.c\<close> and the least-connections module; the first holds the
    code and the laws of a choice (locale \<open>peer_choice\<close>, interpreted for both balancers), the second the system
    of requests that take and release peers, and the fairness of the weights.
  \<^item> UpstreamCheck (records, parsers and handlers), UpstreamCheckInv (what a handler keeps), UpstreamCheckSystem (the
    workers and the shared records together): \<^verbatim>\<open>ngx_http_upstream_check_module.c\<close>. This theory puts the
    balancers and the checks together.

  \<^bold>\<open>Conventions.\<close> A loop whose end follows from a bound in the code is a function with its measure. A loop over pointers, where
  a corrupt heap could make it run for ever, and the loop over the timers, whose handlers are arbitrary, are
  partial functions into options; the properties show that a result exists for every well-formed state (the
  trees are finite; a handler that meets \<open>handler_keeps\<close> sets no timer into the past). There is no fuel. The
  null pointer that a handler of the checks would follow is the result None too, and the properties exclude it. Integers are
  machine words where the code lets them wrap (clocks, hashes, checksums, the keys of the trees), and natural
  numbers or integers where the code tests against overflow; then the tests are in the definitions and the bounds are proved.

  \<^bold>\<open>Parameters.\<close> What \<^verbatim>\<open>connect\<close>, \<^verbatim>\<open>send\<close>, \<^verbatim>\<open>recv\<close> and the arming of events answer (record \<open>check_io\<close>), the slab allocator of
  the shared zones, the allocation of a pool's cleanup and the allocations of the range filter (functions into options), the
  handlers of timers, the clocks. The assumptions on them are in the statements.

  \<^bold>\<open>Not modelled.\<close> The event loop and its kernel interfaces, processes and signals, the pools and the slab allocator, the
  configuration directives, logging, the phases of a request, the proxying of the upstream module, and the other modules that
  generate or filter bodies; HTTP/2, HTTP/3 and QUIC, the mail and
  stream modules, TLS. In the check module: the fastcgi check, a reload that changes the peers, and the status page. The Lua
  modules, the traffic status module and the vendored libraries (OpenSSL, PCRE2, zlib, LuaJIT) are third-party
  code that the build compiles in; they are not modelled because nothing in the modelled components depends on them.
\<close>

section \<open>The balancers and the health checks together\<close>




end
